(* ===== verification/Prelude.thy ===== *)
theory Prelude
  imports Main "HOL-Library.Word" "HOL-Library.Monad_Syntax"
begin

text \<open>
  What every component of the development shares: the machine integers of the code (an
  x86-64 build, so \<open>int\<close> is 32 bits and loads are little endian), the byte memory that its
  pointers walk over, C strings, and the generic lemmas on them.

  A pointer into a buffer is an index into a \<open>mem\<close>, the bytes the program may touch there. An
  access outside the buffer is undefined behaviour in the code and \<open>None\<close> here: \<open>rd8\<close>, \<open>rdn\<close>
  read, \<open>wr8\<close>, \<open>wrn\<close> write, and the option monad passes the failure on. An error return of
  the code (\<open>return -1\<close>) is never \<open>None\<close>: it is a value of the result.
\<close>

unbundle bit_operations_syntax

named_theorems mem_simps \<open>how reads and writes of a byte memory evaluate\<close>
named_theorems bits_simps \<open>the bits of the byte-level operations\<close>

section \<open>Machine integers\<close>

type_synonym u8 = "8 word"
type_synonym u16 = "16 word"
type_synonym u32 = "32 word"
type_synonym u64 = "64 word"

abbreviation INT_MAX :: int where "INT_MAX \<equiv> 2147483647"

lemma mask_8_const: "(0xff :: 'a::len word) = mask 8"
  by (simp add: mask_eq_exp_minus_1)

lemma mask_shift_consts:
  "(0xff00 :: 'a::len word) = push_bit 8 (mask 8)"
  "(0xff0000 :: 'a::len word) = push_bit 16 (mask 8)"
  "(0xff000000 :: 'a::len word) = push_bit 24 (mask 8)"
  "(0xff00000000 :: 'a::len word) = push_bit 32 (mask 8)"
  "(0xff0000000000 :: 'a::len word) = push_bit 40 (mask 8)"
  "(0xff000000000000 :: 'a::len word) = push_bit 48 (mask 8)"
  "(0xff00000000000000 :: 'a::len word) = push_bit 56 (mask 8)"
  by (simp_all add: mask_eq_exp_minus_1 push_bit_eq_mult)

lemmas mask_consts = mask_8_const mask_shift_consts

lemma unat_less_32: "unat (w :: 32 word) < 2 ^ 32"
  using unsigned_less[of w, where 'a = nat] by simp

lemma unat_of_len: "n < 2 ^ 32 \<Longrightarrow> unat (of_nat n :: u32) = n"
  by (simp add: unsigned_of_nat take_bit_nat_eq_self)

lemma sint_small: assumes "unat (w :: u32) < 2 ^ 31" shows "sint w = int (unat w)"
proof -
  have u: "uint w = int (unat w)" by simp
  have lt: "int (unat w) < int (2 ^ 31)" using assms by (simp only: of_nat_less_iff)
  have b: "uint w < 2 ^ 31" unfolding u using lt by (simp only: of_nat_power of_nat_numeral)
  have b0: "- (2 ^ 31) \<le> uint w" by (rule order_trans[of _ 0]) simp_all
  have "sint w = signed_take_bit 31 (uint w)" by (simp only: sint_uint) simp
  also have "\<dots> = uint w"
    by (rule signed_take_bit_int_eq_self[OF b0 b])
  finally show ?thesis unfolding u .
qed

lemma not_bit_unat_less:
  assumes "unat w < 2 ^ k" "k \<le> n"
  shows "\<not> bit (w :: 'a::len word) n"
proof -
  have "unat w < 2 ^ n"
    using assms by (meson less_le_trans one_le_numeral power_increasing)
  moreover have "unat (drop_bit n w) = unat w div 2 ^ n"
    by (rule trans [OF unat_drop_bit_eq drop_bit_eq_div])
  ultimately have "drop_bit n w = 0"
    by (simp add: unat_eq_zero[symmetric])
  then show ?thesis
    by (metis bit_0_eq bit_drop_bit_eq bot_apply bot_bool_def add.right_neutral comp_apply)
qed

lemma u8_eqI:
  assumes "bit a 0 = bit b 0" "bit a 1 = bit b 1" "bit a 2 = bit b 2" "bit a 3 = bit b 3"
    "bit a 4 = bit b 4" "bit a 5 = bit b 5" "bit a 6 = bit b 6" "bit a 7 = bit b 7"
  shows "a = (b :: u8)"
proof (rule bit_word_eqI)
  fix n assume "n < LENGTH(8)"
  then consider "n = 0" | "n = 1" | "n = 2" | "n = 3" | "n = 4" | "n = 5" | "n = 6" | "n = 7"
    by fastforce
  then show "bit a n = bit b n"
    using assms by cases simp_all
qed

section \<open>Byte memory\<close>

type_synonym mem = "u8 list"

definition rd8 :: "mem \<Rightarrow> nat \<Rightarrow> u8 option" where
  "rd8 m p = (if p < length m then Some (m ! p) else None)"

definition wr8 :: "mem \<Rightarrow> nat \<Rightarrow> u8 \<Rightarrow> mem option" where
  "wr8 m p b = (if p < length m then Some (m[p := b]) else None)"

definition rdn :: "mem \<Rightarrow> nat \<Rightarrow> nat \<Rightarrow> u8 list option" where
  "rdn m p n = (if p + n \<le> length m then Some (take n (drop p m)) else None)"

definition splice :: "'a list \<Rightarrow> nat \<Rightarrow> 'a list \<Rightarrow> 'a list" where
  "splice m p bs = take p m @ bs @ drop (p + length bs) m"

definition wrn :: "mem \<Rightarrow> nat \<Rightarrow> u8 list \<Rightarrow> mem option" where
  "wrn m p bs = (if p + length bs \<le> length m then Some (splice m p bs) else None)"

lemma splice_Nil [simp]: "splice m p [] = m"
  by (simp add: splice_def)

lemma length_splice [simp]:
  "p + length bs \<le> length m \<Longrightarrow> length (splice m p bs) = length m"
  by (simp add: splice_def)

lemma splice_Cons:
  "p < length m \<Longrightarrow> splice m p (b # bs) = (splice m (Suc p) bs)[p := b]"
  by (simp add: splice_def take_Suc_conv_app_nth list_update_append)

lemma splice_append:
  assumes "p + length a \<le> length m"
  shows "splice (splice m p a) (p + length a) b = splice m p (a @ b)"
proof (cases "a = []")
  case False
  with assms have "p < length m" by (cases a) auto
  with assms show ?thesis by (simp add: splice_def min_def ac_simps)
qed simp

lemma take_drop_splice [simp]:
  "p + length bs \<le> length m \<Longrightarrow> take (length bs) (drop p (splice m p bs)) = bs"
  by (simp add: splice_def)

lemma nth_splice_outside:
  assumes "p + length bs \<le> length m" "i < p \<or> p + length bs \<le> i" "i < length m"
  shows "splice m p bs ! i = m ! i"
  using assms by (auto simp: splice_def nth_append min_def)

lemma rd8_middle [mem_simps]: "rd8 (pre @ b # post) (length pre) = Some b"
  by (simp add: rd8_def)

lemma rd8_offset [mem_simps]:
  "rd8 (pre @ bs) (length pre + i) = rd8 bs i"
  by (simp add: rd8_def nth_append)

lemma rdn_middle [mem_simps]:
  "rdn (pre @ bs @ post) (length pre) (length bs) = Some bs"
  by (simp add: rdn_def)

lemma rdn_length: "rdn m p n = Some bs \<Longrightarrow> length bs = n"
  by (auto simp: rdn_def split: if_splits)

lemma wr8_Some: "p < length m \<Longrightarrow> wr8 m p b = Some (m[p := b])"
  by (simp add: wr8_def)

lemma split_at_splice:
  assumes "p + length bs \<le> length m"
  obtains pre post where "splice m p bs = pre @ bs @ post" "length pre = p"
    "pre = take p m" "post = drop (p + length bs) m"
  using assms that[of "take p m" "drop (p + length bs) m"] by (simp add: splice_def)

text \<open>\<open>holds m p bs\<close>: the bytes \<open>bs\<close> are in the memory at \<open>p\<close>.\<close>

definition holds :: "'a list \<Rightarrow> nat \<Rightarrow> 'a list \<Rightarrow> bool" where
  "holds m p bs \<longleftrightarrow> p + length bs \<le> length m \<and> take (length bs) (drop p m) = bs"

lemma holds_splice: "p + length bs \<le> length m \<Longrightarrow> holds (splice m p bs) p bs"
  by (simp add: holds_def)

lemma holds_middle: "holds (pre @ bs @ post) (length pre) bs"
  by (simp add: holds_def)

lemma holds_obtain:
  assumes "holds m p bs"
  obtains pre post where "m = pre @ bs @ post" "length pre = p"
proof
  show "m = take p m @ bs @ drop (p + length bs) m"
    using assms unfolding holds_def
    by (metis add.commute append_take_drop_id drop_drop)
  show "length (take p m) = p"
    using assms by (simp add: holds_def)
qed

lemma holds_append [mem_simps]:
  "holds m p (a @ b) \<longleftrightarrow> holds m p a \<and> holds m (p + length a) b"
proof
  assume "holds m p (a @ b)"
  then obtain pre post where "m = pre @ (a @ b) @ post" "length pre = p"
    by (rule holds_obtain)
  then show "holds m p a \<and> holds m (p + length a) b"
    using holds_middle[of pre a "b @ post"] holds_middle[of "pre @ a" b post] by simp
next
  assume "holds m p a \<and> holds m (p + length a) b"
  then show "holds m p (a @ b)"
    unfolding holds_def by (auto simp: take_add drop_drop add.commute)
qed

lemma holds_Nil [mem_simps]: "holds m p [] \<longleftrightarrow> p \<le> length m"
  by (simp add: holds_def)

lemma holds_single: "holds m p [b] \<longleftrightarrow> rd8 m p = Some b"
  by (auto simp: holds_def rd8_def take_Suc_conv_app_nth hd_drop_conv_nth)

lemma holds_Cons [mem_simps]:
  "holds m p (b # bs) \<longleftrightarrow> rd8 m p = Some b \<and> holds m (Suc p) bs"
  using holds_append[of m p "[b]" bs] by (simp add: holds_single)

section \<open>C strings\<close>

text \<open>
  A buffer read as a C string is its bytes before the first NUL; \<open>strlen\<close> is undefined where
  the buffer holds no NUL.
\<close>

definition cstr :: "u8 list \<Rightarrow> u8 list" where
  "cstr bs = takeWhile (\<lambda>b. b \<noteq> 0) bs"

lemma cstr_append_nul [simp]: "0 \<notin> set s \<Longrightarrow> cstr (s @ 0 # t) = s"
  unfolding cstr_def by (subst takeWhile_append2) auto

lemma nul_notin_cstr [simp]: "0 \<notin> set (cstr bs)"
  unfolding cstr_def by (auto dest: set_takeWhileD)

lemma length_cstr: "length (cstr bs) \<le> length bs"
  by (simp add: cstr_def length_takeWhile_le)

lemma cstr_id: "0 \<notin> set s \<Longrightarrow> cstr s = s"
  by (induction s) (auto simp: cstr_def)

text \<open>The bytes of a text.\<close>

definition ascii :: "string \<Rightarrow> u8 list" where
  "ascii s = map of_char s"

lemma length_ascii [simp]: "length (ascii s) = length s"
  by (simp add: ascii_def)

section \<open>Options and lists\<close>

lemma bind_eq_Some: "(x \<bind> f) = Some y \<longleftrightarrow> (\<exists>z. x = Some z \<and> f z = Some y)"
  by (cases x) auto

lemma take_prefix_eq: "take n xs = ys \<Longrightarrow> n \<le> length xs \<Longrightarrow> xs = ys @ drop n xs"
  by (metis append_take_drop_id)

text \<open>A loop over a list whose body may fail.\<close>

fun foldo :: "('s \<Rightarrow> 'a \<Rightarrow> 's option) \<Rightarrow> 's \<Rightarrow> 'a list \<Rightarrow> 's option" where
  "foldo f s [] = Some s"
| "foldo f s (x # xs) = do { s \<leftarrow> f s x; foldo f s xs }"

lemma foldo_append: "foldo f s (xs @ ys) = do { s \<leftarrow> foldo f s xs; foldo f s ys }"
  by (induction xs arbitrary: s) (auto split: Option.bind_split)

section \<open>Outcomes\<close>

text \<open>
  The outcome of code that may block: it returns, it waits (at a semaphore, or for an answer of the
  system that has not come), it does something undefined, or (for a loop run with fuel) it is not
  done yet.
\<close>

datatype 'a run = Done 'a | Waits | Undefined | Unfinished

definition run_option :: "'a option \<Rightarrow> 'a run" where
  "run_option x = (case x of None \<Rightarrow> Undefined | Some a \<Rightarrow> Done a)"

fun andthen :: "'a run \<Rightarrow> ('a \<Rightarrow> 'b run) \<Rightarrow> 'b run" where
  "andthen (Done a) f = f a"
| "andthen Waits f = Waits"
| "andthen Undefined f = Undefined"
| "andthen Unfinished f = Unfinished"

lemma andthen_Done: "andthen r f = Done b \<longleftrightarrow> (\<exists>a. r = Done a \<and> f a = Done b)"
  by (cases r) auto

lemma andthen_cong [fundef_cong]: "r = r' \<Longrightarrow> (\<And>a. r' = Done a \<Longrightarrow> f a = f' a) \<Longrightarrow> andthen r f = andthen r' f'"
  by (cases r') auto

end
