(* ===== verification/ByteOrder.thy ===== *)
theory ByteOrder
  imports Prelude
begin

text \<open>
  Byte order: the byte swapping macros of \<open>src/src/xutil/xmacro.h\<close>, the big endian writers
  \<open>put_be16\<close> .. \<open>put_be64\<close> and the tag mask of \<open>src/src/xutil/xutil.cc\<close>, over the byte memory
  of Prelude. The locale \<open>wire_codec\<close> is the contract the serialisers rely on: a writer
  that overruns exactly when the buffer is too small, and a reader that inverts it.
\<close>

section \<open>Loads and byte swaps\<close>

text \<open>\<open>*(uint16_t *) p\<close> and its wider siblings: little endian loads of the host.\<close>

definition le16 :: "u8 \<Rightarrow> u8 \<Rightarrow> u16" where
  "le16 a b = ucast a OR push_bit 8 (ucast b)"

definition le32 :: "u8 \<Rightarrow> u8 \<Rightarrow> u8 \<Rightarrow> u8 \<Rightarrow> u32" where
  "le32 a b c d =
     ucast a OR push_bit 8 (ucast b) OR push_bit 16 (ucast c) OR push_bit 24 (ucast d)"

definition le64 :: "u32 \<Rightarrow> u32 \<Rightarrow> u64" where
  "le64 lo hi = ucast lo OR push_bit 32 (ucast hi)"

definition ld16 :: "mem \<Rightarrow> nat \<Rightarrow> u16 option" where
  "ld16 m p = do { a \<leftarrow> rd8 m p; b \<leftarrow> rd8 m (p + 1); Some (le16 a b) }"

definition ld32 :: "mem \<Rightarrow> nat \<Rightarrow> u32 option" where
  "ld32 m p = do { a \<leftarrow> rd8 m p; b \<leftarrow> rd8 m (p + 1);
     c \<leftarrow> rd8 m (p + 2); d \<leftarrow> rd8 m (p + 3); Some (le32 a b c d) }"

definition ld64 :: "mem \<Rightarrow> nat \<Rightarrow> u64 option" where
  "ld64 m p = do { lo \<leftarrow> ld32 m p; hi \<leftarrow> ld32 m (p + 4); Some (le64 lo hi) }"

text \<open>\<open>htons\<close>, \<open>htonl\<close> of the C library; \<open>htonll\<close> is the macro of xmacro.h.\<close>

definition htons :: "u16 \<Rightarrow> u16" where
  "htons x = push_bit 8 x OR drop_bit 8 x"

definition htonl :: "u32 \<Rightarrow> u32" where
  "htonl x = push_bit 24 (x AND 0xff) OR push_bit 8 (x AND 0xff00)
     OR drop_bit 8 (x AND 0xff0000) OR drop_bit 24 (x AND 0xff000000)"

definition htonll :: "u64 \<Rightarrow> u64" where
  "htonll x =
     drop_bit 56 (x AND 0xff00000000000000) OR
     drop_bit 40 (x AND 0x00ff000000000000) OR
     drop_bit 24 (x AND 0x0000ff0000000000) OR
     drop_bit 8 (x AND 0x000000ff00000000) OR
     push_bit 8 (x AND 0x00000000ff000000) OR
     push_bit 24 (x AND 0x0000000000ff0000) OR
     push_bit 40 (x AND 0x000000000000ff00) OR
     push_bit 56 (x AND 0x00000000000000ff)"

definition ENTOHS :: "u16 \<Rightarrow> u16" where "ENTOHS x = htons x"
definition ENTOHL :: "u32 \<Rightarrow> u32" where "ENTOHL x = htonl x"
definition ENTOHLL :: "u64 \<Rightarrow> u64" where "ENTOHLL x = htonll x"

text \<open>\<open>ENTOH24(p)\<close> and \<open>VALUI24(x)\<close> read three bytes, big and little endian.\<close>

definition ENTOH24 :: "mem \<Rightarrow> nat \<Rightarrow> u32 option" where
  "ENTOH24 m p = do { a \<leftarrow> rd8 m p; b \<leftarrow> rd8 m (p + 1); c \<leftarrow> rd8 m (p + 2);
     Some (push_bit 16 (ucast a) + push_bit 8 (ucast b) + ucast c) }"

definition VALUI24 :: "mem \<Rightarrow> nat \<Rightarrow> u32 option" where
  "VALUI24 m p = do { a \<leftarrow> rd8 m p; b \<leftarrow> rd8 m (p + 1); c \<leftarrow> rd8 m (p + 2);
     Some (push_bit 16 (ucast c) + push_bit 8 (ucast b) + ucast a) }"

definition INITUI24 :: "u32 \<Rightarrow> u8 list" where
  "INITUI24 val = [ucast (val AND 0xFF), ucast (drop_bit 8 (val AND 0xFF00)),
     ucast (drop_bit 16 (val AND 0xFF0000))]"

lemma bit_le16 [bits_simps]:
  "bit (le16 a b) n \<longleftrightarrow> (if n < 8 then bit a n else n < 16 \<and> bit b (n - 8))"
  by (auto simp: le16_def bit_simps dest: bit_imp_le_length)

lemma bit_le32 [bits_simps]:
  "bit (le32 a b c d) n \<longleftrightarrow>
   (if n < 8 then bit a n else if n < 16 then bit b (n - 8)
    else if n < 24 then bit c (n - 16) else n < 32 \<and> bit d (n - 24))"
proof -
  consider "n < 8" | "8 \<le> n" "n < 16" | "16 \<le> n" "n < 24" | "24 \<le> n" "n < 32" | "32 \<le> n"
    by linarith
  then show ?thesis
    by cases (auto simp: le32_def bit_simps dest: bit_imp_le_length)
qed

lemma bit_le64 [bits_simps]:
  "bit (le64 lo hi) n \<longleftrightarrow> (if n < 32 then bit lo n else n < 64 \<and> bit hi (n - 32))"
  by (auto simp: le64_def bit_simps dest: bit_imp_le_length)

lemma bit_htons [bits_simps]:
  "bit (htons x) n \<longleftrightarrow> (if n < 8 then bit x (n + 8) else n < 16 \<and> bit x (n - 8))"
  by (auto simp: htons_def bit_simps add.commute dest: bit_imp_le_length)

lemma bit_htonl [bits_simps]:
  "bit (htonl x) n \<longleftrightarrow>
   (if n < 8 then bit x (n + 24) else if n < 16 then bit x (n + 8)
    else if n < 24 then bit x (n - 8) else n < 32 \<and> bit x (n - 24))"
proof -
  consider "n < 8" | "8 \<le> n" "n < 16" | "16 \<le> n" "n < 24" | "24 \<le> n" "n < 32" | "32 \<le> n"
    by linarith
  then show ?thesis
    by cases (auto simp: htonl_def mask_consts bit_simps add.commute dest: bit_imp_le_length)
qed

lemma bit_byte_down:
  "bit (drop_bit k (x AND push_bit j (mask 8)) :: 'a::len word) n \<longleftrightarrow>
   j \<le> n + k \<and> n + k < j + 8 \<and> bit x (n + k)"
  by (auto simp: bit_simps add.commute dest: bit_imp_le_length)

lemma bit_byte_up:
  "bit (push_bit k (x AND push_bit j (mask 8)) :: 'a::len word) n \<longleftrightarrow>
   k + j \<le> n \<and> n < k + j + 8 \<and> n < LENGTH('a) \<and> bit x (n - k)"
  by (auto simp: bit_simps dest: bit_imp_le_length)

lemma bit_byte_up0:
  "bit (push_bit k (x AND mask 8) :: 'a::len word) n \<longleftrightarrow>
   k \<le> n \<and> n < k + 8 \<and> n < LENGTH('a) \<and> bit x (n - k)"
  using bit_byte_up[of k x 0 n] by simp

lemma bit_htonll [bits_simps]:
  "bit (htonll x) n \<longleftrightarrow>
   (if n < 8 then bit x (n + 56) else if n < 16 then bit x (n + 40)
    else if n < 24 then bit x (n + 24) else if n < 32 then bit x (n + 8)
    else if n < 40 then bit x (n - 8) else if n < 48 then bit x (n - 24)
    else if n < 56 then bit x (n - 40) else n < 64 \<and> bit x (n - 56))"
  unfolding htonll_def mask_consts bit_or_iff bit_byte_down bit_byte_up bit_byte_up0
  by (simp split: if_split) linarith?

text \<open>Each swap is its own inverse: \<open>ntohl\<close> is \<open>htonl\<close>.\<close>

lemma htons_htons [simp]: "htons (htons x) = x"
  by (rule bit_word_eqI) (auto simp: bits_simps)

lemma htonl_htonl [simp]: "htonl (htonl x) = x"
  by (rule bit_word_eqI) (auto simp: bits_simps)

lemma htonll_htonll [simp]: "htonll (htonll x) = x"
proof (rule bit_word_eqI)
  fix n assume "n < LENGTH(64)"
  then consider "n < 8" | "8 \<le> n" "n < 16" | "16 \<le> n" "n < 24" | "24 \<le> n" "n < 32"
    | "32 \<le> n" "n < 40" | "40 \<le> n" "n < 48" | "48 \<le> n" "n < 56" | "56 \<le> n" "n < 64"
    by fastforce
  then show "bit (htonll (htonll x)) n = bit x n"
    by cases (auto simp: bits_simps)
qed

section \<open>Big endian writers\<close>

text \<open>
  \<open>put_be16\<close>, \<open>put_be24\<close>, \<open>put_be32\<close>, \<open>put_be64\<close> of xutil.cc: they store byte by byte, the last
  byte first, and return the pointer past what they wrote.
\<close>

definition put_be16 :: "mem \<Rightarrow> nat \<Rightarrow> u16 \<Rightarrow> (mem \<times> nat) option" where
  "put_be16 m p val = do {
     m \<leftarrow> wr8 m (p + 1) (ucast (val AND 0xff));
     m \<leftarrow> wr8 m p (ucast (drop_bit 8 val));
     Some (m, p + 2) }"

definition put_be24 :: "mem \<Rightarrow> nat \<Rightarrow> u32 \<Rightarrow> (mem \<times> nat) option" where
  "put_be24 m p val = do {
     m \<leftarrow> wr8 m (p + 2) (ucast (val AND 0xff));
     m \<leftarrow> wr8 m (p + 1) (ucast (drop_bit 8 val));
     m \<leftarrow> wr8 m p (ucast (drop_bit 16 val));
     Some (m, p + 3) }"

definition put_be32 :: "mem \<Rightarrow> nat \<Rightarrow> u32 \<Rightarrow> (mem \<times> nat) option" where
  "put_be32 m p val = do {
     m \<leftarrow> wr8 m (p + 3) (ucast (val AND 0xff));
     m \<leftarrow> wr8 m (p + 2) (ucast (drop_bit 8 val));
     m \<leftarrow> wr8 m (p + 1) (ucast (drop_bit 16 val));
     m \<leftarrow> wr8 m p (ucast (drop_bit 24 val));
     Some (m, p + 4) }"

definition put_be64 :: "mem \<Rightarrow> nat \<Rightarrow> u64 \<Rightarrow> (mem \<times> nat) option" where
  "put_be64 m p val = do {
     (m, p) \<leftarrow> put_be32 m p (ucast (drop_bit 32 val));
     (m, p) \<leftarrow> put_be32 m p (ucast val);
     Some (m, p) }"

text \<open>The readers the serialisers use: a host load, a swap, and the pointer moved.\<close>

definition get_be16 :: "mem \<Rightarrow> nat \<Rightarrow> (u16 \<times> nat) option" where
  "get_be16 m p = do { x \<leftarrow> ld16 m p; Some (ENTOHS x, p + 2) }"

definition get_be24 :: "mem \<Rightarrow> nat \<Rightarrow> (u32 \<times> nat) option" where
  "get_be24 m p = do { x \<leftarrow> ENTOH24 m p; Some (x, p + 3) }"

definition get_be32 :: "mem \<Rightarrow> nat \<Rightarrow> (u32 \<times> nat) option" where
  "get_be32 m p = do { x \<leftarrow> ld32 m p; Some (ENTOHL x, p + 4) }"

definition get_be64 :: "mem \<Rightarrow> nat \<Rightarrow> (u64 \<times> nat) option" where
  "get_be64 m p = do { x \<leftarrow> ld64 m p; Some (ENTOHLL x, p + 8) }"

section \<open>The contract of a wire format\<close>

text \<open>The bytes a value is on the wire, most significant first.\<close>

definition be16 :: "u16 \<Rightarrow> u8 list" where
  "be16 v = [ucast (drop_bit 8 v), ucast v]"

definition be24 :: "u32 \<Rightarrow> u8 list" where
  "be24 v = [ucast (drop_bit 16 v), ucast (drop_bit 8 v), ucast v]"

definition be32 :: "u32 \<Rightarrow> u8 list" where
  "be32 v = [ucast (drop_bit 24 v), ucast (drop_bit 16 v), ucast (drop_bit 8 v), ucast v]"

definition be64 :: "u64 \<Rightarrow> u8 list" where
  "be64 v = be32 (ucast (drop_bit 32 v)) @ be32 (ucast v)"

lemma length_be [simp]:
  "length (be16 a) = 2" "length (be24 b) = 3" "length (be32 b) = 4" "length (be64 c) = 8"
  by (simp_all add: be16_def be24_def be32_def be64_def)

locale wire_codec =
  fixes enc :: "'a \<Rightarrow> u8 list"
    and ok :: "'a \<Rightarrow> bool"
    and put :: "mem \<Rightarrow> nat \<Rightarrow> 'a \<Rightarrow> (mem \<times> nat) option"
    and get :: "mem \<Rightarrow> nat \<Rightarrow> ('a \<times> nat) option"
  assumes put_enc: "put m p x =
      (if p + length (enc x) \<le> length m
       then Some (splice m p (enc x), p + length (enc x)) else None)"
    and get_enc: "ok x \<Longrightarrow>
      get (pre @ enc x @ post) (length pre) = Some (x, length pre + length (enc x))"
begin

lemma put_Some: "put m p x = Some (m', q) \<longleftrightarrow>
    p + length (enc x) \<le> length m \<and> m' = splice m p (enc x) \<and> q = p + length (enc x)"
  by (auto simp: put_enc)

lemma put_overrun: "put m p x = None \<longleftrightarrow> length m < p + length (enc x)"
  by (auto simp: put_enc)

lemma get_put: "ok x \<Longrightarrow> put m p x = Some (m', q) \<Longrightarrow> get m' p = Some (x, q)"
proof -
  assume ok: "ok x" and "put m p x = Some (m', q)"
  then have len: "p + length (enc x) \<le> length m" and m': "m' = splice m p (enc x)"
    and q: "q = p + length (enc x)"
    by (auto simp: put_Some)
  from len obtain pre post where "m' = pre @ enc x @ post" "length pre = p"
    unfolding m' by (rule split_at_splice)
  with get_enc[OF ok, of pre post] q show ?thesis by simp
qed

lemma get_holds: "ok x \<Longrightarrow> holds m p (enc x) \<Longrightarrow> get m p = Some (x, p + length (enc x))"
  by (erule holds_obtain) (auto simp: get_enc)

lemma put_holds: "put m p x = Some (m', q) \<Longrightarrow> holds m' p (enc x)"
  by (auto simp: put_Some holds_splice)

lemma put_frame: "put m p x = Some (m', q) \<Longrightarrow> i < p \<or> q \<le> i \<Longrightarrow> i < length m \<Longrightarrow> m' ! i = m ! i"
  by (auto simp: put_Some nth_splice_outside)

lemma put_length: "put m p x = Some (m', q) \<Longrightarrow> length m' = length m \<and> p \<le> q \<and> q \<le> length m"
  by (auto simp: put_Some)

end

lemma ucast_mask_8 [simp]: "(ucast (v AND 0xff) :: u8) = ucast (v :: 'a::len word)"
  by (rule bit_word_eqI) (auto simp: mask_8_const bit_simps dest: bit_imp_le_length)

lemma swap_le16: "ENTOHS (le16 (ucast (drop_bit 8 v)) (ucast v)) = v"
  by (rule bit_word_eqI) (auto simp: ENTOHS_def bits_simps bit_simps)

lemma swap_le32:
  "ENTOHL (le32 (ucast (drop_bit 24 v)) (ucast (drop_bit 16 v)) (ucast (drop_bit 8 v)) (ucast v)) = v"
proof (rule bit_word_eqI)
  fix n assume "n < LENGTH(32)"
  then consider "n < 8" | "8 \<le> n" "n < 16" | "16 \<le> n" "n < 24" | "24 \<le> n" "n < 32"
    by fastforce
  then show "bit (ENTOHL (le32 (ucast (drop_bit 24 v)) (ucast (drop_bit 16 v))
      (ucast (drop_bit 8 v)) (ucast v))) n = bit v n"
    by cases (auto simp: ENTOHL_def bits_simps bit_simps)
qed

lemma swap_le64: "ENTOHLL (le64 (htonl (ucast (drop_bit 32 v))) (htonl (ucast v))) = v"
proof (rule bit_word_eqI)
  fix n assume "n < LENGTH(64)"
  then consider "n < 8" | "8 \<le> n" "n < 16" | "16 \<le> n" "n < 24" | "24 \<le> n" "n < 32"
    | "32 \<le> n" "n < 40" | "40 \<le> n" "n < 48" | "48 \<le> n" "n < 56" | "56 \<le> n" "n < 64"
    by fastforce
  then show "bit (ENTOHLL (le64 (htonl (ucast (drop_bit 32 v))) (htonl (ucast v)))) n = bit v n"
    by cases (auto simp: ENTOHLL_def bits_simps bit_simps)
qed

lemma ld16_be16: "ld16 (pre @ be16 v @ post) (length pre) = Some (le16 (ucast (drop_bit 8 v)) (ucast v))"
  by (simp add: ld16_def be16_def rd8_def nth_append)

lemma ld32_be32: "ld32 (pre @ be32 v @ post) (length pre) =
    Some (le32 (ucast (drop_bit 24 v)) (ucast (drop_bit 16 v)) (ucast (drop_bit 8 v)) (ucast v))"
  by (simp add: ld32_def be32_def rd8_def nth_append)

lemma le32_be32: "le32 (ucast (drop_bit 24 v)) (ucast (drop_bit 16 v)) (ucast (drop_bit 8 v)) (ucast v) = htonl v"
  using swap_le32[of v] htonl_htonl unfolding ENTOHL_def by metis

lemma put_be32_eq: "put_be32 m p x =
   (if p + length (be32 x) \<le> length m then Some (splice m p (be32 x), p + length (be32 x)) else None)"
  by (auto simp: put_be32_def wr8_def be32_def splice_Cons eval_nat_numeral)

lemma get_be32_eq: "get_be32 (pre @ be32 x @ post) (length pre) = Some (x, length pre + length (be32 x))"
  by (simp add: get_be32_def ld32_be32 swap_le32)

interpretation be16: wire_codec be16 "\<lambda>_. True" put_be16 get_be16
  by unfold_locales
    (auto simp: put_be16_def wr8_def be16_def splice_Cons get_be16_def
      ld16_be16[unfolded be16_def, simplified] swap_le16)

lemma put_be64_eq: "put_be64 m p x =
   (if p + length (be64 x) \<le> length m then Some (splice m p (be64 x), p + length (be64 x)) else None)"
  using splice_append[of p "be32 (ucast (drop_bit 32 x))" m "be32 (ucast x)"]
  by (auto simp: put_be64_def put_be32_eq be64_def)

lemma get_be64_eq: "get_be64 (pre @ be64 x @ post) (length pre) = Some (x, length pre + length (be64 x))"
proof -
  have "ld32 (pre @ be64 x @ post) (length pre) = Some (htonl (ucast (drop_bit 32 x)))"
    using ld32_be32[of pre "ucast (drop_bit 32 x)" "be32 (ucast x) @ post"]
    by (simp add: be64_def le32_be32)
  moreover have "ld32 (pre @ be64 x @ post) (length pre + 4) = Some (htonl (ucast x))"
    using ld32_be32[of "pre @ be32 (ucast (drop_bit 32 x))" "ucast x" post]
    by (simp add: be64_def le32_be32)
  ultimately show ?thesis
    by (simp add: get_be64_def ld64_def swap_le64)
qed

lemma entoh24_be24:
  assumes "v < 2 ^ 24"
  shows "push_bit 16 (ucast (ucast (drop_bit 16 v) :: u8)) + push_bit 8 (ucast (ucast (drop_bit 8 v) :: u8))
     + ucast (ucast v :: u8) = (v :: u32)"
proof -
  let ?a = "push_bit 16 (ucast (ucast (drop_bit 16 v) :: u8)) :: u32"
  let ?b = "push_bit 8 (ucast (ucast (drop_bit 8 v) :: u8)) :: u32"
  let ?c = "ucast (ucast v :: u8) :: u32"
  have small: "\<not> bit v n" if "24 \<le> n" for n
    using assms that by (intro not_bit_unat_less[of v 24]) (simp_all add: word_less_nat_alt)
  have ab: "?a + ?b = ?a OR ?b"
    by (rule disjunctive_add) (auto simp: bit_simps dest: bit_imp_le_length)
  have "(?a OR ?b) + ?c = (?a OR ?b) OR ?c"
    by (rule disjunctive_add) (auto simp: bit_simps dest: bit_imp_le_length)
  also have "\<dots> = v"
  proof (rule bit_word_eqI)
    fix n assume "n < LENGTH(32)"
    consider "n < 8" | "8 \<le> n" "n < 16" | "16 \<le> n" "n < 24" | "24 \<le> n"
      by linarith
    then show "bit ((?a OR ?b) OR ?c) n = bit v n"
      by cases (use \<open>n < LENGTH(32)\<close> in \<open>auto simp: bit_simps small dest: bit_imp_le_length\<close>)
  qed
  finally show ?thesis unfolding ab .
qed

lemma put_be24_eq: "put_be24 m p x =
   (if p + length (be24 x) \<le> length m then Some (splice m p (be24 x), p + length (be24 x)) else None)"
  by (auto simp: put_be24_def wr8_def be24_def splice_Cons eval_nat_numeral)

lemma get_be24_eq: "x < 2 ^ 24 \<Longrightarrow>
   get_be24 (pre @ be24 x @ post) (length pre) = Some (x, length pre + length (be24 x))"
  using entoh24_be24[of x] by (simp add: get_be24_def ENTOH24_def be24_def rd8_def nth_append)

interpretation be24: wire_codec be24 "\<lambda>v. v < 2 ^ 24" put_be24 get_be24
  by unfold_locales (auto simp: put_be24_eq get_be24_eq)

interpretation be64: wire_codec be64 "\<lambda>_. True" put_be64 get_be64
  by unfold_locales (auto simp: put_be64_eq get_be64_eq)

interpretation be32: wire_codec be32 "\<lambda>_. True" put_be32 get_be32
  by unfold_locales (auto simp: put_be32_eq get_be32_eq)

end
