(* ===== verification/Amf.thy ===== *)
theory Amf
  imports ByteOrder
begin

text \<open>
  The AMF0 serialiser of \<open>src/src/xutil/xamf.cc\<close>: \<open>parse_amf\<close> with its readers \<open>get_amf_*\<close>, and
  \<open>strm_amf_list\<close> with its writers \<open>put_amf_*\<close>. A reader takes the memory, the pointer and the
  bytes it is told remain (a \<open>uint32_t\<close>, so what is left of it wraps around); it gives
  \<open>Ret\<close> of the value and the moved pointer, \<open>Err\<close> for \<open>return -1\<close> with the pointer where the
  code leaves it, or \<open>UB\<close> when it reads outside the memory. \<open>OutOfFuel\<close> is no outcome of the
  code: \<open>amf_enough\<close> shows the fuel given to \<open>parse_amf\<close> never runs out.
\<close>

section \<open>The data\<close>

text \<open>\<open>AMFString\<close>: its length field and the buffer of that many bytes and a NUL.\<close>

type_synonym amf_string = "u16 \<times> u8 list"

text \<open>
  \<open>struct AMF\<close>, a tagged union. An \<open>ArrayItem\<close> is a key and the list \<open>parse_amf\<close> filled, which
  is empty when the item had no bytes left.
\<close>

datatype amf =
    AmfNumber u64
  | AmfBool u8
  | AmfString amf_string
  | AmfObject "(amf_string \<times> amf list) list"
  | AmfNull
  | AmfUndefined
  | AmfUnsupported
  | AmfAssoc u32 "(amf_string \<times> amf list) list"
  | AmfArray u32 "amf list list"
  | AmfDate u64 u16

type_synonym amf_item = "amf_string \<times> amf list"

datatype 'a outcome = Ret 'a nat | Err nat | UB | OutOfFuel

definition omap :: "('a \<Rightarrow> 'b) \<Rightarrow> 'a outcome \<Rightarrow> 'b outcome" where
  "omap f x = (case x of Ret a p \<Rightarrow> Ret (f a) p | Err p \<Rightarrow> Err p | UB \<Rightarrow> UB | OutOfFuel \<Rightarrow> OutOfFuel)"

definition obind :: "'a outcome \<Rightarrow> ('a \<Rightarrow> nat \<Rightarrow> 'b outcome) \<Rightarrow> 'b outcome" where
  "obind x f = (case x of Ret a p \<Rightarrow> f a p | Err p \<Rightarrow> Err p | UB \<Rightarrow> UB | OutOfFuel \<Rightarrow> OutOfFuel)"

definition of_rd :: "('a \<times> nat) option \<Rightarrow> 'a outcome" where
  "of_rd x = (case x of None \<Rightarrow> UB | Some (a, p) \<Rightarrow> Ret a p)"

lemma outcome_simps [simp]:
  "omap f (Ret a p) = Ret (f a) p" "omap f (Err p) = Err p" "omap f UB = UB"
  "omap f OutOfFuel = OutOfFuel"
  "obind (Ret a p) g = g a p" "obind (Err p) g = Err p" "obind UB g = UB"
  "obind OutOfFuel g = OutOfFuel"
  "of_rd None = UB" "of_rd (Some (a, p)) = Ret a p"
  by (simp_all add: omap_def obind_def of_rd_def)

lemma obind_Ret_iff: "obind x f = Ret b q \<longleftrightarrow> (\<exists>a p. x = Ret a p \<and> f a p = Ret b q)"
  by (cases x) auto

lemma omap_Ret_iff: "omap f x = Ret b q \<longleftrightarrow> (\<exists>a. x = Ret a q \<and> b = f a)"
  by (cases x) auto

lemma obind_Fuel_iff:
  "obind x f = OutOfFuel \<longleftrightarrow> x = OutOfFuel \<or> (\<exists>a p. x = Ret a p \<and> f a p = OutOfFuel)"
  by (cases x) auto

lemma omap_Fuel_iff: "omap f x = OutOfFuel \<longleftrightarrow> x = OutOfFuel"
  by (cases x) auto

section \<open>The readers\<close>

text \<open>What is left of \<open>len\<close> when the pointer has moved from \<open>savep\<close> to \<open>p\<close>.\<close>

definition rem :: "u32 \<Rightarrow> nat \<Rightarrow> nat \<Rightarrow> u32" where
  "rem len p savep = len - of_nat (p - savep)"

text \<open>
  \<open>strncpy\<close> reads until a NUL or \<open>n\<close> bytes and pads with NULs: the pad is written to the
  destination, so reading stops at the NUL.
\<close>

fun strncpy :: "mem \<Rightarrow> nat \<Rightarrow> nat \<Rightarrow> u8 list option" where
  "strncpy m p 0 = Some []"
| "strncpy m p (Suc n) = (case rd8 m p of None \<Rightarrow> None
     | Some b \<Rightarrow> if b = 0 then Some (replicate (Suc n) 0)
                else map_option (Cons b) (strncpy m (Suc p) n))"

definition get_amf_string :: "mem \<Rightarrow> nat \<Rightarrow> u32 \<Rightarrow> amf_string outcome" where
  "get_amf_string m p len =
     obind (of_rd (get_be16 m p)) (\<lambda>slen _.
       if unat slen + 2 > unat len then Err p
       else case strncpy m (p + 2) (unat slen) of None \<Rightarrow> UB
            | Some s \<Rightarrow> Ret (slen, s @ [0]) (p + 2 + unat slen))"

definition get_amf_number :: "mem \<Rightarrow> nat \<Rightarrow> u32 \<Rightarrow> u64 outcome" where
  "get_amf_number m p len = (if len < 8 then Err p else of_rd (get_be64 m p))"

definition get_amf_bool :: "mem \<Rightarrow> nat \<Rightarrow> u32 \<Rightarrow> u8 outcome" where
  "get_amf_bool m p len =
     (if len = 0 then Err p else case rd8 m p of None \<Rightarrow> UB | Some b \<Rightarrow> Ret b (p + 1))"

definition get_amf_obj_end :: "mem \<Rightarrow> nat \<Rightarrow> u32 \<Rightarrow> unit outcome" where
  "get_amf_obj_end m p len =
     (if len < 3 then Err p
      else case ENTOH24 m p of None \<Rightarrow> UB
           | Some x \<Rightarrow> if x \<noteq> 0x09 then Err p else Ret () (p + 3))"

definition get_amf_date :: "mem \<Rightarrow> nat \<Rightarrow> u32 \<Rightarrow> (u64 \<times> u16) outcome" where
  "get_amf_date m p len =
     (if len < 8 + 2 then Err p
      else obind (of_rd (get_be64 m p)) (\<lambda>msecs q.
             omap (\<lambda>tz. (msecs, tz)) (of_rd (get_be16 m q))))"

text \<open>
  \<open>parse_amf\<close> and the three container readers it calls. \<open>typobj_loop\<close> is the \<open>for ( ; ; )\<close> of
  \<open>get_amf_typobj\<close>; \<open>assoc_loop\<close> and \<open>array_loop\<close> are the \<open>while (idx < sz)\<close> loops of
  \<open>get_amf_associate_array\<close> and \<open>get_amf_array\<close>, with \<open>sz - idx\<close> as their count; \<open>savep\<close> is the
  pointer at the reader's entry. A failed item stops a loop with the items read before; the
  error path of every reader frees them and returns -1.
\<close>

function (sequential) parse_amf_f :: "nat \<Rightarrow> mem \<Rightarrow> nat \<Rightarrow> u32 \<Rightarrow> amf list outcome"
  and typobj_loop :: "nat \<Rightarrow> mem \<Rightarrow> nat \<Rightarrow> nat \<Rightarrow> u32 \<Rightarrow> amf_item list \<Rightarrow> amf_item list outcome"
  and assoc_loop :: "nat \<Rightarrow> nat \<Rightarrow> mem \<Rightarrow> nat \<Rightarrow> nat \<Rightarrow> u32 \<Rightarrow> amf_item list \<Rightarrow> amf_item list outcome"
  and array_loop :: "nat \<Rightarrow> nat \<Rightarrow> mem \<Rightarrow> nat \<Rightarrow> nat \<Rightarrow> u32 \<Rightarrow> amf list list \<Rightarrow> amf list list outcome"
where
  "parse_amf_f 0 m p len = OutOfFuel"
| "parse_amf_f (Suc fuel) m p len =
     (if len = 0 then Ret [] p
      else case rd8 m p of None \<Rightarrow> UB
      | Some typ \<Rightarrow>
         (let q = p + 1; l = rem len q p in
          if typ = 0x00 then omap (\<lambda>v. [AmfNumber v]) (get_amf_number m q l)
          else if typ = 0x01 then omap (\<lambda>v. [AmfBool v]) (get_amf_bool m q l)
          else if typ = 0x02 then omap (\<lambda>v. [AmfString v]) (get_amf_string m q l)
          else if typ = 0x03 then
            omap (\<lambda>v. [AmfObject v]) (typobj_loop fuel m q q l [])
          else if typ = 0x08 then
            obind (of_rd (get_be32 m q)) (\<lambda>sz r.
            obind (assoc_loop fuel (unat sz) m q r l []) (\<lambda>arr s.
            omap (\<lambda>_. [AmfAssoc sz arr]) (get_amf_obj_end m s (rem l s q))))
          else if typ = 0x0A then
            obind (of_rd (get_be32 m q)) (\<lambda>sz r.
            omap (\<lambda>arr. [AmfArray sz arr]) (array_loop fuel (unat sz) m q r l []))
          else if typ = 0x05 then Ret [AmfNull] q
          else if typ = 0x06 then Ret [AmfUndefined] q
          else if typ = 0x0D then Ret [AmfUnsupported] q
          else if typ = 0x0B then omap (\<lambda>(ms, tz). [AmfDate ms tz]) (get_amf_date m q l)
          else Err q))"
| "typobj_loop 0 m savep p len acc = OutOfFuel"
| "typobj_loop (Suc fuel) m savep p len acc =
     obind (get_amf_string m p (rem len p savep)) (\<lambda>key q.
       let item = (\<lambda>_::unit.
         obind (parse_amf_f fuel m q (rem len q savep)) (\<lambda>val r.
           typobj_loop fuel m savep r len (acc @ [(key, val)])))
       in if fst key = 0
          then (case rd8 m q of None \<Rightarrow> UB
                | Some b \<Rightarrow> if b = 0x09 then Ret acc (q + 1) else item ())
          else item ())"
| "assoc_loop fuel 0 m savep p len acc = Ret acc p"
| "assoc_loop fuel (Suc n) m savep p len acc =
     obind (get_amf_string m p (rem len p savep)) (\<lambda>key q.
       obind (parse_amf_f fuel m q (rem len q savep)) (\<lambda>val r.
         assoc_loop fuel n m savep r len (acc @ [(key, val)])))"
| "array_loop fuel 0 m savep p len acc = Ret acc p"
| "array_loop fuel (Suc n) m savep p len acc =
     obind (parse_amf_f fuel m p (rem len p savep)) (\<lambda>val r.
       array_loop fuel n m savep r len (acc @ [val]))"
  by pat_completeness auto
termination
  by (relation "measures
      [\<lambda>x. case x of Inl (Inl (f, _)) \<Rightarrow> f | Inl (Inr (f, _)) \<Rightarrow> f | Inr (Inl (f, _)) \<Rightarrow> f
             | Inr (Inr (f, _)) \<Rightarrow> f,
       \<lambda>x. case x of Inl (Inl _) \<Rightarrow> 0 | Inl (Inr _) \<Rightarrow> 1 | Inr (Inl (_, n, _)) \<Rightarrow> Suc n
             | Inr (Inr (_, n, _)) \<Rightarrow> Suc n]") auto

text \<open>\<open>parse_amf(p, len, head)\<close>: what it appends to \<open>head\<close>.\<close>

definition parse_amf :: "mem \<Rightarrow> nat \<Rightarrow> u32 \<Rightarrow> amf list outcome" where
  "parse_amf m p len = parse_amf_f (Suc (length m)) m p len"


lemmas amf_loops = parse_amf_f.simps(2) typobj_loop.simps(2)

declare amf_loops [simp del]

section \<open>The fuel is enough\<close>

text \<open>A reader that returns has not moved the pointer back.\<close>

lemma get_be_mono:
  "get_be16 m p = Some (v, q) \<Longrightarrow> q = p + 2 \<and> p + 2 \<le> length m"
  "get_be32 m p = Some (w, q) \<Longrightarrow> q = p + 4 \<and> p + 4 \<le> length m"
  "get_be64 m p = Some (x, q) \<Longrightarrow> q = p + 8 \<and> p + 8 \<le> length m"
  by (auto simp: get_be16_def get_be32_def get_be64_def ld16_def ld32_def ld64_def rd8_def
      bind_eq_Some split: if_splits)

lemma of_rd_Ret: "of_rd x = Ret a p \<longleftrightarrow> x = Some (a, p)"
  by (cases x) (auto simp: of_rd_def)

lemma of_rd_not_fuel [simp]: "of_rd x \<noteq> OutOfFuel"
  by (cases x) (auto simp: of_rd_def)

lemma get_amf_string_mono: "get_amf_string m p len = Ret v q \<Longrightarrow> p + 2 \<le> q \<and> p + 2 \<le> length m"
  by (auto simp: get_amf_string_def obind_Ret_iff of_rd_Ret split: if_splits option.splits
      dest: get_be_mono)

lemma get_amf_mono:
  "get_amf_number m p len = Ret u q \<Longrightarrow> p \<le> q"
  "get_amf_bool m p len = Ret b q \<Longrightarrow> p \<le> q"
  "get_amf_obj_end m p len = Ret t q \<Longrightarrow> p \<le> q"
  "get_amf_date m p len = Ret d q \<Longrightarrow> p \<le> q"
  by (auto simp: get_amf_number_def get_amf_bool_def get_amf_obj_end_def get_amf_date_def
      of_rd_Ret obind_Ret_iff omap_Ret_iff split: if_splits option.splits dest!: get_be_mono)

lemma get_amf_not_fuel [simp]:
  "get_amf_string m p len \<noteq> OutOfFuel" "get_amf_number m p len \<noteq> OutOfFuel"
  "get_amf_bool m p len \<noteq> OutOfFuel" "get_amf_obj_end m p len \<noteq> OutOfFuel"
  "get_amf_date m p len \<noteq> OutOfFuel"
  by (auto simp: get_amf_string_def get_amf_number_def get_amf_bool_def get_amf_obj_end_def
      get_amf_date_def obind_Fuel_iff omap_Fuel_iff split: if_splits option.splits)

lemma amf_mono:
  "parse_amf_f fuel m p len = Ret vs q \<Longrightarrow> p \<le> q"
  "typobj_loop fuel m savep p len acc = Ret its q \<Longrightarrow> p \<le> q"
  "assoc_loop fuel n m savep p len acc = Ret its q \<Longrightarrow> p \<le> q"
  "array_loop fuel n m savep p len acc' = Ret arr q \<Longrightarrow> p \<le> q"
proof (induction fuel m p len and fuel m savep p len acc and fuel n m savep p len acc
    and fuel n m savep p len acc' arbitrary: vs q and its q and its q and arr q
    rule: parse_amf_f_typobj_loop_assoc_loop_array_loop.induct)
  case (2 fuel m p len)
  show ?case
  proof (cases "len = 0")
    case True
    with "2.prems" show ?thesis by (simp add: amf_loops)
  next
    case False
    with "2.prems" obtain ty where ty: "rd8 m p = Some ty"
      by (auto simp: amf_loops split: option.splits)
    note IH = "2.IH"(1)[OF False ty refl refl] "2.IH"(2)[OF False ty refl refl]
      "2.IH"(3)[OF False ty refl refl]
    consider (obj) "ty = 0x03" | (assoc) "ty = 0x08" | (arr) "ty = 0x0A"
      | (other) "ty \<noteq> 0x03" "ty \<noteq> 0x08" "ty \<noteq> 0x0A" by blast
    then show ?thesis
    proof cases
      case obj
      with "2.prems" False ty IH(1) show ?thesis
        by (auto simp: amf_loops Let_def omap_Ret_iff dest: Suc_leD)
    next
      case assoc
      with "2.prems" False ty IH(2) show ?thesis
        by (fastforce simp: amf_loops Let_def obind_Ret_iff omap_Ret_iff of_rd_Ret
            dest!: get_amf_mono(3) get_be_mono(2))
    next
      case arr
      with "2.prems" False ty IH(3) show ?thesis
        by (fastforce simp: amf_loops Let_def obind_Ret_iff omap_Ret_iff of_rd_Ret
            dest!: get_be_mono(2))
    next
      case other
      with "2.prems" False ty show ?thesis
        by (auto simp: amf_loops Let_def omap_Ret_iff split: if_splits
            dest!: get_amf_mono get_amf_string_mono)
    qed
  qed
next
  case (4 fuel m savep p len acc)
  then show ?case
    by (fastforce simp: amf_loops Let_def obind_Ret_iff split: if_splits option.splits
        dest!: get_amf_string_mono)
next
  case (6 fuel n m savep p len acc)
  then show ?case
    by (fastforce simp: obind_Ret_iff dest!: get_amf_string_mono)
next
  case (8 fuel n m savep p len acc)
  then show ?case
    by (fastforce simp: obind_Ret_iff)
qed simp_all


lemma rd8_Some_less: "rd8 m p = Some b \<Longrightarrow> p < length m"
  by (simp add: rd8_def split: if_splits)

lemma amf_enough:
  "length m - p < fuel \<Longrightarrow> parse_amf_f fuel m p len \<noteq> OutOfFuel"
  "length m - p < fuel \<Longrightarrow> typobj_loop fuel m savep p len acc \<noteq> OutOfFuel"
  "length m - p < fuel \<Longrightarrow> assoc_loop fuel n m savep p len acc \<noteq> OutOfFuel"
  "length m - p < fuel \<Longrightarrow> array_loop fuel n m savep p len acc' \<noteq> OutOfFuel"
proof (induction fuel m p len and fuel m savep p len acc and fuel n m savep p len acc
    and fuel n m savep p len acc'
    rule: parse_amf_f_typobj_loop_assoc_loop_array_loop.induct)
  case (2 fuel m p len)
  show ?case
  proof (cases "len = 0")
    case True
    then show ?thesis by (simp add: amf_loops)
  next
    case False
    show ?thesis
    proof (cases "rd8 m p")
      case None
      with False show ?thesis by (simp add: amf_loops)
    next
      case (Some ty)
      then have less: "length m - Suc p < fuel" "length m - (p + 5) < fuel"
        using "2.prems" rd8_Some_less[OF Some] by auto
      note IH = "2.IH"(1)[OF False Some refl refl] "2.IH"(2)[OF False Some refl refl]
        "2.IH"(3)[OF False Some refl refl]
      consider (obj) "ty = 0x03" | (assoc) "ty = 0x08" | (arr) "ty = 0x0A"
        | (other) "ty \<noteq> 0x03" "ty \<noteq> 0x08" "ty \<noteq> 0x0A" by blast
      then show ?thesis
      proof cases
        case obj
        with False Some less IH(1) show ?thesis
          by (auto simp: amf_loops Let_def omap_Fuel_iff)
      next
        case assoc
        with False Some less IH(2) show ?thesis
          by (fastforce simp: amf_loops Let_def obind_Fuel_iff omap_Fuel_iff of_rd_Ret
              dest!: get_be_mono(2))
      next
        case arr
        with False Some less IH(3) show ?thesis
          by (fastforce simp: amf_loops Let_def obind_Fuel_iff omap_Fuel_iff of_rd_Ret
              dest!: get_be_mono(2))
      next
        case other
        with False Some show ?thesis
          by (auto simp: amf_loops Let_def omap_Fuel_iff split: if_splits)
      qed
    qed
  qed
next
  case (4 fuel m savep p len acc)
  show ?case
  proof
    assume "typobj_loop (Suc fuel) m savep p len acc = OutOfFuel"
    then obtain key q where key: "get_amf_string m p (rem len p savep) = Ret key q"
      and "obind (parse_amf_f fuel m q (rem len q savep)) (\<lambda>val r.
           typobj_loop fuel m savep r len (acc @ [(key, val)])) = OutOfFuel"
      and guard: "fst key \<noteq> 0 \<or> (\<exists>b. rd8 m q = Some b \<and> b \<noteq> 0x09)"
      by (auto simp: amf_loops Let_def obind_Fuel_iff split: if_splits option.splits)
    moreover have q: "length m - q < fuel"
      using "4.prems" get_amf_string_mono[OF key] by linarith
    ultimately obtain val r where val: "parse_amf_f fuel m q (rem len q savep) = Ret val r"
      and "typobj_loop fuel m savep r len (acc @ [(key, val)]) = OutOfFuel"
      using "4.IH" guard by (fastforce simp: obind_Fuel_iff)
    moreover have "length m - r < fuel"
      using q amf_mono(1)[OF val] by linarith
    ultimately show False
      using "4.IH" guard by fastforce
  qed
next
  case (6 fuel n m savep p len acc)
  then show ?case
    by (fastforce simp: obind_Fuel_iff dest!: get_amf_string_mono dest: amf_mono(1))
next
  case (8 fuel n m savep p len acc)
  then show ?case
    by (fastforce simp: obind_Fuel_iff dest: amf_mono(1))
qed simp_all

section \<open>The writers\<close>

text \<open>
  A writer gives the memory and the pointer it leaves, or \<open>None\<close> when it writes past the end.
  Those that can return -1 give a flag first; on -1 they set the pointer back to where they
  started. \<open>strlen\<close> reads to the NUL.
\<close>

definition strlen :: "u8 list \<Rightarrow> nat option" where
  "strlen s = (if 0 \<in> set s then Some (length (cstr s)) else None)"

definition put_byte :: "mem \<Rightarrow> nat \<Rightarrow> u8 \<Rightarrow> (mem \<times> nat) option" where
  "put_byte m p val = do { m \<leftarrow> wr8 m p val; Some (m, p + 1) }"

definition put_amf_string_no_typ :: "mem \<Rightarrow> nat \<Rightarrow> u8 list \<Rightarrow> (mem \<times> nat) option" where
  "put_amf_string_no_typ m p str = do {
     n \<leftarrow> strlen str;
     let len = (of_nat n :: u16);
     (m, p) \<leftarrow> put_be16 m p len;
     m \<leftarrow> wrn m p (take (unat len) (cstr str));
     Some (m, p + unat len) }"

definition put_amf_string :: "mem \<Rightarrow> nat \<Rightarrow> u8 list \<Rightarrow> (mem \<times> nat) option" where
  "put_amf_string m p str = do { (m, p) \<leftarrow> put_byte m p 0x02; put_amf_string_no_typ m p str }"

text \<open>The \<open>double\<close> is its 64 bits: \<open>double2int\<close> and \<open>int2double\<close> reinterpret them.\<close>

definition put_amf_number :: "mem \<Rightarrow> nat \<Rightarrow> u64 \<Rightarrow> (mem \<times> nat) option" where
  "put_amf_number m p val = do { (m, p) \<leftarrow> put_byte m p 0x00; put_be64 m p val }"

definition put_amf_bool :: "mem \<Rightarrow> nat \<Rightarrow> bool \<Rightarrow> (mem \<times> nat) option" where
  "put_amf_bool m p b = do { (m, p) \<leftarrow> put_byte m p 0x01; put_byte m p (if b then 1 else 0) }"

definition put_amf_obj_end :: "mem \<Rightarrow> nat \<Rightarrow> (mem \<times> nat) option" where
  "put_amf_obj_end m p = do { (m, p) \<leftarrow> put_amf_string_no_typ m p [0]; put_byte m p 0x09 }"

definition put_amf_date :: "mem \<Rightarrow> nat \<Rightarrow> u64 \<Rightarrow> u16 \<Rightarrow> (mem \<times> nat) option" where
  "put_amf_date m p msecs tz = do {
     (m, p) \<leftarrow> put_byte m p 0x0B; (m, p) \<leftarrow> put_be64 m p msecs; put_be16 m p tz }"

definition ret0 :: "(mem \<times> nat) option \<Rightarrow> (bool \<times> mem \<times> nat) option" where
  "ret0 x = map_option (\<lambda>(m, p). (True, m, p)) x"

text \<open>
  \<open>put_amf\<close> is the switch in the body of \<open>strm_amf_list\<close>, with \<open>put_amf_typobj\<close>,
  \<open>put_amf_associate_array\<close> and \<open>put_amf_array\<close> as its container cases; \<open>strm_loop\<close> is the
  loop over the list (\<open>savep\<close> the pointer at its start), \<open>put_items\<close> and \<open>put_elems\<close> are the
  loops over the vectors. The other types are only logged: nothing is written for them.
\<close>

function (sequential) put_amf :: "mem \<Rightarrow> nat \<Rightarrow> amf \<Rightarrow> (bool \<times> mem \<times> nat) option"
  and strm_loop :: "mem \<Rightarrow> nat \<Rightarrow> nat \<Rightarrow> amf list \<Rightarrow> (bool \<times> mem \<times> nat) option"
  and put_items :: "mem \<Rightarrow> nat \<Rightarrow> amf_item list \<Rightarrow> (bool \<times> mem \<times> nat) option"
  and put_elems :: "mem \<Rightarrow> nat \<Rightarrow> amf list list \<Rightarrow> (bool \<times> mem \<times> nat) option"
where
  "put_amf m p (AmfNumber v) = ret0 (put_amf_number m p v)"
| "put_amf m p (AmfBool b) = ret0 (put_amf_bool m p (b \<noteq> 0))"
| "put_amf m p (AmfString s) = ret0 (put_amf_string m p (snd s))"
| "put_amf m p (AmfObject its) = do {
     (m1, q) \<leftarrow> put_byte m p 0x03;
     (ok, m2, r) \<leftarrow> put_items m1 q its;
     if ok then ret0 (put_amf_obj_end m2 r) else Some (False, m2, p) }"
| "put_amf m p (AmfAssoc sz its) = do {
     (m1, q) \<leftarrow> put_byte m p 0x08;
     (m2, r) \<leftarrow> put_be32 m1 q (of_nat (length its));
     (ok, m3, t) \<leftarrow> put_items m2 r its;
     if ok then ret0 (put_amf_obj_end m3 t) else Some (False, m3, p) }"
| "put_amf m p (AmfArray sz arr) = do {
     (m1, q) \<leftarrow> put_byte m p 0x0A;
     (m2, r) \<leftarrow> put_be32 m1 q (of_nat (length arr));
     (ok, m3, t) \<leftarrow> put_elems m2 r arr;
     if ok then Some (True, m3, t) else Some (False, m3, p) }"
| "put_amf m p (AmfDate ms tz) = ret0 (put_amf_date m p ms tz)"
| "put_amf m p _ = Some (True, m, p)"
| "strm_loop m savep p [] = Some (True, m, p)"
| "strm_loop m savep p (x # xs) = do {
     (ok, m1, q) \<leftarrow> put_amf m p x;
     if ok then strm_loop m1 savep q xs else Some (False, m1, savep) }"
| "put_items m p [] = Some (True, m, p)"
| "put_items m p ((key, vs) # its) = do {
     (m1, q) \<leftarrow> put_amf_string_no_typ m p (snd key);
     (ok, m2, r) \<leftarrow> strm_loop m1 q q vs;
     if ok then put_items m2 r its else Some (False, m2, r) }"
| "put_elems m p [] = Some (True, m, p)"
| "put_elems m p (vs # arr) = do {
     (ok, m1, q) \<leftarrow> strm_loop m p p vs;
     if ok then put_elems m1 q arr else Some (False, m1, p) }"
  by pat_completeness auto
termination
  by (relation "measure (\<lambda>x. case x of
       Inl (Inl (_, _, v)) \<Rightarrow> size v
     | Inl (Inr (_, _, _, vs)) \<Rightarrow> size_list size vs
     | Inr (Inl (_, _, its)) \<Rightarrow> size_list (size_prod (\<lambda>_. 0) (size_list size)) its
     | Inr (Inr (_, _, arr)) \<Rightarrow> size_list (size_list size) arr)") auto

definition strm_amf_list :: "mem \<Rightarrow> nat \<Rightarrow> amf list \<Rightarrow> (bool \<times> mem \<times> nat) option" where
  "strm_amf_list m p head = strm_loop m p p head"

section \<open>What the writers write\<close>

definition enc_str :: "u8 list \<Rightarrow> u8 list" where
  "enc_str str = (let n = (of_nat (length (cstr str)) :: u16) in be16 n @ take (unat n) (cstr str))"

definition enc_obj_end :: "u8 list" where
  "enc_obj_end = [0, 0, 0x09]"

function (sequential) enc_amf :: "amf \<Rightarrow> u8 list"
  and enc_list :: "amf list \<Rightarrow> u8 list"
  and enc_items :: "amf_item list \<Rightarrow> u8 list"
  and enc_elems :: "amf list list \<Rightarrow> u8 list"
where
  "enc_amf (AmfNumber v) = 0x00 # be64 v"
| "enc_amf (AmfBool b) = [0x01, if b \<noteq> 0 then 1 else 0]"
| "enc_amf (AmfString s) = 0x02 # enc_str (snd s)"
| "enc_amf (AmfObject its) = 0x03 # enc_items its @ enc_obj_end"
| "enc_amf (AmfAssoc sz its) = 0x08 # be32 (of_nat (length its)) @ enc_items its @ enc_obj_end"
| "enc_amf (AmfArray sz arr) = 0x0A # be32 (of_nat (length arr)) @ enc_elems arr"
| "enc_amf (AmfDate ms tz) = 0x0B # be64 ms @ be16 tz"
| "enc_amf _ = []"
| "enc_list [] = []"
| "enc_list (x # xs) = enc_amf x @ enc_list xs"
| "enc_items [] = []"
| "enc_items ((key, vs) # its) = enc_str (snd key) @ enc_list vs @ enc_items its"
| "enc_elems [] = []"
| "enc_elems (vs # arr) = enc_list vs @ enc_elems arr"
  by pat_completeness auto
termination
  by (relation "measure (\<lambda>x. case x of
       Inl (Inl v) \<Rightarrow> size v
     | Inl (Inr vs) \<Rightarrow> size_list size vs
     | Inr (Inl its) \<Rightarrow> size_list (size_prod (\<lambda>_. 0) (size_list size)) its
     | Inr (Inr arr) \<Rightarrow> size_list (size_list size) arr)") auto

text \<open>Every string buffer holds a NUL, as \<open>get_amf_string\<close> leaves it.\<close>

function (sequential) nul_amf :: "amf \<Rightarrow> bool"
  and nul_list :: "amf list \<Rightarrow> bool"
  and nul_items :: "amf_item list \<Rightarrow> bool"
  and nul_elems :: "amf list list \<Rightarrow> bool"
where
  "nul_amf (AmfString s) \<longleftrightarrow> 0 \<in> set (snd s)"
| "nul_amf (AmfObject its) \<longleftrightarrow> nul_items its"
| "nul_amf (AmfAssoc sz its) \<longleftrightarrow> nul_items its"
| "nul_amf (AmfArray sz arr) \<longleftrightarrow> nul_elems arr"
| "nul_amf _ \<longleftrightarrow> True"
| "nul_list [] \<longleftrightarrow> True"
| "nul_list (x # xs) \<longleftrightarrow> nul_amf x \<and> nul_list xs"
| "nul_items [] \<longleftrightarrow> True"
| "nul_items ((key, vs) # its) \<longleftrightarrow> 0 \<in> set (snd key) \<and> nul_list vs \<and> nul_items its"
| "nul_elems [] \<longleftrightarrow> True"
| "nul_elems (vs # arr) \<longleftrightarrow> nul_list vs \<and> nul_elems arr"
  by pat_completeness auto
termination
  by (relation "measure (\<lambda>x. case x of
       Inl (Inl v) \<Rightarrow> size v
     | Inl (Inr vs) \<Rightarrow> size_list size vs
     | Inr (Inl its) \<Rightarrow> size_list (size_prod (\<lambda>_. 0) (size_list size)) its
     | Inr (Inr arr) \<Rightarrow> size_list (size_list size) arr)") auto

text \<open>
  \<open>emits r m p bs\<close>: the writer result \<open>r\<close> succeeds with \<open>bs\<close> stored at \<open>p\<close> and the pointer after
  them, or overruns the buffer when \<open>bs\<close> does not fit.
\<close>

definition emits :: "(bool \<times> mem \<times> nat) option \<Rightarrow> mem \<Rightarrow> nat \<Rightarrow> u8 list \<Rightarrow> bool" where
  "emits r m p bs \<longleftrightarrow> (p \<le> length m \<longrightarrow> r = (if p + length bs \<le> length m
     then Some (True, splice m p bs, p + length bs) else None))"

definition writes :: "(mem \<times> nat) option \<Rightarrow> mem \<Rightarrow> nat \<Rightarrow> u8 list \<Rightarrow> bool" where
  "writes r m p bs \<longleftrightarrow> r = (if p + length bs \<le> length m
     then Some (splice m p bs, p + length bs) else None)"

lemma writes_bind:
  assumes "writes r m p a" "\<And>m' q. r = Some (m', q) \<Longrightarrow> writes (f (m', q)) m' q b"
  shows "writes (r \<bind> f) m p (a @ b)"
  using assms(1) assms(2)[of "splice m p a" "p + length a"]
  by (auto simp: writes_def splice_append)

lemma writes_emits_bind:
  assumes "writes r m p a" "\<And>m' q. r = Some (m', q) \<Longrightarrow> emits (f (m', q)) m' q b"
  shows "emits (r \<bind> f) m p (a @ b)"
  using assms(1) assms(2)[of "splice m p a" "p + length a"]
  by (auto simp: writes_def emits_def splice_append)

lemma emits_bind:
  assumes "emits r m p a" "\<And>m' q. r = Some (True, m', q) \<Longrightarrow> emits (f (True, m', q)) m' q b"
  shows "emits (r \<bind> f) m p (a @ b)"
  using assms(1) assms(2)[of "splice m p a" "p + length a"]
  by (auto simp: emits_def splice_append)

lemma writes_ret0: "writes r m p bs \<Longrightarrow> emits (ret0 r) m p bs"
  by (simp add: writes_def emits_def ret0_def)

lemma writes_put_byte: "writes (put_byte m p b) m p [b]"
  by (auto simp: writes_def put_byte_def wr8_def splice_Cons)

lemma writes_byte_bind:
  assumes "\<And>m' q. put_byte m p x = Some (m', q) \<Longrightarrow> writes (f (m', q)) m' q bs"
  shows "writes (put_byte m p x \<bind> f) m p (x # bs)"
proof -
  have "writes (put_byte m p x \<bind> f) m p ([x] @ bs)"
    by (rule writes_bind[OF writes_put_byte]) (rule assms)
  then show ?thesis by simp
qed

lemma emits_byte_bind:
  assumes "\<And>m' q. put_byte m p x = Some (m', q) \<Longrightarrow> emits (f (m', q)) m' q bs"
  shows "emits (put_byte m p x \<bind> f) m p (x # bs)"
proof -
  have "emits (put_byte m p x \<bind> f) m p ([x] @ bs)"
    by (rule writes_emits_bind[OF writes_put_byte]) (rule assms)
  then show ?thesis by simp
qed

lemma writes_be:
  "writes (put_be16 m p a) m p (be16 a)" "writes (put_be32 m p b) m p (be32 b)"
  "writes (put_be64 m p c) m p (be64 c)"
  by (simp_all add: writes_def be16.put_enc be32.put_enc be64.put_enc)

lemma writes_string_no_typ:
  assumes "0 \<in> set str"
  shows "writes (put_amf_string_no_typ m p str) m p (enc_str str)"
proof -
  let ?n = "of_nat (length (cstr str)) :: u16"
  have n: "unat ?n \<le> length (cstr str)"
    by (simp add: unat_of_nat)
  have "writes (put_be16 m p ?n \<bind> (\<lambda>(m, p). do {
      m \<leftarrow> wrn m p (take (unat ?n) (cstr str)); Some (m, p + unat ?n) })) m p
      (be16 ?n @ take (unat ?n) (cstr str))"
    by (rule writes_bind[OF writes_be(1)]) (use n in \<open>simp add: writes_def wrn_def min_def\<close>)
  with assms show ?thesis
    by (simp add: put_amf_string_no_typ_def strlen_def enc_str_def Let_def)
qed

lemma enc_str_nul: "enc_str [0] = [0, 0]"
  by (simp add: enc_str_def cstr_def be16_def)

lemma writes_obj_end: "writes (put_amf_obj_end m p) m p enc_obj_end"
  using writes_bind[OF writes_string_no_typ[of "[0]" m p], of "\<lambda>(m, p). put_byte m p 0x09" "[0x09]"]
  by (simp add: put_amf_obj_end_def enc_obj_end_def enc_str_nul writes_put_byte)

lemma emits_put:
  "emits (ret0 (put_amf_number m p v)) m p (0x00 # be64 v)"
  "emits (ret0 (put_amf_bool m p b)) m p [0x01, if b then 1 else 0]"
  "0 \<in> set s \<Longrightarrow> emits (ret0 (put_amf_string m p s)) m p (0x02 # enc_str s)"
  "emits (ret0 (put_amf_date m p ms tz)) m p (0x0B # be64 ms @ be16 tz)"
proof -
  have date: "writes (put_be64 m' q ms \<bind> (\<lambda>(m, p). put_be16 m p tz)) m' q (be64 ms @ be16 tz)" for m' q
    by (rule writes_bind[OF writes_be(3)]) (simp add: writes_be)
  show "emits (ret0 (put_amf_number m p v)) m p (0x00 # be64 v)"
    "emits (ret0 (put_amf_bool m p b)) m p [0x01, if b then 1 else 0]"
    "0 \<in> set s \<Longrightarrow> emits (ret0 (put_amf_string m p s)) m p (0x02 # enc_str s)"
    "emits (ret0 (put_amf_date m p ms tz)) m p (0x0B # be64 ms @ be16 tz)"
    unfolding put_amf_number_def put_amf_bool_def put_amf_string_def put_amf_date_def
    by (rule writes_ret0, rule writes_byte_bind, simp add: writes_be writes_put_byte writes_string_no_typ date)+
qed

lemma emits_True: "emits (Some (True, m, p)) m p []"
  by (simp add: emits_def)

lemma strm_emits:
  "nul_amf v \<Longrightarrow> emits (put_amf m p v) m p (enc_amf v)"
  "nul_list vs \<Longrightarrow> emits (strm_loop m savep p vs) m p (enc_list vs)"
  "nul_items its \<Longrightarrow> emits (put_items m p its) m p (enc_items its)"
  "nul_elems arr \<Longrightarrow> emits (put_elems m p arr) m p (enc_elems arr)"
proof (induction m p v and m savep p vs and m p its and m p arr
    rule: put_amf_strm_loop_put_items_put_elems.induct)
  case (4 m p its)
  then show ?case
    by (fastforce intro!: emits_byte_bind emits_bind writes_ret0 writes_obj_end)
next
  case (5 m p sz its)
  then show ?case
    by (fastforce intro!: emits_byte_bind emits_bind writes_emits_bind[OF writes_be(2)]
        writes_ret0 writes_obj_end)
next
  case (6 m p sz arr)
  have "emits (put_elems m2 r arr \<bind> (\<lambda>(ok, m3, t).
      if ok then Some (True, m3, t) else Some (False, m3, p))) m2 r (enc_elems arr)"
    if "put_byte m p 0x0A = Some (m1, q)" "put_be32 m1 q (of_nat (length arr)) = Some (m2, r)"
    for m1 q m2 r
    using emits_bind[OF "6.IH"[OF that(1) refl that(2) refl], of "\<lambda>(ok, m3, t).
      if ok then Some (True, m3, t) else Some (False, m3, p)" "[]"] "6.prems"
    by (simp add: emits_True)
  then show ?case
    by (auto intro!: emits_byte_bind writes_emits_bind[OF writes_be(2)])
next
  case (10 m savep p x xs)
  then show ?case
    by (auto intro!: emits_bind)
next
  case (12 m p key vs its)
  have "emits (strm_loop m1 q q vs \<bind> (\<lambda>(ok, m2, r).
      if ok then put_items m2 r its else Some (False, m2, r))) m1 q (enc_list vs @ enc_items its)"
    if "put_amf_string_no_typ m p (snd key) = Some (m1, q)" for m1 q
    by (rule emits_bind) (use "12.IH" "12.prems" that in auto)
  with "12.prems" show ?case
    by (auto intro!: writes_emits_bind[OF writes_string_no_typ])
next
  case (14 m p vs arr)
  then show ?case
    by (auto intro!: emits_bind)
qed (simp_all add: emits_put emits_True)

section \<open>Reading back what was written\<close>

text \<open>
  The values the round trip holds for: a key or string is NUL-free in a buffer of its own
  length, a boolean byte is 0 or 1, every item holds exactly one value, a count is the length
  of its vector; and no null, undefined or unsupported, which the writer drops.
\<close>

definition wf_str :: "amf_string \<Rightarrow> bool" where
  "wf_str s \<longleftrightarrow> snd s = cstr (snd s) @ [0] \<and> unat (fst s) = length (cstr (snd s))"

function (sequential) wf_amf :: "amf \<Rightarrow> bool"
  and wf_items :: "amf_item list \<Rightarrow> bool"
  and wf_elems :: "amf list list \<Rightarrow> bool"
where
  "wf_amf (AmfNumber v) \<longleftrightarrow> True"
| "wf_amf (AmfBool b) \<longleftrightarrow> b = 0 \<or> b = 1"
| "wf_amf (AmfString s) \<longleftrightarrow> wf_str s"
| "wf_amf (AmfObject its) \<longleftrightarrow> wf_items its"
| "wf_amf (AmfAssoc sz its) \<longleftrightarrow> unat sz = length its \<and> wf_items its"
| "wf_amf (AmfArray sz arr) \<longleftrightarrow> unat sz = length arr \<and> wf_elems arr"
| "wf_amf (AmfDate ms tz) \<longleftrightarrow> True"
| "wf_amf _ \<longleftrightarrow> False"
| "wf_items [] \<longleftrightarrow> True"
| "wf_items ((key, [v]) # its) \<longleftrightarrow> wf_str key \<and> wf_amf v \<and> wf_items its"
| "wf_items _ \<longleftrightarrow> False"
| "wf_elems [] \<longleftrightarrow> True"
| "wf_elems ([v] # arr) \<longleftrightarrow> wf_amf v \<and> wf_elems arr"
| "wf_elems _ \<longleftrightarrow> False"
  by pat_completeness auto
termination
  by (relation "measure (\<lambda>x. case x of
       Inl v \<Rightarrow> size v
     | Inr (Inl its) \<Rightarrow> size_list (size_prod (\<lambda>_. 0) (size_list size)) its
     | Inr (Inr arr) \<Rightarrow> size_list (size_list size) arr)") auto

lemma wf_items_Cons:
  "wf_items (it # its) \<longleftrightarrow>
   (\<exists>key v. it = (key, [v]) \<and> wf_str key \<and> wf_amf v \<and> wf_items its)"
  by (cases "it # its" rule: wf_items.cases) auto

lemma wf_elems_Cons: "wf_elems (vs # arr) \<longleftrightarrow> (\<exists>v. vs = [v] \<and> wf_amf v \<and> wf_elems arr)"
  by (cases "vs # arr" rule: wf_elems.cases) auto

lemma wf_str_nul: "wf_str s \<Longrightarrow> 0 \<in> set (snd s)"
  unfolding wf_str_def by (metis in_set_conv_decomp)

lemma wf_nul:
  "wf_amf v \<Longrightarrow> nul_amf v"
  "wf_items its \<Longrightarrow> nul_items its"
  "wf_elems arr \<Longrightarrow> nul_elems arr"
  by (induction v and its and arr rule: wf_amf_wf_items_wf_elems.induct) (auto simp: wf_str_nul)

lemma unat_minus_of_nat:
  assumes "d \<le> unat (w :: 'a::len word)"
  shows "unat (w - of_nat d) = unat w - d"
proof -
  have "d < 2 ^ LENGTH('a)"
    using assms unsigned_less[of w] by (rule le_less_trans)
  then show ?thesis
    using assms by (simp add: unat_sub word_le_nat_alt unat_of_nat)
qed

lemma unat_rem:
  "savep \<le> p \<Longrightarrow> p - savep \<le> unat len \<Longrightarrow> unat (rem len p savep) = unat len - (p - savep)"
  unfolding rem_def by (rule unat_minus_of_nat)

lemma strncpy_holds:
  "0 \<notin> set s \<Longrightarrow> holds m p s \<Longrightarrow> strncpy m p (length s) = Some s"
  by (induction s arbitrary: p) (auto simp: holds_Cons)

lemma get_string_holds:
  assumes "wf_str s" "holds m p (enc_str (snd s))" "length (enc_str (snd s)) \<le> unat len"
  shows "get_amf_string m p len = Ret s (p + length (enc_str (snd s)))"
proof -
  let ?s = "cstr (snd s)"
  have n2: "unat (fst s) = length ?s" and buf: "snd s = ?s @ [0]"
    using assms(1) by (auto simp: wf_str_def)
  have "of_nat (length ?s) = fst s"
    by (simp flip: n2)
  note n = this n2
  have enc: "enc_str (snd s) = be16 (fst s) @ ?s"
    by (simp add: enc_str_def Let_def n)
  from assms(2) have "get_be16 m p = Some (fst s, p + 2)" and hold: "holds m (p + 2) ?s"
    using be16.get_holds[OF TrueI, of m p "fst s"] by (simp_all add: enc holds_append)
  moreover have "strncpy m (p + 2) (unat (fst s)) = Some ?s"
    using strncpy_holds[OF nul_notin_cstr hold] by (simp add: n)
  moreover have "(fst s, ?s @ [0]) = s"
    using buf by (cases s) simp
  ultimately show ?thesis
    using assms(3) by (simp add: get_amf_string_def enc n)
qed

lemma length_enc_obj_end [simp]: "length enc_obj_end = 3"
  by (simp add: enc_obj_end_def)

lemma get_obj_end_holds:
  assumes "holds m p enc_obj_end" "3 \<le> unat len"
  shows "get_amf_obj_end m p len = Ret () (p + 3)"
  using assms
  by (auto simp: get_amf_obj_end_def enc_obj_end_def holds_Cons ENTOH24_def word_less_nat_alt)

text \<open>No value starts with the byte of the end marker.\<close>

lemma enc_amf_head: "wf_amf v \<Longrightarrow> \<exists>b bs. enc_amf v = b # bs \<and> b \<noteq> 0x09"
  by (cases v) auto

text \<open>
  What a reader must do on a written value, for the loops over a vector: \<open>fuel\<close> units are
  enough for the values shorter than \<open>fuel\<close>.
\<close>

definition reads_ok :: "nat \<Rightarrow> bool" where
  "reads_ok fuel \<longleftrightarrow> (\<forall>v m p len. wf_amf v \<longrightarrow> length (enc_amf v) < fuel \<longrightarrow>
     length (enc_amf v) \<le> unat len \<longrightarrow> holds m p (enc_amf v) \<longrightarrow>
     parse_amf_f fuel m p len = Ret [v] (p + length (enc_amf v)))"

lemma assoc_loop_holds:
  assumes "reads_ok fuel" "wf_items its" "length (enc_items its) < fuel" "holds m p (enc_items its)"
    "savep \<le> p" "p - savep + length (enc_items its) \<le> unat len"
  shows "assoc_loop fuel (length its) m savep p len acc = Ret (acc @ its) (p + length (enc_items its))"
  using assms(2-6)
proof (induction its arbitrary: p acc)
  case Nil
  then show ?case by simp
next
  case (Cons it its)
  then obtain key v where it: "it = (key, [v])" and wf: "wf_str key" "wf_amf v" "wf_items its"
    by (auto simp: wf_items_Cons)
  let ?q = "p + length (enc_str (snd key))"
  let ?r = "?q + length (enc_amf v)"
  have hold: "holds m p (enc_str (snd key))" "holds m ?q (enc_amf v)" "holds m ?r (enc_items its)"
    using Cons.prems(3) by (simp_all add: it holds_append)
  have len: "p - savep + length (enc_str (snd key)) + length (enc_amf v) + length (enc_items its) \<le> unat len"
    using Cons.prems(5) by (simp add: it)
  have "get_amf_string m p (rem len p savep) = Ret key ?q"
    using wf(1) hold(1) Cons.prems(4) len by (intro get_string_holds) (simp_all add: unat_rem)
  moreover have "parse_amf_f fuel m ?q (rem len ?q savep) = Ret [v] ?r"
    using assms(1) wf(2) hold(2) Cons.prems(2,4) len unfolding reads_ok_def
    by (simp add: unat_rem it)
  moreover have "assoc_loop fuel (length its) m savep ?r len (acc @ [it]) =
      Ret ((acc @ [it]) @ its) (?r + length (enc_items its))"
    using Cons.prems(2,4) len wf(3) hold(3) by (intro Cons.IH) (simp_all add: it)
  ultimately show ?case
    by (simp add: it)
qed

lemma array_loop_holds:
  assumes "reads_ok fuel" "wf_elems arr" "length (enc_elems arr) < fuel" "holds m p (enc_elems arr)"
    "savep \<le> p" "p - savep + length (enc_elems arr) \<le> unat len"
  shows "array_loop fuel (length arr) m savep p len acc = Ret (acc @ arr) (p + length (enc_elems arr))"
  using assms(2-6)
proof (induction arr arbitrary: p acc)
  case Nil
  then show ?case by simp
next
  case (Cons vs arr)
  then obtain v where vs: "vs = [v]" and wf: "wf_amf v" "wf_elems arr"
    by (auto simp: wf_elems_Cons)
  let ?q = "p + length (enc_amf v)"
  have hold: "holds m p (enc_amf v)" "holds m ?q (enc_elems arr)"
    using Cons.prems(3) by (simp_all add: vs holds_append)
  have len: "p - savep + length (enc_amf v) + length (enc_elems arr) \<le> unat len"
    using Cons.prems(5) by (simp add: vs)
  have "parse_amf_f fuel m p (rem len p savep) = Ret [v] ?q"
    using assms(1) wf(1) hold(1) Cons.prems(2,4) len unfolding reads_ok_def
    by (simp add: unat_rem vs)
  moreover have "array_loop fuel (length arr) m savep ?q len (acc @ [vs]) =
      Ret ((acc @ [vs]) @ arr) (?q + length (enc_elems arr))"
    using Cons.prems(2,4) len wf(2) hold(2) by (intro Cons.IH) (simp_all add: vs)
  ultimately show ?case
    by (simp add: vs)
qed

definition objs_ok :: "nat \<Rightarrow> bool" where
  "objs_ok fuel \<longleftrightarrow> (\<forall>its m savep p len acc. wf_items its \<longrightarrow> length (enc_items its) + 1 < fuel \<longrightarrow>
     savep \<le> p \<longrightarrow> p - savep + length (enc_items its) + 3 \<le> unat len \<longrightarrow>
     holds m p (enc_items its @ enc_obj_end) \<longrightarrow>
     typobj_loop fuel m savep p len acc = Ret (acc @ its) (p + length (enc_items its) + 3))"

lemma objs_ok_Suc:
  assumes "reads_ok fuel" "objs_ok fuel"
  shows "objs_ok (Suc fuel)"
  unfolding objs_ok_def
proof (intro allI impI)
  fix its :: "amf_item list" and m savep p and len :: u32 and acc
  assume wf: "wf_items its" and fuel: "length (enc_items its) + 1 < Suc fuel" and sp: "savep \<le> p"
    and len: "p - savep + length (enc_items its) + 3 \<le> unat len"
    and hold: "holds m p (enc_items its @ enc_obj_end)"
  show "typobj_loop (Suc fuel) m savep p len acc = Ret (acc @ its) (p + length (enc_items its) + 3)"
  proof (cases its)
    case Nil
    have hold': "holds m p (enc_str (snd (0, [0])))" and nine: "rd8 m (p + 2) = Some 9"
      using hold by (simp_all add: Nil enc_obj_end_def enc_str_nul holds_Cons holds_Nil)
    have "get_amf_string m p (rem len p savep) = Ret (0, [0]) (p + length (enc_str (snd (0 :: u16, [0]))))"
      using sp len hold' Nil by (intro get_string_holds) (simp_all add: wf_str_def cstr_def unat_rem enc_str_nul)
    then show ?thesis
      using nine by (simp add: amf_loops Nil enc_str_nul)
  next
    case (Cons it its')
    with wf obtain key v where it: "it = (key, [v])" and wf': "wf_str key" "wf_amf v" "wf_items its'"
      by (auto simp: wf_items_Cons)
    let ?q = "p + length (enc_str (snd key))"
    let ?r = "?q + length (enc_amf v)"
    have hold': "holds m p (enc_str (snd key))" "holds m ?q (enc_amf v)"
      "holds m ?r (enc_items its' @ enc_obj_end)"
      using hold by (simp_all add: Cons it holds_append add.assoc)
    have len': "p - savep + length (enc_str (snd key)) + length (enc_amf v) + length (enc_items its') + 3
        \<le> unat len"
      using len by (simp add: Cons it)
    have key: "get_amf_string m p (rem len p savep) = Ret key ?q"
      using wf'(1) hold'(1) sp len' by (intro get_string_holds) (simp_all add: unat_rem)
    obtain b bs where enc: "enc_amf v = b # bs" and b: "b \<noteq> 0x09"
      using enc_amf_head[OF wf'(2)] by blast
    then have rd: "rd8 m ?q = Some b"
      using hold'(2) by (simp add: holds_Cons)
    have pos: "0 < length (enc_amf v)"
      by (simp add: enc)
    have "2 \<le> length (enc_str (snd key))"
      by (simp add: enc_str_def Let_def)
    then have fuel': "length (enc_amf v) < fuel" "length (enc_items its') + 1 < fuel"
      using fuel pos by (simp_all add: Cons it)
    have val: "parse_amf_f fuel m ?q (rem len ?q savep) = Ret [v] ?r"
      using assms(1) wf'(2) hold'(2) fuel' sp len' unfolding reads_ok_def
      by (simp add: unat_rem)
    have rest: "typobj_loop fuel m savep ?r len (acc @ [it]) =
        Ret ((acc @ [it]) @ its') (?r + length (enc_items its') + 3)"
      using assms(2)[unfolded objs_ok_def] wf'(3) fuel'(2) sp len' hold'(3) by simp
    show ?thesis
      using key val rest rd b by (simp add: amf_loops Let_def Cons it)
  qed
qed

lemma reads_ok_Suc:
  assumes "reads_ok fuel" "objs_ok fuel"
  shows "reads_ok (Suc fuel)"
  unfolding reads_ok_def
proof (intro allI impI)
  fix v m p and len :: u32
  assume wf: "wf_amf v" and fuel: "length (enc_amf v) < Suc fuel"
    and len: "length (enc_amf v) \<le> unat len" and hold: "holds m p (enc_amf v)"
  obtain b bs where enc: "enc_amf v = b # bs"
    using enc_amf_head[OF wf] by blast
  then have len0: "len \<noteq> 0" and rd: "rd8 m p = Some b" and hold': "holds m (Suc p) bs"
    using len hold by (auto simp: holds_Cons)
  have rest: "unat (rem len (Suc p) p) = unat len - 1" and bs: "length bs \<le> unat len - 1"
    using len enc unat_rem[of p "Suc p" len] by auto
  note unfold = amf_loops(1)[of fuel m p len] Let_def
  show "parse_amf_f (Suc fuel) m p len = Ret [v] (p + length (enc_amf v))"
  proof (cases v)
    case (AmfNumber x)
    with enc hold' bs rest have "get_be64 m (Suc p) = Some (x, p + 9)" "\<not> rem len (Suc p) p < 8"
      using be64.get_holds[OF TrueI, of m "Suc p" x] by (auto simp: word_less_nat_alt)
    with enc rd len0 AmfNumber show ?thesis
      by (auto simp: unfold get_amf_number_def)
  next
    case (AmfBool c)
    with wf have "c = 0 \<or> c = 1" by simp
    with enc hold' bs rest AmfBool have "rd8 m (Suc p) = Some c" "rem len (Suc p) p \<noteq> 0"
      by (auto simp: holds_Cons)
    with enc rd len0 AmfBool show ?thesis
      by (auto simp: unfold get_amf_bool_def)
  next
    case (AmfString s)
    with enc hold' bs rest wf have "get_amf_string m (Suc p) (rem len (Suc p) p) =
        Ret s (Suc p + length (enc_str (snd s)))"
      by (intro get_string_holds) auto
    with enc rd len0 AmfString show ?thesis
      by (auto simp: unfold)
  next
    case (AmfObject its)
    with enc have bs': "bs = enc_items its @ enc_obj_end" and b: "b = 0x03" by auto
    have "typobj_loop fuel m (Suc p) (Suc p) (rem len (Suc p) p) [] =
        Ret ([] @ its) (Suc p + length (enc_items its) + 3)"
      using assms(2)[unfolded objs_ok_def] wf AmfObject fuel bs rest hold' unfolding bs' by simp
    with rd len0 AmfObject b show ?thesis
      by (simp add: unfold)
  next
    case (AmfAssoc sz its)
    have n2: "unat sz = length its"
      using wf by (simp add: AmfAssoc)
    have "of_nat (length its) = sz"
      by (simp flip: n2)
    note n = this n2
    from enc AmfAssoc have bs': "bs = be32 sz @ enc_items its @ enc_obj_end" and b: "b = 0x08"
      by (simp_all add: n)
    have hs: "holds m (Suc p) (be32 sz)" "holds m (p + 5) (enc_items its)"
      "holds m (p + 5 + length (enc_items its)) enc_obj_end"
      using hold' by (simp_all add: bs' holds_append eval_nat_numeral)
    have "get_be32 m (Suc p) = Some (sz, p + 5)"
      using be32.get_holds[OF TrueI hs(1)] by simp
    moreover have "assoc_loop fuel (unat sz) m (Suc p) (p + 5) (rem len (Suc p) p) [] =
        Ret ([] @ its) (p + 5 + length (enc_items its))"
      unfolding n(2) using assms(1) wf AmfAssoc fuel bs rest hs(2)
      by (intro assoc_loop_holds) (simp_all add: bs')
    moreover have "get_amf_obj_end m (p + 5 + length (enc_items its))
        (rem (rem len (Suc p) p) (p + 5 + length (enc_items its)) (Suc p)) =
        Ret () (p + 5 + length (enc_items its) + 3)"
      using hs(3) bs rest by (intro get_obj_end_holds) (simp_all add: bs' unat_rem)
    ultimately show ?thesis
      using rd len0 AmfAssoc b by (simp add: unfold n)
  next
    case (AmfArray sz arr)
    have n2: "unat sz = length arr"
      using wf by (simp add: AmfArray)
    have "of_nat (length arr) = sz"
      by (simp flip: n2)
    note n = this n2
    from enc AmfArray have bs': "bs = be32 sz @ enc_elems arr" and b: "b = 0x0A"
      by (simp_all add: n)
    have hs: "holds m (Suc p) (be32 sz)" "holds m (p + 5) (enc_elems arr)"
      using hold' by (simp_all add: bs' holds_append eval_nat_numeral)
    have "get_be32 m (Suc p) = Some (sz, p + 5)"
      using be32.get_holds[OF TrueI hs(1)] by simp
    moreover have "array_loop fuel (unat sz) m (Suc p) (p + 5) (rem len (Suc p) p) [] =
        Ret ([] @ arr) (p + 5 + length (enc_elems arr))"
      unfolding n(2) using assms(1) wf AmfArray fuel bs rest hs(2)
      by (intro array_loop_holds) (simp_all add: bs')
    ultimately show ?thesis
      using rd len0 AmfArray b by (simp add: unfold n)
  next
    case (AmfDate ms tz)
    from enc AmfDate have bs': "bs = be64 ms @ be16 tz" and b: "b = 0x0B" by auto
    have "get_be64 m (Suc p) = Some (ms, p + 9)" "get_be16 m (p + 9) = Some (tz, p + 11)"
      "\<not> rem len (Suc p) p < 10"
      using hold' bs rest be64.get_holds[OF TrueI, of m "Suc p" ms] be16.get_holds[OF TrueI, of m "p + 9" tz]
      by (auto simp: bs' holds_append word_less_nat_alt add.commute[of p])
    with rd len0 AmfDate b show ?thesis
      by (simp add: unfold get_amf_date_def)
  qed (use wf in auto)
qed

lemma reads_ok: "reads_ok fuel \<and> objs_ok fuel"
proof (induction fuel)
  case 0
  show ?case by (simp add: reads_ok_def objs_ok_def)
next
  case (Suc fuel)
  then show ?case by (auto intro: reads_ok_Suc objs_ok_Suc)
qed

lemma parse_holds:
  assumes "wf_amf v" "holds m p (enc_amf v)" "length (enc_amf v) \<le> unat len"
  shows "parse_amf m p len = Ret [v] (p + length (enc_amf v))"
proof -
  have "length (enc_amf v) < Suc (length m)"
    using assms(2) by (simp add: holds_def)
  then show ?thesis
    using assms reads_ok[of "Suc (length m)"] unfolding parse_amf_def reads_ok_def by blast
qed

section \<open>What the parser promises of its results\<close>

lemma obind_mono:
  assumes "obind x f \<noteq> OutOfFuel" "x \<noteq> OutOfFuel \<Longrightarrow> x' = x"
    "\<And>a p. x = Ret a p \<Longrightarrow> f a p \<noteq> OutOfFuel \<Longrightarrow> f' a p = f a p"
  shows "obind x' f' = obind x f"
  using assms by (cases x) auto

lemma omap_mono: "omap f x \<noteq> OutOfFuel \<Longrightarrow> (x \<noteq> OutOfFuel \<Longrightarrow> x' = x) \<Longrightarrow> omap f x' = omap f x"
  by (cases x) auto

text \<open>More fuel gives the same result.\<close>

lemma amf_fuel_Suc:
  "parse_amf_f fuel m p len \<noteq> OutOfFuel \<Longrightarrow> parse_amf_f (Suc fuel) m p len = parse_amf_f fuel m p len"
  "typobj_loop fuel m savep p len acc \<noteq> OutOfFuel \<Longrightarrow>
     typobj_loop (Suc fuel) m savep p len acc = typobj_loop fuel m savep p len acc"
  "assoc_loop fuel n m savep p len acc \<noteq> OutOfFuel \<Longrightarrow>
     assoc_loop (Suc fuel) n m savep p len acc = assoc_loop fuel n m savep p len acc"
  "array_loop fuel n m savep p len acc' \<noteq> OutOfFuel \<Longrightarrow>
     array_loop (Suc fuel) n m savep p len acc' = array_loop fuel n m savep p len acc'"
proof (induction fuel m p len and fuel m savep p len acc and fuel n m savep p len acc
    and fuel n m savep p len acc'
    rule: parse_amf_f_typobj_loop_assoc_loop_array_loop.induct)
  case (2 fuel m p len)
  show ?case
  proof (cases "len = 0 \<or> rd8 m p = None")
    case True
    then show ?thesis by (auto simp: amf_loops)
  next
    case False
    then obtain ty where len: "len \<noteq> 0" and Some: "rd8 m p = Some ty" by auto
    note IH = "2.IH"(1)[OF len Some refl refl] "2.IH"(2)[OF len Some refl refl]
      "2.IH"(3)[OF len Some refl refl]
    consider (obj) "ty = 0x03" | (assoc) "ty = 0x08" | (arr) "ty = 0x0A"
      | (other) "ty \<noteq> 0x03" "ty \<noteq> 0x08" "ty \<noteq> 0x0A" by blast
    then show ?thesis
    proof cases
      case obj
      with len Some "2.prems" IH(1) show ?thesis
        by (auto simp: amf_loops(1) Let_def intro!: omap_mono)
    next
      case assoc
      with len Some "2.prems" IH(2) show ?thesis
        by (auto simp: amf_loops(1) Let_def intro!: obind_mono)
    next
      case arr
      with len Some "2.prems" IH(3) show ?thesis
        by (auto simp: amf_loops(1) Let_def intro!: obind_mono omap_mono)
    next
      case other
      with len Some show ?thesis
        by (simp add: amf_loops(1) Let_def)
    qed
  qed
next
  case (4 fuel m savep p len acc)
  show ?case
    unfolding amf_loops(2)[of "Suc fuel" m savep p len acc] amf_loops(2)[of fuel m savep p len acc]
  proof (rule obind_mono, goal_cases)
    case (3 key q)
    with "4.IH" show ?case
      by (cases key) (auto simp: Let_def intro!: obind_mono split: option.splits if_splits)
  qed (use "4.prems" in \<open>simp_all add: amf_loops(2)\<close>)
next
  case (6 fuel n m savep p len acc)
  then show ?case
    by (auto intro!: obind_mono)
next
  case (8 fuel n m savep p len acc)
  then show ?case
    by (auto intro!: obind_mono)
qed simp_all

lemma parse_amf_fuel_add:
  "parse_amf_f fuel m p len \<noteq> OutOfFuel \<Longrightarrow> parse_amf_f (fuel + k) m p len = parse_amf_f fuel m p len"
  by (induction k) (simp_all add: amf_fuel_Suc(1))

text \<open>A string the reader made ends in a NUL, and a call of \<open>parse_amf\<close> links at most one value.\<close>

lemma get_amf_string_nul: "get_amf_string m p len = Ret s q \<Longrightarrow> 0 \<in> set (snd s)"
  by (auto simp: get_amf_string_def obind_Ret_iff split: if_splits option.splits)

lemma nul_items_append [simp]: "nul_items (its @ its') \<longleftrightarrow> nul_items its \<and> nul_items its'"
  by (induction its) auto

lemma nul_elems_append [simp]: "nul_elems (arr @ arr') \<longleftrightarrow> nul_elems arr \<and> nul_elems arr'"
  by (induction arr) auto

lemma amf_results:
  "parse_amf_f fuel m p len = Ret vs q \<Longrightarrow> length vs \<le> 1 \<and> nul_list vs"
  "typobj_loop fuel m savep p len acc = Ret its q \<Longrightarrow> nul_items acc \<Longrightarrow> nul_items its"
  "assoc_loop fuel n m savep p len acc = Ret its q \<Longrightarrow> nul_items acc \<Longrightarrow>
     nul_items its \<and> length its = length acc + n"
  "array_loop fuel n m savep p len acc' = Ret arr q \<Longrightarrow> nul_elems acc' \<Longrightarrow>
     nul_elems arr \<and> length arr = length acc' + n"
proof (induction fuel m p len and fuel m savep p len acc and fuel n m savep p len acc
    and fuel n m savep p len acc' arbitrary: vs q and its q and its q and arr q
    rule: parse_amf_f_typobj_loop_assoc_loop_array_loop.induct)
  case (2 fuel m p len)
  show ?case
  proof (cases "len = 0")
    case True
    with "2.prems" show ?thesis by (auto simp: amf_loops)
  next
    case False
    with "2.prems" obtain ty where ty: "rd8 m p = Some ty"
      by (auto simp: amf_loops split: option.splits)
    note IH = "2.IH"(1)[OF False ty refl refl] "2.IH"(2)[OF False ty refl refl]
      "2.IH"(3)[OF False ty refl refl]
    consider (obj) "ty = 0x03" | (assoc) "ty = 0x08" | (arr) "ty = 0x0A"
      | (other) "ty \<noteq> 0x03" "ty \<noteq> 0x08" "ty \<noteq> 0x0A" by blast
    then show ?thesis
    proof cases
      case obj
      with "2.prems" False ty IH(1) show ?thesis
        by (auto simp: amf_loops Let_def omap_Ret_iff)
    next
      case assoc
      with "2.prems" False ty IH(2) show ?thesis
        by (fastforce simp: amf_loops Let_def obind_Ret_iff omap_Ret_iff of_rd_Ret)
    next
      case arr
      with "2.prems" False ty IH(3) show ?thesis
        by (fastforce simp: amf_loops Let_def obind_Ret_iff omap_Ret_iff of_rd_Ret)
    next
      case other
      with "2.prems" False ty show ?thesis
        by (auto simp: amf_loops Let_def omap_Ret_iff split: if_splits dest!: get_amf_string_nul)
    qed
  qed
next
  case (4 fuel m savep p len acc)
  then show ?case
    by (fastforce simp: amf_loops Let_def obind_Ret_iff split: if_splits option.splits
        dest!: get_amf_string_nul)
next
  case (6 fuel n m savep p len acc)
  then show ?case
    by (fastforce simp: obind_Ret_iff dest!: get_amf_string_nul)
next
  case (8 fuel n m savep p len acc)
  then show ?case
    by (fastforce simp: obind_Ret_iff)
qed simp_all

section \<open>Properties\<close>

text \<open>
  C4: amf_roundtrip. What \<open>strm_amf_list\<close> streams for a well-formed value,
  \<open>parse_amf\<close> reads back: the writer succeeds, and the reader, told at least as many bytes
  as were written, returns that one value and stops at the writer's end. Strings, booleans, dates,
  numbers and arbitrarily nested objects and arrays.
\<close>

theorem amf_roundtrip:
  assumes "wf_amf v" "p \<le> length m" "strm_amf_list m p [v] = Some (ok, m', q)" "q - p \<le> unat len"
  shows "ok \<and> parse_amf m' p len = Ret [v] q"
proof -
  have "emits (strm_amf_list m p [v]) m p (enc_amf v)"
    using strm_emits(2)[of "[v]" m p p] wf_nul(1)[OF assms(1)] by (simp add: strm_amf_list_def)
  with assms(2,3) have fits: "p + length (enc_amf v) \<le> length m"
    and res: "ok" "m' = splice m p (enc_amf v)" "q = p + length (enc_amf v)"
    by (auto simp: emits_def split: if_splits)
  have "parse_amf m' p len = Ret [v] (p + length (enc_amf v))"
    using assms(1,4) fits by (intro parse_holds) (simp_all add: res holds_splice)
  with res show ?thesis by simp
qed

definition sample_amf :: amf where
  "sample_amf = AmfObject [((1, [97, 0]), [AmfNumber 5]), ((1, [98, 0]), [AmfBool 1])]"

lemma sample_amf_enc:
  "enc_amf sample_amf = [3, 0, 1, 97, 0, 0, 0, 0, 0, 0, 0, 0, 5, 0, 1, 98, 1, 1, 0, 0, 9]"
  by (simp add: sample_amf_def enc_str_def cstr_def be16_def be64_def be32_def enc_obj_end_def)

theorem amf_roundtrip_witness:
  "\<exists>m'. strm_amf_list (replicate 32 0) 4 [sample_amf] = Some (True, m', 25) \<and>
     parse_amf m' 4 21 = Ret [sample_amf] 25"
proof -
  have wf: "wf_amf sample_amf"
    by (simp add: sample_amf_def wf_str_def cstr_def)
  have w: "strm_amf_list (replicate 32 0) 4 [sample_amf] =
      Some (True, splice (replicate 32 0) 4 (enc_amf sample_amf), 25)"
    using strm_emits(2)[of "[sample_amf]" "replicate 32 0" 4 4] wf_nul(1)[OF wf]
    by (simp add: strm_amf_list_def emits_def sample_amf_enc)
  then show ?thesis
    using amf_roundtrip[OF wf _ w, of 21] by simp
qed

text \<open>
  C22: strm_amf_list_writes. \<open>strm_amf_list\<close> stores exactly the encoding
  \<open>enc_list\<close> of its list at the pointer, moves the pointer past it and returns 0: its -1
  branches are never taken. It writes past the end of the buffer exactly when the encoding does not fit,
  because no writer checks the space left.
\<close>

theorem strm_amf_list_writes:
  assumes "nul_list vs" "p \<le> length m"
  shows "strm_amf_list m p vs =
    (if p + length (enc_list vs) \<le> length m
     then Some (True, splice m p (enc_list vs), p + length (enc_list vs)) else None)"
  using strm_emits(2)[OF assms(1), of m p p] assms(2) by (simp add: strm_amf_list_def emits_def)

theorem strm_amf_list_writes_witness:
  "strm_amf_list [7, 7, 7] 1 [AmfBool 9] = Some (True, [7, 1, 1], 3) \<and>
   strm_amf_list [7, 7, 7] 2 [AmfBool 9] = None"
  using strm_amf_list_writes[of "[AmfBool 9]" 1 "[7, 7, 7]"]
    strm_amf_list_writes[of "[AmfBool 9]" 2 "[7, 7, 7]"]
  by (simp_all add: splice_def)

text \<open>
  C23: parse_amf_terminates. \<open>parse_amf\<close> returns on every input: with the fuel \<open>Suc
  (length m)\<close> the recursion through nested objects and arrays never runs out, whatever the bytes,
  and any larger fuel gives the same outcome.
\<close>

theorem parse_amf_terminates:
  "parse_amf m p len \<noteq> OutOfFuel \<and> parse_amf_f (Suc (length m) + k) m p len = parse_amf m p len"
proof -
  have "parse_amf_f (Suc (length m)) m p len \<noteq> OutOfFuel"
    by (rule amf_enough(1)) simp
  then show ?thesis
    by (simp add: parse_amf_def parse_amf_fuel_add del: add_Suc)
qed

text \<open>
  Parse amf result: A successful \<open>parse_amf\<close> links at most one value to its list and does
  not move the pointer back; and every string buffer below that value holds a NUL, so the value can be
  streamed again without reading past a buffer.
\<close>

theorem parse_amf_result:
  assumes "parse_amf m p len = Ret vs q"
  shows "p \<le> q \<and> length vs \<le> 1 \<and> nul_list vs"
  using assms amf_mono(1) amf_results(1) unfolding parse_amf_def by blast

lemma parse_bool_eq: "parse_amf [0x01, 7] 0 2 = Ret [AmfBool 7] 2"
  by (simp add: parse_amf_def amf_loops rd8_def Let_def get_amf_bool_def rem_def)

theorem parse_amf_result_witness: "(0::nat) \<le> 2 \<and> length [AmfBool 7] \<le> 1 \<and> nul_list [AmfBool 7]"
  using parse_amf_result[OF parse_bool_eq] .

text \<open>
  Get amf array overread: \<open>get_amf_array\<close> reads its count without looking at the length it
  was given, and then computes the rest of that length modulo \<open>2 ^ 32\<close>. So a packet
  declared to hold one byte, the array marker, makes \<open>parse_amf\<close> accept any value that
  follows it in memory, far past the declared end.
\<close>

theorem get_amf_array_overread:
  assumes "wf_amf v" "length (enc_amf v) \<le> 2 ^ 32 - 4"
  shows "parse_amf (0x0A # be32 1 @ enc_amf v) 0 1 = Ret [AmfArray 1 [[v]]] (5 + length (enc_amf v))"
proof -
  let ?m = "0x0A # be32 1 @ enc_amf v"
  have hold: "holds ?m 0 (0x0A # be32 1 @ enc_amf v)"
    by (simp add: holds_def)
  then have cnt: "holds ?m 1 (be32 1)" and val: "holds ?m 5 (enc_amf v)" and rd: "rd8 ?m 0 = Some 0x0A"
    by (simp_all add: holds_Cons holds_append)
  have sz: "get_be32 ?m 1 = Some (1, 5)"
    using be32.get_holds[OF TrueI cnt] by simp
  have "unat (rem (rem 1 1 0) 5 1) = 2 ^ 32 - 4"
    by (simp add: rem_def)
  then have "parse_amf_f (length ?m) ?m 5 (rem (rem 1 1 0) 5 1) = Ret [v] (5 + length (enc_amf v))"
    using reads_ok[of "length ?m"] assms val unfolding reads_ok_def by simp
  then show ?thesis
    using sz rd by (simp add: parse_amf_def amf_loops Let_def del: length_Cons length_append)
qed

theorem get_amf_array_overread_witness:
  "parse_amf (0x0A # be32 1 @ enc_amf (AmfBool 1)) 0 1 = Ret [AmfArray 1 [[AmfBool 1]]] 7"
  using get_amf_array_overread[of "AmfBool 1"] by simp

text \<open>
  Amf null dropped: \<open>strm_amf_list\<close> writes nothing for a null value but keeps its key, so
  an object that \<open>parse_amf\<close> accepted is streamed to bytes that \<open>parse_amf\<close>
  rejects.
\<close>

theorem amf_null_dropped:
  "parse_amf [3, 0, 1, 97, 5, 0, 0, 9] 0 8 = Ret [AmfObject [((1, [97, 0]), [AmfNull])]] 8 \<and>
   (\<exists>m'. strm_amf_list (replicate 7 0) 0 [AmfObject [((1, [97, 0]), [AmfNull])]] = Some (True, m', 7) \<and>
     parse_amf m' 0 7 = Err 5)"
proof (intro conjI exI)
  show "parse_amf [3, 0, 1, 97, 5, 0, 0, 9] 0 8 = Ret [AmfObject [((1, [97, 0]), [AmfNull])]] 8"
    by code_simp
  show "strm_amf_list (replicate 7 0) 0 [AmfObject [((1, [97, 0]), [AmfNull])]] =
      Some (True, [3, 0, 1, 97, 0, 0, 9], 7)"
    using strm_emits(2)[of "[AmfObject [((1, [97, 0]), [AmfNull])]]" "replicate 7 0" 0 0]
    by (simp add: strm_amf_list_def emits_def enc_str_def cstr_def be16_def enc_obj_end_def splice_def)
  show "parse_amf [3, 0, 1, 97, 0, 0, 9] 0 7 = Err 5"
    by code_simp
qed

end
