(* ===== verification/ListHead.thy ===== *)
theory ListHead
  imports Prelude
begin

text \<open>
  The intrusive doubly linked list of \<open>src/src/xutil/list.h\<close>, on an explicit store from
  addresses to \<open>list_head\<close> cells. An operation is \<open>None\<close> when it dereferences an address that
  holds no cell. \<open>lst s h xs\<close> is the abstraction: from the head \<open>h\<close> the ring goes through the
  entries \<open>xs\<close> and back. Every operation is shown to implement its list counterpart and to
  leave lists elsewhere alone; the locale \<open>linked_list\<close> is that contract for the clients.
\<close>

section \<open>The store\<close>

type_synonym addr = nat

record list_head =
  lh_next :: addr
  lh_prev :: addr

type_synonym lstore = "addr \<rightharpoonup> list_head"

definition LIST_POISON1 :: addr where "LIST_POISON1 = 0x00100100"
definition LIST_POISON2 :: addr where "LIST_POISON2 = 0x00200200"

definition nxt :: "lstore \<Rightarrow> addr \<Rightarrow> addr option" where
  "nxt s p = map_option lh_next (s p)"

definition prv :: "lstore \<Rightarrow> addr \<Rightarrow> addr option" where
  "prv s p = map_option lh_prev (s p)"

definition set_next :: "lstore \<Rightarrow> addr \<Rightarrow> addr \<Rightarrow> lstore option" where
  "set_next s p v = (case s p of None \<Rightarrow> None | Some c \<Rightarrow> Some (s(p \<mapsto> c\<lparr>lh_next := v\<rparr>)))"

definition set_prev :: "lstore \<Rightarrow> addr \<Rightarrow> addr \<Rightarrow> lstore option" where
  "set_prev s p v = (case s p of None \<Rightarrow> None | Some c \<Rightarrow> Some (s(p \<mapsto> c\<lparr>lh_prev := v\<rparr>)))"

section \<open>The operations\<close>

definition INIT_LIST_HEAD :: "lstore \<Rightarrow> addr \<Rightarrow> lstore option" where
  "INIT_LIST_HEAD s p = do { s \<leftarrow> set_next s p p; set_prev s p p }"

text \<open>\<open>__list_add\<close> and \<open>__list_del\<close>, the internal operations.\<close>

definition raw_list_add :: "lstore \<Rightarrow> addr \<Rightarrow> addr \<Rightarrow> addr \<Rightarrow> lstore option" where
  "raw_list_add s n pre nx = do {
     s \<leftarrow> set_prev s nx n;
     s \<leftarrow> set_next s n nx;
     s \<leftarrow> set_prev s n pre;
     set_next s pre n }"

definition list_add :: "lstore \<Rightarrow> addr \<Rightarrow> addr \<Rightarrow> lstore option" where
  "list_add s n head = do { nx \<leftarrow> nxt s head; raw_list_add s n head nx }"

definition list_add_tail :: "lstore \<Rightarrow> addr \<Rightarrow> addr \<Rightarrow> lstore option" where
  "list_add_tail s n head = do { pre \<leftarrow> prv s head; raw_list_add s n pre head }"

definition raw_list_del :: "lstore \<Rightarrow> addr \<Rightarrow> addr \<Rightarrow> lstore option" where
  "raw_list_del s pre nx = do { s \<leftarrow> set_prev s nx pre; set_next s pre nx }"

definition list_del :: "lstore \<Rightarrow> addr \<Rightarrow> lstore option" where
  "list_del s entry = do {
     pre \<leftarrow> prv s entry; nx \<leftarrow> nxt s entry;
     s \<leftarrow> raw_list_del s pre nx;
     s \<leftarrow> set_next s entry LIST_POISON1;
     set_prev s entry LIST_POISON2 }"

definition list_del_init :: "lstore \<Rightarrow> addr \<Rightarrow> lstore option" where
  "list_del_init s entry = do {
     pre \<leftarrow> prv s entry; nx \<leftarrow> nxt s entry;
     s \<leftarrow> raw_list_del s pre nx;
     INIT_LIST_HEAD s entry }"

definition list_move :: "lstore \<Rightarrow> addr \<Rightarrow> addr \<Rightarrow> lstore option" where
  "list_move s l head = do {
     pre \<leftarrow> prv s l; nx \<leftarrow> nxt s l;
     s \<leftarrow> raw_list_del s pre nx;
     list_add s l head }"

definition list_move_tail :: "lstore \<Rightarrow> addr \<Rightarrow> addr \<Rightarrow> lstore option" where
  "list_move_tail s l head = do {
     pre \<leftarrow> prv s l; nx \<leftarrow> nxt s l;
     s \<leftarrow> raw_list_del s pre nx;
     list_add_tail s l head }"

definition list_empty :: "lstore \<Rightarrow> addr \<Rightarrow> bool option" where
  "list_empty s head = do { nx \<leftarrow> nxt s head; Some (nx = head) }"

definition list_empty_careful :: "lstore \<Rightarrow> addr \<Rightarrow> bool option" where
  "list_empty_careful s head = do {
     nx \<leftarrow> nxt s head; pre \<leftarrow> prv s head; Some (nx = head \<and> nx = pre) }"

definition raw_list_splice :: "lstore \<Rightarrow> addr \<Rightarrow> addr \<Rightarrow> lstore option" where
  "raw_list_splice s l head = do {
     first \<leftarrow> nxt s l; last \<leftarrow> prv s l; at \<leftarrow> nxt s head;
     s \<leftarrow> set_prev s first head;
     s \<leftarrow> set_next s head first;
     s \<leftarrow> set_next s last at;
     set_prev s at last }"

definition list_splice :: "lstore \<Rightarrow> addr \<Rightarrow> addr \<Rightarrow> lstore option" where
  "list_splice s l head = do {
     e \<leftarrow> list_empty s l;
     if \<not> e then raw_list_splice s l head else Some s }"

definition list_splice_init :: "lstore \<Rightarrow> addr \<Rightarrow> addr \<Rightarrow> lstore option" where
  "list_splice_init s l head = do {
     e \<leftarrow> list_empty s l;
     if \<not> e then do { s \<leftarrow> raw_list_splice s l head; INIT_LIST_HEAD s l } else Some s }"

text \<open>
  The loop macros with the fuel of their iterations: \<open>list_for_each\<close> and \<open>list_for_each_prev\<close>
  fold a body over the entries; \<open>list_for_each_safe\<close> reads the successor before the body runs,
  so the body may unlink its entry. The outer option is undefined behaviour or no fuel.
\<close>

fun for_each_from :: "nat \<Rightarrow> lstore \<Rightarrow> addr \<Rightarrow> addr \<Rightarrow> addr list option" where
  "for_each_from 0 s head pos = None"
| "for_each_from (Suc f) s head pos = do {
     nx \<leftarrow> nxt s pos;
     if pos = head then Some [] else map_option (Cons pos) (for_each_from f s head nx) }"

definition list_for_each :: "nat \<Rightarrow> lstore \<Rightarrow> addr \<Rightarrow> addr list option" where
  "list_for_each f s head = do { pos \<leftarrow> nxt s head; for_each_from f s head pos }"

fun for_each_prev_from :: "nat \<Rightarrow> lstore \<Rightarrow> addr \<Rightarrow> addr \<Rightarrow> addr list option" where
  "for_each_prev_from 0 s head pos = None"
| "for_each_prev_from (Suc f) s head pos = do {
     pre \<leftarrow> prv s pos;
     if pos = head then Some [] else map_option (Cons pos) (for_each_prev_from f s head pre) }"

definition list_for_each_prev :: "nat \<Rightarrow> lstore \<Rightarrow> addr \<Rightarrow> addr list option" where
  "list_for_each_prev f s head = do { pos \<leftarrow> prv s head; for_each_prev_from f s head pos }"

fun for_each_safe_from ::
  "nat \<Rightarrow> (lstore \<Rightarrow> addr \<Rightarrow> lstore option) \<Rightarrow> lstore \<Rightarrow> addr \<Rightarrow> addr \<Rightarrow> addr \<Rightarrow> lstore option" where
  "for_each_safe_from 0 body s head pos n = None"
| "for_each_safe_from (Suc f) body s head pos n =
     (if pos = head then Some s
      else do { s \<leftarrow> body s pos; n' \<leftarrow> nxt s n; for_each_safe_from f body s head n n' })"

definition list_for_each_safe ::
  "nat \<Rightarrow> (lstore \<Rightarrow> addr \<Rightarrow> lstore option) \<Rightarrow> lstore \<Rightarrow> addr \<Rightarrow> lstore option" where
  "list_for_each_safe f body s head = do {
     pos \<leftarrow> nxt s head; n \<leftarrow> nxt s pos; for_each_safe_from f body s head pos n }"

section \<open>Reads after writes\<close>

lemma set_next_Some:
  assumes "p \<in> dom s"
  obtains s' where "set_next s p v = Some s'" "dom s' = dom s"
    "\<And>x. nxt s' x = (if x = p then Some v else nxt s x)" "\<And>x. prv s' x = prv s x"
  using assms by (fastforce simp: set_next_def nxt_def prv_def split: option.splits)

lemma set_prev_Some:
  assumes "p \<in> dom s"
  obtains s' where "set_prev s p v = Some s'" "dom s' = dom s"
    "\<And>x. prv s' x = (if x = p then Some v else prv s x)" "\<And>x. nxt s' x = nxt s x"
  using assms by (fastforce simp: set_prev_def nxt_def prv_def split: option.splits)

lemma nxt_dom: "nxt s p = Some q \<Longrightarrow> p \<in> dom s"
  by (auto simp: nxt_def)

lemma prv_dom: "prv s p = Some q \<Longrightarrow> p \<in> dom s"
  by (auto simp: prv_def)

lemma raw_list_add_Some:
  assumes "n \<in> dom s" "pre \<in> dom s" "nx \<in> dom s" "n \<noteq> pre" "n \<noteq> nx"
  obtains s' where "raw_list_add s n pre nx = Some s'" "dom s' = dom s"
    "\<And>x. nxt s' x = (if x = pre then Some n else if x = n then Some nx else nxt s x)"
    "\<And>x. prv s' x = (if x = nx then Some n else if x = n then Some pre else prv s x)"
proof -
  obtain s1 where s1: "set_prev s nx n = Some s1" "dom s1 = dom s"
    "\<And>x. prv s1 x = (if x = nx then Some n else prv s x)" "\<And>x. nxt s1 x = nxt s x"
    using set_prev_Some[OF assms(3)] by blast
  obtain s2 where s2: "set_next s1 n nx = Some s2" "dom s2 = dom s"
    "\<And>x. nxt s2 x = (if x = n then Some nx else nxt s1 x)" "\<And>x. prv s2 x = prv s1 x"
    using set_next_Some[of n s1 nx] assms(1) s1(2) by auto
  obtain s3 where s3: "set_prev s2 n pre = Some s3" "dom s3 = dom s"
    "\<And>x. prv s3 x = (if x = n then Some pre else prv s2 x)" "\<And>x. nxt s3 x = nxt s2 x"
    using set_prev_Some[of n s2 pre] assms(1) s2(2) by auto
  obtain s4 where s4: "set_next s3 pre n = Some s4" "dom s4 = dom s"
    "\<And>x. nxt s4 x = (if x = pre then Some n else nxt s3 x)" "\<And>x. prv s4 x = prv s3 x"
    using set_next_Some[of pre s3 n] assms(2) s3(2) by auto
  show thesis
    using assms(4,5) by (intro that[of s4]) (simp_all add: raw_list_add_def s1 s2 s3 s4)
qed

lemma raw_list_del_Some:
  assumes "pre \<in> dom s" "nx \<in> dom s"
  obtains s' where "raw_list_del s pre nx = Some s'" "dom s' = dom s"
    "\<And>x. nxt s' x = (if x = pre then Some nx else nxt s x)"
    "\<And>x. prv s' x = (if x = nx then Some pre else prv s x)"
proof -
  obtain s1 where s1: "set_prev s nx pre = Some s1" "dom s1 = dom s"
    "\<And>x. prv s1 x = (if x = nx then Some pre else prv s x)" "\<And>x. nxt s1 x = nxt s x"
    using set_prev_Some[OF assms(2)] by blast
  obtain s2 where s2: "set_next s1 pre nx = Some s2" "dom s2 = dom s"
    "\<And>x. nxt s2 x = (if x = pre then Some nx else nxt s1 x)" "\<And>x. prv s2 x = prv s1 x"
    using set_next_Some[of pre s1 nx] assms(1) s1(2) by auto
  show thesis
    by (intro that[of s2]) (simp_all add: raw_list_del_def s1 s2)
qed

lemma set_both_Some:
  assumes "p \<in> dom s"
  obtains s' where "do { s \<leftarrow> set_next s p a; set_prev s p b } = Some s'" "dom s' = dom s"
    "\<And>x. nxt s' x = (if x = p then Some a else nxt s x)"
    "\<And>x. prv s' x = (if x = p then Some b else prv s x)"
proof -
  obtain s1 where s1: "set_next s p a = Some s1" "dom s1 = dom s"
    "\<And>x. nxt s1 x = (if x = p then Some a else nxt s x)" "\<And>x. prv s1 x = prv s x"
    using set_next_Some[OF assms] by blast
  obtain s2 where s2: "set_prev s1 p b = Some s2" "dom s2 = dom s"
    "\<And>x. prv s2 x = (if x = p then Some b else prv s1 x)" "\<And>x. nxt s2 x = nxt s1 x"
    using set_prev_Some[of p s1 b] assms s1(2) by auto
  show thesis
    by (intro that[of s2]) (simp_all add: s1 s2)
qed

section \<open>The ring of a list\<close>

fun chain :: "lstore \<Rightarrow> addr list \<Rightarrow> bool" where
  "chain s (x # y # zs) \<longleftrightarrow> nxt s x = Some y \<and> prv s y = Some x \<and> chain s (y # zs)"
| "chain s _ \<longleftrightarrow> True"

definition lst :: "lstore \<Rightarrow> addr \<Rightarrow> addr list \<Rightarrow> bool" where
  "lst s h xs \<longleftrightarrow> distinct (h # xs) \<and> chain s (h # xs @ [h])"

lemma chain_append: "chain s (us @ a # vs) \<longleftrightarrow> chain s (us @ [a]) \<and> chain s (a # vs)"
  by (induction us rule: chain.induct[where ?a0.0 = s]) (auto simp: neq_Nil_conv)

lemma chain_frame:
  assumes "\<And>x. x \<in> set (butlast zs) \<Longrightarrow> nxt s' x = nxt s x"
    and "\<And>y. y \<in> set (tl zs) \<Longrightarrow> prv s' y = prv s y"
  shows "chain s' zs = chain s zs"
  using assms by (induction s zs rule: chain.induct) auto

lemma chain_dom: "chain s zs \<Longrightarrow> set (butlast zs) \<subseteq> dom s"
  by (induction s zs rule: chain.induct) (auto dest: nxt_dom)

lemma lst_dom: "lst s h xs \<Longrightarrow> insert h (set xs) \<subseteq> dom s"
  using chain_dom[of s "h # xs @ [h]"] by (auto simp: lst_def butlast_append)

lemma lst_frame:
  assumes "\<And>x. x \<in> set (h # xs) \<Longrightarrow> nxt s' x = nxt s x \<and> prv s' x = prv s x"
  shows "lst s' h xs = lst s h xs"
proof -
  have "chain s' (h # xs @ [h]) = chain s (h # xs @ [h])"
    using assms by (intro chain_frame) (auto simp: butlast_append)
  then show ?thesis by (simp add: lst_def)
qed

text \<open>
  A ring written as \<open>us @ a # ms @ b # vs\<close>: reads at \<open>a\<close> and \<open>b\<close> are the two ends of the part
  that an operation rewires. \<open>chain_rewire\<close> is the one lemma behind every operation.
\<close>

lemma ring_split:
  assumes "distinct (h # xs)" "h # xs @ [h] = us @ a # ms @ b # vs"
  shows "a \<notin> set us" "a \<notin> set (butlast (b # vs))" "b \<notin> set vs" "b \<notin> set (tl (us @ [a]))"
    "set us \<subseteq> set (h # xs)" "set (b # vs) \<subseteq> set (h # xs)" "a \<in> set (h # xs)"
proof -
  have "h # xs = butlast (h # xs @ [h])"
    by (simp add: butlast_append)
  also have "\<dots> = us @ a # ms @ butlast (b # vs)"
    by (simp add: assms(2) butlast_append)
  finally have front: "h # xs = us @ a # ms @ butlast (b # vs)" .
  have "xs @ [h] = tl (h # xs @ [h])" by simp
  also have "\<dots> = tl (us @ [a]) @ ms @ b # vs"
    by (simp add: assms(2) tl_append split: list.split)
  finally have rear: "xs @ [h] = tl (us @ [a]) @ ms @ b # vs" .
  have "distinct (xs @ [h])" using assms(1) by auto
  then show "b \<notin> set vs" "b \<notin> set (tl (us @ [a]))"
    unfolding rear by auto
  show "a \<notin> set us" "a \<notin> set (butlast (b # vs))"
    using assms(1) unfolding front by auto
  have "set (h # xs) = set (xs @ [h])" by auto
  then show "set (b # vs) \<subseteq> set (h # xs)" unfolding rear by auto
  show "set us \<subseteq> set (h # xs)" "a \<in> set (h # xs)"
    unfolding front by auto
qed

lemma chain_rewire:
  assumes ring: "distinct (h # xs)" "h # xs @ [h] = us @ a # ms @ b # vs"
    and old: "chain s (h # xs @ [h])"
    and same: "\<And>x. x \<in> set (h # xs) \<Longrightarrow> x \<noteq> a \<Longrightarrow> nxt s' x = nxt s x"
      "\<And>x. x \<in> set (h # xs) \<Longrightarrow> x \<noteq> b \<Longrightarrow> prv s' x = prv s x"
    and new: "chain s' (a # ns @ [b])"
  shows "chain s' (us @ a # ns @ b # vs)"
proof -
  note sp = ring_split[OF ring]
  have "chain s ((us @ a # ms) @ b # vs)" "chain s (us @ a # (ms @ b # vs))"
    using old ring(2) by simp_all
  then have "chain s (us @ [a])" "chain s (b # vs)"
    using chain_append by blast+
  moreover have "set (tl (us @ [a])) \<subseteq> set (h # xs)"
    using sp(5,7) by (cases us) auto
  then have "chain s' (us @ [a]) = chain s (us @ [a])"
    using sp by (intro chain_frame same) auto
  moreover have "set (butlast (b # vs)) \<subseteq> set (h # xs)"
    using sp(6) by (meson in_set_butlastD subset_code(1))
  then have "chain s' (b # vs) = chain s (b # vs)"
    using sp by (intro chain_frame same) (auto simp del: butlast.simps)
  ultimately show ?thesis
    using new chain_append[of s' us a "ns @ b # vs"] chain_append[of s' "a # ns" b vs]
    by simp
qed

section \<open>Each operation on the ring\<close>

text \<open>The stores differ at most at the addresses \<open>A\<close>.\<close>

definition agree_off :: "addr set \<Rightarrow> lstore \<Rightarrow> lstore \<Rightarrow> bool" where
  "agree_off A s s' \<longleftrightarrow> dom s' = dom s \<and> (\<forall>x. x \<notin> A \<longrightarrow> nxt s' x = nxt s x \<and> prv s' x = prv s x)"

lemma agree_off_trans: "agree_off A s t \<Longrightarrow> agree_off A t u \<Longrightarrow> agree_off A s u"
  by (simp add: agree_off_def)

lemma agree_off_mono: "agree_off A s t \<Longrightarrow> A \<subseteq> B \<Longrightarrow> agree_off B s t"
  by (auto simp: agree_off_def)

lemma agree_off_lst: "agree_off A s s' \<Longrightarrow> A \<inter> insert h (set xs) = {} \<Longrightarrow> lst s' h xs = lst s h xs"
  by (rule lst_frame) (auto simp: agree_off_def)

lemma agree_off_lst2:
  "agree_off A s s' \<Longrightarrow> \<forall>g zs. insert g (set zs) \<inter> A = {} \<longrightarrow> lst s' g zs = lst s g zs"
  using agree_off_lst by (metis Int_commute)

lemma hd_split: obtains b vs where "xs @ [h] = b # vs" "b \<in> insert h (set xs)"
  by (cases xs) auto

lemma last_split: obtains us a where "h # xs = us @ [a]" "a \<in> insert h (set xs)"
  by (metis append_butlast_last_id last_in_set list.distinct(1) list.simps(15))

lemma lst_first: "lst s h xs \<Longrightarrow> xs @ [h] = b # vs \<Longrightarrow> nxt s h = Some b"
  by (simp add: lst_def)

lemma lst_last: "lst s h xs \<Longrightarrow> h # xs = us @ [a] \<Longrightarrow> prv s h = Some a"
proof -
  assume l: "lst s h xs" and a: "h # xs = us @ [a]"
  from l have "chain s ((h # xs) @ [h])" by (simp add: lst_def)
  then show "prv s h = Some a"
    unfolding a using chain_append[of s us a "[h]"] by simp
qed

lemma raw_list_add_ring:
  assumes l: "lst s h xs" and split: "h # xs @ [h] = us @ a # b # vs"
    and n: "n \<in> dom s" "n \<notin> insert h (set xs)"
  obtains s' where "raw_list_add s n a b = Some s'" "chain s' (us @ a # n # b # vs)"
    "agree_off (insert n (insert h (set xs))) s s'"
proof -
  have ring: "distinct (h # xs)" and old: "chain s (h # xs @ [h])"
    using l by (auto simp: lst_def)
  have split': "h # xs @ [h] = us @ a # [] @ b # vs"
    using split by simp
  note sp = ring_split[OF ring split']
  have ab: "a \<in> insert h (set xs)" "b \<in> insert h (set xs)" "a \<in> dom s" "b \<in> dom s" "n \<noteq> a" "n \<noteq> b"
    using sp lst_dom[OF l] n by auto
  obtain s' where s': "raw_list_add s n a b = Some s'" "dom s' = dom s"
    "\<And>x. nxt s' x = (if x = a then Some n else if x = n then Some b else nxt s x)"
    "\<And>x. prv s' x = (if x = b then Some n else if x = n then Some a else prv s x)"
    using raw_list_add_Some[OF n(1) ab(3-6)] by blast
  have "chain s' (us @ a # [n] @ b # vs)"
    using n(2) ab(5,6) by (intro chain_rewire[OF ring split' old]) (auto simp: s')
  moreover have "agree_off (insert n (insert h (set xs))) s s'"
    using ab by (auto simp: agree_off_def s')
  ultimately show thesis using that s'(1) by simp
qed

lemma list_add_ok:
  assumes l: "lst s h xs" and n: "n \<in> dom s" "n \<notin> insert h (set xs)"
  obtains s' where "list_add s n h = Some s'" "lst s' h (n # xs)"
    "agree_off (insert n (insert h (set xs))) s s'"
proof -
  obtain b vs where b: "xs @ [h] = b # vs" by (rule hd_split)
  obtain s' where "raw_list_add s n h b = Some s'" "chain s' ([] @ h # n # b # vs)"
    "agree_off (insert n (insert h (set xs))) s s'"
    using raw_list_add_ring[OF l, of "[]" h b vs n] b n by auto
  then show thesis
    using that[of s'] lst_first[OF l b] b l n by (simp add: list_add_def lst_def)
qed

lemma list_add_tail_ok:
  assumes l: "lst s h xs" and n: "n \<in> dom s" "n \<notin> insert h (set xs)"
  obtains s' where "list_add_tail s n h = Some s'" "lst s' h (xs @ [n])"
    "agree_off (insert n (insert h (set xs))) s s'"
proof -
  obtain us a where a: "h # xs = us @ [a]" by (rule last_split)
  have split: "h # xs @ [h] = us @ a # h # []"
    using a by (metis append.assoc append_Cons append_Nil)
  obtain s' where s': "raw_list_add s n a h = Some s'" "chain s' (us @ a # n # h # [])"
    "agree_off (insert n (insert h (set xs))) s s'"
    using raw_list_add_ring[OF l split n] by blast
  have ring: "us @ a # n # h # [] = h # (xs @ [n]) @ [h]"
    using a by (metis append.assoc append_Cons append_Nil)
  have "lst s' h (xs @ [n])"
    using s'(2) l n(2) unfolding ring lst_def by simp
  then show thesis
    using that[of s'] s' lst_last[OF l a] by (simp add: list_add_tail_def)
qed

text \<open>An entry with its neighbours, and what the removal of the links around it leaves.\<close>

lemma raw_list_del_ring:
  assumes l: "lst s h (xs @ x # ys)"
  obtains s' a b where "prv s x = Some a" "nxt s x = Some b" "raw_list_del s a b = Some s'"
    "lst s' h (xs @ ys)" "agree_off (insert h (set (xs @ ys))) s s'"
proof -
  obtain us a where a: "h # xs = us @ [a]" "a \<in> insert h (set xs)" by (rule last_split)
  obtain b vs where b: "ys @ [h] = b # vs" "b \<in> insert h (set ys)" by (rule hd_split)
  have ring: "distinct (h # xs @ x # ys)" and old: "chain s (h # (xs @ x # ys) @ [h])"
    using l by (auto simp: lst_def)
  have split: "h # (xs @ x # ys) @ [h] = us @ a # [x] @ b # vs"
    using a(1) b(1) by (metis append.assoc append_Cons append_Nil)
  have "chain s (us @ a # [x] @ b # vs)"
    using old unfolding split .
  then have links: "prv s x = Some a" "nxt s x = Some b"
    using chain_append[of s us a "x # b # vs"] by simp_all
  have "a \<in> dom s" "b \<in> dom s"
    using lst_dom[OF l] a(2) b(2) by auto
  then obtain s' where s': "raw_list_del s a b = Some s'" "dom s' = dom s"
    "\<And>x. nxt s' x = (if x = a then Some b else nxt s x)"
    "\<And>x. prv s' x = (if x = b then Some a else prv s x)"
    using raw_list_del_Some[of a s b] by blast
  have "chain s' (us @ a # [] @ b # vs)"
    by (intro chain_rewire[OF ring split old]) (auto simp: s')
  moreover have "us @ a # [] @ b # vs = h # (xs @ ys) @ [h]"
    using a(1) b(1) by (metis append.assoc append_Cons append_Nil)
  ultimately have "lst s' h (xs @ ys)"
    using ring by (auto simp: lst_def)
  moreover have "agree_off (insert h (set (xs @ ys))) s s'"
    using a(2) b(2) by (auto simp: agree_off_def s')
  ultimately show thesis using that links s'(1) by blast
qed

lemma INIT_LIST_HEAD_ok:
  assumes "p \<in> dom s"
  obtains s' where "INIT_LIST_HEAD s p = Some s'" "lst s' p []" "agree_off {p} s s'"
  using set_both_Some[OF assms, of p p] that
  unfolding INIT_LIST_HEAD_def by (metis (no_types, lifting) agree_off_def append_Nil chain.simps(1,3)
      distinct_singleton lst_def singletonI)

lemma list_del_ok:
  assumes l: "lst s h (xs @ x # ys)"
  obtains s' where "list_del s x = Some s'" "lst s' h (xs @ ys)"
    "nxt s' x = Some LIST_POISON1" "prv s' x = Some LIST_POISON2"
    "agree_off (insert h (set (xs @ x # ys))) s s'"
proof -
  obtain s1 a b where s1: "prv s x = Some a" "nxt s x = Some b" "raw_list_del s a b = Some s1"
    "lst s1 h (xs @ ys)" "agree_off (insert h (set (xs @ ys))) s s1"
    by (rule raw_list_del_ring[OF l])
  have "x \<in> dom s1"
    using prv_dom[OF s1(1)] s1(5) by (simp add: agree_off_def)
  then obtain s2 where s2:
    "do { s \<leftarrow> set_next s1 x LIST_POISON1; set_prev s x LIST_POISON2 } = Some s2" "dom s2 = dom s1"
    "\<And>y. nxt s2 y = (if y = x then Some LIST_POISON1 else nxt s1 y)"
    "\<And>y. prv s2 y = (if y = x then Some LIST_POISON2 else prv s1 y)"
    by (rule set_both_Some) blast
  have x: "x \<notin> insert h (set (xs @ ys))" using l by (auto simp: lst_def)
  have "lst s2 h (xs @ ys)"
    using s1(4) x by (subst lst_frame[of h "xs @ ys" s2 s1]) (auto simp: s2)
  moreover have "agree_off (insert h (set (xs @ x # ys))) s s2"
    using s1(5) by (auto simp: agree_off_def s2)
  ultimately show thesis
    using that[of s2] s1 s2 by (simp add: list_del_def)
qed

lemma list_del_init_ok:
  assumes l: "lst s h (xs @ x # ys)"
  obtains s' where "list_del_init s x = Some s'" "lst s' h (xs @ ys)" "lst s' x []"
    "agree_off (insert h (set (xs @ x # ys))) s s'"
proof -
  obtain s1 a b where s1: "prv s x = Some a" "nxt s x = Some b" "raw_list_del s a b = Some s1"
    "lst s1 h (xs @ ys)" "agree_off (insert h (set (xs @ ys))) s s1"
    by (rule raw_list_del_ring[OF l])
  have "x \<in> dom s1"
    using prv_dom[OF s1(1)] s1(5) by (simp add: agree_off_def)
  then obtain s2 where s2: "INIT_LIST_HEAD s1 x = Some s2" "lst s2 x []" "agree_off {x} s1 s2"
    by (rule INIT_LIST_HEAD_ok)
  have x: "x \<notin> insert h (set (xs @ ys))" using l by (auto simp: lst_def)
  have "lst s2 h (xs @ ys)"
    using s1(4) x agree_off_lst[OF s2(3), of h "xs @ ys"] by auto
  moreover have "agree_off (insert h (set (xs @ x # ys))) s s2"
    using s1(5) s2(3) by (auto intro: agree_off_trans agree_off_mono)
  ultimately show thesis
    using that[of s2] s1 s2 by (simp add: list_del_init_def)
qed

lemma list_move_ok:
  assumes l: "lst s h (xs @ x # ys)"
  obtains s' where "list_move s x h = Some s'" "lst s' h (x # xs @ ys)"
proof -
  obtain s1 a b where s1: "prv s x = Some a" "nxt s x = Some b" "raw_list_del s a b = Some s1"
    "lst s1 h (xs @ ys)" "agree_off (insert h (set (xs @ ys))) s s1"
    by (rule raw_list_del_ring[OF l])
  have "x \<in> dom s1" "x \<notin> insert h (set (xs @ ys))"
    using prv_dom[OF s1(1)] s1(5) l by (auto simp: agree_off_def lst_def)
  then obtain s2 where "list_add s1 x h = Some s2" "lst s2 h (x # xs @ ys)"
    by (rule list_add_ok[OF s1(4)])
  then show thesis using that s1 by (simp add: list_move_def)
qed

lemma list_move_tail_ok:
  assumes l: "lst s h (xs @ x # ys)"
  obtains s' where "list_move_tail s x h = Some s'" "lst s' h (xs @ ys @ [x])"
proof -
  obtain s1 a b where s1: "prv s x = Some a" "nxt s x = Some b" "raw_list_del s a b = Some s1"
    "lst s1 h (xs @ ys)" "agree_off (insert h (set (xs @ ys))) s s1"
    by (rule raw_list_del_ring[OF l])
  have "x \<in> dom s1" "x \<notin> insert h (set (xs @ ys))"
    using prv_dom[OF s1(1)] s1(5) l by (auto simp: agree_off_def lst_def)
  then obtain s2 where "list_add_tail s1 x h = Some s2" "lst s2 h ((xs @ ys) @ [x])"
    by (rule list_add_tail_ok[OF s1(4)])
  then show thesis using that s1 by (simp add: list_move_tail_def)
qed

lemma list_move_other_ok:
  assumes g: "lst s g (xs @ x # ys)" and h: "lst s h zs"
    and disj: "insert g (set (xs @ x # ys)) \<inter> insert h (set zs) = {}"
  obtains s' where "list_move s x h = Some s'" "lst s' g (xs @ ys)" "lst s' h (x # zs)"
proof -
  obtain s1 a b where s1: "prv s x = Some a" "nxt s x = Some b" "raw_list_del s a b = Some s1"
    "lst s1 g (xs @ ys)" "agree_off (insert g (set (xs @ ys))) s s1"
    by (rule raw_list_del_ring[OF g])
  have h1: "lst s1 h zs"
    using h disj agree_off_lst[OF s1(5), of h zs] by auto
  have "x \<in> dom s1" "x \<notin> insert h (set zs)"
    using prv_dom[OF s1(1)] s1(5) disj by (auto simp: agree_off_def)
  then obtain s2 where s2: "list_add s1 x h = Some s2" "lst s2 h (x # zs)"
    "agree_off (insert x (insert h (set zs))) s1 s2"
    by (rule list_add_ok[OF h1])
  have "x \<notin> insert g (set (xs @ ys))" using g by (auto simp: lst_def)
  then have "lst s2 g (xs @ ys)"
    using s1(4) disj agree_off_lst[OF s2(3), of g "xs @ ys"] by auto
  then show thesis using that s1 s2 by (simp add: list_move_def)
qed

lemma lst_nxt_head: "lst s h xs \<Longrightarrow> nxt s h = Some (hd (xs @ [h]))"
  by (cases xs) (auto simp: lst_def)

lemma lst_prv_head: "lst s h xs \<Longrightarrow> prv s h = Some (last (h # xs))"
  using lst_last[of s h xs "butlast (h # xs)" "last (h # xs)"] append_butlast_last_id[of "h # xs"]
  by (metis list.distinct(1))

lemma lst_nxt: "lst s h (xs @ y # ys) \<Longrightarrow> nxt s y = Some (hd (ys @ [h]))"
  using chain_append[of s "h # xs" y "ys @ [h]"] by (cases ys) (auto simp: lst_def)

lemma list_empty_ok: "lst s h xs \<Longrightarrow> list_empty s h = Some (xs = [])"
  by (cases xs) (auto simp: list_empty_def lst_nxt_head, simp add: lst_def)

lemma list_empty_careful_ok: "lst s h xs \<Longrightarrow> list_empty_careful s h = Some (xs = [])"
proof -
  assume l: "lst s h xs"
  then have "xs \<noteq> [] \<Longrightarrow> hd xs \<noteq> h" by (cases xs) (auto simp: lst_def)
  then show ?thesis
    unfolding list_empty_careful_def lst_nxt_head[OF l] lst_prv_head[OF l] by (cases xs) simp_all
qed

section \<open>Joining two rings\<close>

lemma raw_list_splice_ok:
  assumes l: "lst s l ys" and h: "lst s h xs" and ne: "ys \<noteq> []"
    and disj: "insert l (set ys) \<inter> insert h (set xs) = {}"
  obtains s' where "raw_list_splice s l h = Some s'" "lst s' h (ys @ xs)"
    "agree_off (insert h (set (ys @ xs))) s s'" "nxt s' l = nxt s l"
proof -
  obtain b vs where b: "xs @ [h] = b # vs" "b \<in> insert h (set xs)" by (rule hd_split)
  let ?f = "hd ys" let ?e = "last ys"
  have fe: "?f \<in> set ys" "?e \<in> set ys" using ne by auto
  have reads: "nxt s l = Some ?f" "prv s l = Some ?e" "nxt s h = Some b"
    using lst_nxt_head[OF l] lst_prv_head[OF l] lst_first[OF h b(1)] ne by auto
  have dm: "?f \<in> dom s" "h \<in> dom s" "?e \<in> dom s" "b \<in> dom s"
    using lst_dom[OF l] lst_dom[OF h] fe b(2) by auto
  obtain s1 where s1: "set_prev s ?f h = Some s1" "dom s1 = dom s"
    "\<And>x. prv s1 x = (if x = ?f then Some h else prv s x)" "\<And>x. nxt s1 x = nxt s x"
    using set_prev_Some[OF dm(1)] by blast
  obtain s2 where s2: "set_next s1 h ?f = Some s2" "dom s2 = dom s"
    "\<And>x. nxt s2 x = (if x = h then Some ?f else nxt s1 x)" "\<And>x. prv s2 x = prv s1 x"
    using set_next_Some[of h s1 ?f] dm(2) s1(2) by auto
  obtain s3 where s3: "set_next s2 ?e b = Some s3" "dom s3 = dom s"
    "\<And>x. nxt s3 x = (if x = ?e then Some b else nxt s2 x)" "\<And>x. prv s3 x = prv s2 x"
    using set_next_Some[of ?e s2 b] dm(3) s2(2) by auto
  obtain s4 where s4: "set_prev s3 b ?e = Some s4" "dom s4 = dom s"
    "\<And>x. prv s4 x = (if x = b then Some ?e else prv s3 x)" "\<And>x. nxt s4 x = nxt s3 x"
    using set_prev_Some[of b s3 ?e] dm(4) s3(2) by auto
  have run: "raw_list_splice s l h = Some s4"
    by (simp add: raw_list_splice_def reads s1(1) s2(1) s3(1) s4(1))
  have nx: "nxt s4 x = (if x = ?e then Some b else if x = h then Some ?f else nxt s x)" for x
    by (simp add: s4 s3 s2 s1)
  have pv: "prv s4 x = (if x = b then Some ?e else if x = ?f then Some h else prv s x)" for x
    by (simp add: s4 s3 s2 s1)
  have dys: "distinct ys" using l by (simp add: lst_def)
  have sub: "chain s ys"
  proof -
    have "chain s (l # ys @ [l])" using l by (simp add: lst_def)
    then have "chain s (ys @ [l])" using ne by (cases ys) auto
    then show ?thesis
      using chain_append[of s "butlast ys" ?e "[l]"] append_butlast_last_id[OF ne]
      by (metis append.assoc append_Cons append_Nil)
  qed
  have "x \<noteq> ?e" if "x \<in> set (butlast ys)" for x
    using that dys append_butlast_last_id[OF ne]
    by (metis disjoint_iff distinct_append list.set_intros(1))
  moreover have "y \<noteq> ?f" if "y \<in> set (tl ys)" for y
    using that dys ne by (cases ys) auto
  ultimately have "chain s4 ys = chain s ys"
    using disj b(2) by (intro chain_frame) (auto simp: nx pv dest: in_set_butlastD list.set_sel(2)[OF ne])
  then have mid: "chain s4 (butlast ys @ [?e])"
    using sub append_butlast_last_id[OF ne] by simp
  have "chain s4 (?e # [b])"
    using disj fe b(2) by (auto simp: nx pv)
  then have "chain s4 (butlast ys @ ?e # [b])"
    using mid chain_append by blast
  then have "chain s4 (ys @ [b])"
    using append_butlast_last_id[OF ne] by (metis append.assoc append_Cons append_Nil)
  moreover have "nxt s4 h = Some ?f" "prv s4 ?f = Some h"
    using disj fe b(2) by (auto simp: nx pv)
  ultimately have new: "chain s4 (h # ys @ [b])"
    using ne by (cases ys) auto
  have ring: "distinct (h # xs)" "h # xs @ [h] = [] @ h # [] @ b # vs"
    and old: "chain s (h # xs @ [h])"
    using h b(1) by (auto simp: lst_def)
  have "chain s4 ([] @ h # ys @ b # vs)"
    using disj fe by (intro chain_rewire[OF ring old _ _ new]) (auto simp: nx pv)
  then have "lst s4 h (ys @ xs)"
    using l h disj b(1) by (auto simp: lst_def)
  moreover have "agree_off (insert h (set (ys @ xs))) s s4"
    using fe b(2) by (auto simp: agree_off_def nx pv s4(2))
  moreover have "nxt s4 l = nxt s l"
    using disj l fe by (auto simp: nx lst_def)
  ultimately show thesis using that run by blast
qed


lemma list_splice_ok:
  assumes l: "lst s l ys" and h: "lst s h xs"
    and disj: "insert l (set ys) \<inter> insert h (set xs) = {}"
  obtains s' where "list_splice s l h = Some s'" "lst s' h (ys @ xs)"
proof (cases "ys = []")
  case True
  with that[of s] h show thesis
    by (simp add: list_splice_def list_empty_ok[OF l])
next
  case False
  then obtain s1 where "raw_list_splice s l h = Some s1" "lst s1 h (ys @ xs)"
    using raw_list_splice_ok[OF l h _ disj] by metis
  with that[of s1] False show thesis
    by (simp add: list_splice_def list_empty_ok[OF l])
qed

lemma list_splice_init_ok:
  assumes l: "lst s l ys" and h: "lst s h xs"
    and disj: "insert l (set ys) \<inter> insert h (set xs) = {}"
  obtains s' where "list_splice_init s l h = Some s'" "lst s' h (ys @ xs)" "lst s' l []"
proof (cases "ys = []")
  case True
  with that[of s] h l show thesis
    by (simp add: list_splice_init_def list_empty_ok[OF l])
next
  case False
  then obtain s1 where s1: "raw_list_splice s l h = Some s1" "lst s1 h (ys @ xs)"
    "agree_off (insert h (set (ys @ xs))) s s1"
    using raw_list_splice_ok[OF l h _ disj] by metis
  have "l \<in> dom s1"
    using lst_dom[OF l] s1(3) by (auto simp: agree_off_def)
  then obtain s2 where s2: "INIT_LIST_HEAD s1 l = Some s2" "lst s2 l []" "agree_off {l} s1 s2"
    by (rule INIT_LIST_HEAD_ok)
  have "lst s2 h (ys @ xs)"
    using s1(2) agree_off_lst[OF s2(3), of h "ys @ xs"] disj l by (auto simp: lst_def)
  then show thesis
    using that[of s2] s1 s2 False by (simp add: list_splice_init_def list_empty_ok[OF l])
qed

section \<open>The loops\<close>

lemma for_each_from_chain:
  "chain s (ys @ [h]) \<Longrightarrow> h \<notin> set ys \<Longrightarrow> nxt s h \<noteq> None \<Longrightarrow> length ys < f \<Longrightarrow>
    for_each_from f s h (hd (ys @ [h])) = Some ys"
proof (induction ys arbitrary: f)
  case Nil
  then show ?case by (cases f) auto
next
  case (Cons y ys)
  then obtain g where f: "f = Suc g" "length ys < g" by (cases f) auto
  have "nxt s y = Some (hd (ys @ [h]))" "chain s (ys @ [h])"
    using Cons.prems(1) by (cases ys; simp)+
  with Cons f show ?case by auto
qed

lemma list_for_each_ok:
  assumes l: "lst s h xs" and f: "length xs < f"
  shows "list_for_each f s h = Some xs"
proof -
  have "chain s (xs @ [h])"
    using l by (cases xs) (auto simp: lst_def)
  then show ?thesis
    using l f lst_nxt_head[OF l] by (simp add: list_for_each_def lst_def for_each_from_chain)
qed

lemma for_each_prev_from_chain:
  "chain s (h # ys) \<Longrightarrow> h \<notin> set ys \<Longrightarrow> prv s h \<noteq> None \<Longrightarrow> length ys < f \<Longrightarrow>
    for_each_prev_from f s h (last (h # ys)) = Some (rev ys)"
proof (induction ys arbitrary: f rule: rev_induct)
  case Nil
  then show ?case by (cases f) auto
next
  case (snoc y ys)
  then obtain g where f: "f = Suc g" "length ys < g" by (cases f) auto
  let ?a = "last (h # ys)"
  obtain us where split: "h # ys = us @ [?a]"
    using append_butlast_last_id[of "h # ys"] by (metis list.distinct(1))
  have "chain s ((h # ys) @ [y])" using snoc.prems(1) by simp
  then have "chain s (us @ [?a] @ [y])"
    unfolding split[symmetric] append_assoc[symmetric] .
  then have "prv s y = Some ?a" "chain s (us @ [?a])"
    using chain_append[of s us ?a "[y]"] by simp_all
  then have "prv s y = Some ?a" "chain s (h # ys)"
    unfolding split[symmetric] .
  with snoc f show ?case by auto
qed

lemma list_for_each_prev_ok:
  assumes l: "lst s h xs" and f: "length xs < f"
  shows "list_for_each_prev f s h = Some (rev xs)"
proof -
  have "chain s ((h # xs) @ [h])" using l by (simp add: lst_def)
  then have "chain s (h # xs)"
    using chain_append[of s "butlast (h # xs)" "last (h # xs)" "[h]"]
    by (metis append.assoc append_Cons append_Nil append_butlast_last_id list.distinct(1))
  then show ?thesis
    using l f lst_prv_head[OF l]
    by (simp add: list_for_each_prev_def lst_def for_each_prev_from_chain del: last.simps)
qed

text \<open>
  The safe loop whose body unlinks the entries that do not satisfy \<open>P\<close>: what is left is the
  filtered list.
\<close>

definition keep_or_del :: "(addr \<Rightarrow> bool) \<Rightarrow> lstore \<Rightarrow> addr \<Rightarrow> lstore option" where
  "keep_or_del P s x = (if P x then Some s else list_del s x)"

lemma keep_or_del_simps [simp]:
  "P x \<Longrightarrow> keep_or_del P s x = Some s"
  "\<not> P x \<Longrightarrow> keep_or_del P s x = list_del s x"
  by (simp_all add: keep_or_del_def)

lemma for_each_safe_from_filter:
  assumes "lst s h (pre @ ys)" "length ys < f" "nxt s (hd (ys @ [h])) = Some n"
  shows "\<exists>s'. for_each_safe_from f (keep_or_del P) s h (hd (ys @ [h])) n = Some s' \<and>
    lst s' h (pre @ filter P ys)"
  using assms
proof (induction ys arbitrary: s pre f n)
  case Nil
  then show ?case by (cases f) auto
next
  case (Cons y ys)
  then obtain g where f: "f = Suc g" "length ys < g" by (cases f) auto
  have y: "y \<noteq> h" using Cons.prems(1) by (auto simp: lst_def)
  have n: "n = hd (ys @ [h])"
    using Cons.prems(1,3) lst_nxt[of s h pre y ys] by simp
  have step: "\<exists>s'. for_each_safe_from f (keep_or_del P) s h y n = Some s' \<and>
      lst s' h (pre' @ filter P ys)"
    if body: "keep_or_del P s y = Some s1" and l1: "lst s1 h (pre' @ ys)" for s1 pre'
  proof -
    obtain n' where "nxt s1 n = Some n'"
      using l1 lst_nxt_head[of s1 h pre'] lst_nxt[of s1 h pre' "hd ys" "tl ys"]
      unfolding n by (cases ys) auto
    with Cons.IH[OF l1 f(2), of n'] show ?thesis
      using y body n by (simp add: f(1))
  qed
  show ?case
  proof (cases "P y")
    case True
    then show ?thesis
      using step[of s "pre @ [y]"] Cons.prems(1) by simp
  next
    case False
    obtain s1 where "list_del s y = Some s1" "lst s1 h (pre @ ys)"
      by (rule list_del_ok[OF Cons.prems(1)]) blast
    with False step[of s1 pre] show ?thesis by simp
  qed
qed

lemma list_for_each_safe_ok:
  assumes l: "lst s h xs" and f: "length xs < f"
  shows "\<exists>s'. list_for_each_safe f (keep_or_del P) s h = Some s' \<and> lst s' h (filter P xs)"
proof -
  obtain n where n: "nxt s (hd (xs @ [h])) = Some n"
    using lst_nxt_head[OF l] lst_nxt[of s h "[]" "hd xs" "tl xs"] l by (cases xs) auto
  then show ?thesis
    using for_each_safe_from_filter[of s h "[]" xs f n P] assms lst_nxt_head[OF l]
    by (simp add: list_for_each_safe_def)
qed

section \<open>The contract for clients\<close>

text \<open>
  What the code that keeps its nodes in such a list relies on: \<open>rep s h xs\<close> says the list at
  \<open>h\<close> holds \<open>xs\<close>, \<open>cell s\<close> are the addresses that may be linked.
\<close>

locale linked_list =
  fixes rep :: "'s \<Rightarrow> 'a \<Rightarrow> 'a list \<Rightarrow> bool"
    and cell :: "'s \<Rightarrow> 'a set"
    and add_tail :: "'s \<Rightarrow> 'a \<Rightarrow> 'a \<Rightarrow> 's option"
    and del :: "'s \<Rightarrow> 'a \<Rightarrow> 's option"
  assumes rep_distinct: "rep s h xs \<Longrightarrow> distinct (h # xs)"
    and add_tail_law: "rep s h xs \<Longrightarrow> n \<in> cell s \<Longrightarrow> n \<notin> insert h (set xs) \<Longrightarrow>
      \<exists>s'. add_tail s n h = Some s' \<and> rep s' h (xs @ [n]) \<and> cell s' = cell s \<and>
        (\<forall>g zs. insert g (set zs) \<inter> insert n (insert h (set xs)) = {} \<longrightarrow> rep s' g zs = rep s g zs)"
    and del_law: "rep s h (xs @ x # ys) \<Longrightarrow>
      \<exists>s'. del s x = Some s' \<and> rep s' h (xs @ ys) \<and> cell s' = cell s \<and>
        (\<forall>g zs. insert g (set zs) \<inter> insert h (set (xs @ x # ys)) = {} \<longrightarrow> rep s' g zs = rep s g zs)"
begin

text \<open>Linking nodes one after the other queues them in that order.\<close>

lemma add_all:
  assumes "rep s h xs" "set ns \<subseteq> cell s" "distinct ns" "set ns \<inter> insert h (set xs) = {}"
  shows "\<exists>s'. foldo (\<lambda>s n. add_tail s n h) s ns = Some s' \<and> rep s' h (xs @ ns) \<and> cell s' = cell s"
  using assms
proof (induction ns arbitrary: s xs)
  case (Cons n ns)
  then obtain s1 where s1: "add_tail s n h = Some s1" "rep s1 h (xs @ [n])" "cell s1 = cell s"
    using add_tail_law[of s h xs n] by auto
  with Cons.prems have "set ns \<subseteq> cell s1" "distinct ns" "set ns \<inter> insert h (set (xs @ [n])) = {}"
    by auto
  from Cons.IH[OF s1(2) this] s1 show ?case by auto
qed simp

text \<open>Unlinking the nodes from the front empties the list.\<close>

lemma drain:
  assumes "rep s h (xs @ ys)"
  shows "\<exists>s'. foldo del s xs = Some s' \<and> rep s' h ys \<and> cell s' = cell s"
  using assms
proof (induction xs arbitrary: s)
  case (Cons x xs)
  then obtain s1 where "del s x = Some s1" "rep s1 h (xs @ ys)" "cell s1 = cell s"
    using del_law[of s h "[]" x "xs @ ys"] by auto
  with Cons.IH[of s1] show ?case by auto
qed simp

text \<open>The error path of a parser: the node it linked last is unlinked again.\<close>

lemma add_tail_del:
  assumes "rep s h xs" "n \<in> cell s" "n \<notin> insert h (set xs)"
  shows "\<exists>s'. do { s \<leftarrow> add_tail s n h; del s n } = Some s' \<and> rep s' h xs"
proof -
  obtain s1 where "add_tail s n h = Some s1" "rep s1 h (xs @ [n])"
    using add_tail_law[OF assms] by auto
  moreover obtain s2 where "del s1 n = Some s2" "rep s2 h xs"
    using del_law[of s1 h xs n "[]"] calculation(2) by auto
  ultimately show ?thesis by auto
qed

end

interpretation lh: linked_list lst dom list_add_tail list_del
proof
  fix s h xs
  show "lst s h xs \<Longrightarrow> distinct (h # xs)" by (simp add: lst_def)
next
  fix s h xs n
  assume "lst s h xs" "n \<in> dom s" "n \<notin> insert h (set xs)"
  then obtain s' where s': "list_add_tail s n h = Some s'" "lst s' h (xs @ [n])"
    "agree_off (insert n (insert h (set xs))) s s'"
    by (rule list_add_tail_ok)
  moreover have "dom s' = dom s" using s'(3) by (simp add: agree_off_def)
  moreover note frame = agree_off_lst2[OF s'(3)]
  ultimately show "\<exists>s'. list_add_tail s n h = Some s' \<and> lst s' h (xs @ [n]) \<and> dom s' = dom s \<and>
        (\<forall>g zs. insert g (set zs) \<inter> insert n (insert h (set xs)) = {} \<longrightarrow> lst s' g zs = lst s g zs)"
    using frame by blast
next
  fix s h xs x ys
  assume "lst s h (xs @ x # ys)"
  then obtain s' where s': "list_del s x = Some s'" "lst s' h (xs @ ys)"
    "agree_off (insert h (set (xs @ x # ys))) s s'"
    by (rule list_del_ok)
  moreover have "dom s' = dom s" using s'(3) by (simp add: agree_off_def)
  moreover note frame = agree_off_lst2[OF s'(3)]
  ultimately show "\<exists>s'. list_del s x = Some s' \<and> lst s' h (xs @ ys) \<and> dom s' = dom s \<and>
        (\<forall>g zs. insert g (set zs) \<inter> insert h (set (xs @ x # ys)) = {} \<longrightarrow> lst s' g zs = lst s g zs)"
    using frame by blast
qed

section \<open>Properties\<close>

text \<open>Three cells: a head at 0 and two nodes.\<close>

definition sample_store :: lstore where
  "sample_store = [0 \<mapsto> \<lparr>lh_next = 0, lh_prev = 0\<rparr>, 1 \<mapsto> \<lparr>lh_next = 7, lh_prev = 7\<rparr>,
     2 \<mapsto> \<lparr>lh_next = 7, lh_prev = 7\<rparr>]"

lemma sample_store_lst: "lst sample_store 0 []" "{1, 2} \<subseteq> dom sample_store"
  by (auto simp: lst_def sample_store_def nxt_def prv_def)

text \<open>
  C24: list_queue. Nodes linked with \<open>list_add_tail\<close> into an empty list are visited by
  \<open>list_for_each\<close> in that order and by \<open>list_for_each_prev\<close> in the reverse
  order, and unlinking them with \<open>list_del\<close> leaves the list empty.
\<close>

theorem list_queue:
  assumes "lst s h []" "set ns \<subseteq> dom s" "distinct (h # ns)"
  shows "\<exists>s'. foldo (\<lambda>s n. list_add_tail s n h) s ns = Some s' \<and>
    list_for_each (Suc (length ns)) s' h = Some ns \<and>
    list_for_each_prev (Suc (length ns)) s' h = Some (rev ns) \<and>
    (\<exists>s''. foldo list_del s' ns = Some s'' \<and> list_empty s'' h = Some True)"
proof -
  obtain s' where s': "foldo (\<lambda>s n. list_add_tail s n h) s ns = Some s'" "lst s' h ns"
    using lh.add_all[OF assms(1), of ns] assms(2,3) by auto
  obtain s'' where "foldo list_del s' ns = Some s''" "lst s'' h []"
    using lh.drain[of s' h ns "[]"] s'(2) by auto
  with s' show ?thesis
    by (auto simp: list_for_each_ok list_for_each_prev_ok list_empty_ok)
qed

theorem list_queue_witness:
  "\<exists>s'. foldo (\<lambda>s n. list_add_tail s n 0) sample_store [1, 2] = Some s' \<and>
    list_for_each 3 s' 0 = Some [1, 2] \<and> list_for_each_prev 3 s' 0 = Some [2, 1] \<and>
    (\<exists>s''. foldo list_del s' [1, 2] = Some s'' \<and> list_empty s'' 0 = Some True)"
  using list_queue[OF sample_store_lst(1), of "[1, 2]"] sample_store_lst(2)
  by (simp add: numeral_3_eq_3)

text \<open>
  C18: list_safe_del. \<open>list_for_each_safe\<close> with a body that unlinks entries runs to the end
  of the list and leaves exactly those it kept, in their order: it never follows a poisoned link.
\<close>

theorem list_safe_del:
  assumes "lst s h xs" "length xs < f"
  shows "\<exists>s'. list_for_each_safe f (keep_or_del P) s h = Some s' \<and> lst s' h (filter P xs)"
  by (rule list_for_each_safe_ok[OF assms])

definition three_nodes :: lstore where
  "three_nodes = [0 \<mapsto> \<lparr>lh_next = 1, lh_prev = 3\<rparr>, 1 \<mapsto> \<lparr>lh_next = 2, lh_prev = 0\<rparr>,
     2 \<mapsto> \<lparr>lh_next = 3, lh_prev = 1\<rparr>, 3 \<mapsto> \<lparr>lh_next = 0, lh_prev = 2\<rparr>]"

theorem list_safe_del_witness:
  "\<exists>s'. list_for_each_safe 4 (keep_or_del (\<lambda>x. x = 2)) three_nodes 0 = Some s' \<and> lst s' 0 [2] \<and> lst three_nodes 0 [1, 2, 3]"
proof -
  have l: "lst three_nodes 0 [1, 2, 3]" by (simp add: lst_def three_nodes_def nxt_def prv_def)
  show ?thesis using list_safe_del[OF l, of 4 "\<lambda>x. x = 2"] l by simp
qed

text \<open>
  List splice refines: \<open>list_splice_init\<close> puts the entries of one list in front of those of
  another and leaves the first empty; \<open>list_move\<close> takes an entry out of one list and pushes
  it on another.
\<close>

theorem list_splice_refines:
  assumes "lst s l (as @ x # bs)" "lst s h xs"
    "insert l (set (as @ x # bs)) \<inter> insert h (set xs) = {}"
  shows "(\<exists>s'. list_splice_init s l h = Some s' \<and> lst s' h (as @ x # bs @ xs) \<and> lst s' l []) \<and>
    (\<exists>s'. list_move s x h = Some s' \<and> lst s' l (as @ bs) \<and> lst s' h (x # xs))"
proof
  show "\<exists>s'. list_splice_init s l h = Some s' \<and> lst s' h (as @ x # bs @ xs) \<and> lst s' l []"
    by (rule list_splice_init_ok[OF assms]) simp
  show "\<exists>s'. list_move s x h = Some s' \<and> lst s' l (as @ bs) \<and> lst s' h (x # xs)"
    by (rule list_move_other_ok[OF assms]) simp
qed

definition two_lists :: lstore where
  "two_lists = [0 \<mapsto> \<lparr>lh_next = 1, lh_prev = 1\<rparr>, 1 \<mapsto> \<lparr>lh_next = 0, lh_prev = 0\<rparr>,
     2 \<mapsto> \<lparr>lh_next = 2, lh_prev = 2\<rparr>]"

theorem list_splice_refines_witness:
  "(\<exists>s'. list_splice_init two_lists 0 2 = Some s' \<and> lst s' 2 [1] \<and> lst s' 0 []) \<and>
   (\<exists>s'. list_move two_lists 1 2 = Some s' \<and> lst s' 0 [] \<and> lst s' 2 [1])"
  using list_splice_refines[of two_lists 0 "[]" 1 "[]" 2 "[]"]
  by (simp add: two_lists_def lst_def nxt_def prv_def)

end
