(* ===== verification/Base64.thy ===== *)
theory Base64
  imports Prelude
begin

text \<open>
  Base 64 (\<open>xutil.cc\<close>): \<open>base64_encode\<close>, \<open>base64_decode\<close> with its table and
  \<open>is_base64_encoded\<close>. Text is the bytes of its characters. The output arrays are written front
  to back, so an array is the bytes written so far and the size it was allocated with; a write
  past that size or a read past the input is \<open>None\<close>. \<open>malloc\<close> does not fail here.
\<close>

section \<open>The code\<close>

text \<open>\<open>for (i = a; i <= b; ++i) table[i] = off + (i - a);\<close>\<close>

definition fill_range :: "nat \<Rightarrow> nat \<Rightarrow> nat \<Rightarrow> u8 list \<Rightarrow> u8 list" where
  "fill_range a b off t = fold (\<lambda>i t. t[i := of_nat (off + (i - a))]) [a..<Suc b] t"

definition base64_decode_table :: "u8 list" where
  "base64_decode_table =
     (let t = replicate 256 0x80;
          t = fill_range 65 90 0 t;
          t = fill_range 97 122 26 t;
          t = fill_range 48 57 52 t;
          t = t[43 := 62];
          t = t[47 := 63]
      in t[61 := 0])"

definition lookup64 :: "u8 \<Rightarrow> u8" where
  "lookup64 c = (let v = base64_decode_table ! unat c in if v AND 0x80 \<noteq> 0 then 0 else v)"

definition pads :: "u8 list \<Rightarrow> nat" where
  "pads cs = length (filter (\<lambda>c. c = 61) cs)"

text \<open>The loop over groups of four, from \<open>j\<close> on; the state is \<open>out\<close> (with \<open>k\<close> bytes) and \<open>padding_count\<close>.\<close>

function decode_loop ::
  "u8 list \<Rightarrow> nat \<Rightarrow> int \<Rightarrow> nat \<Rightarrow> u8 list \<times> nat \<Rightarrow> (u8 list \<times> nat) option" where
  "decode_loop inp cap j_max j (out, padding_count) =
     (if int j < j_max then do {
        t0 \<leftarrow> rd8 inp j; t1 \<leftarrow> rd8 inp (j + 1); t2 \<leftarrow> rd8 inp (j + 2); t3 \<leftarrow> rd8 inp (j + 3);
        if length out + 3 \<le> cap
        then decode_loop inp cap j_max (j + 4)
          (out @ [push_bit 2 (lookup64 t0) OR drop_bit 4 (lookup64 t1),
                  push_bit 4 (lookup64 t1) OR drop_bit 2 (lookup64 t2),
                  push_bit 6 (lookup64 t2) OR lookup64 t3],
           padding_count + pads [t0, t1, t2, t3])
        else None }
      else Some (out, padding_count))"
  by pat_completeness auto

termination
  by (relation "measure (\<lambda>(inp, cap, j_max, j, s). nat (j_max - int j))") auto

declare decode_loop.simps [simp del]

text \<open>\<open>while (padding_count > 0 && k > 0 && out[k-1] == '\0')\<close>: the number of bytes kept.\<close>

fun trim_zeros :: "u8 list \<Rightarrow> nat \<Rightarrow> nat \<Rightarrow> nat" where
  "trim_zeros out (Suc padding_count) (Suc k) =
     (if out ! k = 0 then trim_zeros out padding_count k else Suc k)"
| "trim_zeros out _ k = k"

definition base64_decode :: "u8 list \<Rightarrow> u32 \<Rightarrow> bool \<Rightarrow> u8 list option" where
  "base64_decode inp in_size trim_trailing_zeros =
     (if 0 \<notin> set inp then None
      else do {
        (out, padding_count) \<leftarrow>
           decode_loop inp (length (cstr inp) + 1) (sint (in_size - 3)) 0 ([], 0);
        let k = length out;
        let k = (if trim_trailing_zeros then trim_zeros out padding_count k else k);
        Some (take k out) })"

definition base64_char :: "u8 list" where
  "base64_char = map of_nat ([65..<91] @ [97..<123] @ [48..<58] @ [43, 47])"

definition char64 :: "u8 \<Rightarrow> u8" where
  "char64 v = base64_char ! unat (v AND 0x3F)"

definition group64 :: "u8 \<Rightarrow> u8 \<Rightarrow> u8 \<Rightarrow> u8 list" where
  "group64 a b c =
     [char64 (drop_bit 2 a), char64 (push_bit 4 (a AND 0x3) OR drop_bit 4 b),
      char64 (push_bit 2 b OR drop_bit 6 c), char64 c]"

text \<open>The loop over whole groups, \<open>i\<close> counting up to \<open>n\<close>.\<close>

fun encode_loop :: "mem \<Rightarrow> nat \<Rightarrow> nat \<Rightarrow> nat \<Rightarrow> u8 list \<Rightarrow> u8 list option" where
  "encode_loop orig cap i 0 res = Some res"
| "encode_loop orig cap i (Suc n) res = do {
     a \<leftarrow> rd8 orig (3 * i); b \<leftarrow> rd8 orig (3 * i + 1); c \<leftarrow> rd8 orig (3 * i + 2);
     if length res + 4 \<le> cap then encode_loop orig cap (Suc i) n (res @ group64 a b c) else None }"

definition base64_encode :: "mem \<Rightarrow> u32 \<Rightarrow> u8 list option" where
  "base64_encode orig orig_length = do {
     let num_orig_24_bit_values = orig_length div 3;
     let have_padding = orig_length > num_orig_24_bit_values * 3;
     let have_padding2 = (orig_length = num_orig_24_bit_values * 3 + 2);
     let num_result_bytes = 4 * (num_orig_24_bit_values + (if have_padding then 1 else 0));
     let cap = unat (num_result_bytes + 1);
     let i = unat num_orig_24_bit_values;
     res \<leftarrow> encode_loop orig cap 0 i [];
     res \<leftarrow>
       (if \<not> have_padding then Some res
        else if length res + 4 > cap then None
        else do {
          a \<leftarrow> rd8 orig (3 * i);
          if have_padding2 then do {
            b \<leftarrow> rd8 orig (3 * i + 1);
            Some (res @ [char64 (drop_bit 2 a), char64 (push_bit 4 (a AND 0x3) OR drop_bit 4 b),
                         char64 (push_bit 2 b), 61]) }
          else Some (res @ [char64 (drop_bit 2 a), char64 (push_bit 4 (a AND 0x3)), 61, 61]) });
     Some (take (unat num_result_bytes) res @ [0]) }"

text \<open>\<open>is_base64_encoded\<close> of a string; its \<open>strlen\<close> is passed as an \<open>unsigned\<close>.\<close>

definition is_base64_encoded :: "u8 list \<Rightarrow> bool option" where
  "is_base64_encoded str =
     (if 0 \<notin> set str then None
      else do {
        d \<leftarrow> base64_decode str (of_nat (length (cstr str))) True;
        e \<leftarrow> base64_encode d (of_nat (length d));
        Some (cstr str = cstr e) })"

section \<open>The tables\<close>

lemma fold_update_nth:
  "distinct is \<Longrightarrow> fold (\<lambda>i t. t[i := f i]) is t ! k =
     (if k \<in> set is \<and> k < length t then f k else t ! k)"
proof (induction "is" arbitrary: t)
  case (Cons a "is")
  then show ?case by (cases "a = k"; cases "k < length t") (auto simp: list_update_beyond)
qed simp

lemma length_fold_update: "length (fold (\<lambda>i t. t[i := f i]) is t) = length t"
  by (induction "is" arbitrary: t) auto

lemma length_fill_range [simp]: "length (fill_range a b off t) = length t"
  by (simp only: fill_range_def length_fold_update)

lemma nth_fill_range:
  "fill_range a b off t ! k =
     (if a \<le> k \<and> k \<le> b \<and> k < length t then of_nat (off + (k - a)) else t ! k)"
  by (auto simp: fill_range_def fold_update_nth simp del: upt_Suc)

lemma table_nth:
  "k < 256 \<Longrightarrow> base64_decode_table ! k =
     (if k = 61 then 0 else if k = 47 then 63 else if k = 43 then 62
      else if 48 \<le> k \<and> k \<le> 57 then of_nat (52 + (k - 48))
      else if 97 \<le> k \<and> k \<le> 122 then of_nat (26 + (k - 97))
      else if 65 \<le> k \<and> k \<le> 90 then of_nat (k - 65) else 0x80)"
  by (simp add: base64_decode_table_def Let_def nth_fill_range nth_list_update)

lemma base64_char_nth:
  "i < 64 \<Longrightarrow> base64_char ! i =
     of_nat (if i < 26 then 65 + i else if i < 52 then 71 + i else if i < 62 then i - 4
             else if i = 62 then 43 else 47)"
  by (auto simp: base64_char_def nth_append simp del: upt_conv_Cons upt_rec_numeral upt_Suc)

lemma and_63: "v AND 0x3F = take_bit 6 (v :: u8)"
  by (simp add: take_bit_eq_mask mask_eq_exp_minus_1)

lemma unat_and_63: "unat (v AND 0x3F :: u8) < 64"
  by (simp only: and_63 unsigned_take_bit_eq) (simp add: take_bit_eq_mod)

lemma not_bit_7: "unat v < 64 \<Longrightarrow> v AND 0x80 = (0 :: u8)"
  using not_bit_unat_less[of v 6 7] by (intro u8_eqI) (simp_all add: bit_simps)

lemma unat_of_nat_u8: "n < 256 \<Longrightarrow> unat (of_nat n :: u8) = n"
  by (simp add: unsigned_of_nat take_bit_nat_eq_self)

lemma unat_base64_char:
  "i < 64 \<Longrightarrow> unat (base64_char ! i) =
     (if i < 26 then 65 + i else if i < 52 then 71 + i else if i < 62 then i - 4
             else if i = 62 then 43 else 47)"
  by (simp only: base64_char_nth) (rule unat_of_nat_u8, auto)

lemma table_base64_char:
  assumes "i < 64"
  shows "base64_decode_table ! unat (base64_char ! i) = of_nat i"
proof -
  consider "i < 26" | "26 \<le> i" "i < 52" | "52 \<le> i" "i < 62" | "i = 62" | "i = 63"
    using assms by linarith
  then show ?thesis
  proof cases
    case 3
    then obtain m where "i = 52 + m" by (auto dest: le_Suc_ex)
    with 3 show ?thesis by (simp add: table_nth unat_base64_char)
  qed (simp_all add: table_nth unat_base64_char)
qed

lemma lookup_char64: "lookup64 (char64 v) = v AND 0x3F"
  using table_base64_char[OF unat_and_63, of v] not_bit_7[OF unat_and_63, of v]
  by (simp add: lookup64_def char64_def Let_def)

lemma char64_not: "char64 v \<noteq> 61" "char64 v \<noteq> 0"
proof -
  have "unat (char64 v) \<noteq> 61 \<and> unat (char64 v) \<noteq> 0"
    unfolding char64_def unat_base64_char[OF unat_and_63] by auto
  then show "char64 v \<noteq> 61" "char64 v \<noteq> 0" by auto
qed

lemma lookup_pad: "lookup64 61 = 0"
  by (simp add: lookup64_def table_nth)

section \<open>A group\<close>

text \<open>What the decoder makes of the four characters of a group.\<close>

lemma group_byte0: "push_bit 2 (drop_bit 2 a AND 0x3F) OR drop_bit 4 ((push_bit 4 (a AND 0x3) OR drop_bit 4 b) AND 0x3F) = (a :: u8)"
  by (rule u8_eqI; simp only: bit_or_iff bit_push_bit_iff bit_drop_bit_eq bit_and_iff comp_apply)
    (auto simp: bit_simps eval_nat_numeral dest: bit_imp_le_length)

lemma group_byte1: "push_bit 4 ((push_bit 4 (a AND 0x3) OR drop_bit 4 b) AND 0x3F) OR drop_bit 2 ((push_bit 2 b OR drop_bit 6 c) AND 0x3F) = (b :: u8)"
  by (rule u8_eqI; simp only: bit_or_iff bit_push_bit_iff bit_drop_bit_eq bit_and_iff comp_apply)
    (auto simp: bit_simps eval_nat_numeral dest: bit_imp_le_length)

lemma group_byte2: "push_bit 6 ((push_bit 2 b OR drop_bit 6 c) AND 0x3F) OR (c AND 0x3F) = (c :: u8)"
  by (rule u8_eqI; simp only: bit_or_iff bit_push_bit_iff bit_drop_bit_eq bit_and_iff comp_apply)
    (auto simp: bit_simps eval_nat_numeral dest: bit_imp_le_length)


section \<open>What the loops compute\<close>

fun enc_bytes :: "u8 list \<Rightarrow> u8 list" where
  "enc_bytes (a # b # c # r) = group64 a b c @ enc_bytes r"
| "enc_bytes [a, b] =
     [char64 (drop_bit 2 a), char64 (push_bit 4 (a AND 0x3) OR drop_bit 4 b), char64 (push_bit 2 b), 61]"
| "enc_bytes [a] = [char64 (drop_bit 2 a), char64 (push_bit 4 (a AND 0x3)), 61, 61]"
| "enc_bytes [] = []"

fun dec_bytes :: "u8 list \<Rightarrow> u8 list" where
  "dec_bytes (a # b # c # d # r) =
     [push_bit 2 (lookup64 a) OR drop_bit 4 (lookup64 b),
      push_bit 4 (lookup64 b) OR drop_bit 2 (lookup64 c),
      push_bit 6 (lookup64 c) OR lookup64 d] @ dec_bytes r"
| "dec_bytes _ = []"

lemma length_enc_bytes: "length (enc_bytes d) = 4 * ((length d + 2) div 3)"
proof (induction d rule: enc_bytes.induct)
  case (1 a b c r)
  have "(length (a # b # c # r) + 2) div 3 = (length r + 2) div 3 + 1"
    by simp
  with 1 show ?case by (simp add: group64_def)
qed simp_all

lemma length_dec_bytes: "length (dec_bytes s) = 3 * (length s div 4)"
proof (induction s rule: dec_bytes.induct)
  case (1 a b c d r)
  have "length (a # b # c # d # r) div 4 = length r div 4 + 1"
    by simp
  with 1 show ?case by simp
qed simp_all

lemma nul_notin_enc_bytes: "0 \<notin> set (enc_bytes d)"
  by (induction d rule: enc_bytes.induct) (auto simp: group64_def char64_not dest: char64_not(2)[THEN not_sym, THEN notE])

lemma pads_append [simp]: "pads (a @ b) = pads a + pads b"
  by (simp add: pads_def)

lemma pads_enc_bytes: "pads (enc_bytes d) = (3 - length d mod 3) mod 3"
proof (induction d rule: enc_bytes.induct)
  case (1 a b c r)
  moreover have "pads (group64 a b c) = 0"
    by (simp add: pads_def group64_def char64_not)
  moreover have "length (a # b # c # r) mod 3 = length r mod 3"
    by simp
  ultimately show ?case
    by (simp only: enc_bytes.simps pads_append add_0)
qed (simp_all add: pads_def char64_not)

lemma dec_enc_bytes: "dec_bytes (enc_bytes d) = d @ replicate ((3 - length d mod 3) mod 3) 0"
proof (induction d rule: enc_bytes.induct)
  case (1 a b c r)
  moreover have "length (a # b # c # r) mod 3 = length r mod 3"
    by simp
  ultimately show ?case
    by (simp only: enc_bytes.simps group64_def append_Cons append_Nil dec_bytes.simps lookup_char64
        group_byte0 group_byte1 group_byte2)
next
  case (2 a b)
  show ?case
    using group_byte0[of a b] group_byte1[of a b 0] group_byte2[where b = b and c = 0]
    by (simp add: lookup_char64 lookup_pad)
next
  case (3 a)
  show ?case
    using group_byte0[of a 0] group_byte1[of a 0 0]
    by (simp add: lookup_char64 lookup_pad numeral_2_eq_2)
qed simp

lemma encode_loop_eq:
  "3 * (i + n) \<le> length orig \<Longrightarrow> length res + 4 * n \<le> cap \<Longrightarrow>
   encode_loop orig cap i n res = Some (res @ enc_bytes (take (3 * n) (drop (3 * i) orig)))"
proof (induction n arbitrary: i res)
  case (Suc n)
  let ?a = "orig ! (3 * i)" and ?b = "orig ! (3 * i + 1)" and ?c = "orig ! (3 * i + 2)"
  have "drop (3 * i) orig = ?a # ?b # ?c # drop (3 * Suc i) orig"
    using Suc.prems(1) by (simp add: Cons_nth_drop_Suc numeral_3_eq_3)
  then have "take (3 * Suc n) (drop (3 * i) orig) = ?a # ?b # ?c # take (3 * n) (drop (3 * Suc i) orig)"
    by (simp add: numeral_3_eq_3)
  moreover have "encode_loop orig cap (Suc i) n (res @ group64 ?a ?b ?c) =
      Some ((res @ group64 ?a ?b ?c) @ enc_bytes (take (3 * n) (drop (3 * Suc i) orig)))"
    by (rule Suc.IH) (use Suc.prems in \<open>simp_all add: group64_def\<close>)
  ultimately show ?case
    using Suc.prems by (simp add: rd8_def)
qed simp

lemma decode_loop_eq:
  "drop j inp = s @ rest \<Longrightarrow> length s = 4 * n \<Longrightarrow>
   int j + 4 * int n - 3 \<le> j_max \<Longrightarrow> j_max \<le> int j + 4 * int n \<Longrightarrow> length out + 3 * n \<le> cap \<Longrightarrow>
   decode_loop inp cap j_max j (out, p) = Some (out @ dec_bytes s, p + pads s)"
proof (induction n arbitrary: j s out p)
  case 0
  then show ?case by (simp add: decode_loop.simps pads_def)
next
  case (Suc n)
  from Suc.prems(2) obtain a b c d s' where s: "s = a # b # c # d # s'" "length s' = 4 * n"
    by (cases s rule: dec_bytes.cases) auto
  have j: "j \<le> length inp"
    using Suc.prems(1) s(1) by (cases "j \<le> length inp") auto
  define pre where "pre = take j inp"
  have inp: "inp = pre @ (a # b # c # d # s') @ rest" "length pre = j"
    using Suc.prems(1) s(1) j append_take_drop_id[of j inp] by (simp_all add: pre_def)
  have reads: "rd8 inp j = Some a" "rd8 inp (j + 1) = Some b" "rd8 inp (j + 2) = Some c" "rd8 inp (j + 3) = Some d"
    unfolding inp(1) using inp(2) by (simp_all add: rd8_def nth_append)
  have tail: "drop (j + 4) inp = s' @ rest"
    unfolding inp(1) using inp(2) by simp
  let ?o = "out @ [push_bit 2 (lookup64 a) OR drop_bit 4 (lookup64 b),
                  push_bit 4 (lookup64 b) OR drop_bit 2 (lookup64 c),
                  push_bit 6 (lookup64 c) OR lookup64 d]"
  have "decode_loop inp cap j_max j (out, p) =
      decode_loop inp cap j_max (j + 4) (?o, p + pads [a, b, c, d])"
    using Suc.prems(3,5) reads by (subst decode_loop.simps) simp
  also have "\<dots> = Some (?o @ dec_bytes s', (p + pads [a, b, c, d]) + pads s')"
    by (rule Suc.IH[OF tail s(2)]) (use Suc.prems in simp_all)
  also have "\<dots> = Some (out @ dec_bytes s, p + pads s)"
    using pads_append[of "[a, b, c, d]" s'] by (simp add: s(1))
  finally show ?case .
qed

lemma trim_zeros_replicate:
  "trim_zeros (d @ replicate p 0) p (length d + p) = length d"
proof (induction p)
  case (Suc p)
  have "trim_zeros (d @ replicate (Suc p) 0) (Suc p) (length d + Suc p) =
      trim_zeros (d @ replicate p 0 @ [0]) p (length d + p)"
    using nth_append_length[of "d @ replicate p 0" 0 "[]"] by (simp add: replicate_append_same[symmetric])
  moreover have "trim_zeros (xs @ ys) q (length xs) = trim_zeros xs q (length xs)" for xs ys :: "u8 list" and q
  proof -
    have "k \<le> length xs \<Longrightarrow> trim_zeros (xs @ ys) q k = trim_zeros xs q k" for k
      by (induction xs q k rule: trim_zeros.induct) (auto simp: nth_append)
    then show ?thesis by simp
  qed
  from this[of "d @ replicate p 0" "[0]" p]
  have "trim_zeros (d @ replicate p 0 @ [0]) p (length d + p) = trim_zeros (d @ replicate p 0) p (length d + p)"
    by simp
  ultimately show ?case using Suc.IH by simp
qed simp

lemma trim_zeros_le: "trim_zeros out p k \<le> k"
  by (induction out p k rule: trim_zeros.induct) auto

lemma sint_minus_3: assumes "n < 2 ^ 31" shows "sint (of_nat n - 3 :: u32) = int n - 3"
proof -
  have "(of_nat n - 3 :: u32) = word_of_int (int n - 3)" by simp
  moreover have "signed_take_bit 31 (int n - 3) = int n - 3"
    by (rule signed_take_bit_int_eq_self) (use assms in simp_all)
  ultimately show ?thesis by (simp only: signed_of_int) simp
qed

lemma decode_bytes:
  assumes "0 \<notin> set s" "n \<le> length s" "length s < 2 ^ 31"
  shows "decode_loop (s @ 0 # t) (length s + 1) (sint (of_nat n - 3 :: u32)) 0 ([], 0) =
    Some (dec_bytes (take (4 * (n div 4)) s), pads (take (4 * (n div 4)) s))"
proof -
  let ?k = "4 * (n div 4)"
  have "?k \<le> n" by simp
  then have "?k \<le> length s" using assms(2) by (rule le_trans)
  then have "drop 0 (s @ 0 # t) = take ?k s @ (drop ?k s @ 0 # t)" "length (take ?k s) = 4 * (n div 4)"
    by simp_all
  moreover have "int n - 3 \<le> int 0 + 4 * int (n div 4)" "int 0 + 4 * int (n div 4) - 3 \<le> int n - 3"
    by linarith+
  moreover have "length ([] :: u8 list) + 3 * (n div 4) \<le> length s + 1"
    using assms(2) by simp
  ultimately have "decode_loop (s @ 0 # t) (length s + 1) (int n - 3) 0 ([], 0) =
      Some ([] @ dec_bytes (take ?k s), 0 + pads (take ?k s))"
    by (intro decode_loop_eq)
  then show ?thesis using assms by (simp add: sint_minus_3)
qed

lemma encode_tail:
  assumes "length orig = 3 * i + length d" "drop (3 * i) orig = d" "d \<noteq> []" "length d < 3"
  shows "enc_bytes d =
    (if length d = 2 then [char64 (drop_bit 2 (orig ! (3 * i))),
       char64 (push_bit 4 (orig ! (3 * i) AND 0x3) OR drop_bit 4 (orig ! (3 * i + 1))),
       char64 (push_bit 2 (orig ! (3 * i + 1))), 61]
     else [char64 (drop_bit 2 (orig ! (3 * i))), char64 (push_bit 4 (orig ! (3 * i) AND 0x3)), 61, 61])"
proof -
  have "orig ! (3 * i + k) = d ! k" for k
    using assms(1,2) nth_drop[of "3 * i" orig k] by simp
  from this[of 0] this[of 1] assms(3,4) show ?thesis
    by (cases d rule: enc_bytes.cases) simp_all
qed

lemma enc_bytes_append: "length x = 3 * n \<Longrightarrow> enc_bytes (x @ y) = enc_bytes x @ enc_bytes y"
proof (induction n arbitrary: x)
  case (Suc n)
  then obtain a b c r where "x = a # b # c # r" "length r = 3 * n"
    by (cases x rule: enc_bytes.cases) auto
  with Suc.IH show ?case by simp
qed simp

lemma unat_of_nat_u32: "n < 2 ^ 32 \<Longrightarrow> unat (of_nat n :: u32) = n"
  by (simp add: unsigned_of_nat take_bit_nat_eq_self)

lemma of_nat_u32_eq_iff:
  "a < 2 ^ 32 \<Longrightarrow> b < 2 ^ 32 \<Longrightarrow> (of_nat a :: u32) = of_nat b \<longleftrightarrow> a = b"
  using unat_of_nat_u32 by metis

lemma encode_sizes:
  fixes n :: nat
  defines "len \<equiv> of_nat n :: u32"
  assumes "n \<le> 3 * (2 ^ 29 - 1)"
  shows "unat (len div 3) = n div 3"
    and "len > len div 3 * 3 \<longleftrightarrow> n mod 3 \<noteq> 0"
    and "len = len div 3 * 3 + 2 \<longleftrightarrow> n mod 3 = 2"
    and "unat (4 * (len div 3 + (if n mod 3 \<noteq> 0 then 1 else 0))) = 4 * ((n + 2) div 3)"
    and "unat (4 * (len div 3 + (if n mod 3 \<noteq> 0 then 1 else 0)) + 1) = 4 * ((n + 2) div 3) + 1"
proof -
  have len: "unat len = n"
    using assms(2) unat_of_nat_u32[of n] by (simp add: len_def)
  show q: "unat (len div 3) = n div 3"
    by (simp add: unat_div_distrib len)
  then have q': "len div 3 = of_nat (n div 3)"
    by (metis of_nat_unat ucast_id)
  have d3: "len div 3 * 3 = of_nat (n div 3 * 3)"
    by (simp only: q' of_nat_mult of_nat_numeral)
  have b: "n div 3 * 3 \<le> n" "n < 2 ^ 32" "n div 3 * 3 + 2 < 2 ^ 32"
    using assms(2) by simp_all
  have m: "n div 3 * 3 + n mod 3 = n" by simp
  show "len > len div 3 * 3 \<longleftrightarrow> n mod 3 \<noteq> 0"
    unfolding d3 word_less_nat_alt len using unat_of_nat_u32[of "n div 3 * 3"] b m by linarith
  have "len = len div 3 * 3 + 2 \<longleftrightarrow> (of_nat n :: u32) = of_nat (n div 3 * 3 + 2)"
    unfolding d3 by (simp add: len_def add.commute)
  then show "len = len div 3 * 3 + 2 \<longleftrightarrow> n mod 3 = 2"
    using of_nat_u32_eq_iff[OF b(2,3)] m by linarith
  have c: "n div 3 + (if n mod 3 \<noteq> 0 then 1 else 0) = (n + 2) div 3"
    by (cases "n mod 3 = 0") presburger+
  have w: "4 * (len div 3 + (if n mod 3 \<noteq> 0 then 1 else 0)) = of_nat (4 * ((n + 2) div 3))"
    unfolding q' c[symmetric] by (cases "n mod 3 = 0") simp_all
  have "4 * ((n + 2) div 3) + 1 < 2 ^ 32" using assms(2) by simp
  then show "unat (4 * (len div 3 + (if n mod 3 \<noteq> 0 then 1 else 0))) = 4 * ((n + 2) div 3)"
    "unat (4 * (len div 3 + (if n mod 3 \<noteq> 0 then 1 else 0)) + 1) = 4 * ((n + 2) div 3) + 1"
    using unat_of_nat_u32[of "4 * ((n + 2) div 3)"] unat_of_nat_u32[of "4 * ((n + 2) div 3) + 1"]
    by (simp_all only: w of_nat_add of_nat_1)
qed

lemma base64_encode_bytes:
  assumes "length d \<le> 3 * (2 ^ 29 - 1)"
  shows "base64_encode d (of_nat (length d)) = Some (enc_bytes d @ [0])"
proof -
  let ?n = "length d div 3"
  let ?t = "drop (3 * ?n) d"
  note sizes = encode_sizes[OF assms]
  have t: "length ?t = length d mod 3" "length d = 3 * ?n + length ?t"
    by (simp_all add: minus_mult_div_eq_mod)
  have d: "enc_bytes d = enc_bytes (take (3 * ?n) d) @ enc_bytes ?t"
    using enc_bytes_append[of "take (3 * ?n) d" ?n ?t] by simp
  have loop: "encode_loop d (4 * ((length d + 2) div 3) + 1) 0 ?n [] = Some (enc_bytes (take (3 * ?n) d))"
    by (subst encode_loop_eq) auto
  have take: "take (4 * ((length d + 2) div 3)) (enc_bytes d) = enc_bytes d"
    by (simp add: length_enc_bytes)
  show ?thesis
  proof (cases "?t = []")
    case True
    then have "length d mod 3 = 0" using t(1) by simp
    with True d loop take show ?thesis
      unfolding base64_encode_def Let_def sizes by simp
  next
    case False
    then have m: "length d mod 3 \<noteq> 0" "length ?t < 3" using t(1) by (metis length_0_conv) (simp add: t(1))
    have p: "3 * ?n < length d" "length d mod 3 = 2 \<Longrightarrow> 3 * ?n + 1 < length d" using t m by linarith+
    have e: "enc_bytes ?t =
        (if length d mod 3 = 2 then [char64 (drop_bit 2 (d ! (3 * ?n))),
           char64 (push_bit 4 (d ! (3 * ?n) AND 0x3) OR drop_bit 4 (d ! (3 * ?n + 1))),
           char64 (push_bit 2 (d ! (3 * ?n + 1))), 61]
         else [char64 (drop_bit 2 (d ! (3 * ?n))), char64 (push_bit 4 (d ! (3 * ?n) AND 0x3)), 61, 61])"
      using encode_tail[OF t(2) refl False m(2)] unfolding t(1) .
    then have "length (enc_bytes ?t) = 4" by (simp split: if_splits)
    then have cap: "\<not> 4 * ((length d + 2) div 3) + 1 < length (enc_bytes (take (3 * ?n) d)) + 4"
      using length_enc_bytes[of d] unfolding d length_append by linarith
    have "(if \<not> length d mod 3 \<noteq> 0 then Some (enc_bytes (take (3 * ?n) d))
        else if 4 * ((length d + 2) div 3) + 1 < length (enc_bytes (take (3 * ?n) d)) + 4 then None
        else do {
          a \<leftarrow> rd8 d (3 * ?n);
          if length d mod 3 = 2 then do {
            b \<leftarrow> rd8 d (3 * ?n + 1);
            Some (enc_bytes (take (3 * ?n) d) @ [char64 (drop_bit 2 a), char64 (push_bit 4 (a AND 0x3) OR drop_bit 4 b),
                         char64 (push_bit 2 b), 61]) }
          else Some (enc_bytes (take (3 * ?n) d) @ [char64 (drop_bit 2 a), char64 (push_bit 4 (a AND 0x3)), 61, 61]) })
        = Some (enc_bytes d)"
      using p m(1) cap by (simp add: d e rd8_def)
    then show ?thesis
      unfolding base64_encode_def Let_def sizes loop bind.bind_lunit take by (simp only: bind.bind_lunit take)
  qed
qed

lemma base64_decode_eq:
  assumes "0 \<notin> set s" "n \<le> length s" "length s < 2 ^ 31"
  defines "out \<equiv> dec_bytes (take (4 * (n div 4)) s)"
  defines "p \<equiv> pads (take (4 * (n div 4)) s)"
  shows "base64_decode (s @ 0 # t) (of_nat n) trim =
    Some (take (if trim then trim_zeros out p (length out) else length out) out)"
proof -
  have "0 \<in> set (s @ 0 # t)" by simp
  then show ?thesis
    unfolding base64_decode_def out_def p_def cstr_append_nul[OF assms(1)] decode_bytes[OF assms(1-3)]
      Let_def bind.bind_lunit prod.case by (simp only: if_False not_True_eq_False simp_thms)
qed

lemma decoded_back:
  assumes "length d \<le> 3 * (2 ^ 29 - 1)"
  shows "base64_decode (enc_bytes d @ [0]) (of_nat (length (enc_bytes d))) True = Some d"
    and "base64_decode (enc_bytes d @ [0]) (of_nat (length (enc_bytes d))) False =
      Some (d @ replicate ((3 - length d mod 3) mod 3) 0)"
proof -
  let ?s = "enc_bytes d" and ?p = "(3 - length d mod 3) mod 3"
  have len: "length ?s < 2 ^ 31" "4 * (length ?s div 4) = length ?s"
    using assms by (simp_all add: length_enc_bytes)
  have dec: "base64_decode (?s @ [0]) (of_nat (length ?s)) t =
      Some (take (if t then trim_zeros (d @ replicate ?p 0) ?p (length d + ?p) else length d + ?p)
        (d @ replicate ?p 0))" for t
    using base64_decode_eq[of ?s "length ?s" "[]" t] len
    by (simp only: nul_notin_enc_bytes not_False_eq_True order_refl simp_thms
        take_all dec_enc_bytes pads_enc_bytes length_append length_replicate)
  show "base64_decode (?s @ [0]) (of_nat (length ?s)) True = Some d"
    by (simp only: dec trim_zeros_replicate if_True) simp
  show "base64_decode (?s @ [0]) (of_nat (length ?s)) False = Some (d @ replicate ?p 0)"
    by (simp only: dec if_False) simp
qed

section \<open>Properties\<close>

text \<open>
  C31: base64_roundtrip. Encoding never fails on data whose text fits an \<open>int\<close>; the text
  has four characters for every three bytes begun and ends in a NUL, and decoding it with trimming gives
  the data back, zero bytes at its end included, while decoding it without trimming leaves one zero byte
  for each padding character.
\<close>

theorem base64_roundtrip:
  assumes "length d \<le> 3 * (2 ^ 29 - 1)"
  shows "\<exists>s. base64_encode d (of_nat (length d)) = Some (s @ [0]) \<and> 0 \<notin> set s \<and>
    length s = 4 * ((length d + 2) div 3) \<and>
    base64_decode (s @ [0]) (of_nat (length s)) True = Some d \<and>
    base64_decode (s @ [0]) (of_nat (length s)) False =
      Some (d @ replicate ((3 - length d mod 3) mod 3) 0)"
  using base64_encode_bytes[OF assms] decoded_back[OF assms] nul_notin_enc_bytes length_enc_bytes
  by blast

theorem base64_roundtrip_witness:
  "\<exists>s. base64_encode [0x4D, 0] 2 = Some (s @ [0]) \<and> base64_decode (s @ [0]) (of_nat (length s)) True = Some [0x4D, 0]"
  using base64_roundtrip[of "[0x4D, 0]"] by auto

text \<open>
  Base64 decode safe: On any string (alphabet characters or not) and any size up to its length, decoding
  reads and writes within its buffers and returns at most three bytes for each whole group of four
  characters.
\<close>

theorem base64_decode_safe:
  assumes "0 \<notin> set s" "n \<le> length s" "length s < 2 ^ 31"
  shows "\<exists>out. base64_decode (s @ 0 # t) (of_nat n) trim = Some out \<and> length out \<le> 3 * (n div 4)"
  unfolding base64_decode_eq[OF assms] using assms(2)
  by (auto simp: length_dec_bytes min_def)

theorem base64_decode_safe_witness:
  "\<exists>out. base64_decode ([0x2A, 0x2A, 0x3D, 0x3D, 0x41] @ [0]) 5 True = Some out \<and> length out \<le> 3"
  using base64_decode_safe[of "[0x2A, 0x2A, 0x3D, 0x3D, 0x41]" 5 "[]" True] by simp

text \<open>
  Base64 test exact: \<open>is_base64_encoded\<close> answers true for exactly the strings that
  \<open>base64_encode\<close> produces.
\<close>

theorem base64_test_exact:
  assumes "0 \<notin> set s" "length s < 2 ^ 31"
  shows "is_base64_encoded (s @ 0 # t) =
    Some (\<exists>d. length d \<le> 3 * (2 ^ 29 - 1) \<and> base64_encode d (of_nat (length d)) = Some (s @ [0]))"
proof -
  let ?k = "take (4 * (length s div 4)) s"
  let ?d = "take (trim_zeros (dec_bytes ?k) (pads ?k) (length (dec_bytes ?k))) (dec_bytes ?k)"
  have dec: "base64_decode (s @ 0 # t) (of_nat (length s)) True = Some ?d" for t
    using base64_decode_eq[OF assms(1) order_refl assms(2), of t True] by (simp only: if_True)
  have "length ?d \<le> length (dec_bytes ?k)" by simp
  also have "\<dots> \<le> 3 * (2 ^ 29 - 1)" using assms(2) by (simp add: length_dec_bytes)
  finally have small: "length ?d \<le> 3 * (2 ^ 29 - 1)" .
  have "is_base64_encoded (s @ 0 # t) = Some (s = enc_bytes ?d)"
    unfolding is_base64_encoded_def cstr_append_nul[OF assms(1)] dec bind.bind_lunit
      base64_encode_bytes[OF small] cstr_append_nul[OF nul_notin_enc_bytes] by simp
  moreover have "s = enc_bytes ?d \<longleftrightarrow>
      (\<exists>d. length d \<le> 3 * (2 ^ 29 - 1) \<and> base64_encode d (of_nat (length d)) = Some (s @ [0]))"
  proof
    assume "s = enc_bytes ?d"
    then show "\<exists>d. length d \<le> 3 * (2 ^ 29 - 1) \<and> base64_encode d (of_nat (length d)) = Some (s @ [0])"
      using small base64_encode_bytes[OF small] by metis
  next
    assume "\<exists>d. length d \<le> 3 * (2 ^ 29 - 1) \<and> base64_encode d (of_nat (length d)) = Some (s @ [0])"
    then obtain d where d: "length d \<le> 3 * (2 ^ 29 - 1)" "base64_encode d (of_nat (length d)) = Some (s @ [0])"
      by blast
    then have s: "s = enc_bytes d" by (simp add: base64_encode_bytes)
    have "base64_decode (s @ [0]) (of_nat (length s)) True = Some d"
      unfolding s by (rule decoded_back(1)[OF d(1)])
    with dec[of "[]"] have "?d = d" by (simp only: option.inject)
    with s show "s = enc_bytes ?d" by (simp only:)
  qed
  ultimately show ?thesis by simp
qed

theorem base64_test_exact_witness:
  "is_base64_encoded [0x54, 0x57, 0x45, 0x3D, 0] =
    Some (\<exists>d. length d \<le> 3 * (2 ^ 29 - 1) \<and> base64_encode d (of_nat (length d)) = Some ([0x54, 0x57, 0x45, 0x3D] @ [0]))"
  using base64_test_exact[of "[0x54, 0x57, 0x45, 0x3D]" "[]"] by simp

end
