(* ===== verification/CString.thy ===== *)
theory CString
  imports Prelude "HOL-Library.Char_ord" "HOL-Library.Sublist"
begin

text \<open>
  The part of the C and C++ string library that the text components use, on strings without
  their terminating NUL: character classes of the "C" locale, \<open>strcasecmp\<close>, \<open>atoi\<close>, the
  searches of \<open>std::string\<close>. A position is \<open>Some\<close> index and \<open>npos\<close> is \<open>None\<close>.
\<close>

section \<open>Characters\<close>

definition ord :: "char \<Rightarrow> nat" where
  "ord c = of_char c"

definition isdigit :: "char \<Rightarrow> bool" where
  "isdigit c \<longleftrightarrow> 48 \<le> ord c \<and> ord c \<le> 57"

definition isupper :: "char \<Rightarrow> bool" where
  "isupper c \<longleftrightarrow> 65 \<le> ord c \<and> ord c \<le> 90"

definition islower :: "char \<Rightarrow> bool" where
  "islower c \<longleftrightarrow> 97 \<le> ord c \<and> ord c \<le> 122"

definition isalpha :: "char \<Rightarrow> bool" where
  "isalpha c \<longleftrightarrow> isupper c \<or> islower c"

definition isalnum :: "char \<Rightarrow> bool" where
  "isalnum c \<longleftrightarrow> isalpha c \<or> isdigit c"

definition isspace :: "char \<Rightarrow> bool" where
  "isspace c \<longleftrightarrow> ord c = 32 \<or> 9 \<le> ord c \<and> ord c \<le> 13"

definition tolower :: "char \<Rightarrow> char" where
  "tolower c = (if isupper c then char_of (ord c + 32) else c)"

definition toupper :: "char \<Rightarrow> char" where
  "toupper c = (if islower c then char_of (ord c - 32) else c)"

lemma ord_less: "ord c < 256"
  unfolding ord_def by (metis char_of_take_bit_eq of_char_of of_char_mod_256 mod_less_divisor zero_less_numeral)

lemma ord_char_of: "n < 256 \<Longrightarrow> ord (char_of n) = n"
  by (simp add: ord_def)

lemma char_of_ord [simp]: "char_of (ord c) = c"
  by (simp add: ord_def)

lemma ord_inject: "ord c = ord d \<longleftrightarrow> c = d"
  by (metis char_of_ord)

lemma tolower_toupper [simp]: "islower c \<Longrightarrow> tolower (toupper c) = c"
  by (auto simp: tolower_def toupper_def islower_def isupper_def ord_char_of)

lemma tolower_idem [simp]: "tolower (tolower c) = tolower c"
  by (auto simp: tolower_def isupper_def ord_char_of)

section \<open>Comparison and numbers\<close>

text \<open>\<open>!strcasecmp(s, t)\<close>.\<close>

definition strcaseeq :: "string \<Rightarrow> string \<Rightarrow> bool" where
  "strcaseeq s t \<longleftrightarrow> map tolower s = map tolower t"

lemma strcaseeq_refl [simp]: "strcaseeq s s"
  by (simp add: strcaseeq_def)

definition digit_val :: "char \<Rightarrow> nat" where
  "digit_val c = ord c - 48"

definition digits_val :: "string \<Rightarrow> nat" where
  "digits_val ds = foldl (\<lambda>v d. 10 * v + digit_val d) 0 ds"

text \<open>
  \<open>atoi\<close> of glibc: \<open>strtol\<close> in base 10, which skips white space, takes a sign and saturates at
  64 bits, converted to \<open>int\<close>.
\<close>

definition strtol10 :: "string \<Rightarrow> int" where
  "strtol10 s =
     (let t = dropWhile isspace s;
          neg = (t \<noteq> [] \<and> hd t = CHR ''-'');
          u = (if t \<noteq> [] \<and> (hd t = CHR ''-'' \<or> hd t = CHR ''+'') then tl t else t);
          v = int (digits_val (takeWhile isdigit u))
      in max (- (2 ^ 63)) (min (2 ^ 63 - 1) (if neg then - v else v)))"

definition atoi :: "string \<Rightarrow> int" where
  "atoi s = sint (word_of_int (strtol10 s) :: 32 word)"

text \<open>\<open>%d\<close> of a number that is not negative.\<close>

fun dec :: "nat \<Rightarrow> string" where
  "dec n = (if n < 10 then [char_of (48 + n)] else dec (n div 10) @ [char_of (48 + n mod 10)])"

declare dec.simps [simp del]

lemma dec_digits: "list_all isdigit (dec n) \<and> dec n \<noteq> []"
proof (induction n rule: dec.induct)
  case (1 n)
  then show ?case
    by (cases "n < 10") (simp_all add: dec.simps[of n] isdigit_def[of "char_of _"] ord_char_of)
qed

lemma digits_val_snoc: "digits_val (ds @ [d]) = 10 * digits_val ds + digit_val d"
  by (simp add: digits_val_def)

lemma digits_val_dec: "digits_val (dec n) = n"
proof (induction n rule: dec.induct)
  case (1 n)
  show ?case
  proof (cases "n < 10")
    case True
    then show ?thesis by (subst dec.simps) (simp add: digits_val_def digit_val_def ord_char_of)
  next
    case False
    with 1 show ?thesis
      by (subst dec.simps) (simp add: digits_val_snoc digit_val_def ord_char_of)
  qed
qed

lemma isdigit_not_space: "isdigit c \<Longrightarrow> \<not> isspace c \<and> c \<noteq> CHR ''-'' \<and> c \<noteq> CHR ''+''"
  by (auto simp: isdigit_def isspace_def ord_def)

text \<open>\<open>atoi\<close> reads back what \<open>%d\<close> printed.\<close>

lemma strtol10_dec:
  "n < 2 ^ 31 \<Longrightarrow> rest = [] \<or> \<not> isdigit (hd rest) \<Longrightarrow> strtol10 (dec n @ rest) = int n"
proof -
  assume n: "n < 2 ^ 31" and rest: "rest = [] \<or> \<not> isdigit (hd rest)"
  have d: "list_all isdigit (dec n)" "dec n \<noteq> []" using dec_digits by auto
  then obtain c cs where c: "dec n = c # cs" "isdigit c" by (cases "dec n") auto
  have "takeWhile isdigit rest = []" using rest by (cases rest) auto
  then have "takeWhile isdigit (dec n @ rest) = dec n"
    using d(1) by (subst takeWhile_append2) (auto simp: list_all_iff)
  moreover have "dropWhile isspace (dec n @ rest) = dec n @ rest" "hd (dec n @ rest) \<noteq> CHR ''-''"
    "hd (dec n @ rest) \<noteq> CHR ''+''"
    using isdigit_not_space[OF c(2)] c(1) by auto
  ultimately show ?thesis
    using n d(2) by (simp add: strtol10_def Let_def digits_val_dec)
qed

lemma atoi_dec: "n < 2 ^ 31 \<Longrightarrow> atoi (dec n) = int n"
proof -
  assume n: "n < 2 ^ 31"
  then have "strtol10 (dec n) = int n"
    using strtol10_dec[of n "[]"] by simp
  moreover have "sint (word_of_int (int n) :: 32 word) = int n"
    using n sint_small[of "of_nat n"] by (simp add: unsigned_of_nat take_bit_nat_eq_self)
  ultimately show ?thesis by (simp add: atoi_def)
qed

section \<open>Searches\<close>

fun find_char :: "char \<Rightarrow> string \<Rightarrow> nat option" where
  "find_char c [] = None"
| "find_char c (x # xs) = (if x = c then Some 0 else map_option Suc (find_char c xs))"

text \<open>\<open>strpbrk\<close> and \<open>find_first_of\<close>.\<close>

fun find_first_of :: "string \<Rightarrow> string \<Rightarrow> nat option" where
  "find_first_of cs [] = None"
| "find_first_of cs (x # xs) = (if x \<in> set cs then Some 0 else map_option Suc (find_first_of cs xs))"

text \<open>\<open>find(t)\<close> and \<open>rfind(t)\<close>: the first and the last place where \<open>t\<close> occurs.\<close>

fun find_str :: "string \<Rightarrow> string \<Rightarrow> nat option" where
  "find_str t [] = (if t = [] then Some 0 else None)"
| "find_str t (x # xs) = (if prefix t (x # xs) then Some 0 else map_option Suc (find_str t xs))"

fun rfind_str :: "string \<Rightarrow> string \<Rightarrow> nat option" where
  "rfind_str t [] = (if t = [] then Some 0 else None)"
| "rfind_str t (x # xs) = (case rfind_str t xs of Some n \<Rightarrow> Some (Suc n)
     | None \<Rightarrow> if prefix t (x # xs) then Some 0 else None)"

lemma find_char_Some: "find_char c s = Some n \<Longrightarrow> n < length s \<and> s ! n = c \<and> c \<notin> set (take n s)"
  by (induction s arbitrary: n) (auto split: if_splits)

lemma find_char_None: "find_char c s = None \<longleftrightarrow> c \<notin> set s"
  by (induction s) auto

lemma find_char_append: "c \<notin> set s \<Longrightarrow> find_char c (s @ c # t) = Some (length s)"
  by (induction s) auto

lemma find_first_of_None: "find_first_of cs s = None \<longleftrightarrow> set s \<inter> set cs = {}"
  by (induction s) auto

lemma find_first_of_append:
  "set s \<inter> set cs = {} \<Longrightarrow> c \<in> set cs \<Longrightarrow> find_first_of cs (s @ c # t) = Some (length s)"
  by (induction s) auto

lemma find_str_Some: "find_str t s = Some n \<Longrightarrow> n \<le> length s \<and> prefix t (drop n s)"
  by (induction s arbitrary: n) (auto split: if_splits)

lemma rfind_str_Some: "rfind_str t s = Some n \<Longrightarrow> n \<le> length s \<and> prefix t (drop n s)"
  by (induction s arbitrary: n) (auto split: if_splits option.splits)

lemma rfind_str_None: "rfind_str t s = None \<Longrightarrow> n \<le> length s \<Longrightarrow> \<not> prefix t (drop n s)"
proof (induction s arbitrary: n)
  case (Cons x s)
  then show ?case by (cases n) (auto split: if_splits option.splits)
qed (auto split: if_splits)

lemma rfind_str_last:
  "n \<le> length s \<Longrightarrow> prefix t (drop n s) \<Longrightarrow> \<exists>k\<ge>n. rfind_str t s = Some k"
proof (induction s arbitrary: n)
  case (Cons x s)
  show ?case
  proof (cases n)
    case 0
    with Cons.prems show ?thesis by (auto split: option.splits)
  next
    case (Suc k)
    with Cons.prems obtain j where "j \<ge> k" "rfind_str t s = Some j"
      using Cons.IH[of k] by auto
    with Suc show ?thesis by auto
  qed
qed (auto split: if_splits)

end
