(* ===== verification/PosixIO.thy ===== *)
theory PosixIO
  imports CString
begin

text \<open>
  The helpers of \<open>xutil.cc\<close> around system calls: \<open>writen\<close>, \<open>readn\<close>, \<open>exec_get_str\<close>,
  \<open>exec_get_int\<close>, \<open>scandir\<close> and \<open>short_snap\<close>. What the system answers is an argument: the list
  of the results of the successive calls. A loop whose list runs out has not returned, and its
  value is \<open>Pending\<close>; a call given memory outside its buffer is \<open>None\<close>.
\<close>

datatype io_ret = Returned int | Pending

section \<open>writen and readn\<close>

text \<open>\<open>Wrote k\<close>: the call took \<open>k\<close> bytes, or all it was given where that is fewer.\<close>

datatype write_res = Wrote nat | WIntr | WErr

text \<open>
  The loop of \<open>writen\<close>: \<open>p\<close> is \<open>ptr - buf\<close>, \<open>t\<close> is \<open>to_write\<close> and \<open>sent\<close> what reached the file.
  On \<open>EINTR\<close> the code runs \<open>continue\<close>, and the step of the \<open>for\<close> then adds the -1 that \<open>write\<close>
  returned to \<open>ptr\<close> and subtracts it from \<open>to_write\<close>.
\<close>

fun writen_loop ::
  "mem \<Rightarrow> int \<Rightarrow> nat \<Rightarrow> write_res list \<Rightarrow> u8 list \<Rightarrow> (io_ret \<times> u8 list) option" where
  "writen_loop buf p 0 evs sent = Some (Returned p, sent)"
| "writen_loop buf p (Suc t) [] sent = Some (Pending, sent)"
| "writen_loop buf p (Suc t) (ev # evs) sent =
     (if p < 0 \<or> p + int (Suc t) > int (length buf) then None
      else case ev of
        Wrote k \<Rightarrow>
          (let k = min k (Suc t)
           in writen_loop buf (p + int k) (Suc t - k) evs (sent @ take k (drop (nat p) buf)))
      | WIntr \<Rightarrow> writen_loop buf (p - 1) (Suc (Suc t)) evs sent
      | WErr \<Rightarrow> Some (Returned (- 1), sent))"

definition writen :: "mem \<Rightarrow> nat \<Rightarrow> write_res list \<Rightarrow> (io_ret \<times> u8 list) option" where
  "writen buf n evs = writen_loop buf 0 n evs []"

text \<open>\<open>Got bs\<close>: the call delivered the bytes \<open>bs\<close> (as many as it was asked for at most); none is the end of the file.\<close>

datatype read_res = Got "u8 list" | RIntr | RErr

fun readn_loop :: "nat \<Rightarrow> mem \<Rightarrow> nat \<Rightarrow> nat \<Rightarrow> read_res list \<Rightarrow> (io_ret \<times> mem) option" where
  "readn_loop n buf p 0 evs = Some (Returned (int n), buf)"
| "readn_loop n buf p (Suc t) [] = Some (Pending, buf)"
| "readn_loop n buf p (Suc t) (ev # evs) =
     (case ev of
        Got bs \<Rightarrow>
          (let bs = take (Suc t) bs
           in if bs = [] then Some (Returned (int (n - Suc t)), buf)
              else do { buf \<leftarrow> wrn buf p bs; readn_loop n buf (p + length bs) (Suc t - length bs) evs })
      | RIntr \<Rightarrow> readn_loop n buf p (Suc t) evs
      | RErr \<Rightarrow> Some (Returned (- 1), buf))"

definition readn :: "mem \<Rightarrow> nat \<Rightarrow> read_res list \<Rightarrow> (io_ret \<times> mem) option" where
  "readn buf n evs = readn_loop n buf 0 n evs"

section \<open>The output of a command\<close>

text \<open>
  \<open>snprintf(buff + offset, len - offset, "%s", line)\<close>: at most \<open>size - 1\<close> bytes and a NUL, and
  the length of the whole line as the result. The size is a \<open>size_t\<close>.
\<close>

definition snprintf_line :: "mem \<Rightarrow> nat \<Rightarrow> u64 \<Rightarrow> u8 list \<Rightarrow> mem option" where
  "snprintf_line buff offset sz line =
     (if sz = 0 then Some buff else wrn buff offset (take (unat sz - 1) line @ [0]))"

fun exec_lines :: "u64 \<Rightarrow> mem \<Rightarrow> u64 \<Rightarrow> u8 list list \<Rightarrow> (mem \<times> u64) option" where
  "exec_lines len buff offset [] = Some (buff, offset)"
| "exec_lines len buff offset (line # ls) = do {
     buff \<leftarrow> snprintf_line buff (unat offset) (len - offset) line;
     exec_lines len buff (offset + of_nat (length line)) ls }"

text \<open>
  The command's output as \<open>fgets\<close> returns it, or \<open>None\<close> where \<open>popen\<close> failed; \<open>rd_err\<close> is
  \<open>ferror\<close> after the loop. \<open>signal\<close> is taken to succeed. The result is the boolean returned and
  the buffer.
\<close>

definition exec_get_str ::
  "u8 list list option \<Rightarrow> bool \<Rightarrow> mem \<Rightarrow> u64 \<Rightarrow> (bool \<times> mem) option" where
  "exec_get_str out rd_err buff len =
     (case out of
        None \<Rightarrow> Some (False, buff)
      | Some lines \<Rightarrow> do {
          (buff, offset) \<leftarrow> exec_lines len buff 0 lines;
          if rd_err then Some (False, buff)
          else if offset \<noteq> 0 then
            (if 0 \<notin> set buff then None
             else if cstr buff = [] then None
             else do { buff \<leftarrow> wr8 buff (length (cstr buff) - 1) 0; Some (True, buff) })
          else Some (True, buff) })"

text \<open>\<open>exec_get_int\<close> with its local array, whose first contents are \<open>junk\<close>.\<close>

definition exec_get_int :: "u8 list list option \<Rightarrow> bool \<Rightarrow> mem \<Rightarrow> (bool \<times> int option) option" where
  "exec_get_int out rd_err junk = do {
     (ok, buff) \<leftarrow> exec_get_str out rd_err (take 128 junk) 128;
     if \<not> ok then Some (False, None)
     else if 0 \<notin> set buff then None
     else Some (True, Some (atoi (map (char_of \<circ> unat) (cstr buff)))) }"

section \<open>Directories and sleeping\<close>

text \<open>The entries are what \<open>readdir\<close> returns, \<open>None\<close> where \<open>opendir\<close> failed; \<open>cb\<close> threads a state.\<close>

fun scan_entries ::
  "string \<Rightarrow> (string \<Rightarrow> 's \<Rightarrow> int \<times> 's) \<Rightarrow> string list \<Rightarrow> 's \<Rightarrow> int \<times> 's" where
  "scan_entries path cb [] s = (0, s)"
| "scan_entries path cb (d # ds) s =
     (if d = ''.'' \<or> d = ''..'' then scan_entries path cb ds s
      else case cb (path @ ''/'' @ d) s of
        (r, s) \<Rightarrow> if r < 0 then (- 1, s) else scan_entries path cb ds s)"

definition scandir ::
  "string option \<Rightarrow> (string \<Rightarrow> 's \<Rightarrow> int \<times> 's) option \<Rightarrow> string list option \<Rightarrow> 's \<Rightarrow> int \<times> 's" where
  "scandir path cb dir s =
     (case (path, cb, dir) of
        (Some path, Some cb, Some ds) \<Rightarrow> scan_entries path cb ds s
      | _ \<Rightarrow> (- 1, s))"

text \<open>
  The sleeps of \<open>short_snap\<close>; \<open>quit\<close> tells of each test of \<open>*quit\<close> in turn what it reads. A zero
  granularity divides by zero.
\<close>

fun snaps :: "nat \<Rightarrow> u64 \<Rightarrow> (nat \<Rightarrow> bool) \<Rightarrow> nat \<Rightarrow> u64 list \<times> nat" where
  "snaps 0 g quit i = ([], i)"
| "snaps (Suc n) g quit i =
     (if quit i then ([], Suc i) else case snaps n g quit (Suc i) of (sl, i) \<Rightarrow> (g # sl, i))"

definition short_snap :: "u64 \<Rightarrow> (nat \<Rightarrow> bool) \<Rightarrow> u64 \<Rightarrow> u64 list option" where
  "short_snap ms quit granularity =
     (if granularity = 0 then None
      else case snaps (unat (ucast (ms div granularity) :: u32)) granularity quit 0 of
        (sl, i) \<Rightarrow> Some (if quit i then sl else sl @ [ms mod granularity]))"

section \<open>Properties\<close>

lemma writen_loop_sends:
  "list_all (\<lambda>ev. \<exists>k>0. ev = Wrote k) evs \<Longrightarrow> p + t \<le> length buf \<Longrightarrow> t \<le> length evs \<Longrightarrow>
   writen_loop buf (int p) t evs sent = Some (Returned (int (p + t)), sent @ take t (drop p buf))"
proof (induction evs arbitrary: p t sent)
  case (Cons ev evs)
  show ?case
  proof (cases t)
    case (Suc t')
    from Cons.prems(1) obtain k where k: "ev = Wrote k" "k > 0" "list_all (\<lambda>ev. \<exists>k>0. ev = Wrote k) evs"
      by auto
    let ?k = "min k t"
    have "writen_loop buf (int p) t (ev # evs) sent =
        writen_loop buf (int (p + ?k)) (t - ?k) evs (sent @ take ?k (drop p buf))"
      using Cons.prems(2) Suc k(1) by (simp add: Let_def)
    also have "\<dots> = Some (Returned (int (p + ?k + (t - ?k))),
        (sent @ take ?k (drop p buf)) @ take (t - ?k) (drop (p + ?k) buf))"
      by (rule Cons.IH[OF k(3)]) (use Cons.prems Suc k(2) in \<open>auto simp: min_def\<close>)
    also have "\<dots> = Some (Returned (int (p + t)), sent @ take t (drop p buf))"
      using take_add[of ?k "t - ?k" "drop p buf"] by (simp add: add.commute)
    finally show ?thesis .
  qed simp
qed simp

lemma writen_loop_error:
  "list_all (\<lambda>ev. \<exists>k>0. ev = Wrote k) evs \<Longrightarrow> p + t \<le> length buf \<Longrightarrow>
   k = sum_list (map (\<lambda>ev. case ev of Wrote k \<Rightarrow> k | _ \<Rightarrow> 0) evs) \<Longrightarrow> k < t \<Longrightarrow>
   writen_loop buf (int p) t (evs @ WErr # rest) sent = Some (Returned (- 1), sent @ take k (drop p buf))"
proof (induction evs arbitrary: p t sent k)
  case Nil
  then show ?case by (cases t) auto
next
  case (Cons ev evs)
  from Cons.prems(1) obtain j where j: "ev = Wrote j" "list_all (\<lambda>ev. \<exists>k>0. ev = Wrote k) evs" by auto
  let ?r = "sum_list (map (\<lambda>ev. case ev of Wrote k \<Rightarrow> k | _ \<Rightarrow> 0) evs)"
  obtain t' where t: "t = Suc t'" using Cons.prems(4) by (cases t) auto
  have k: "k = j + ?r" "min j t = j" using Cons.prems(3,4) j(1) by simp_all
  have "writen_loop buf (int p) t ((ev # evs) @ WErr # rest) sent =
      writen_loop buf (int (p + j)) (t - j) (evs @ WErr # rest) (sent @ take j (drop p buf))"
    using Cons.prems(2) j(1) k(2) t by (simp add: Let_def)
  also have "\<dots> = Some (Returned (- 1), (sent @ take j (drop p buf)) @ take ?r (drop (p + j) buf))"
    by (rule Cons.IH[OF j(2) _ refl]) (use Cons.prems k in auto)
  finally show ?case
    using take_add[of j ?r "drop p buf"] by (simp add: k(1) add.commute)
qed

text \<open>
  Writen sends: When no call is interrupted and each makes progress, \<open>writen\<close> sends exactly
  the \<open>n\<close> bytes, however the kernel splits them, and returns \<open>n\<close>; where a call
  fails first it returns -1 and what was sent is a prefix.
\<close>

theorem writen_sends:
  assumes "list_all (\<lambda>ev. \<exists>k>0. ev = Wrote k) evs" "n \<le> length buf"
  defines "k \<equiv> sum_list (map (\<lambda>ev. case ev of Wrote k \<Rightarrow> k | _ \<Rightarrow> 0) evs)"
  shows "(n \<le> length evs \<longrightarrow> writen buf n evs = Some (Returned (int n), take n buf)) \<and>
    (k < n \<longrightarrow> writen buf n (evs @ [WErr]) = Some (Returned (- 1), take k buf))"
  using writen_loop_sends[OF assms(1), of 0 n buf "[]"] writen_loop_error[OF assms(1), of 0 n buf k "[]" "[]"]
    assms(2,3) by (simp add: writen_def)

theorem writen_sends_witness:
  "writen [1, 2, 3] 3 [Wrote 1, Wrote 1, Wrote 7] = Some (Returned 3, [1, 2, 3]) \<and>
   writen [1, 2, 3] 3 ([Wrote 2] @ [WErr]) = Some (Returned (- 1), [1, 2])"
  using writen_sends[of "[Wrote 1, Wrote 1, Wrote 7]" 3 "[1, 2, 3]"] writen_sends[of "[Wrote 2]" 3 "[1, 2, 3]"]
  by simp

text \<open>
  Writen eintr resends: One interrupted call makes \<open>writen\<close> step back: after
  \<open>k\<close> bytes it sends the last of them again and still returns \<open>n\<close>, and before
  the first byte it hands \<open>write\<close> the address in front of the buffer.
\<close>

theorem writen_eintr_resends:
  assumes "0 < k" "k < n" "n \<le> length buf"
  shows "writen buf n [Wrote k, WIntr, Wrote n] = Some (Returned (int n), take k buf @ drop (k - 1) (take n buf))
    \<and> writen buf n [WIntr, Wrote n] = None"
proof -
  from assms obtain j t where k: "k = Suc j" and n: "n = Suc (j + Suc t)"
    by (metis add_Suc gr0_conv_Suc less_imp_Suc_add add_Suc_right)
  have "writen buf n [Wrote k, WIntr, Wrote n] =
      writen_loop buf (int (Suc j)) (Suc t) [WIntr, Wrote n] (take k buf)"
    using assms by (simp add: writen_def n k Let_def)
  also have "\<dots> = writen_loop buf (int j) (Suc (Suc t)) [Wrote n] (take k buf)"
    using assms by (simp add: n)
  also have "\<dots> = Some (Returned (int n), take k buf @ take (Suc (Suc t)) (drop j buf))"
    using assms by (simp add: n Let_def)
  also have "take (Suc (Suc t)) (drop j buf) = drop (k - 1) (take n buf)"
    by (simp add: drop_take k n)
  finally show ?thesis using assms by (simp add: writen_def n)
qed

theorem writen_eintr_resends_witness:
  "writen [1, 2, 3] 3 [Wrote 2, WIntr, Wrote 3] = Some (Returned 3, [1, 2, 2, 3])"
  using writen_eintr_resends[of 2 3 "[1, 2, 3]"] by simp

text \<open>What a list of results delivers.\<close>

fun got :: "read_res list \<Rightarrow> u8 list" where
  "got (Got bs # evs) = bs @ got evs"
| "got (_ # evs) = got evs"
| "got [] = []"

lemma readn_loop_collects:
  "list_all (\<lambda>ev. ev = RIntr \<or> (\<exists>b bs. ev = Got (b # bs))) evs \<Longrightarrow> p + t \<le> length buf \<Longrightarrow> n = p + t \<Longrightarrow>
   readn_loop n buf p t (evs @ [Got []]) =
     Some (Returned (int (p + min t (length (got evs)))), splice buf p (take t (got evs)))"
proof (induction evs arbitrary: p t buf)
  case Nil
  then show ?case by (cases t) auto
next
  case (Cons ev evs)
  show ?case
  proof (cases t)
    case 0
    with Cons.prems show ?thesis by simp
  next
    case (Suc t')
    from Cons.prems(1) consider "ev = RIntr" | b bs where "ev = Got (b # bs)" by auto
    then show ?thesis
    proof cases
      case 1
      with Suc Cons.prems Cons.IH[of p t buf] show ?thesis by simp
    next
      case (2 b bs)
      let ?bs = "take t (b # bs)"
      have len: "p + length ?bs \<le> length buf" "?bs \<noteq> []" "length ?bs \<le> t"
        using Cons.prems(2) Suc by auto
      have "readn_loop n buf p t ((ev # evs) @ [Got []]) =
          readn_loop n (splice buf p ?bs) (p + length ?bs) (t - length ?bs) (evs @ [Got []])"
        using len 2 Suc by (simp add: Let_def wrn_def)
      also have "\<dots> = Some (Returned (int (p + length ?bs + min (t - length ?bs) (length (got evs)))),
          splice (splice buf p ?bs) (p + length ?bs) (take (t - length ?bs) (got evs)))"
        by (rule Cons.IH) (use Cons.prems len in auto)
      also have "\<dots> = Some (Returned (int (p + min t (length (got (ev # evs))))),
          splice buf p (?bs @ take (t - length ?bs) (got evs)))"
        using splice_append[OF len(1)] by (auto simp: 2 min_def)
      also have "?bs @ take (t - length ?bs) (got evs) = take t (got (ev # evs))"
        unfolding 2 got.simps take_append by (auto simp: min_def)
      finally show ?thesis .
    qed
  qed
qed

text \<open>
  Readn collects: \<open>readn\<close> puts what the calls deliver into the buffer one after another,
  retries the interrupted ones, and returns when it has the \<open>n\<close> bytes or at the end of the
  file; its result is the number of bytes and nothing behind them changes.
\<close>

theorem readn_collects:
  assumes "list_all (\<lambda>ev. ev = RIntr \<or> (\<exists>b bs. ev = Got (b # bs))) evs" "n \<le> length buf"
  shows "readn buf n (evs @ [Got []]) =
    Some (Returned (int (min n (length (got evs)))), splice buf 0 (take n (got evs)))"
  using readn_loop_collects[OF assms(1), of 0 n buf n] assms(2) by (simp add: readn_def)

theorem readn_collects_witness:
  "readn [0, 0, 0, 9] 3 ([Got [1, 2], RIntr, Got [3, 4]] @ [Got []]) = Some (Returned 3, [1, 2, 3, 9])"
  using readn_collects[of "[Got [1, 2], RIntr, Got [3, 4]]" 3 "[0, 0, 0, 9]"]
  by (simp add: splice_def numeral_3_eq_3)

lemma splice_same:
  "length c \<le> length b \<Longrightarrow> q + length b \<le> length m \<Longrightarrow> splice (splice m q c) q b = splice m q b"
  by (simp add: splice_def add.commute)

lemma splice_overwrite_last:
  assumes "p + length a + length b \<le> length m" "b \<noteq> []"
  shows "splice (splice m p (a @ [z])) (p + length a) b = splice m p (a @ b)"
proof -
  have "splice m p (a @ [z]) = splice (splice m p a) (p + length a) [z]"
    using assms by (simp add: splice_append)
  moreover have "splice (splice (splice m p a) (p + length a) [z]) (p + length a) b =
      splice (splice m p a) (p + length a) b"
    by (rule splice_same) (use assms in \<open>auto simp: Suc_le_eq\<close>)
  ultimately show ?thesis using assms(1) by (simp add: splice_append)
qed

lemma unat_of_nat_u64: "n < 2 ^ 64 \<Longrightarrow> unat (of_nat n :: u64) = n"
  by (simp add: unsigned_of_nat take_bit_nat_eq_self)

lemma exec_lines_eq:
  assumes "unat offset + length (concat lines) < unat len" "unat len \<le> length buff"
    and "lines \<noteq> []" "\<forall>l\<in>set lines. l \<noteq> []"
  shows "exec_lines len buff offset lines =
    Some (splice buff (unat offset) (concat lines @ [0]), offset + of_nat (length (concat lines)))"
  using assms
proof (induction lines arbitrary: buff offset)
  case (Cons l ls)
  have u: "unat (offset + of_nat (length l)) = unat offset + length l"
  proof -
    have "unat offset + length l < 2 ^ 64" using Cons.prems(1) unsigned_less[of len, where 'a = nat] by simp
    then show ?thesis by (simp add: unat_word_ariths unsigned_of_nat take_bit_eq_mod mod_simps)
  qed
  have "offset \<le> len" using Cons.prems(1) by (simp add: word_le_nat_alt)
  then have sub: "unat (len - offset) = unat len - unat offset" by (rule unat_sub)
  then have "len - offset \<noteq> 0" "length l \<le> unat (len - offset) - 1"
    using Cons.prems(1) by (auto simp: unat_eq_zero[symmetric])
  then have first: "snprintf_line buff (unat offset) (len - offset) l = Some (splice buff (unat offset) (l @ [0]))"
    using Cons.prems(1,2) by (simp add: snprintf_line_def wrn_def)
  show ?case
  proof (cases "ls = []")
    case True
    with first show ?thesis by simp
  next
    case False
    have "exec_lines len (splice buff (unat offset) (l @ [0])) (offset + of_nat (length l)) ls =
        Some (splice (splice buff (unat offset) (l @ [0])) (unat (offset + of_nat (length l))) (concat ls @ [0]),
          offset + of_nat (length l) + of_nat (length (concat ls)))"
      by (rule Cons.IH) (use Cons.prems False u in auto)
    with first Cons.prems show ?thesis
      by (simp add: u splice_overwrite_last add.assoc)
  qed
qed simp

lemma exec_output_fits:
  assumes "unat len \<le> length buff" "\<forall>l\<in>set lines. l \<noteq> [] \<and> 0 \<notin> set l" "lines \<noteq> []"
    and fit: "length (concat lines) < unat len"
  shows "\<exists>b. exec_get_str (Some lines) False buff len = Some (True, b) \<and> cstr b = butlast (concat lines)"
proof -
  let ?s = "concat lines"
  let ?b = "splice buff 0 (?s @ [0])"
  have s: "0 \<notin> set ?s" "?s \<noteq> []" using assms(2,3) by (auto simp: neq_Nil_conv)
  have l64: "length ?s < 2 ^ 64" using fit unsigned_less[of len, where 'a = nat] by simp
  then have nz: "(of_nat (length ?s) :: u64) \<noteq> 0"
    using s(2) unat_of_nat_u64[of "length ?s"] by auto
  obtain t y where t: "?s = t @ [y]" using s(2) by (cases ?s rule: rev_exhaust) auto
  define r where "r = drop (length ?s + 1) buff"
  have b: "?b = (t @ [y]) @ 0 # r" by (simp add: splice_def r_def flip: t)
  have cs: "cstr ?b = t @ [y]"
    unfolding b by (rule cstr_append_nul) (use s(1) t in simp)
  have w: "wr8 ?b (length (t @ [y]) - 1) 0 = Some (t @ 0 # 0 # r)"
    unfolding b by (simp add: wr8_def)
  have lines: "exec_lines len buff 0 lines = Some (?b, 0 + of_nat (length ?s))"
    using exec_lines_eq[of 0 lines len buff] fit assms by simp
  have "0 \<in> set ?b" unfolding b by simp
  then have "exec_get_str (Some lines) False buff len = Some (True, t @ 0 # 0 # r)"
    unfolding exec_get_str_def option.case lines bind.bind_lunit prod.case cs w
    using nz by simp
  moreover have "cstr (t @ 0 # 0 # r) = t"
    by (rule cstr_append_nul) (use s(1) t in simp)
  ultimately show "\<exists>b. exec_get_str (Some lines) False buff len = Some (True, b) \<and> cstr b = butlast ?s"
    unfolding t by simp
qed

lemma exec_output_wraps:
  assumes l: "length l > unat len" "length l < 2 ^ 63" "length buff = unat len"
  shows "exec_get_str (Some (l # l' # ls)) False buff len = None"
proof -
  have o: "unat (0 + of_nat (length l) :: u64) = length l" using l(2) by (simp add: unat_of_nat_u64)
  have "of_nat (length l) \<noteq> len" using o l(1) by auto
  then have nz: "len - (0 + of_nat (length l)) \<noteq> 0" by simp
  have "length (take (unat len - 1) l @ [0]) \<le> length buff \<or> len = 0"
    using l(3) unat_gt_0[of len] by (auto simp: min_def)
  then obtain b where b: "snprintf_line buff (unat (0 :: u64)) (len - 0) l = Some b" "length b = length buff"
    by (cases "len = 0") (simp_all add: snprintf_line_def wrn_def)
  have "snprintf_line b (unat (0 + of_nat (length l) :: u64)) (len - (0 + of_nat (length l))) l' = None"
    unfolding o snprintf_line_def using nz b(2) l(1,3) by (simp add: wrn_def)
  then have "exec_lines len buff 0 (l # l' # ls) = None"
    unfolding exec_lines.simps b(1) bind.bind_lunit by simp
  then show ?thesis by (simp add: exec_get_str_def)
qed

text \<open>
  Exec output: Output that fits the buffer with its NUL comes back as one string without its last
  character. Where the first line alone is longer than the buffer and another follows, the size left
  wraps below zero and the next line is written past the end.
\<close>

theorem exec_output:
  assumes "unat len \<le> length buff" "\<forall>l\<in>set lines. l \<noteq> [] \<and> 0 \<notin> set l" "lines \<noteq> []"
  shows "(length (concat lines) < unat len \<longrightarrow>
      (\<exists>b. exec_get_str (Some lines) False buff len = Some (True, b) \<and> cstr b = butlast (concat lines))) \<and>
    (unat len = length buff \<and> length (hd lines) > unat len \<and> length (hd lines) < 2 ^ 63 \<and> tl lines \<noteq> [] \<longrightarrow>
      exec_get_str (Some lines) False buff len = None)"
proof -
  have "tl lines \<noteq> [] \<Longrightarrow> hd lines # hd (tl lines) # tl (tl lines) = lines"
    using assms(3) by simp
  then show ?thesis
    using exec_output_fits[OF assms] exec_output_wraps[of len "hd lines" buff "hd (tl lines)" "tl (tl lines)"]
    by metis
qed

theorem exec_output_witness:
  "(\<exists>b. exec_get_str (Some [[0x61, 0x62], [0x0A]]) False [9, 9, 9, 9] 4 = Some (True, b) \<and> cstr b = [0x61, 0x62]) \<and>
   exec_get_str (Some [[0x61, 0x62, 0x0A], [0x0A]]) False [9, 9] 2 = None"
  using exec_output[of 4 "[9, 9, 9, 9]" "[[0x61, 0x62], [0x0A]]"]
    exec_output[of 2 "[9, 9]" "[[0x61, 0x62, 0x0A], [0x0A]]"] by simp

end
