(* ===== verification/Buffer.thy ===== *)
theory Buffer
  imports PosixIO
begin

text \<open>
  \<open>IOBuffer\<close> and \<open>MemHolder\<close> (\<open>xutil.cc\<close>). An \<open>IOBuffer\<close> keeps bytes in an array between the
  indices \<open>consumed\<close> and \<open>published\<close>; all sizes are \<open>uint32_t\<close> and wrap. A copy out of an array
  is \<open>None\<close>. The locale \<open>byte_queue\<close> is what a client of the buffer relies on: bytes leave in the
  order in which they came. Fresh memory is zero here; only bytes that were written are ever read
  by the operations that stay within the contract.
\<close>

record IOBuffer =
  io_buffer :: "mem option"
  io_size :: u32
  io_published :: u32
  io_consumed :: u32
  io_min_chunk_size :: u32

definition new_IOBuffer :: IOBuffer where
  "new_IOBuffer = \<lparr>io_buffer = None, io_size = 0, io_published = 0, io_consumed = 0, io_min_chunk_size = 4096\<rparr>"

definition GETAVAILABLEBYTESCOUNT :: "IOBuffer \<Rightarrow> u32" where
  "GETAVAILABLEBYTESCOUNT b = io_published b - io_consumed b"

text \<open>A \<open>memcpy\<close> of nothing touches no memory, whatever the pointers.\<close>

definition copy_in :: "mem option \<Rightarrow> nat \<Rightarrow> u8 list \<Rightarrow> mem option option" where
  "copy_in m p bs =
     (if bs = [] then Some m
      else case m of None \<Rightarrow> None | Some m \<Rightarrow> map_option Some (wrn m p bs))"

definition copy_out :: "mem option \<Rightarrow> nat \<Rightarrow> nat \<Rightarrow> u8 list option" where
  "copy_out m p n = (if n = 0 then Some [] else case m of None \<Rightarrow> None | Some m \<Rightarrow> rdn m p n)"

definition move_data :: "IOBuffer \<Rightarrow> IOBuffer option" where
  "move_data b =
     (if io_published b - io_consumed b \<le> io_consumed b then do {
        bs \<leftarrow> copy_out (io_buffer b) (unat (io_consumed b)) (unat (io_published b - io_consumed b));
        m \<leftarrow> copy_in (io_buffer b) 0 bs;
        Some (b\<lparr>io_buffer := m, io_published := io_published b - io_consumed b, io_consumed := 0\<rparr>) }
      else Some b)"

definition ensure_size :: "IOBuffer \<Rightarrow> u32 \<Rightarrow> IOBuffer option" where
  "ensure_size b expected =
     (if io_published b + expected \<le> io_size b then Some b
      else do {
        b \<leftarrow> move_data b;
        if io_published b + expected \<le> io_size b then Some b
        else do {
          let expected = (if io_published b + expected - io_size b < io_size b div 3
                          then io_size b + io_size b div 3 - io_published b else expected);
          let expected = (if expected < io_min_chunk_size b then io_min_chunk_size b else expected);
          let temp_buff = replicate (unat (io_published b + expected)) 0;
          temp_buff \<leftarrow>
            (case io_buffer b of
               None \<Rightarrow> Some temp_buff
             | Some m \<Rightarrow> do { bs \<leftarrow> rdn m 0 (unat (io_published b)); wrn temp_buff 0 bs });
          Some (b\<lparr>io_buffer := Some temp_buff, io_size := io_published b + expected\<rparr>) } })"

definition initialize :: "IOBuffer \<Rightarrow> u32 \<Rightarrow> IOBuffer option" where
  "initialize b expected =
     (if io_buffer b \<noteq> None \<or> io_size b \<noteq> 0 \<or> io_published b \<noteq> 0 \<or> io_consumed b \<noteq> 0 then Some b
      else ensure_size b expected)"

text \<open>The bytes passed are the \<open>size_\<close> bytes at \<open>buffer_\<close>; their number is a \<open>uint32_t\<close>.\<close>

definition read_from_buffer :: "IOBuffer \<Rightarrow> u8 list \<Rightarrow> IOBuffer option" where
  "read_from_buffer b bs = do {
     b \<leftarrow> ensure_size b (of_nat (length bs));
     m \<leftarrow> copy_in (io_buffer b) (unat (io_published b)) bs;
     Some (b\<lparr>io_buffer := m, io_published := io_published b + of_nat (length bs)\<rparr>) }"

definition read_from_input_buffer_at :: "IOBuffer \<Rightarrow> IOBuffer \<Rightarrow> u32 \<Rightarrow> u32 \<Rightarrow> IOBuffer option" where
  "read_from_input_buffer_at b input_buffer start sz = do {
     bs \<leftarrow> copy_out (io_buffer input_buffer) (unat (io_consumed input_buffer) + unat start) (unat sz);
     read_from_buffer b bs }"

definition read_from_input_buffer :: "IOBuffer \<Rightarrow> IOBuffer \<Rightarrow> u32 \<Rightarrow> IOBuffer option" where
  "read_from_input_buffer b other sz = do {
     bs \<leftarrow> copy_out (io_buffer other) (unat (io_consumed other)) (unat sz);
     read_from_buffer b bs }"

text \<open>A \<open>std::string\<close>, whose length is cut to 32 bits.\<close>

definition read_from_string :: "IOBuffer \<Rightarrow> u8 list \<Rightarrow> IOBuffer option" where
  "read_from_string b binary = read_from_buffer b (take (unat (of_nat (length binary) :: u32)) binary)"

definition read_from_byte :: "IOBuffer \<Rightarrow> u8 \<Rightarrow> IOBuffer option" where
  "read_from_byte b byt = do {
     b \<leftarrow> ensure_size b 1;
     m \<leftarrow> copy_in (io_buffer b) (unat (io_published b)) [byt];
     Some (b\<lparr>io_buffer := m, io_published := io_published b + 1\<rparr>) }"

definition read_from_repeat :: "IOBuffer \<Rightarrow> u8 \<Rightarrow> u32 \<Rightarrow> IOBuffer option" where
  "read_from_repeat b byt sz = do {
     b \<leftarrow> ensure_size b sz;
     m \<leftarrow> copy_in (io_buffer b) (unat (io_published b)) (replicate (unat sz) byt);
     Some (b\<lparr>io_buffer := m, io_published := io_published b + sz\<rparr>) }"

definition recycle :: "IOBuffer \<Rightarrow> IOBuffer" where
  "recycle b = (if io_consumed b \<noteq> io_published b then b else b\<lparr>io_consumed := 0, io_published := 0\<rparr>)"

text \<open>
  \<open>write_to_stdio\<close>; the answers of \<open>write\<close> are an argument. The result is what it returns with
  \<open>sent_amount\<close>, or \<open>None\<close> inside where \<open>writen\<close> has not returned.
\<close>

definition write_to_stdio ::
  "IOBuffer \<Rightarrow> u32 \<Rightarrow> write_res list \<Rightarrow> (((bool \<times> int) option \<times> IOBuffer) \<times> u8 list) option" where
  "write_to_stdio b sz evs = do {
     let n = (if sz > io_published b - io_consumed b then io_published b - io_consumed b else sz);
     (r, sent) \<leftarrow>
       (if n = 0 then Some (Returned 0, [])
        else case io_buffer b of
          None \<Rightarrow> None
        | Some m \<Rightarrow> writen (drop (unat (io_consumed b)) m) (unat n) evs);
     case r of
       Pending \<Rightarrow> Some ((None, b), sent)
     | Returned k \<Rightarrow>
         (if k < 0 then Some ((Some (False, k), b), sent)
          else Some ((Some (True, k), recycle (b\<lparr>io_consumed := io_consumed b + word_of_int k\<rparr>)), sent)) }"

definition set_min_chunk_size :: "IOBuffer \<Rightarrow> u32 \<Rightarrow> IOBuffer option" where
  "set_min_chunk_size b n =
     (if n > 0 \<and> n < 16 * 1024 * 1024 then Some (b\<lparr>io_min_chunk_size := n\<rparr>) else None)"

definition ignore :: "IOBuffer \<Rightarrow> u32 \<Rightarrow> IOBuffer" where
  "ignore b sz = recycle (b\<lparr>io_consumed := io_consumed b + sz\<rparr>)"

definition ignore_all :: "IOBuffer \<Rightarrow> IOBuffer" where
  "ignore_all b = recycle (b\<lparr>io_consumed := io_published b\<rparr>)"

definition cleanup :: "IOBuffer \<Rightarrow> IOBuffer" where
  "cleanup b = b\<lparr>io_buffer := None, io_size := 0, io_published := 0, io_consumed := 0\<rparr>"

section \<open>MemHolder\<close>

record MemHolder =
  mh_capacity :: u32
  mh_buf :: "mem option"

definition new_MemHolder :: MemHolder where
  "new_MemHolder = \<lparr>mh_capacity = 0, mh_buf = None\<rparr>"

definition destroy :: "MemHolder \<Rightarrow> MemHolder" where
  "destroy h = h\<lparr>mh_buf := None, mh_capacity := 0\<rparr>"

text \<open>\<open>got\<close> is the memory that \<open>malloc\<close> would return for a size, \<open>None\<close> where it fails.\<close>

definition mh_alloc :: "(nat \<Rightarrow> mem option) \<Rightarrow> MemHolder \<Rightarrow> u32 \<Rightarrow> mem option \<times> MemHolder" where
  "mh_alloc malloc h sz =
     (if sz = 0 then (mh_buf h, h)
      else if sz > mh_capacity h then
        (let h = h\<lparr>mh_capacity := sz + 1024\<rparr>
         in case malloc (unat (mh_capacity h)) of
              None \<Rightarrow> (None, destroy h)
            | Some tmp \<Rightarrow> (Some tmp, h\<lparr>mh_buf := Some tmp\<rparr>))
      else (mh_buf h, h))"

definition mh_calloc :: "(nat \<Rightarrow> mem option) \<Rightarrow> MemHolder \<Rightarrow> u32 \<Rightarrow> (mem option \<times> MemHolder) option" where
  "mh_calloc malloc h sz =
     (case mh_alloc malloc h sz of
        (None, h) \<Rightarrow> Some (None, h)
      | (Some p, h) \<Rightarrow> do {
          p \<leftarrow> wrn p 0 (replicate (unat sz) 0);
          Some (Some p, h\<lparr>mh_buf := Some p\<rparr>) })"

section \<open>The contract of a byte queue\<close>

text \<open>A client's run: chunks go in (\<open>Inl\<close>) and amounts are discarded (\<open>Inr\<close>).\<close>

fun run_queue :: "('s \<Rightarrow> u8 list \<Rightarrow> 's option) \<Rightarrow> ('s \<Rightarrow> nat \<Rightarrow> 's) \<Rightarrow> 's \<Rightarrow> (u8 list + nat) list \<Rightarrow> 's option" where
  "run_queue put discard s [] = Some s"
| "run_queue put discard s (Inl bs # ops) = do { s \<leftarrow> put s bs; run_queue put discard s ops }"
| "run_queue put discard s (Inr n # ops) = run_queue put discard (discard s n) ops"

fun queue_spec :: "u8 list \<Rightarrow> (u8 list + nat) list \<Rightarrow> u8 list option" where
  "queue_spec q [] = Some q"
| "queue_spec q (Inl bs # ops) = queue_spec (q @ bs) ops"
| "queue_spec q (Inr n # ops) = (if n \<le> length q then queue_spec (drop n q) ops else None)"

fun total_in :: "(u8 list + nat) list \<Rightarrow> nat" where
  "total_in [] = 0"
| "total_in (Inl bs # ops) = length bs + total_in ops"
| "total_in (Inr n # ops) = total_in ops"

locale byte_queue =
  fixes content :: "'s \<Rightarrow> u8 list"
    and ok :: "'s \<Rightarrow> bool"
    and used :: "'s \<Rightarrow> nat"
    and limit :: nat
    and put :: "'s \<Rightarrow> u8 list \<Rightarrow> 's option"
    and discard :: "'s \<Rightarrow> nat \<Rightarrow> 's"
  assumes put_ok: "ok s \<Longrightarrow> used s + length bs \<le> limit \<Longrightarrow>
      \<exists>s'. put s bs = Some s' \<and> ok s' \<and> content s' = content s @ bs \<and> used s' \<le> used s + length bs"
    and discard_ok: "ok s \<Longrightarrow> n \<le> length (content s) \<Longrightarrow>
      ok (discard s n) \<and> content (discard s n) = drop n (content s) \<and> used (discard s n) \<le> used s"
begin

lemma run_refines:
  "ok s \<Longrightarrow> used s + total_in ops \<le> limit \<Longrightarrow> queue_spec (content s) ops = Some q \<Longrightarrow>
   \<exists>s'. run_queue put discard s ops = Some s' \<and> ok s' \<and> content s' = q"
proof (induction ops arbitrary: s rule: total_in.induct)
  case (2 bs ops)
  have "used s + length bs \<le> limit" using 2(3) by simp
  then obtain s' where s': "put s bs = Some s'" "ok s'" "content s' = content s @ bs"
    "used s' \<le> used s + length bs"
    using put_ok[OF 2(2)] by blast
  have "\<exists>t. run_queue put discard s' ops = Some t \<and> ok t \<and> content t = q"
    by (rule 2(1)[OF s'(2)]) (use 2(3,4) s'(3,4) in simp_all)
  with s'(1) show ?case by simp
next
  case (3 n ops)
  from 3(4) have n: "n \<le> length (content s)" "queue_spec (drop n (content s)) ops = Some q"
    by (simp_all split: if_splits)
  note d = discard_ok[OF 3(2) n(1)]
  have "\<exists>t. run_queue put discard (discard s n) ops = Some t \<and> ok t \<and> content t = q"
    by (rule 3(1)) (use d 3(3) n(2) in simp_all)
  then show ?case by simp
qed simp

end

section \<open>The buffer keeps the contract\<close>

definition buffer_ok :: "IOBuffer \<Rightarrow> bool" where
  "buffer_ok b \<longleftrightarrow>
     (case io_buffer b of None \<Rightarrow> io_size b = 0 | Some m \<Rightarrow> length m = unat (io_size b)) \<and>
     io_consumed b \<le> io_published b \<and> io_published b \<le> io_size b \<and>
     0 < io_min_chunk_size b \<and> io_min_chunk_size b < 2 ^ 24"

definition buffer_content :: "IOBuffer \<Rightarrow> u8 list" where
  "buffer_content b =
     (case io_buffer b of None \<Rightarrow> []
      | Some m \<Rightarrow> take (unat (io_published b) - unat (io_consumed b)) (drop (unat (io_consumed b)) m))"

definition buffer_used :: "IOBuffer \<Rightarrow> nat" where
  "buffer_used b = unat (io_published b)"

definition buffer_limit :: nat where
  "buffer_limit = 2 ^ 30"

definition buffer_discard :: "IOBuffer \<Rightarrow> nat \<Rightarrow> IOBuffer" where
  "buffer_discard b n = ignore b (of_nat n)"

lemma buffer_okD:
  assumes "buffer_ok b"
  shows "unat (io_consumed b) \<le> unat (io_published b)" "unat (io_published b) \<le> unat (io_size b)"
    "io_buffer b = Some m \<Longrightarrow> length m = unat (io_size b)" "io_buffer b = None \<Longrightarrow> io_size b = 0"
    "0 < unat (io_min_chunk_size b)" "unat (io_min_chunk_size b) < 2 ^ 24"
  using assms by (auto simp: buffer_ok_def word_le_nat_alt word_less_nat_alt)

lemma length_buffer_content:
  "buffer_ok b \<Longrightarrow> length (buffer_content b) = unat (io_published b) - unat (io_consumed b)"
  by (auto simp: buffer_content_def buffer_ok_def word_le_nat_alt split: option.splits)

lemma unat_available:
  "buffer_ok b \<Longrightarrow> unat (GETAVAILABLEBYTESCOUNT b) = length (buffer_content b)"
  by (simp add: GETAVAILABLEBYTESCOUNT_def length_buffer_content buffer_okD unat_sub word_le_nat_alt)

lemma recycle_ok:
  "buffer_ok b \<Longrightarrow> buffer_ok (recycle b) \<and> buffer_content (recycle b) = buffer_content b \<and>
     buffer_used (recycle b) \<le> buffer_used b"
  by (auto simp: recycle_def buffer_ok_def buffer_content_def buffer_used_def split: option.splits)

lemma move_data_ok:
  assumes "buffer_ok b"
  shows "\<exists>b'. move_data b = Some b' \<and> buffer_ok b' \<and> buffer_content b' = buffer_content b \<and>
    buffer_used b' \<le> buffer_used b \<and> io_size b' = io_size b"
proof (cases "io_published b - io_consumed b \<le> io_consumed b")
  case True
  note D = buffer_okD[OF assms]
  define n where "n = unat (io_published b) - unat (io_consumed b)"
  have n: "unat (io_published b - io_consumed b) = n"
    using D(1) by (simp add: n_def unat_sub word_le_nat_alt)
  show ?thesis
  proof (cases "n = 0")
    case True
    then have z: "io_published b - io_consumed b = 0" using n by (simp add: unat_eq_zero)
    then show ?thesis
      using assms True D(1)
      by (auto simp: move_data_def n copy_out_def copy_in_def buffer_ok_def buffer_content_def buffer_used_def
          n_def split: option.splits)
  next
    case False
    then obtain m where m: "io_buffer b = Some m" "length m = unat (io_size b)"
      using D(2-4) by (cases "io_buffer b") (auto simp: n_def)
    define bs where "bs = take n (drop (unat (io_consumed b)) m)"
    have bs: "length bs = n" "bs \<noteq> []" "n \<le> length m"
      using D(1,2) m(2) False by (auto simp: bs_def n_def)
    have "copy_out (Some m) (unat (io_consumed b)) n = Some bs"
      using D(1,2) m(2) False by (simp add: copy_out_def rdn_def bs_def n_def)
    moreover have "copy_in (Some m) 0 bs = Some (Some (splice m 0 bs))"
      using bs by (simp add: copy_in_def wrn_def)
    ultimately have eq: "move_data b = Some (b\<lparr>io_buffer := Some (splice m 0 bs),
        io_published := io_published b - io_consumed b, io_consumed := 0\<rparr>)"
      using True by (simp add: move_data_def n m(1))
    have "take n (splice m 0 bs) = bs" using bs(1) by (simp add: splice_def)
    moreover have "buffer_content b = bs" by (simp add: buffer_content_def m(1) bs_def n_def)
    ultimately show ?thesis
      unfolding eq using assms D(1,2) bs m
      by (auto simp: buffer_ok_def buffer_content_def buffer_used_def n word_le_nat_alt n_def)
  qed
next
  case False
  with assms show ?thesis by (simp add: move_data_def)
qed

lemma unat_add_u32: "unat a + unat b < 2 ^ 32 \<Longrightarrow> unat (a + b :: u32) = unat a + unat b"
  by (simp add: unat_word_ariths)

text \<open>The size after growing: room for what is expected, without wrapping.\<close>

lemma grow_size:
  fixes p e sz mcs :: u32
  assumes p: "unat p + unat e \<le> 2 ^ 30" and full: "unat sz < unat p + unat e"
    and pz: "unat p \<le> unat sz" and mcs: "0 < unat mcs" "unat mcs < 2 ^ 24"
  defines "e1 \<equiv> if p + e - sz < sz div 3 then sz + sz div 3 - p else e"
  defines "e2 \<equiv> if e1 < mcs then mcs else e1"
  shows "unat (p + e2) = unat p + unat e2" "unat p + unat e \<le> unat (p + e2)"
proof -
  have pe: "unat (p + e) = unat p + unat e" by (rule unat_add_u32) (use p in simp)
  have d: "unat (sz div 3) = unat sz div 3" by (simp add: unat_div_distrib)
  have sd: "unat (sz + sz div 3) = unat sz + unat sz div 3"
    by (subst unat_add_u32) (use p full d in simp_all)
  have room: "unat (p + e - sz) = unat p + unat e - unat sz"
    by (subst unat_sub) (use full pe in \<open>simp_all add: word_le_nat_alt\<close>)
  have e1: "unat e \<le> unat e1 \<and> unat p + unat e1 < 2 ^ 31"
  proof (cases "p + e - sz < sz div 3")
    case True
    then have lt: "unat p + unat e - unat sz < unat sz div 3"
      by (simp add: word_less_nat_alt room d)
    have "unat (sz + sz div 3 - p) = unat sz + unat sz div 3 - unat p"
      by (subst unat_sub) (use pz sd in \<open>simp_all add: word_le_nat_alt\<close>)
    then have "unat e1 = unat sz + unat sz div 3 - unat p" using True by (simp add: e1_def)
    moreover have "(2 :: nat) ^ 30 = 1073741824" "(2 :: nat) ^ 31 = 2147483648" by simp_all
    ultimately show ?thesis using lt full p pz by linarith
  next
    case False
    then show ?thesis using p by (simp add: e1_def)
  qed
  then have "unat e \<le> unat e2 \<and> unat p + unat e2 < 2 ^ 32"
    using mcs p by (auto simp: e2_def word_less_nat_alt)
  then show "unat (p + e2) = unat p + unat e2" "unat p + unat e \<le> unat (p + e2)"
    by (simp_all add: unat_add_u32)
qed

lemma ensure_size_ok:
  assumes "buffer_ok b" "buffer_used b + unat n \<le> buffer_limit"
  shows "\<exists>b'. ensure_size b n = Some b' \<and> buffer_ok b' \<and> buffer_content b' = buffer_content b \<and>
    buffer_used b' \<le> buffer_used b \<and> unat (io_published b') + unat n \<le> unat (io_size b')"
proof -
  have sum: "unat (io_published c + n) = unat (io_published c) + unat n" if "buffer_used c \<le> buffer_used b" for c
    by (rule unat_add_u32) (use that assms(2) in \<open>simp add: buffer_used_def buffer_limit_def\<close>)
  obtain c where c: "move_data b = Some c" "buffer_ok c" "buffer_content c = buffer_content b"
    "buffer_used c \<le> buffer_used b" "io_size c = io_size b"
    using move_data_ok[OF assms(1)] by blast
  consider (fits) "io_published b + n \<le> io_size b" | (moved) "\<not> io_published b + n \<le> io_size b" "io_published c + n \<le> io_size c"
    | (grow) "\<not> io_published b + n \<le> io_size b" "\<not> io_published c + n \<le> io_size c" by blast
  then show ?thesis
  proof cases
    case fits
    then show ?thesis
      using assms(1) sum[of b] by (auto simp: ensure_size_def word_le_nat_alt)
  next
    case moved
    then show ?thesis
      using c sum[of c] by (auto simp: ensure_size_def word_le_nat_alt)
  next
    case grow
    note D = buffer_okD[OF c(2)]
    define e1 where "e1 = (if io_published c + n - io_size c < io_size c div 3
                          then io_size c + io_size c div 3 - io_published c else n)"
    define e2 where "e2 = (if e1 < io_min_chunk_size c then io_min_chunk_size c else e1)"
    have full: "unat (io_size c) < unat (io_published c) + unat n"
      using grow(2) sum[OF c(4)] by (simp add: word_le_nat_alt)
    have small: "unat (io_published c) + unat n \<le> 2 ^ 30"
      using assms(2) c(4) by (simp add: buffer_used_def buffer_limit_def)
    note gs = grow_size[OF small full D(2,5,6), folded e1_def, folded e2_def]
    define t where "t = (case io_buffer c of None \<Rightarrow> [] | Some m \<Rightarrow> take (unat (io_published c)) m)"
    have t: "length t = unat (io_published c)"
      using D(2-4) by (auto simp: t_def split: option.splits)
    let ?m = "splice (replicate (unat (io_published c + e2)) 0) 0 t"
    have m: "(case io_buffer c of
               None \<Rightarrow> Some (replicate (unat (io_published c + e2)) 0)
             | Some m \<Rightarrow> do { bs \<leftarrow> rdn m 0 (unat (io_published c)); wrn (replicate (unat (io_published c + e2)) 0) 0 bs }) = Some ?m"
      using D(2,3) gs t by (auto simp: rdn_def wrn_def t_def split: option.splits)
    have eq: "ensure_size b n = Some (c\<lparr>io_buffer := Some ?m, io_size := io_published c + e2\<rparr>)"
      unfolding ensure_size_def c(1) bind.bind_lunit if_not_P[OF grow(1)] if_not_P[OF grow(2)] Let_def
        e1_def[symmetric] e2_def[symmetric] m by simp
    have lm: "length ?m = unat (io_published c + e2)" using t gs by simp
    have "take k (drop i ?m) = take k (drop i t)" if "i + k \<le> length t" for i k
      using that by (simp add: splice_def drop_append take_append)
    then have "buffer_content (c\<lparr>io_buffer := Some ?m, io_size := io_published c + e2\<rparr>) = buffer_content c"
      using D(1,4) t by (auto simp: buffer_content_def t_def drop_take min_def split: option.splits)
    then show ?thesis
      unfolding eq using c D gs lm by (auto simp: buffer_ok_def buffer_used_def word_le_nat_alt)
  qed
qed

lemma splice_window:
  assumes "c \<le> p" "p + length bs \<le> length m"
  shows "take (p + length bs - c) (drop c (splice m p bs)) = take (p - c) (drop c m) @ bs"
proof -
  have "drop c (splice m p bs) = take (p - c) (drop c m) @ bs @ drop (p + length bs) m"
    using assms by (simp add: splice_def drop_take)
  moreover have "p + length bs - c = length (take (p - c) (drop c m)) + length bs"
    using assms by simp
  ultimately show ?thesis by simp
qed

lemma read_from_buffer_ok:
  assumes "buffer_ok b" "buffer_used b + length bs \<le> buffer_limit"
  shows "\<exists>b'. read_from_buffer b bs = Some b' \<and> buffer_ok b' \<and>
    buffer_content b' = buffer_content b @ bs \<and> buffer_used b' \<le> buffer_used b + length bs"
proof -
  have n: "unat (of_nat (length bs) :: u32) = length bs"
    using assms(2) by (simp add: buffer_limit_def unsigned_of_nat take_bit_nat_eq_self)
  obtain c where c: "ensure_size b (of_nat (length bs)) = Some c" "buffer_ok c" "buffer_content c = buffer_content b"
    "buffer_used c \<le> buffer_used b" "unat (io_published c) + length bs \<le> unat (io_size c)"
    using ensure_size_ok[of b "of_nat (length bs)"] assms by (auto simp: n)
  note D = buffer_okD[OF c(2)]
  have p: "unat (io_published c + of_nat (length bs)) = unat (io_published c) + length bs"
    using unat_add_u32[of "io_published c" "of_nat (length bs)"] c(4) assms(2)
    by (simp add: n buffer_used_def buffer_limit_def)
  show ?thesis
  proof (cases "bs = []")
    case True
    then show ?thesis using c by (simp add: read_from_buffer_def copy_in_def)
  next
    case False
    then obtain m where m: "io_buffer c = Some m" "length m = unat (io_size c)"
      using c(5) D(3,4) by (cases "io_buffer c") auto
    have eq: "read_from_buffer b bs = Some (c\<lparr>io_buffer := Some (splice m (unat (io_published c)) bs),
        io_published := io_published c + of_nat (length bs)\<rparr>)"
      using c(1,5) m False by (simp add: read_from_buffer_def copy_in_def wrn_def)
    have "take (unat (io_published c) + length bs - unat (io_consumed c))
        (drop (unat (io_consumed c)) (splice m (unat (io_published c)) bs)) =
      take (unat (io_published c) - unat (io_consumed c)) (drop (unat (io_consumed c)) m) @ bs"
      by (rule splice_window) (use D(1) m(2) c(5) in simp_all)
    then show ?thesis
      unfolding eq c(3)[symmetric] using c m p D
      by (auto simp: buffer_ok_def buffer_content_def buffer_used_def word_le_nat_alt)
  qed
qed

lemma buffer_discard_ok:
  assumes "buffer_ok b" "n \<le> length (buffer_content b)"
  shows "buffer_ok (buffer_discard b n) \<and> buffer_content (buffer_discard b n) = drop n (buffer_content b) \<and>
    buffer_used (buffer_discard b n) \<le> buffer_used b"
proof -
  note D = buffer_okD[OF assms(1)]
  have n: "n \<le> unat (io_published b) - unat (io_consumed b)"
    using assms by (simp add: length_buffer_content)
  then have w: "unat (of_nat n :: u32) = n"
    using unat_less_32[of "io_published b"] by (simp add: unsigned_of_nat take_bit_nat_eq_self)
  have u: "unat (io_consumed b + of_nat n) = unat (io_consumed b) + n"
    using unat_add_u32[of "io_consumed b" "of_nat n"] n D(1) unat_less_32[of "io_published b"] by (simp add: w)
  let ?c = "b\<lparr>io_consumed := io_consumed b + of_nat n\<rparr>"
  have "buffer_ok ?c" using assms(1) n D(1) u
    by (auto simp: buffer_ok_def word_le_nat_alt split: option.splits)
  moreover have "buffer_content ?c = drop n (buffer_content b)"
    using u by (auto simp: buffer_content_def drop_take add.commute split: option.splits)
  moreover have "buffer_used ?c = buffer_used b" by (simp add: buffer_used_def)
  ultimately show ?thesis
    using recycle_ok[of ?c] by (simp add: buffer_discard_def ignore_def)
qed

interpretation iob: byte_queue buffer_content buffer_ok buffer_used buffer_limit read_from_buffer buffer_discard
  by unfold_locales (rule read_from_buffer_ok buffer_discard_ok; assumption)+

section \<open>Properties\<close>

text \<open>
  C20: buffer_is_queue. Over any run of \<open>read_from_buffer\<close> and \<open>ignore\<close> calls
  on a fresh \<open>IOBuffer\<close> that puts in at most a gigabyte and discards no more than it holds,
  the buffer holds exactly what the byte queue holds, whatever moving and growing happens in between.
\<close>

theorem buffer_is_queue:
  assumes "total_in ops \<le> 2 ^ 30" "queue_spec [] ops = Some q"
  shows "\<exists>b. run_queue read_from_buffer buffer_discard new_IOBuffer ops = Some b \<and>
    buffer_content b = q \<and> unat (GETAVAILABLEBYTESCOUNT b) = length q"
proof -
  have "buffer_ok new_IOBuffer" "buffer_content new_IOBuffer = []" "buffer_used new_IOBuffer = 0"
    by (simp_all add: new_IOBuffer_def buffer_ok_def buffer_content_def buffer_used_def)
  then show ?thesis
    using iob.run_refines[of new_IOBuffer ops q] assms unat_available by (auto simp: buffer_limit_def)
qed

theorem buffer_is_queue_witness:
  "\<exists>b. run_queue read_from_buffer buffer_discard new_IOBuffer [Inl [1, 2, 3], Inr 2, Inl [4]] = Some b \<and>
    buffer_content b = [3, 4] \<and> unat (GETAVAILABLEBYTESCOUNT b) = length [3, 4 :: u8]"
  using buffer_is_queue[of "[Inl [1, 2, 3], Inr 2, Inl [4]]" "[3, 4]"] by simp

lemma writen_short: "length buf < n \<Longrightarrow> writen buf n (ev # evs) = None"
  by (cases n) (simp_all add: writen_def)

lemma writen_all:
  "list_all (\<lambda>ev. \<exists>k>0. ev = Wrote k) evs \<Longrightarrow> n \<le> length buf \<Longrightarrow> n \<le> length evs \<Longrightarrow>
   writen buf n evs = Some (Returned (int n), take n buf)"
  using writen_loop_sends[of evs 0 n buf "[]"] by (simp add: writen_def)

lemma write_calls:
  assumes "buffer_ok b" "list_all (\<lambda>ev. \<exists>k>0. ev = Wrote k) evs"
    and "n = min (unat sz) (length (buffer_content b))" "n \<le> length evs"
  shows "write_to_stdio b sz evs = Some ((Some (True, int n), buffer_discard b n), take n (buffer_content b))"
proof -
  note D = buffer_okD[OF assms(1)]
  let ?avail = "io_published b - io_consumed b"
  define w where "w = (if sz > ?avail then ?avail else sz)"
  have av: "unat ?avail = length (buffer_content b)"
    using unat_available[OF assms(1)] by (simp add: GETAVAILABLEBYTESCOUNT_def)
  have w: "unat w = n" using av assms(3) by (auto simp: w_def word_less_nat_alt)
  have io: "(if w = 0 then Some (Returned 0, [])
        else case io_buffer b of
          None \<Rightarrow> None
        | Some m \<Rightarrow> writen (drop (unat (io_consumed b)) m) (unat w) evs) =
      Some (Returned (int n), take n (buffer_content b))"
  proof (cases "n = 0")
    case True
    then have "w = 0" using w by (metis unat_eq_zero)
    then show ?thesis using True by simp
  next
    case False
    then have ne: "w \<noteq> 0" "0 < length (buffer_content b)" "n \<le> length (buffer_content b)" using w assms(3)
      by (auto simp: min_def split: if_splits)
    then obtain m where m: "io_buffer b = Some m" "length m = unat (io_size b)"
      using D(3) by (cases "io_buffer b") (auto simp: buffer_content_def)
    have len: "n \<le> length (drop (unat (io_consumed b)) m)"
      using ne(3) D(1,2) m(2) by (simp add: length_buffer_content[OF assms(1)])
    have "take n (buffer_content b) = take n (drop (unat (io_consumed b)) m)"
      using ne(3) unfolding length_buffer_content[OF assms(1)] by (simp add: buffer_content_def m(1) min_absorb1)
    then show ?thesis
      using ne writen_all[OF assms(2) len assms(4)] by (simp add: m(1) w)
  qed
  show ?thesis
    unfolding write_to_stdio_def Let_def w_def[symmetric] io bind.bind_lunit prod.case io_ret.case
    by (simp add: buffer_discard_def ignore_def)
qed

text \<open>
  Buffer write drains: \<open>write_to_stdio\<close> on a descriptor that makes progress sends the
  oldest \<open>min size_ available\<close> bytes in order, reports their number, and leaves the buffer
  holding the rest within its contract.
\<close>

theorem buffer_write_drains:
  assumes "buffer_ok b" "list_all (\<lambda>ev. \<exists>k>0. ev = Wrote k) evs"
    and "min (unat sz) (length (buffer_content b)) \<le> length evs"
  shows "\<exists>b' n. n = min (unat sz) (length (buffer_content b)) \<and>
    write_to_stdio b sz evs = Some ((Some (True, int n), b'), take n (buffer_content b)) \<and>
    buffer_content b' = drop n (buffer_content b) \<and> buffer_ok b'"
  using write_calls[OF assms(1,2) refl assms(3)] buffer_discard_ok[OF assms(1)] by auto

theorem buffer_write_drains_witness:
  "\<exists>b' n. n = 2 \<and> write_to_stdio (new_IOBuffer\<lparr>io_buffer := Some [7, 8, 9, 0], io_size := 4, io_published := 3\<rparr>) 2
     [Wrote 1, Wrote 1] = Some ((Some (True, 2), b'), [7, 8]) \<and> buffer_content b' = [9]"
proof -
  let ?b = "new_IOBuffer\<lparr>io_buffer := Some [7, 8, 9, 0], io_size := 4, io_published := 3\<rparr>"
  have "buffer_ok ?b" "buffer_content ?b = [7, 8, 9]"
    by (simp_all add: new_IOBuffer_def buffer_ok_def buffer_content_def)
  then show ?thesis
    using buffer_write_drains[of ?b "[Wrote 1, Wrote 1]" 2] by auto
qed

text \<open>
  Buffer ignore past end: \<open>ignore\<close> does not check its argument: discarding more than is
  there leaves \<open>consumed\<close> past \<open>published\<close>, so the buffer then claims almost
  four gigabytes and the next write reads outside its array.
\<close>

theorem buffer_ignore_past_end:
  assumes "buffer_ok b" "length (buffer_content b) < n" "n < 2 ^ 31" "io_size b < 2 ^ 30"
    and "unat sz > unat (io_size b)" "sz < 2 ^ 31"
  shows "unat (GETAVAILABLEBYTESCOUNT (buffer_discard b n)) = 2 ^ 32 - (n - length (buffer_content b)) \<and>
    write_to_stdio (buffer_discard b n) sz (ev # evs) = None"
proof -
  note D = buffer_okD[OF assms(1)]
  define c where "c = io_consumed b + of_nat n"
  have len: "length (buffer_content b) = unat (io_published b) - unat (io_consumed b)"
    by (rule length_buffer_content[OF assms(1)])
  have size: "unat (io_size b) < 2 ^ 30" using assms(4) by (simp add: word_less_nat_alt)
  have c: "unat c = unat (io_consumed b) + n"
    unfolding c_def using unat_add_u32[of "io_consumed b" "of_nat n"] D(1,2) size assms(3)
    by (simp add: unsigned_of_nat take_bit_nat_eq_self)
  have past: "unat (io_published b) < unat c" using assms(2) len c D(1) by linarith
  then have ne: "c \<noteq> io_published b" by auto
  have disc: "buffer_discard b n = b\<lparr>io_consumed := c\<rparr>"
    using ne by (simp add: buffer_discard_def ignore_def recycle_def c_def)
  have "unat (io_published b - c) = unat (io_published b) + 2 ^ 32 - unat c"
    using past by (simp add: unat_sub_if')
  then have av: "unat (io_published b - c) = 2 ^ 32 - (n - length (buffer_content b))"
    using c len D(1) assms(2,3) by simp
  have sz: "unat sz < 2 ^ 31" "sz \<noteq> 0"
    using assms(5,6) by (auto simp: word_less_nat_alt)
  then have "\<not> sz > io_published b - c"
    using av assms(3) by (simp add: word_less_nat_alt)
  moreover have "writen (drop (unat c) m) (unat sz) (ev # evs) = None" if "io_buffer b = Some m" for m
  proof -
    have "length m < unat sz" using D(3)[OF that] assms(5) by simp
    then have "length (drop (unat c) m) < unat sz" by simp
    then show ?thesis by (rule writen_short)
  qed
  ultimately show ?thesis
    using sz(2) av unfolding disc
    by (auto simp: GETAVAILABLEBYTESCOUNT_def write_to_stdio_def split: option.splits)
qed

theorem buffer_ignore_past_end_witness:
  "unat (GETAVAILABLEBYTESCOUNT (buffer_discard new_IOBuffer 1)) = 2 ^ 32 - 1 \<and>
   write_to_stdio (buffer_discard new_IOBuffer 1) 8 [Wrote 8] = None"
proof -
  have "buffer_ok new_IOBuffer" "buffer_content new_IOBuffer = []"
    by (simp_all add: new_IOBuffer_def buffer_ok_def buffer_content_def)
  then show ?thesis
    using buffer_ignore_past_end[of new_IOBuffer 1 8 "Wrote 8" "[]"] by (simp add: new_IOBuffer_def)
qed

definition mh_ok :: "MemHolder \<Rightarrow> bool" where
  "mh_ok h \<longleftrightarrow> (case mh_buf h of None \<Rightarrow> mh_capacity h = 0 | Some m \<Rightarrow> length m = unat (mh_capacity h))"

lemma unat_plus_1024: "unat sz < 2 ^ 32 - 1024 \<Longrightarrow> unat (sz + 1024 :: u32) = unat sz + 1024"
  by (subst unat_add_u32) simp_all

lemma unat_plus_1024_wraps: "unat sz \<ge> 2 ^ 32 - 1024 \<Longrightarrow> unat (sz + 1024 :: u32) = unat sz + 1024 - 2 ^ 32"
  using unat_less_32[of sz] by (simp add: unat_word_ariths mod_if)

text \<open>
  Mem holder holds: \<open>MemHolder::calloc\<close> returns zeroed memory of at least the size asked
  for and never more than a kilobyte over the largest request; but a request within a kilobyte of
  \<open>UINT32_MAX\<close> wraps the size it allocates, and the zeroing then runs out of the block.
\<close>

theorem mem_holder_holds:
  assumes "mh_ok h" "0 < sz" "\<And>n. malloc n = None \<or> (\<exists>m. malloc n = Some m \<and> length m = n)"
  shows "(unat sz < 2 ^ 32 - 1024 \<longrightarrow>
      (\<exists>r h'. mh_calloc malloc h sz = Some (r, h') \<and> mh_ok h' \<and>
        (r = None \<longrightarrow> h' = destroy h) \<and>
        (\<forall>p. r = Some p \<longrightarrow> take (unat sz) p = replicate (unat sz) 0 \<and> mh_buf h' = Some p))) \<and>
    (unat sz \<ge> 2 ^ 32 - 1024 \<and> mh_capacity h < sz \<and> malloc (unat sz + 1024 - 2 ^ 32) \<noteq> None \<longrightarrow>
      mh_calloc malloc h sz = None)"
proof (intro conjI impI)
  assume small: "unat sz < 2 ^ 32 - 1024"
  obtain r h' where a: "mh_alloc malloc h sz = (r, h')" by fastforce
  have inv: "mh_ok h' \<and> (r = None \<longrightarrow> h' = destroy h) \<and> (\<forall>p. r = Some p \<longrightarrow> mh_buf h' = Some p \<and> unat sz \<le> length p)"
    using a assms(1,2) assms(3)[of "unat (sz + 1024)"] unat_plus_1024[OF small]
    by (auto simp: mh_alloc_def mh_ok_def destroy_def Let_def word_less_nat_alt split: if_splits option.splits)
  show "\<exists>r h'. mh_calloc malloc h sz = Some (r, h') \<and> mh_ok h' \<and>
        (r = None \<longrightarrow> h' = destroy h) \<and>
        (\<forall>p. r = Some p \<longrightarrow> take (unat sz) p = replicate (unat sz) 0 \<and> mh_buf h' = Some p)"
    using inv a by (cases r) (auto simp: mh_calloc_def wrn_def mh_ok_def splice_def)
next
  assume wrap: "unat sz \<ge> 2 ^ 32 - 1024 \<and> mh_capacity h < sz \<and> malloc (unat sz + 1024 - 2 ^ 32) \<noteq> None"
  have n: "unat (sz + 1024) = unat sz + 1024 - 2 ^ 32" using unat_plus_1024_wraps wrap by blast
  obtain m where m: "malloc (unat (sz + 1024)) = Some m" "length m = unat sz + 1024 - 2 ^ 32"
    using wrap assms(3)[of "unat (sz + 1024)"] n by auto
  have lt: "length m < unat sz" using m(2) unat_gt_0[of sz] assms(2) by (simp add: word_gt_0)
  then show "mh_calloc malloc h sz = None"
    using wrap m(1) lt assms(2) word_neq_0_conv[of sz] by (simp add: mh_calloc_def mh_alloc_def wrn_def)
qed

theorem mem_holder_holds_witness:
  "mh_calloc (\<lambda>n. Some (replicate n 0)) new_MemHolder 4294967295 = None"
proof -
  have u: "unat (4294967295 :: u32) = 4294967295" by simp
  have "mh_ok new_MemHolder" by (simp add: mh_ok_def new_MemHolder_def)
  then show ?thesis
    using mem_holder_holds[of new_MemHolder 4294967295 "\<lambda>n. Some (replicate n 0)"] u
    by (simp add: new_MemHolder_def)
qed

end
