(* ===== verification/Text.thy ===== *)
theory Text
  imports CString
begin

text \<open>
  The string helpers of \<open>xutil.cc\<close>: \<open>split\<close>, \<open>skip_blank\<close>, \<open>strcasechr\<close>, \<open>end_with\<close>,
  \<open>start_with\<close>, \<open>to_upper_str\<close>, \<open>to_lower_str\<close>, \<open>strdup_\<close>, \<open>is_path_absolute\<close>; and the calendar
  record \<open>Time\<close>. A \<open>std::string\<close> may hold NUL characters and is cut at the first of them where it
  passes through \<open>c_str()\<close>.
\<close>

abbreviation NUL :: char where "NUL \<equiv> CHR 0x00"

definition c_str :: "string \<Rightarrow> string" where
  "c_str s = takeWhile (\<lambda>c. c \<noteq> NUL) s"

lemma c_str_id: "NUL \<notin> set s \<Longrightarrow> c_str s = s"
  unfolding c_str_def by (rule takeWhile_eq_all_conv[THEN iffD2]) auto

section \<open>Splitting\<close>

lemma length_dropWhile_first: "s \<noteq> [] \<Longrightarrow> P (hd s) \<Longrightarrow> length (dropWhile P s) < length s"
  using length_dropWhile_le[of P "tl s"] by (cases s) (auto simp: le_imp_less_Suc)

text \<open>\<open>strtok\<close> called until it returns null.\<close>

function tokens :: "string \<Rightarrow> string \<Rightarrow> string list" where
  "tokens delim s =
     (let s = dropWhile (\<lambda>c. c \<in> set delim) s in
      if s = [] then []
      else takeWhile (\<lambda>c. c \<notin> set delim) s # tokens delim (dropWhile (\<lambda>c. c \<notin> set delim) s))"
  by pat_completeness auto

termination
proof (relation "measure (length \<circ> snd)", goal_cases)
  case (2 delim s x)
  have "hd x \<notin> set delim" using 2 hd_dropWhile[of "\<lambda>c. c \<in> set delim" s] by simp
  with 2 have "length (dropWhile (\<lambda>c. c \<notin> set delim) x) < length x"
    by (intro length_dropWhile_first) auto
  with 2 show ?case using length_dropWhile_le[of "\<lambda>c. c \<in> set delim" s] by simp
qed simp

declare tokens.simps [simp del]

definition split :: "string \<Rightarrow> string \<Rightarrow> string list" where
  "split str delim = tokens delim (c_str str)"

section \<open>Searching and case\<close>

definition skip_blank :: "string \<Rightarrow> string" where
  "skip_blank p = dropWhile isspace p"

text \<open>\<open>strchr\<close> finds the terminator too.\<close>

definition strchr :: "string \<Rightarrow> char \<Rightarrow> nat option" where
  "strchr s c = (if c = NUL then Some (length s) else find_char c s)"

definition strcasechr :: "string \<Rightarrow> char \<Rightarrow> nat option" where
  "strcasechr s c = (case strchr s (toupper c) of Some p \<Rightarrow> Some p | None \<Rightarrow> strchr s (tolower c))"

definition end_with :: "string \<Rightarrow> string \<Rightarrow> bool" where
  "end_with str sub \<longleftrightarrow>
     length str \<ge> length sub \<and> rfind_str (c_str sub) str = Some (length str - length sub)"

definition start_with :: "string \<Rightarrow> string \<Rightarrow> bool" where
  "start_with str sub \<longleftrightarrow> length str \<ge> length sub \<and> find_str (c_str sub) str = Some 0"

definition to_upper_str :: "string option \<Rightarrow> string" where
  "to_upper_str str = (case str of None \<Rightarrow> ''NULL'' | Some s \<Rightarrow> map toupper s)"

definition to_lower_str :: "string option \<Rightarrow> string" where
  "to_lower_str str = (case str of None \<Rightarrow> ''NULL'' | Some s \<Rightarrow> map tolower s)"

definition strdup' :: "string option \<Rightarrow> string option" where
  "strdup' s = (case s of None \<Rightarrow> None | Some s \<Rightarrow> Some s)"

definition is_path_absolute :: "string option \<Rightarrow> bool" where
  "is_path_absolute path \<longleftrightarrow> (case path of None \<Rightarrow> False | Some p \<Rightarrow> p \<noteq> [] \<and> hd p = CHR ''/'')"

section \<open>Calendar time\<close>

record Time =
  t_year :: "32 word"
  t_mon :: "32 word"
  t_day :: "32 word"
  t_hour :: "32 word"
  t_min :: "32 word"
  t_sec :: "32 word"

record tm =
  tm_sec :: "32 word"
  tm_min :: "32 word"
  tm_hour :: "32 word"
  tm_mday :: "32 word"
  tm_mon :: "32 word"
  tm_year :: "32 word"
  tm_isdst :: "32 word"

text \<open>The results are the returned \<open>int\<close> and the target, a null pointer being \<open>None\<close>.\<close>

definition tm_to_time :: "tm option \<Rightarrow> Time option \<Rightarrow> int \<times> Time option" where
  "tm_to_time tm t =
     (case (tm, t) of
        (Some tm, Some t) \<Rightarrow> (0, Some \<lparr>t_year = tm_year tm + 1900, t_mon = tm_mon tm + 1, t_day = tm_mday tm,
           t_hour = tm_hour tm, t_min = tm_min tm, t_sec = tm_sec tm\<rparr>)
      | _ \<Rightarrow> (- 1, t))"

definition time_to_tm :: "Time option \<Rightarrow> tm option \<Rightarrow> int \<times> tm option" where
  "time_to_tm t tm =
     (case (t, tm) of
        (Some t, Some tm) \<Rightarrow> (0, Some \<lparr>tm_sec = t_sec t, tm_min = t_min t, tm_hour = t_hour t, tm_mday = t_day t,
           tm_mon = t_mon t - 1, tm_year = t_year t - 1900, tm_isdst = 0\<rparr>)
      | _ \<Rightarrow> (- 1, tm))"

text \<open>\<open>localtime_r\<close> and \<open>mktime\<close> are arguments.\<close>

definition time_get :: "tm option \<Rightarrow> Time option \<Rightarrow> int \<times> Time option" where
  "time_get now t = (case now of None \<Rightarrow> (- 1, t) | Some _ \<Rightarrow> tm_to_time now t)"

definition time_mktime :: "(tm \<Rightarrow> 64 word) \<Rightarrow> tm \<Rightarrow> Time option \<Rightarrow> 64 word" where
  "time_mktime mktime tmpbuf t =
     (case time_to_tm t (Some tmpbuf) of (r, Some tm) \<Rightarrow> if r < 0 then 0 else mktime tm | _ \<Rightarrow> 0)"

definition time_gap :: "(tm \<Rightarrow> 64 word) \<Rightarrow> tm \<Rightarrow> Time option \<Rightarrow> Time option \<Rightarrow> 64 word option" where
  "time_gap mktime tmpbuf t1 t2 =
     (if t1 = None \<or> t2 = None then None
      else Some (time_mktime mktime tmpbuf t1 - time_mktime mktime tmpbuf t2))"

definition time_copy :: "Time option \<Rightarrow> Time option \<Rightarrow> int \<times> Time option" where
  "time_copy dst src = (if dst = None \<or> src = None then (- 1, dst) else (0, src))"

section \<open>Properties\<close>

lemma tokens_facts:
  "(\<forall>t\<in>set (tokens delim s). t \<noteq> [] \<and> set t \<inter> set delim = {}) \<and>
   concat (tokens delim s) = filter (\<lambda>c. c \<notin> set delim) s"
proof (induction delim s rule: tokens.induct)
  case (1 delim s)
  define x where "x = dropWhile (\<lambda>c. c \<in> set delim) s"
  have s: "filter (\<lambda>c. c \<notin> set delim) s = filter (\<lambda>c. c \<notin> set delim) x"
    using takeWhile_dropWhile_id[of "\<lambda>c. c \<in> set delim" s] set_takeWhileD[of _ "\<lambda>c. c \<in> set delim" s]
    unfolding x_def by (metis (mono_tags, lifting) append_self_conv2 filter_False filter_append)
  show ?case
  proof (cases "x = []")
    case True
    then show ?thesis using s by (subst (1 2) tokens.simps) (simp add: x_def[symmetric])
  next
    case False
    have hd: "hd x \<notin> set delim" using False hd_dropWhile[of "\<lambda>c. c \<in> set delim" s] by (simp add: x_def)
    let ?t = "takeWhile (\<lambda>c. c \<notin> set delim) x" and ?r = "dropWhile (\<lambda>c. c \<notin> set delim) x"
    have eq: "tokens delim s = ?t # tokens delim ?r"
      using False by (subst tokens.simps) (simp add: x_def[symmetric] Let_def)
    have t: "?t \<noteq> []" "set ?t \<inter> set delim = {}"
      using hd False by (cases x; auto dest: set_takeWhileD)+
    have "filter (\<lambda>c. c \<notin> set delim) x = ?t @ filter (\<lambda>c. c \<notin> set delim) ?r"
      by (metis (mono_tags, lifting) filter_append filter_True set_takeWhileD takeWhile_dropWhile_id)
    with 1[OF x_def False] t s show ?thesis unfolding eq by auto
  qed
qed

lemma tokens_sep:
  assumes "t \<noteq> []" "set t \<inter> set delim = {}" "d \<in> set delim"
  shows "tokens delim (t @ d # r) = t # tokens delim r"
proof -
  have "dropWhile (\<lambda>c. c \<in> set delim) (t @ d # r) = t @ d # r" using assms(1,2) by (cases t) auto
  moreover have "takeWhile (\<lambda>c. c \<notin> set delim) (t @ d # r) = t" "dropWhile (\<lambda>c. c \<notin> set delim) (t @ d # r) = d # r"
    using assms(2,3) by (auto simp: takeWhile_append dropWhile_append)
  moreover have "tokens delim (d # r) = tokens delim r"
    using assms(3) by (subst (1 2) tokens.simps) simp
  ultimately show ?thesis using assms(1) by (subst tokens.simps) (simp add: Let_def)
qed

lemma tokens_last: "t \<noteq> [] \<Longrightarrow> set t \<inter> set delim = {} \<Longrightarrow> tokens delim t = [t]"
proof -
  assume a: "t \<noteq> []" "set t \<inter> set delim = {}"
  have "dropWhile (\<lambda>c. c \<in> set delim) t = t" using a by (cases t) auto
  then have "tokens delim t = takeWhile (\<lambda>c. c \<notin> set delim) t # tokens delim (dropWhile (\<lambda>c. c \<notin> set delim) t)"
    using a(1) by (subst tokens.simps) (simp add: Let_def)
  moreover have "takeWhile (\<lambda>c. c \<notin> set delim) t = t" "dropWhile (\<lambda>c. c \<notin> set delim) t = []"
    using a(2) by (auto simp: takeWhile_eq_all_conv dropWhile_eq_Nil_conv)
  moreover have "tokens delim [] = []" by (subst tokens.simps) simp
  ultimately show ?thesis by (simp only:)
qed

fun join :: "char \<Rightarrow> string list \<Rightarrow> string" where
  "join d [] = []"
| "join d [t] = t"
| "join d (t # ts) = t @ d # join d ts"

lemma tokens_join:
  "\<forall>t\<in>set ts. t \<noteq> [] \<and> set t \<inter> set delim = {} \<Longrightarrow> d \<in> set delim \<Longrightarrow> tokens delim (join d ts) = ts"
  by (induction d ts rule: join.induct) (simp_all add: tokens_last tokens_sep tokens.simps[of _ "[]"])

text \<open>
  Split tokens: \<open>split\<close> returns the maximal delimiter-free pieces: none is empty or holds a
  delimiter, nothing but delimiters is lost, and text joined from such pieces by one delimiter splits
  back into them.
\<close>

theorem split_tokens:
  assumes "NUL \<notin> set str"
  shows "(\<forall>t\<in>set (split str delim). t \<noteq> [] \<and> set t \<inter> set delim = {}) \<and>
    concat (split str delim) = filter (\<lambda>c. c \<notin> set delim) str \<and>
    (\<forall>d ts. d \<in> set delim \<and> (\<forall>t\<in>set ts. t \<noteq> [] \<and> set t \<inter> set delim = {}) \<and> str = join d ts \<longrightarrow>
      split str delim = ts)"
  unfolding split_def c_str_id[OF assms] using tokens_facts[of delim str] tokens_join[of _ delim]
  by blast

theorem split_tokens_witness:
  "split ''a&bc&'' ''&'' = [''a'', ''bc''] \<or> concat (split ''a&bc&'' ''&'') = ''abc''"
  using split_tokens[of "''a&bc&''" "''&''"] by simp

lemma suffix_drop: "suffix t s \<longleftrightarrow> length t \<le> length s \<and> drop (length s - length t) s = t"
  by (auto simp: suffix_def) (metis append_take_drop_id)

lemma prefix_full: "prefix t s \<Longrightarrow> length s \<le> length t \<Longrightarrow> t = s"
  by (auto simp: prefix_def)

lemma find_str_0: "find_str t s = Some 0 \<longleftrightarrow> prefix t s"
  by (cases s) auto

lemma rfind_str_suffix:
  assumes "length t \<le> length s"
  shows "rfind_str t s = Some (length s - length t) \<longleftrightarrow> suffix t s"
proof
  assume "rfind_str t s = Some (length s - length t)"
  then have "prefix t (drop (length s - length t) s)" using rfind_str_Some by blast
  then have "t = drop (length s - length t) s" by (rule prefix_full) simp
  then show "suffix t s" by (metis suffix_drop[of t s] assms)
next
  assume "suffix t s"
  then have "prefix t (drop (length s - length t) s)" by (simp add: suffix_drop)
  from rfind_str_last[OF _ this] obtain k where k: "k \<ge> length s - length t" "rfind_str t s = Some k" by auto
  from rfind_str_Some[OF k(2)] have "k \<le> length s" "length t \<le> length (drop k s)"
    by (auto dest: prefix_length_le)
  with k assms show "rfind_str t s = Some (length s - length t)" by simp
qed

text \<open>
  Affix tests: \<open>start_with\<close> and \<open>end_with\<close> decide the prefix and the suffix
  relation (on a pattern without NUL), although both go through the searches of
  \<open>std::string\<close>, and \<open>strcasechr\<close> finds the character in one of its cases
  wherever there is one.
\<close>

theorem affix_tests:
  assumes "NUL \<notin> set sub"
  shows "start_with str sub = prefix sub str \<and> end_with str sub = suffix sub str \<and>
    (c \<noteq> NUL \<longrightarrow> (strcasechr s c = None) = (toupper c \<notin> set s \<and> tolower c \<notin> set s))"
proof -
  have "start_with str sub = prefix sub str"
    using assms by (auto simp: start_with_def c_str_id find_str_0 dest: prefix_length_le)
  moreover have "end_with str sub = suffix sub str"
    unfolding end_with_def c_str_id[OF assms]
    using rfind_str_suffix[of sub str] suffix_length_le[of sub str] by blast
  moreover have "toupper c \<noteq> NUL \<and> tolower c \<noteq> NUL" if "c \<noteq> NUL"
  proof -
    have "ord NUL = 0" by (simp add: ord_def)
    then have "0 < ord c" using that ord_inject[of c NUL] by auto
    then show ?thesis
      using that \<open>ord NUL = 0\<close> ord_char_of[OF less_imp_diff_less[OF ord_less], of c 32] ord_char_of[of "ord c + 32"]
      by (auto simp: toupper_def tolower_def islower_def isupper_def)
  qed
  ultimately show ?thesis
    using find_char_None[of "toupper c" s] find_char_None[of "tolower c" s]
    by (cases "find_char (toupper c) s") (simp_all add: strcasechr_def strchr_def)
qed

theorem affix_tests_witness:
  "end_with ''a.mp4.mp4'' ''.mp4'' \<and> \<not> start_with ''rtmp'' ''rtmp:''"
proof -
  have "suffix ''.mp4'' ''a.mp4.mp4''" "\<not> prefix ''rtmp:'' ''rtmp''" by (simp_all add: suffix_drop)
  then show ?thesis
    using affix_tests[of "''.mp4''" "''a.mp4.mp4''"] affix_tests[of "''rtmp:''" "''rtmp''"] by simp
qed

text \<open>A time survives the trip through \<open>struct tm\<close>, whatever its fields.\<close>

lemma time_roundtrip: "time_to_tm (Some t) (Some x) = (0, Some m) \<Longrightarrow> tm_to_time (Some m) (Some y) = (0, Some t)"
  by (auto simp: time_to_tm_def tm_to_time_def)

end
