(* ===== verification/XFile.thy ===== *)
theory XFile
  imports ByteOrder Text
begin

text \<open>
  \<open>xfile::File\<close>: a wrapper of a stdio stream with a cached size, the typed reads and writes and
  the two whole-file helpers. The stream is that of a regular file on which the device never
  fails: its bytes, the position, the two sticky flags and what the mode allows. The files are a
  map from paths to contents; a stream's bytes are those of its file once it is closed. Using a
  closed \<open>File\<close> passes a null \<open>FILE *\<close> on and is \<open>None\<close>.
\<close>

section \<open>Streams\<close>

record stdio =
  st_data :: "u8 list"
  st_pos :: nat
  st_eof :: bool
  st_err :: bool
  st_read :: bool
  st_write :: bool
  st_append :: bool

text \<open>\<open>fread(dst, sz, 1, fp)\<close>: the result, the memory at \<open>dst\<close> and the stream.\<close>

definition fread :: "stdio \<Rightarrow> u8 list \<Rightarrow> nat \<Rightarrow> nat \<times> u8 list \<times> stdio" where
  "fread fp dst sz =
     (if sz = 0 then (0, dst, fp)
      else if \<not> st_read fp then (0, dst, fp\<lparr>st_err := True\<rparr>)
      else
        (let bs = take sz (drop (st_pos fp) (st_data fp));
             fp' = fp\<lparr>st_pos := st_pos fp + length bs\<rparr>
         in if length bs = sz then (1, splice dst 0 bs, fp') else (0, splice dst 0 bs, fp'\<lparr>st_eof := True\<rparr>)))"

definition fwrite :: "stdio \<Rightarrow> u8 list \<Rightarrow> nat \<times> stdio" where
  "fwrite fp bs =
     (if \<not> st_write fp then (0, fp\<lparr>st_err := True\<rparr>)
      else
        (let p = (if st_append fp then length (st_data fp) else st_pos fp);
             d = st_data fp @ replicate (p - length (st_data fp)) 0
         in (1, fp\<lparr>st_data := take p d @ bs @ drop (p + length bs) d, st_pos := p + length bs\<rparr>)))"

text \<open>\<open>fseeko\<close> from an origin already added; it fails below zero and clears the end-of-file flag.\<close>

definition fseek :: "stdio \<Rightarrow> int \<Rightarrow> bool \<times> stdio" where
  "fseek fp pos = (if pos < 0 then (False, fp) else (True, fp\<lparr>st_pos := nat pos, st_eof := False\<rparr>))"

text \<open>
  \<open>fgets(s, sz, fp)\<close>: the bytes of the line and whether it returned one; at most \<open>sz - 1\<close> of them, up
  to and with the newline.
\<close>

fun line_of :: "nat \<Rightarrow> u8 list \<Rightarrow> u8 list" where
  "line_of 0 bs = []"
| "line_of (Suc n) [] = []"
| "line_of (Suc n) (b # bs) = (if b = 10 then [b] else b # line_of n bs)"

definition fgets :: "stdio \<Rightarrow> nat \<Rightarrow> u8 list option \<times> stdio" where
  "fgets fp sz =
     (let rest = drop (st_pos fp) (st_data fp); l = line_of (sz - 1) rest
      in if l = [] then (None, fp\<lparr>st_eof := True\<rparr>)
         else (Some l, fp\<lparr>st_pos := st_pos fp + length l,
                          st_eof := st_eof fp \<or> length l < sz - 1 \<and> last l \<noteq> 10\<rparr>))"

type_synonym fs = "string \<rightharpoonup> u8 list"

definition fopen :: "fs \<Rightarrow> string \<Rightarrow> string \<Rightarrow> (stdio \<times> fs) option" where
  "fopen fs path mode =
     (let plus = (CHR ''+'' \<in> set mode);
          strm = \<lambda>d r w a. \<lparr>st_data = d, st_pos = 0, st_eof = False, st_err = False,
                             st_read = r, st_write = w, st_append = a\<rparr>
      in if mode = [] then None
         else if hd mode = CHR ''r'' then map_option (\<lambda>d. (strm d True plus False, fs)) (fs path)
         else if hd mode = CHR ''w'' then Some (strm [] plus True False, fs(path \<mapsto> []))
         else if hd mode = CHR ''a'' then
           (let d = (case fs path of None \<Rightarrow> [] | Some d \<Rightarrow> d) in Some (strm d plus True True, fs(path \<mapsto> d)))
         else None)"

section \<open>The file object\<close>

record File =
  f_fp :: "stdio option"
  f_filesz :: int
  f_path :: string

definition new_File :: File where
  "new_File = \<lparr>f_fp = None, f_filesz = 0, f_path = []\<rparr>"

definition file_close :: "fs \<Rightarrow> File \<Rightarrow> File \<times> fs" where
  "file_close fs f =
     (let fs = (case f_fp f of None \<Rightarrow> fs | Some fp \<Rightarrow> if st_write fp then fs(f_path f \<mapsto> st_data fp) else fs)
      in (f\<lparr>f_fp := None, f_path := [], f_filesz := 0\<rparr>, fs))"

definition cursor :: "File \<Rightarrow> int option" where
  "cursor f = (case f_fp f of None \<Rightarrow> None | Some fp \<Rightarrow> Some (int (st_pos fp)))"

definition seek_to :: "File \<Rightarrow> int \<Rightarrow> (bool \<times> File) option" where
  "seek_to f pos = do { fp \<leftarrow> f_fp f; case fseek fp pos of (ok, fp) \<Rightarrow> Some (ok, f\<lparr>f_fp := Some fp\<rparr>) }"

definition seek_begin :: "File \<Rightarrow> (bool \<times> File) option" where
  "seek_begin f = seek_to f 0"

definition seek_end :: "File \<Rightarrow> (bool \<times> File) option" where
  "seek_end f = do { fp \<leftarrow> f_fp f; seek_to f (int (length (st_data fp))) }"

text \<open>The path is remembered before the size is known here; a failed \<open>open\<close> closes again.\<close>

definition file_open :: "fs \<Rightarrow> File \<Rightarrow> string \<Rightarrow> string option \<Rightarrow> (bool \<times> File \<times> fs) option" where
  "file_open fs f path mode =
     (let (f, fs) = file_close fs f in
      case mode of
        None \<Rightarrow> Some (False, f, fs)
      | Some m \<Rightarrow>
          (if path = [] then Some (False, f, fs)
           else case fopen fs (c_str path) m of
             None \<Rightarrow> Some (False, f, fs)
           | Some (fp, fs) \<Rightarrow> do {
               let f = f\<lparr>f_fp := Some fp, f_path := c_str path\<rparr>;
               (ok, f) \<leftarrow> seek_end f;
               if \<not> ok then (case file_close fs f of (f, fs) \<Rightarrow> Some (False, f, fs))
               else do {
                 cur \<leftarrow> cursor f;
                 let f = f\<lparr>f_filesz := cur\<rparr>;
                 (ok, f) \<leftarrow> seek_begin f;
                 if \<not> ok then (case file_close fs f of (f, fs) \<Rightarrow> Some (False, f, fs))
                 else Some (True, f, fs) } }))"

definition seek_ahead :: "File \<Rightarrow> int \<Rightarrow> (bool \<times> File) option" where
  "seek_ahead f cnt =
     (if cnt < 0 then Some (False, f)
      else if cnt = 0 then Some (True, f)
      else do {
        cur \<leftarrow> cursor f;
        if cur + cnt > f_filesz f then Some (False, f) else seek_to f (cur + cnt) })"

definition seek_behind :: "File \<Rightarrow> int \<Rightarrow> (bool \<times> File) option" where
  "seek_behind f cnt =
     (if cnt < 0 then Some (False, f)
      else if cnt = 0 then Some (True, f)
      else do {
        cur \<leftarrow> cursor f;
        if cur < cnt then Some (False, f) else seek_to f (cur - cnt) })"

section \<open>Reading\<close>

text \<open>The result, the memory at \<open>buf\<close> and the file.\<close>

definition read_buffer :: "File \<Rightarrow> u8 list \<Rightarrow> nat \<Rightarrow> (bool \<times> u8 list \<times> File) option" where
  "read_buffer f buf sz = do {
     fp \<leftarrow> f_fp f;
     if sz > length buf then None
     else (case fread fp buf sz of (n, buf, fp) \<Rightarrow>
       Some (if n < 1 then (if st_err fp then False else if st_eof fp then False else sz = 0) else True,
             buf, f\<lparr>f_fp := Some fp\<rparr>)) }"

definition bytes16 :: "u16 \<Rightarrow> u8 list" where
  "bytes16 v = [ucast v, ucast (drop_bit 8 v)]"

definition bytes32 :: "u32 \<Rightarrow> u8 list" where
  "bytes32 v = [ucast v, ucast (drop_bit 8 v), ucast (drop_bit 16 v), ucast (drop_bit 24 v)]"

definition bytes64 :: "u64 \<Rightarrow> u8 list" where
  "bytes64 v = bytes32 (ucast v) @ bytes32 (ucast (drop_bit 32 v))"

text \<open>A typed read goes into the variable's own bytes, whose value before is \<open>old\<close>.\<close>

definition readi8 :: "File \<Rightarrow> u8 \<Rightarrow> (bool \<times> u8 \<times> File) option" where
  "readi8 f old = do { (ok, b, f) \<leftarrow> read_buffer f [old] 1; v \<leftarrow> rd8 b 0; Some (ok, v, f) }"

definition readi16 :: "File \<Rightarrow> u16 \<Rightarrow> bool \<Rightarrow> (bool \<times> u16 \<times> File) option" where
  "readi16 f old net_order = do {
     (ok, b, f) \<leftarrow> read_buffer f (bytes16 old) 2; v \<leftarrow> ld16 b 0;
     Some (ok, if ok \<and> net_order then ENTOHS v else v, f) }"

definition readi24 :: "File \<Rightarrow> u32 \<Rightarrow> bool \<Rightarrow> (bool \<times> u32 \<times> File) option" where
  "readi24 f old net_order = do {
     (ok, b, f) \<leftarrow> read_buffer f (bytes32 old) 3; v \<leftarrow> ld32 b 0;
     Some (ok, if ok \<and> net_order then drop_bit 8 (ENTOHL v) else v, f) }"

definition readi32 :: "File \<Rightarrow> u32 \<Rightarrow> bool \<Rightarrow> (bool \<times> u32 \<times> File) option" where
  "readi32 f old net_order = do {
     (ok, b, f) \<leftarrow> read_buffer f (bytes32 old) 4; v \<leftarrow> ld32 b 0;
     Some (ok, if ok \<and> net_order then ENTOHL v else v, f) }"

definition readi64 :: "File \<Rightarrow> u64 \<Rightarrow> bool \<Rightarrow> (bool \<times> u64 \<times> File) option" where
  "readi64 f old net_order = do {
     (ok, b, f) \<leftarrow> read_buffer f (bytes64 old) 8; v \<leftarrow> ld64 b 0;
     Some (ok, if ok \<and> net_order then ENTOHLL v else v, f) }"

definition readui8 :: "File \<Rightarrow> u8 \<Rightarrow> (bool \<times> u8 \<times> File) option" where
  "readui8 f old = readi8 f old"

definition readui16 :: "File \<Rightarrow> u16 \<Rightarrow> bool \<Rightarrow> (bool \<times> u16 \<times> File) option" where
  "readui16 f old net_order = readi16 f old net_order"

definition readui24 :: "File \<Rightarrow> u32 \<Rightarrow> bool \<Rightarrow> (bool \<times> u32 \<times> File) option" where
  "readui24 f old net_order = readi24 f old net_order"

definition readui32 :: "File \<Rightarrow> u32 \<Rightarrow> bool \<Rightarrow> (bool \<times> u32 \<times> File) option" where
  "readui32 f old net_order = readi32 f old net_order"

definition readui64 :: "File \<Rightarrow> u64 \<Rightarrow> bool \<Rightarrow> (bool \<times> u64 \<times> File) option" where
  "readui64 f old net_order = readi64 f old net_order"

definition read_line :: "File \<Rightarrow> nat \<Rightarrow> (u8 list option \<times> File) option" where
  "read_line f sz = do { fp \<leftarrow> f_fp f; case fgets fp sz of (l, fp) \<Rightarrow> Some (l, f\<lparr>f_fp := Some fp\<rparr>) }"

section \<open>Writing\<close>

definition write_buffer :: "File \<Rightarrow> u8 list \<Rightarrow> (bool \<times> File) option" where
  "write_buffer f bs =
     (if bs = [] then Some (True, f)
      else do {
        fp \<leftarrow> f_fp f;
        case fwrite fp bs of (n, fp) \<Rightarrow>
          if n < 1 \<and> st_err fp then Some (False, f\<lparr>f_fp := Some fp\<rparr>)
          else Some (True, f\<lparr>f_fp := Some fp, f_filesz := int (st_pos fp)\<rparr>) })"

definition writei8 :: "File \<Rightarrow> u8 \<Rightarrow> (bool \<times> File) option" where
  "writei8 f val = write_buffer f [val]"

definition writei16 :: "File \<Rightarrow> u16 \<Rightarrow> bool \<Rightarrow> (bool \<times> File) option" where
  "writei16 f val net_order = write_buffer f (bytes16 (if net_order then ENTOHS val else val))"

definition writei24 :: "File \<Rightarrow> u32 \<Rightarrow> bool \<Rightarrow> (bool \<times> File) option" where
  "writei24 f val net_order =
     write_buffer f (take 3 (bytes32 (if net_order then ENTOHL (push_bit 8 val) else val)))"

definition writei32 :: "File \<Rightarrow> u32 \<Rightarrow> bool \<Rightarrow> (bool \<times> File) option" where
  "writei32 f val net_order = write_buffer f (bytes32 (if net_order then ENTOHL val else val))"

definition writei64 :: "File \<Rightarrow> u64 \<Rightarrow> bool \<Rightarrow> (bool \<times> File) option" where
  "writei64 f val net_order = write_buffer f (bytes64 (if net_order then ENTOHLL val else val))"

definition writeui8 :: "File \<Rightarrow> u8 \<Rightarrow> (bool \<times> File) option" where
  "writeui8 f val = writei8 f val"

definition writeui16 :: "File \<Rightarrow> u16 \<Rightarrow> bool \<Rightarrow> (bool \<times> File) option" where
  "writeui16 f val net_order = writei16 f val net_order"

definition writeui24 :: "File \<Rightarrow> u32 \<Rightarrow> bool \<Rightarrow> (bool \<times> File) option" where
  "writeui24 f val net_order = writei24 f val net_order"

definition writeui32 :: "File \<Rightarrow> u32 \<Rightarrow> bool \<Rightarrow> (bool \<times> File) option" where
  "writeui32 f val net_order = writei32 f val net_order"

definition writeui64 :: "File \<Rightarrow> u64 \<Rightarrow> bool \<Rightarrow> (bool \<times> File) option" where
  "writeui64 f val net_order = writei64 f val net_order"

definition write_string :: "File \<Rightarrow> u8 list \<Rightarrow> (bool \<times> File) option" where
  "write_string f val = write_buffer f (cstr val)"

definition file_flush :: "File \<Rightarrow> (bool \<times> File) option" where
  "file_flush f =
     (if f_fp f = None then Some (True, f)
      else do {
        curpos \<leftarrow> cursor f;
        (ok, f) \<leftarrow> seek_end f;
        if \<not> ok then Some (False, f)
        else do {
          cur \<leftarrow> cursor f;
          let f = f\<lparr>f_filesz := cur\<rparr>;
          (ok, f) \<leftarrow> seek_to f curpos;
          Some (ok, f) } })"

section \<open>Whole files\<close>

text \<open>\<open>read_content\<close> makes a string of a zeroed buffer one byte longer than the file; \<open>calloc\<close> succeeds.\<close>

definition read_content :: "fs \<Rightarrow> string \<Rightarrow> (u8 list \<times> fs) option" where
  "read_content fs path = do {
     (ok, f, fs) \<leftarrow> file_open fs new_File (c_str path) (Some ''rb'');
     if \<not> ok then Some ([], fs)
     else do {
       let buf = replicate (nat (f_filesz f + 1)) 0;
       (ok, buf, f) \<leftarrow> read_buffer f buf (nat (f_filesz f));
       let fs = snd (file_close fs f);
       if \<not> ok then Some ([], fs) else Some (cstr buf, fs) } }"

definition flush_content :: "fs \<Rightarrow> string \<Rightarrow> u8 list \<Rightarrow> string \<Rightarrow> (int \<times> fs) option" where
  "flush_content fs path buf mode = do {
     (ok, f, fs) \<leftarrow> file_open fs new_File (c_str path) (Some mode);
     if \<not> ok then Some (- 1, fs)
     else do {
       (ok, f) \<leftarrow> (if buf = [] then Some (True, f) else write_buffer f buf);
       let fs = snd (file_close fs f);
       Some (if ok then 0 else - 1, fs) } }"

section \<open>Properties\<close>

text \<open>Write at the cursor, go back, read.\<close>

definition reread :: "(File \<Rightarrow> (bool \<times> File) option) \<Rightarrow> (File \<Rightarrow> (bool \<times> 'v \<times> File) option) \<Rightarrow> File \<Rightarrow> 'v option" where
  "reread w r f = do {
     cur \<leftarrow> cursor f;
     (ok1, f) \<leftarrow> w f;
     (ok2, f) \<leftarrow> seek_to f cur;
     (ok3, v, f) \<leftarrow> r f;
     if ok1 \<and> ok2 \<and> ok3 then Some v else None }"

definition rw_file :: "File \<Rightarrow> bool" where
  "rw_file f \<longleftrightarrow> (case f_fp f of None \<Rightarrow> False
     | Some fp \<Rightarrow> st_read fp \<and> st_write fp \<and> \<not> st_append fp \<and> \<not> st_err fp)"

lemma write_then_read:
  assumes "rw_file f" "bs \<noteq> []" "length bs \<le> length old"
  obtains cur g h k where "cursor f = Some cur" "write_buffer f bs = Some (True, g)" "seek_to g cur = Some (True, h)"
    "read_buffer h old (length bs) = Some (True, splice old 0 bs, k)"
proof -
  obtain fp where fp: "f_fp f = Some fp" "st_read fp" "st_write fp" "\<not> st_append fp" "\<not> st_err fp"
    using assms(1) by (auto simp: rw_file_def split: option.splits)
  define d where "d = st_data fp @ replicate (st_pos fp - length (st_data fp)) 0"
  define e where "e = take (st_pos fp) d @ bs @ drop (st_pos fp + length bs) d"
  have d: "st_pos fp \<le> length d" by (simp add: d_def)
  define fp1 where "fp1 = fp\<lparr>st_data := e, st_pos := st_pos fp + length bs\<rparr>"
  define g where "g = f\<lparr>f_fp := Some fp1, f_filesz := int (st_pos fp1)\<rparr>"
  define h where "h = g\<lparr>f_fp := Some (fp1\<lparr>st_pos := st_pos fp, st_eof := False\<rparr>)\<rparr>"
  have "cursor f = Some (int (st_pos fp))" by (simp add: cursor_def fp)
  moreover have "write_buffer f bs = Some (True, g)"
    using assms(2) fp by (simp add: write_buffer_def fwrite_def g_def fp1_def e_def d_def Let_def)
  moreover have "seek_to g (int (st_pos fp)) = Some (True, h)"
    by (simp add: seek_to_def g_def h_def fseek_def)
  moreover have "take (length bs) (drop (st_pos fp) e) = bs"
    using d by (simp add: e_def)
  then have "fread (fp1\<lparr>st_pos := st_pos fp, st_eof := False\<rparr>) old (length bs) =
      (1, splice old 0 bs, fp1\<lparr>st_pos := st_pos fp + length bs, st_eof := False\<rparr>)"
    using assms(2) fp by (simp add: fread_def fp1_def Let_def)
  then have "\<exists>k. read_buffer h old (length bs) = Some (True, splice old 0 bs, k)"
    using assms(3) by (simp add: read_buffer_def h_def)
  ultimately show thesis using that by blast
qed

lemma reread_buffer:
  assumes "rw_file f" "bs \<noteq> []" "length bs \<le> length old"
    and "w f = write_buffer f bs"
    and "\<And>h. r h = do { (ok, b, g) \<leftarrow> read_buffer h old (length bs); v \<leftarrow> conv b; Some (ok, fin ok v, g) }"
    and "conv (splice old 0 bs) = Some v"
  shows "reread w r f = Some (fin True v)"
proof -
  obtain cur g h k where "cursor f = Some cur" "write_buffer f bs = Some (True, g)" "seek_to g cur = Some (True, h)"
    "read_buffer h old (length bs) = Some (True, splice old 0 bs, k)"
    using write_then_read[OF assms(1-3)] by metis
  then show ?thesis using assms(4-6) by (simp add: reread_def)
qed

lemma ld_bytes:
  "ld16 (bytes16 v) 0 = Some v" "ld32 (bytes32 w) 0 = Some w" "ld64 (bytes64 x) 0 = Some x"
proof -
  show "ld16 (bytes16 v) 0 = Some v"
    by (simp add: ld16_def bytes16_def rd8_def) (rule bit_word_eqI, auto simp: bits_simps bit_simps)
  have l: "le32 (ucast w) (ucast (drop_bit 8 w)) (ucast (drop_bit 16 w)) (ucast (drop_bit 24 w)) = w" for w :: u32
    by (rule bit_word_eqI) (auto simp: bits_simps bit_simps not_less)
  show "ld32 (bytes32 w) 0 = Some w"
    by (simp add: ld32_def bytes32_def rd8_def l)
  have "le64 (ucast x) (ucast (drop_bit 32 x)) = x"
    by (rule bit_word_eqI) (auto simp: bits_simps bit_simps)
  then show "ld64 (bytes64 x) 0 = Some x"
    by (simp add: ld64_def ld32_def bytes64_def bytes32_def rd8_def l)
qed

lemma i24_bytes:
  "drop_bit 8 (ENTOHL (le32 (ucast (ENTOHL (push_bit 8 v))) (ucast (drop_bit 8 (ENTOHL (push_bit 8 v))))
     (ucast (drop_bit 16 (ENTOHL (push_bit 8 v)))) t)) = take_bit 24 v"
  "le32 (ucast v) (ucast (drop_bit 8 v)) (ucast (drop_bit 16 v)) (ucast (drop_bit 24 w)) =
     take_bit 24 v OR push_bit 24 (drop_bit 24 w)"
  by (rule bit_word_eqI; auto simp: ENTOHL_def bits_simps bit_simps not_less)+

lemma bytes_length: "length (bytes16 a) = 2" "length (bytes32 b) = 4" "length (bytes64 c) = 8"
  "bytes16 a \<noteq> []" "bytes32 b \<noteq> []" "bytes64 c \<noteq> []"
  by (simp_all add: bytes16_def bytes32_def bytes64_def)

lemma splice_all: "length bs = length m \<Longrightarrow> splice m 0 bs = bs"
  by (simp add: splice_def)

text \<open>
  File ints roundtrip: In a file open for reading and writing, an integer written at the cursor reads
  back there, in host and in network order, whatever the variable held; except that the three-byte read
  in host order leaves the top byte of the variable as it was.
\<close>

theorem file_ints_roundtrip:
  assumes "rw_file f"
  shows "reread (\<lambda>f. writei8 f v8) (\<lambda>f. readi8 f o8) f = Some v8 \<and>
    reread (\<lambda>f. writei16 f v16 net) (\<lambda>f. readi16 f o16 net) f = Some v16 \<and>
    reread (\<lambda>f. writei24 f v32 net) (\<lambda>f. readi24 f o32 net) f =
      Some (if net then take_bit 24 v32 else take_bit 24 v32 OR push_bit 24 (drop_bit 24 o32)) \<and>
    reread (\<lambda>f. writei32 f v32 net) (\<lambda>f. readi32 f o32 net) f = Some v32 \<and>
    reread (\<lambda>f. writei64 f v64 net) (\<lambda>f. readi64 f o64 net) f = Some v64"
proof (intro conjI)
  show "reread (\<lambda>f. writei8 f v8) (\<lambda>f. readi8 f o8) f = Some v8"
    by (rule reread_buffer[OF assms, of "[v8]" "[o8]" _ _ "\<lambda>b. rd8 b 0" "\<lambda>ok v. v", simplified])
      (simp_all add: writei8_def readi8_def rd8_def splice_def)
  have "reread (\<lambda>f. writei16 f v16 net) (\<lambda>f. readi16 f o16 net) f =
      Some (if True \<and> net then ENTOHS (if net then ENTOHS v16 else v16) else (if net then ENTOHS v16 else v16))"
    by (rule reread_buffer[OF assms, where bs = "bytes16 (if net then ENTOHS v16 else v16)" and old = "bytes16 o16"
          and conv = "\<lambda>b. ld16 b 0" and fin = "\<lambda>ok v. if ok \<and> net then ENTOHS v else v"])
      (simp_all add: bytes_length writei16_def readi16_def splice_all ld_bytes)
  then show "reread (\<lambda>f. writei16 f v16 net) (\<lambda>f. readi16 f o16 net) f = Some v16"
    by (cases net) (simp_all add: ENTOHS_def)
  let ?b = "bytes32 (if net then ENTOHL (push_bit 8 v32) else v32)"
  have "splice (bytes32 o32) 0 (take 3 ?b) = take 3 ?b @ [ucast (drop_bit 24 o32)]"
    by (simp add: splice_def bytes32_def numeral_3_eq_3)
  then have c: "ld32 (splice (bytes32 o32) 0 (take 3 ?b)) 0 =
      Some (if net then le32 (ucast (ENTOHL (push_bit 8 v32))) (ucast (drop_bit 8 (ENTOHL (push_bit 8 v32))))
          (ucast (drop_bit 16 (ENTOHL (push_bit 8 v32)))) (ucast (drop_bit 24 o32))
        else take_bit 24 v32 OR push_bit 24 (drop_bit 24 o32))"
    by (simp add: ld32_def rd8_def bytes32_def numeral_3_eq_3 i24_bytes(2))
  have "reread (\<lambda>f. writei24 f v32 net) (\<lambda>f. readi24 f o32 net) f =
      Some (if True \<and> net then drop_bit 8 (ENTOHL (the (ld32 (splice (bytes32 o32) 0 (take 3 ?b)) 0)))
        else the (ld32 (splice (bytes32 o32) 0 (take 3 ?b)) 0))"
    by (rule reread_buffer[OF assms, where bs = "take 3 ?b" and old = "bytes32 o32"
          and conv = "\<lambda>b. ld32 b 0" and fin = "\<lambda>ok v. if ok \<and> net then drop_bit 8 (ENTOHL v) else v"])
      (simp_all add: bytes_length writei24_def readi24_def c)
  then show "reread (\<lambda>f. writei24 f v32 net) (\<lambda>f. readi24 f o32 net) f =
      Some (if net then take_bit 24 v32 else take_bit 24 v32 OR push_bit 24 (drop_bit 24 o32))"
    unfolding c option.sel by (cases net) (simp_all add: i24_bytes(1))
  have "reread (\<lambda>f. writei32 f v32 net) (\<lambda>f. readi32 f o32 net) f =
      Some (if True \<and> net then ENTOHL (if net then ENTOHL v32 else v32) else (if net then ENTOHL v32 else v32))"
    by (rule reread_buffer[OF assms, where bs = "bytes32 (if net then ENTOHL v32 else v32)" and old = "bytes32 o32"
          and conv = "\<lambda>b. ld32 b 0" and fin = "\<lambda>ok v. if ok \<and> net then ENTOHL v else v"])
      (simp_all add: bytes_length writei32_def readi32_def splice_all ld_bytes)
  then show "reread (\<lambda>f. writei32 f v32 net) (\<lambda>f. readi32 f o32 net) f = Some v32"
    by (cases net) (simp_all add: ENTOHL_def)
  have "reread (\<lambda>f. writei64 f v64 net) (\<lambda>f. readi64 f o64 net) f =
      Some (if True \<and> net then ENTOHLL (if net then ENTOHLL v64 else v64) else (if net then ENTOHLL v64 else v64))"
    by (rule reread_buffer[OF assms, where bs = "bytes64 (if net then ENTOHLL v64 else v64)" and old = "bytes64 o64"
          and conv = "\<lambda>b. ld64 b 0" and fin = "\<lambda>ok v. if ok \<and> net then ENTOHLL v else v"])
      (simp_all add: bytes_length writei64_def readi64_def splice_all ld_bytes)
  then show "reread (\<lambda>f. writei64 f v64 net) (\<lambda>f. readi64 f o64 net) f = Some v64"
    by (cases net) (simp_all add: ENTOHLL_def)
qed

theorem file_ints_roundtrip_witness:
  "\<exists>f. rw_file f \<and> reread (\<lambda>f. writei24 f 0x010203 True) (\<lambda>f. readi24 f 0xFF000000 True) f = Some 0x010203"
proof -
  let ?f = "new_File\<lparr>f_fp := Some \<lparr>st_data = [1, 2], st_pos = 1, st_eof = False, st_err = False,
      st_read = True, st_write = True, st_append = False\<rparr>\<rparr>"
  have ok: "rw_file ?f" by (simp add: rw_file_def)
  have "take_bit 24 (0x010203 :: u32) = 0x010203" by simp
  then show ?thesis
    using file_ints_roundtrip[OF ok, of 0 0 0 True 0 "0x010203" "0xFF000000"] ok by (simp only: if_True) blast
qed

text \<open>
  File content roundtrip: \<open>flush_content\<close> with mode \<open>w\<close> replaces a file and
  with \<open>a\<close> extends it, and \<open>read_content\<close> then returns what is there up to the
  first zero byte, since it makes a string of a C buffer.
\<close>

theorem file_content_roundtrip:
  assumes "path \<noteq> []" "NUL \<notin> set path"
  shows "flush_content fs path bs ''w'' = Some (0, fs(path \<mapsto> bs)) \<and>
    flush_content fs path bs ''a'' = Some (0, fs(path \<mapsto> (case fs path of None \<Rightarrow> [] | Some d \<Rightarrow> d) @ bs)) \<and>
    (case fs path of None \<Rightarrow> read_content fs path = Some ([], fs)
     | Some d \<Rightarrow> read_content fs path = Some (cstr d, fs))"
proof -
  note path = assms(1) c_str_id[OF assms(2)]
  note defs = file_open_def file_close_def new_File_def fopen_def seek_end_def seek_begin_def seek_to_def fseek_def cursor_def
    write_buffer_def fwrite_def Let_def
  have w: "flush_content fs path bs ''w'' = Some (0, fs(path \<mapsto> bs))"
    using path by (simp add: flush_content_def defs)
  have a: "flush_content fs path bs ''a'' = Some (0, fs(path \<mapsto> (case fs path of None \<Rightarrow> [] | Some d \<Rightarrow> d) @ bs))"
    using path by (simp add: flush_content_def defs split: option.splits)
  have none: "read_content fs path = Some ([], fs)" if "fs path = None"
    using path that by (simp add: read_content_def defs)
  have some: "read_content fs path = Some (cstr d, fs)" if "fs path = Some d" for d
  proof -
    have "splice (replicate (Suc (length d)) (0 :: u8)) 0 d = d @ [0]"
      by (simp add: splice_def del: replicate_Suc) simp
    moreover have "cstr (d @ [0]) = cstr d"
      by (induction d) (simp_all add: cstr_def)
    ultimately show ?thesis
      using path that
      by (cases "d = []") (simp_all add: read_content_def read_buffer_def fread_def defs nat_add_distrib cstr_def)
  qed
  show ?thesis using w a none some by (simp split: option.split)
qed

theorem file_content_roundtrip_witness:
  "read_content [''f'' \<mapsto> [104, 105, 0, 33]] ''f'' = Some ([104, 105], [''f'' \<mapsto> [104, 105, 0, 33]])"
  using file_content_roundtrip[of "''f''" "[''f'' \<mapsto> [104, 105, 0, 33]]" "[]"] by (simp add: cstr_def)

text \<open>
  \<open>write_buffer\<close> takes the cursor for the size: after an overwrite in the middle \<open>size\<close> is short of
  the file, until \<open>flush\<close> looks again.
\<close>

lemma size_after_overwrite:
  assumes "f_fp f = Some fp" "st_write fp" "\<not> st_append fp" "\<not> st_err fp" "bs \<noteq> []"
    and "st_pos fp + length bs < length (st_data fp)"
  shows "\<exists>g h. write_buffer f bs = Some (True, g) \<and> f_filesz g < int (length (st_data (the (f_fp g)))) \<and>
    file_flush g = Some (True, h) \<and> f_filesz h = int (length (st_data (the (f_fp h))))"
  using assms by (simp add: write_buffer_def fwrite_def file_flush_def cursor_def seek_end_def seek_to_def fseek_def Let_def)

end
