(* ===== verification/Trace.thy ===== *)
theory Trace
  imports Buffer Text
begin

text \<open>
  The trace of a transfer in \<open>xcurl.cc\<close>: \<open>conn_info::trace\<close> and the dump it logs, which \<open>IOBuffer\<close>
  collects. The dump's rows are the loops of the code with their \<open>size_t\<close> arithmetic; against them
  stand the rows a reader expects, and the bytes these show.
\<close>

section \<open>Formats\<close>

definition hexdig :: "nat \<Rightarrow> u8" where
  "hexdig n = of_nat (if n < 10 then 48 + n else 87 + n)"

fun hexs :: "nat \<Rightarrow> u8 list" where
  "hexs n = (if n < 16 then [hexdig n] else hexs (n div 16) @ [hexdig (n mod 16)])"

declare hexs.simps [simp del]

definition zero_pad :: "nat \<Rightarrow> u8 list \<Rightarrow> u8 list" where
  "zero_pad w s = replicate (w - length s) 48 @ s"

section \<open>The dump\<close>

abbreviation (input) CR :: u8 where "CR \<equiv> 0x0D"
abbreviation (input) LF :: u8 where "LF \<equiv> 0x0A"

definition width_of :: "bool \<Rightarrow> nat" where
  "width_of nohex = (if nohex then 0x40 else 0x10)"

definition shown :: "u8 \<Rightarrow> u8" where
  "shown b = (if b \<ge> 0x20 \<and> b < 0x80 then b else 46)"

definition hex_cols :: "u8 list \<Rightarrow> nat \<Rightarrow> u8 list list" where
  "hex_cols ptr i = map (\<lambda>c. if i + c < length ptr then zero_pad 2 (hexs (unat (ptr ! (i + c)))) @ [32] else [32, 32, 32])
     [0..<width_of False]"

text \<open>\<open>i += k - width\<close> in \<open>size_t\<close>.\<close>

definition skip_to :: "nat \<Rightarrow> nat \<Rightarrow> nat \<Rightarrow> nat" where
  "skip_to width i k = (i + (k + 2 ^ 64 - width)) mod 2 ^ 64"

text \<open>The text of a row, from column \<open>c\<close> on, and the \<open>i\<close> it leaves.\<close>

function text_cols :: "bool \<Rightarrow> u8 list \<Rightarrow> nat \<Rightarrow> nat \<Rightarrow> u8 list list \<times> nat" where
  "text_cols nohex ptr i c =
     (if c < width_of nohex \<and> i + c < length ptr then
        if nohex \<and> i + c + 1 < length ptr \<and> ptr ! (i + c) = CR \<and> ptr ! (i + c + 1) = LF
        then ([], skip_to (width_of nohex) i (c + 2))
        else let ch = [shown (ptr ! (i + c))] in
          if nohex \<and> i + c + 2 < length ptr \<and> ptr ! (i + c + 1) = CR \<and> ptr ! (i + c + 2) = LF
          then ([ch], skip_to (width_of nohex) i (c + 3))
          else case text_cols nohex ptr i (c + 1) of (r, i') \<Rightarrow> (ch # r, i')
      else ([], i))"
  by pat_completeness auto

termination by (relation "measure (\<lambda>(nohex, ptr, i, c). width_of nohex - c)") auto

declare text_cols.simps [simp del]

text \<open>The pieces that are formatted one after the other; \<open>None\<close> for a loop that does not end.\<close>

partial_function (option) dump_rows :: "bool \<Rightarrow> u8 list \<Rightarrow> nat \<Rightarrow> u8 list list option" where
  "dump_rows nohex ptr i =
     (if i < length ptr then
        (case text_cols nohex ptr i 0 of (txt, i') \<Rightarrow>
           Option.bind (dump_rows nohex ptr ((i' + width_of nohex) mod 2 ^ 64)) (\<lambda>r.
             Some ([zero_pad 4 (hexs i) @ ascii '': ''] @ (if \<not> nohex then hex_cols ptr i else []) @ txt @ [[10]] @ r)))
      else Some [])"

definition dump_head :: "string \<Rightarrow> nat \<Rightarrow> u8 list" where
  "dump_head text sz = [10] @ ascii text @ ascii '', '' @ zero_pad 10 (ascii (dec sz)) @ ascii '' bytes (0x'' @
     zero_pad 8 (hexs sz) @ ascii '')'' @ [10]"

fun read_pieces :: "IOBuffer \<Rightarrow> u8 list list \<Rightarrow> IOBuffer option" where
  "read_pieces b [] = Some b"
| "read_pieces b (x # xs) = do { b \<leftarrow> read_from_buffer b x; read_pieces b xs }"

text \<open>The NUL goes to \<open>GETIBPOINTER(*iobuf)[GETAVAILABLEBYTESCOUNT(*iobuf)]\<close>; the result is what is logged.\<close>

definition dump :: "string \<Rightarrow> u8 list \<Rightarrow> bool \<Rightarrow> u8 list option" where
  "dump text ptr nohex = do {
     rows \<leftarrow> dump_rows nohex ptr 0;
     b \<leftarrow> read_pieces new_IOBuffer (dump_head text (length ptr) # rows);
     m \<leftarrow> io_buffer b;
     m \<leftarrow> wr8 m (unat (io_consumed b) + unat (GETAVAILABLEBYTESCOUNT b)) 0;
     Some (takeWhile (\<lambda>c. c \<noteq> 0) (drop (unat (io_consumed b)) m)) }"

datatype curl_infotype = INFO_TEXT | HEADER_IN | HEADER_OUT | DATA_IN | DATA_OUT | SSL_DATA_IN | SSL_DATA_OUT

fun info_text :: "curl_infotype \<Rightarrow> string option" where
  "info_text INFO_TEXT = None"
| "info_text HEADER_OUT = Some ''=> Send header''"
| "info_text DATA_OUT = Some ''=> Send data''"
| "info_text SSL_DATA_OUT = Some ''=> Send SSL data''"
| "info_text HEADER_IN = Some ''<= Recv header''"
| "info_text DATA_IN = Some ''<= Recv data''"
| "info_text SSL_DATA_IN = Some ''<= Recv SSL data''"

text \<open>The debug function: what is logged, and the result. A text is logged up to a NUL, which libcurl need not give.\<close>

definition trace :: "curl_infotype \<Rightarrow> u8 list \<Rightarrow> bool \<Rightarrow> (u8 list \<times> int) option" where
  "trace ty data trace_ascii =
     (case info_text ty of
        None \<Rightarrow> (if 0 \<in> set data then Some ([10] @ ascii ''== Info: '' @ takeWhile (\<lambda>c. c \<noteq> 0) data, 0) else None)
      | Some text \<Rightarrow> map_option (\<lambda>l. (l, 0)) (dump text data trace_ascii))"

section \<open>The rows\<close>

text \<open>A line of at most \<open>n\<close> bytes up to a CRLF, which ends it and is left out; and what follows.\<close>

fun crlf_first :: "u8 list \<Rightarrow> bool" where
  "crlf_first (a # b # r) \<longleftrightarrow> a = CR \<and> b = LF"
| "crlf_first r \<longleftrightarrow> False"

fun take_line :: "nat \<Rightarrow> u8 list \<Rightarrow> u8 list \<times> u8 list" where
  "take_line 0 xs = ([], xs)"
| "take_line (Suc n) [] = ([], [])"
| "take_line (Suc n) (x # xs) =
     (if crlf_first (x # xs) then ([], drop 1 xs)
      else if crlf_first xs then ([x], drop 2 xs)
      else case take_line n xs of (l, r) \<Rightarrow> (x # l, r))"

definition row_of :: "bool \<Rightarrow> u8 list \<Rightarrow> u8 list \<times> u8 list" where
  "row_of nohex xs = (if nohex then take_line (width_of True) xs else (take (width_of False) xs, drop (width_of False) xs))"

lemma take_line_Nil [simp]: "take_line n [] = ([], [])"
  by (cases n) auto

lemma take_line_shorter: "xs \<noteq> [] \<Longrightarrow> 0 < n \<Longrightarrow> length (snd (take_line n xs)) < length xs"
proof (induction n xs rule: take_line.induct)
  case (3 n x xs)
  then show ?case by (cases "xs = [] \<or> n = 0") (auto split: prod.splits)
qed auto

lemma row_shorter: "(l, r) = row_of nohex xs \<Longrightarrow> xs \<noteq> [] \<Longrightarrow> length r < length xs"
  using take_line_shorter[of xs 64] by (auto simp: row_of_def width_of_def split: if_splits) (metis snd_conv)

function rows :: "bool \<Rightarrow> nat \<Rightarrow> u8 list \<Rightarrow> (nat \<times> u8 list \<times> u8 list) list" where
  "rows nohex i xs =
     (if xs = [] then []
      else case row_of nohex xs of (l, r) \<Rightarrow> (i, l, xs) # rows nohex (i + (length xs - length r)) r)"
  by pat_completeness auto

termination by (relation "measure (\<lambda>(nohex, i, xs). length xs)") (auto dest: row_shorter)

declare rows.simps [simp del]

definition render :: "bool \<Rightarrow> nat \<times> u8 list \<times> u8 list \<Rightarrow> u8 list list" where
  "render nohex row = (case row of (i, l, xs) \<Rightarrow>
     [zero_pad 4 (hexs i) @ ascii '': ''] @
     (if nohex then [] else map (\<lambda>c. if c < length l then zero_pad 2 (hexs (unat (l ! c))) @ [32] else [32, 32, 32]) [0..<16]) @
     map (\<lambda>b. [shown b]) l @ [[10]])"

text \<open>What is left of a row from column \<open>c\<close> on.\<close>

definition rest_of_row :: "bool \<Rightarrow> nat \<Rightarrow> u8 list \<Rightarrow> u8 list \<times> u8 list" where
  "rest_of_row nohex n xs = (if nohex then take_line n xs else (take n xs, drop n xs))"

lemma skip_to_eq: "w \<le> 64 \<Longrightarrow> i + k < 2 ^ 64 \<Longrightarrow> (skip_to w i k + w) mod 2 ^ 64 = i + k"
proof -
  assume w: "w \<le> 64" "i + k < 2 ^ 64"
  have "(skip_to w i k + w) mod 2 ^ 64 = (i + (k + 2 ^ 64 - w) + w) mod 2 ^ 64"
    unfolding skip_to_def by (rule mod_add_left_eq)
  also have "i + (k + 2 ^ 64 - w) + w = i + k + 2 ^ 64" using w(1) by simp
  finally show ?thesis using w(2) by simp
qed

lemma crlf_first_drop:
  "crlf_first (drop j ptr) \<longleftrightarrow> j + 1 < length ptr \<and> ptr ! j = CR \<and> ptr ! (j + 1) = LF"
proof (cases "j + 1 < length ptr")
  case True
  then have "drop j ptr = ptr ! j # ptr ! (j + 1) # drop (j + 2) ptr"
    by (simp add: Cons_nth_drop_Suc)
  then show ?thesis using True by simp
next
  case False
  then have "length (drop j ptr) \<le> 1" by simp
  then show ?thesis using False by (cases "drop j ptr" rule: crlf_first.cases) auto
qed

lemma text_cols_row:
  assumes "length ptr < 2 ^ 63" "i + c \<le> length ptr" "c \<le> width_of nohex"
  shows "\<exists>l r i' n. rest_of_row nohex (width_of nohex - c) (drop (i + c) ptr) = (l, r) \<and>
    text_cols nohex ptr i c = (map (\<lambda>b. [shown b]) l, i') \<and> (i' + width_of nohex) mod 2 ^ 64 = n \<and> drop n ptr = r \<and> i + c \<le> n"
  using assms
proof (induction nohex ptr i c rule: text_cols.induct)
  case (1 nohex ptr i c)
  let ?w = "width_of nohex" and ?xs = "drop (i + c) ptr"
  have w: "?w \<le> 64" by (simp add: width_of_def)
  have small: "i + c + 64 < 2 ^ 64" using 1(2,3) by simp
  show ?case
  proof (cases "c < ?w \<and> i + c < length ptr")
    case False
    have n: "(i + ?w) mod 2 ^ 64 = i + ?w" using small w 1(3) by simp
    have "rest_of_row nohex (?w - c) ?xs = ([], drop (i + ?w) ptr)"
      using False 1(4) by (auto simp: rest_of_row_def not_less)
    moreover have "text_cols nohex ptr i c = ([], i)" by (subst text_cols.simps) (simp only: False if_False)
    ultimately show ?thesis using n 1(4)
      by - (rule exI[of _ "[]"], rule exI[of _ "drop (i + ?w) ptr"], rule exI[of _ i], rule exI[of _ "i + ?w"], simp)
  next
    case True
    obtain m where m: "?w - c = Suc m" "?w - (c + 1) = m" using True by (metis Suc_diff_Suc Suc_eq_plus1)
    have xs: "?xs = ptr ! (i + c) # drop (i + c + 1) ptr" using True by (simp add: Cons_nth_drop_Suc)
    note crlf = crlf_first_drop[of "i + c" ptr] crlf_first_drop[of "i + c + 1" ptr]
    consider (now) "nohex" "crlf_first ?xs" | (after) "nohex" "\<not> crlf_first ?xs" "crlf_first (drop (i + c + 1) ptr)"
      | (on) "\<not> (nohex \<and> crlf_first ?xs)" "\<not> (nohex \<and> crlf_first (drop (i + c + 1) ptr))" by blast
    then show ?thesis
    proof cases
      case now
      have t: "text_cols nohex ptr i c = ([], skip_to ?w i (c + 2))"
        using now crlf True by (subst text_cols.simps) simp
      have "rest_of_row nohex (?w - c) ?xs = ([], drop (i + c + 2) ptr)"
        using now(1,2) unfolding m(1) xs by (simp add: rest_of_row_def)
      then show ?thesis using t skip_to_eq[OF w, of i "c + 2"] small
        by - (rule exI[of _ "[]"], rule exI[of _ "drop (i + c + 2) ptr"], rule exI[of _ "skip_to ?w i (c + 2)"], rule exI[of _ "i + c + 2"], simp)
    next
      case after
      have t: "text_cols nohex ptr i c = ([[shown (ptr ! (i + c))]], skip_to ?w i (c + 3))"
        using after crlf True by (subst text_cols.simps) (auto simp: Let_def)
      have "rest_of_row nohex (?w - c) ?xs = ([ptr ! (i + c)], drop (i + c + 3) ptr)"
        using after unfolding m(1) xs by (simp add: rest_of_row_def numeral_3_eq_3)
      then show ?thesis using t skip_to_eq[OF w, of i "c + 3"] small
        by - (rule exI[of _ "[ptr ! (i + c)]"], rule exI[of _ "drop (i + c + 3) ptr"], rule exI[of _ "skip_to ?w i (c + 3)"], rule exI[of _ "i + c + 3"], simp)
    next
      case on
      have no: "\<not> (nohex \<and> i + c + 1 < length ptr \<and> ptr ! (i + c) = CR \<and> ptr ! (i + c + 1) = LF)"
        "\<not> (nohex \<and> i + c + 2 < length ptr \<and> ptr ! (i + c + 1) = CR \<and> ptr ! (i + c + 2) = LF)"
        using on crlf by simp_all
      obtain l r i' n where r: "rest_of_row nohex m (drop (i + c + 1) ptr) = (l, r)"
        "text_cols nohex ptr i (c + 1) = (map (\<lambda>b. [shown b]) l, i')" "(i' + ?w) mod 2 ^ 64 = n" "drop n ptr = r" "i + (c + 1) \<le> n"
        using 1(1)[OF True no(1) refl no(2) 1(2)] True m(2) by (auto simp: add.assoc)
      have t: "text_cols nohex ptr i c = ([shown (ptr ! (i + c))] # map (\<lambda>b. [shown b]) l, i')"
        using True no r(2) by (subst text_cols.simps) (simp only: Let_def if_True if_False prod.case simp_thms)
      have "rest_of_row nohex (?w - c) ?xs = (ptr ! (i + c) # l, r)"
        using on r(1) unfolding m(1) xs by (cases nohex) (simp_all add: rest_of_row_def)
      then show ?thesis using t r(3,4,5)
        by - (rule exI[of _ "ptr ! (i + c) # l"], rule exI[of _ r], rule exI[of _ i'], rule exI[of _ n], simp)
    qed
  qed
qed

lemma hex_cols_row:
  "hex_cols ptr i = map (\<lambda>c. if c < length (take 16 (drop i ptr)) then zero_pad 2 (hexs (unat (take 16 (drop i ptr) ! c))) @ [32]
    else [32, 32, 32]) [0..<16]"
  unfolding hex_cols_def width_of_def by (rule map_cong) auto

lemma dump_rows_spec:
  "length ptr < 2 ^ 63 \<Longrightarrow> dump_rows nohex ptr i = Some (concat (map (render nohex) (rows nohex i (drop i ptr))))"
proof (induction "length ptr - i" arbitrary: i rule: less_induct)
  case less
  let ?w = "width_of nohex"
  show ?case
  proof (cases "i < length ptr")
    case False
    then show ?thesis by (simp add: dump_rows.simps[of nohex ptr i] rows.simps)
  next
    case True
    obtain l r i' n where r: "rest_of_row nohex ?w (drop i ptr) = (l, r)" "text_cols nohex ptr i 0 = (map (\<lambda>b. [shown b]) l, i')"
      "(i' + ?w) mod 2 ^ 64 = n" "drop n ptr = r" "i \<le> n"
      using text_cols_row[of ptr i 0 nohex] less(2) True by auto
    have row: "row_of nohex (drop i ptr) = (l, r)" using r(1) by (cases nohex) (simp_all add: row_of_def rest_of_row_def)
    have shorter: "length r < length ptr - i" using row_shorter[OF row[symmetric]] True by simp
    have n: "length ptr - n < length ptr - i" using r(4) shorter by (metis length_drop)
    have "rows nohex (i + (length ptr - i - length r)) r = rows nohex n r"
    proof (cases "r = []")
      case False
      then have "n = length ptr - length r" using r(4) by auto
      then show ?thesis using shorter True by simp
    qed (simp add: rows.simps)
    then have rows: "rows nohex i (drop i ptr) = (i, l, drop i ptr) # rows nohex n (drop n ptr)"
      using row True r(4) by (simp add: rows.simps[of nohex i])
    have "(if \<not> nohex then hex_cols ptr i else []) =
      (if nohex then [] else map (\<lambda>c. if c < length l then zero_pad 2 (hexs (unat (l ! c))) @ [32] else [32, 32, 32]) [0..<16])"
    proof (cases nohex)
      case False
      then have "l = take 16 (drop i ptr)" using row by (simp add: row_of_def width_of_def)
      then show ?thesis using False hex_cols_row[of ptr i] by (simp only: if_True if_False simp_thms)
    qed simp
    then show ?thesis
      using True r(2,3) less(1)[OF n less(2)] rows by (simp add: dump_rows.simps[of nohex ptr i] render_def)
  qed
qed

text \<open>The bytes the rows show.\<close>

fun without_crlf :: "u8 list \<Rightarrow> u8 list" where
  "without_crlf [] = []"
| "without_crlf (x # xs) = (if crlf_first (x # xs) then without_crlf (drop 1 xs) else x # without_crlf xs)"

lemma without_crlf_first: "crlf_first xs \<Longrightarrow> without_crlf xs = without_crlf (drop 2 xs)"
  by (cases xs) auto

lemma take_line_shows: "take_line n xs = (l, r) \<Longrightarrow> without_crlf xs = l @ without_crlf r"
proof (induction n xs arbitrary: l r rule: take_line.induct)
  case (3 n x xs)
  then show ?case by (auto simp: without_crlf_first split: if_splits prod.splits)
qed auto

lemma rows_show: "concat (map (\<lambda>(i, l, xs). l) (rows nohex i xs)) = (if nohex then without_crlf xs else xs)"
proof (induction nohex i xs rule: rows.induct)
  case (1 nohex i xs)
  show ?case
  proof (cases "xs = []")
    case False
    obtain l r where row: "row_of nohex xs = (l, r)" by fastforce
    show ?thesis
      using 1[OF False row[symmetric]] row False take_line_shows[of 64 xs l r]
      by (auto simp: rows.simps[of nohex i xs] row_of_def width_of_def split: if_splits)
  qed (simp add: rows.simps)
qed

section \<open>The buffer of a dump\<close>

text \<open>The first chunk of an \<open>IOBuffer\<close>, holding \<open>bs\<close>.\<close>

definition first_chunk :: "IOBuffer \<Rightarrow> u8 list \<Rightarrow> bool" where
  "first_chunk b bs \<longleftrightarrow> (\<exists>m. io_buffer b = Some m \<and> length m = 4096 \<and> take (length bs) m = bs) \<and>
     io_size b = 4096 \<and> io_consumed b = 0 \<and> io_published b = of_nat (length bs) \<and> length bs \<le> 4096"

lemma of_nat_le_4096: "n \<le> 4096 \<Longrightarrow> (of_nat n :: u32) \<le> 4096"
  by (simp add: word_le_nat_alt unsigned_of_nat take_bit_nat_eq_self)

lemma unat_small_u32: "n \<le> 4096 \<Longrightarrow> unat (of_nat n :: u32) = n"
  by (simp add: unsigned_of_nat take_bit_nat_eq_self)

lemma store_chunk:
  assumes "length m = 4096" "take (length bs) m = bs" "length bs + length x \<le> 4096"
  shows "\<exists>m'. copy_in (Some m) (length bs) x = Some (Some m') \<and> length m' = 4096 \<and> take (length bs + length x) m' = bs @ x"
  using assms by (auto simp: copy_in_def wrn_def splice_def take_add)

lemma first_piece:
  assumes "x \<noteq> []" "length x \<le> 4096"
  shows "\<exists>b. read_from_buffer new_IOBuffer x = Some b \<and> first_chunk b x"
proof -
  let ?n = "of_nat (length x) :: u32"
  have n: "\<not> ?n \<le> 0" "?n \<le> 4096" "unat ?n = length x"
    using assms of_nat_le_4096[of "length x"] unat_small_u32[of "length x"] by (auto simp: word_le_nat_alt)
  have e: "ensure_size new_IOBuffer ?n = Some (new_IOBuffer\<lparr>io_buffer := Some (replicate 4096 0), io_size := 4096\<rparr>)"
  proof (cases "?n < 4096")
    case True
    then show ?thesis using n(1)
      by (simp add: ensure_size_def new_IOBuffer_def move_data_def copy_out_def copy_in_def Let_def)
  next
    case False
    then have "?n = 4096" using n(2) by simp
    then have "length x = 4096" using n(3) by simp
    then show ?thesis
      by (simp add: ensure_size_def new_IOBuffer_def move_data_def copy_out_def copy_in_def Let_def)
  qed
  obtain m' where m': "copy_in (Some (replicate 4096 0)) 0 x = Some (Some m')" "length m' = 4096" "take (length x) m' = x"
    using store_chunk[of "replicate 4096 0" "[]" x] assms(2) by auto
  then show ?thesis using e assms(2)
    by (simp add: read_from_buffer_def new_IOBuffer_def first_chunk_def)
qed

lemma next_piece:
  assumes b: "first_chunk b bs" and len: "length bs + length x \<le> 4096"
  shows "\<exists>b'. read_from_buffer b x = Some b' \<and> first_chunk b' (bs @ x)"
proof -
  obtain m where m: "io_buffer b = Some m" "length m = 4096" "take (length bs) m = bs"
    and s: "io_size b = 4096" "io_consumed b = 0" "io_published b = of_nat (length bs)"
    using b by (auto simp: first_chunk_def)
  have "io_published b + of_nat (length x) \<le> io_size b"
    using of_nat_le_4096[OF len] s by simp
  then have e: "ensure_size b (of_nat (length x)) = Some b" by (simp add: ensure_size_def)
  obtain m' where m': "copy_in (Some m) (length bs) x = Some (Some m')" "length m' = 4096" "take (length bs + length x) m' = bs @ x"
    using store_chunk[OF m(2,3) len] by blast
  then show ?thesis using e m s len unat_small_u32[of "length bs"]
    by (simp add: read_from_buffer_def first_chunk_def)
qed

lemma read_pieces_chunk:
  "first_chunk b bs \<Longrightarrow> length bs + length (concat xs) \<le> 4096 \<Longrightarrow>
   \<exists>b'. read_pieces b xs = Some b' \<and> first_chunk b' (bs @ concat xs)"
proof (induction xs arbitrary: b bs)
  case (Cons x xs)
  then obtain b1 where b1: "read_from_buffer b x = Some b1" "first_chunk b1 (bs @ x)"
    using next_piece[of b bs x] by auto
  then show ?case using Cons.IH[OF b1(2)] Cons.prems(2) by auto
qed auto

definition dump_bytes :: "string \<Rightarrow> u8 list \<Rightarrow> bool \<Rightarrow> u8 list" where
  "dump_bytes text ptr nohex = dump_head text (length ptr) @ concat (concat (map (render nohex) (rows nohex 0 ptr)))"

lemma dump_chunk:
  assumes "length ptr < 2 ^ 63" "length (dump_bytes text ptr nohex) \<le> 4096"
  shows "dump text ptr nohex =
    (if length (dump_bytes text ptr nohex) < 4096 then Some (takeWhile (\<lambda>c. c \<noteq> 0) (dump_bytes text ptr nohex)) else None)"
proof -
  let ?rs = "concat (map (render nohex) (rows nohex 0 ptr))" and ?h = "dump_head text (length ptr)"
    and ?bs = "dump_bytes text ptr nohex"
  have rows: "dump_rows nohex ptr 0 = Some ?rs" using dump_rows_spec[OF assms(1), of nohex 0] by simp
  have len: "length ?h + length (concat ?rs) \<le> 4096" using assms(2) by (simp add: dump_bytes_def)
  obtain b1 where b1: "read_from_buffer new_IOBuffer ?h = Some b1" "first_chunk b1 ?h"
    using first_piece[of ?h] len by (auto simp: dump_head_def)
  obtain b where b: "read_pieces b1 ?rs = Some b" "first_chunk b ?bs"
    using read_pieces_chunk[OF b1(2) len] by (auto simp: dump_bytes_def)
  obtain m where m: "io_buffer b = Some m" "length m = 4096" "take (length ?bs) m = ?bs" "io_consumed b = 0"
    "io_published b = of_nat (length ?bs)"
    using b(2) by (auto simp: first_chunk_def)
  have "unat (GETAVAILABLEBYTESCOUNT b) = length ?bs"
    using m(4,5) unat_small_u32[OF assms(2)] by (simp add: GETAVAILABLEBYTESCOUNT_def)
  moreover have "takeWhile (\<lambda>c. c \<noteq> 0) (m[length ?bs := 0]) = takeWhile (\<lambda>c. c \<noteq> 0) ?bs" if "length ?bs < 4096"
  proof -
    have "m[length ?bs := 0] = ?bs @ 0 # drop (length ?bs + 1) m"
      using upd_conv_take_nth_drop[of "length ?bs" m 0] m(2,3) that by simp
    then show ?thesis by (simp only: takeWhile_tail simp_thms)
  qed
  ultimately show ?thesis using rows b1(1) b(1) m by (simp add: dump_def wr8_def)
qed

text \<open>No byte of a dump is NUL.\<close>

lemma of_nat_u8_nonzero: "0 < n \<Longrightarrow> n < 256 \<Longrightarrow> (of_nat n :: u8) \<noteq> 0"
proof
  assume n: "0 < n" "n < 256" "(of_nat n :: u8) = 0"
  have "unat (of_nat n :: u8) = n" using n(2) by (simp add: unsigned_of_nat take_bit_nat_eq_self)
  then show False using n by simp
qed

lemma hexs_nonzero: "0 \<notin> set (hexs n)"
proof (induction n rule: hexs.induct)
  case (1 n)
  have "hexdig k \<noteq> 0" if "k < 16" for k using that of_nat_u8_nonzero[of "48 + k"] of_nat_u8_nonzero[of "87 + k"]
    by (simp only: hexdig_def split: if_splits) auto
  then show ?case using 1 by (cases "n < 16") (auto simp: hexs.simps[of n] dest: sym)
qed

lemma ascii_nonzero: "CHR 0x00 \<notin> set s \<Longrightarrow> 0 \<notin> set (ascii s)"
proof
  assume s: "CHR 0x00 \<notin> set s" "0 \<in> set (ascii s)"
  then obtain c where c: "c \<in> set s" "(of_char c :: u8) = 0" by (auto simp: ascii_def)
  have "of_nat (of_char c) = (of_char c :: u8)" by (simp add: of_nat_of_char)
  moreover have "(of_char c :: nat) < 256" by (rule nat_of_char_less_256)
  ultimately have "(of_char c :: nat) = 0" using c(2) of_nat_u8_nonzero[of "of_char c"] by (metis not_gr_zero)
  moreover have "(of_char CHR 0x00 :: nat) = 0" by simp
  ultimately show False using s(1) c(1) by (metis of_char_eq_iff)
qed

lemma dec_nonzero: "CHR 0x00 \<notin> set (dec n)"
  using dec_digits[of n] by (auto simp: list_all_iff isdigit_def ord_def)

lemma shown_nonzero: "shown b \<noteq> 0"
  by (auto simp: shown_def)

lemma dump_bytes_nonzero:
  assumes "CHR 0x00 \<notin> set text"
  shows "0 \<notin> set (dump_bytes text ptr nohex)"
proof -
  have "0 \<notin> set (dump_head text n)" for n
    using ascii_nonzero[OF assms] ascii_nonzero[OF dec_nonzero[of n]] hexs_nonzero[of n]
    by (auto simp: dump_head_def zero_pad_def ascii_def)
  moreover have "0 \<notin> set (concat (render nohex row))" for row
    using hexs_nonzero shown_nonzero by (auto simp: render_def zero_pad_def ascii_def split: prod.splits if_splits)
  ultimately show ?thesis by (auto simp: dump_bytes_def)
qed

text \<open>The length of full rows in hex.\<close>

lemma length_hexs: "n < 16 ^ Suc k \<Longrightarrow> length (hexs n) \<le> Suc k"
proof (induction k arbitrary: n)
  case (Suc k)
  then show ?case by (cases "n < 16") (simp_all add: hexs.simps[of n] less_mult_imp_div_less)
qed (simp add: hexs.simps)

lemma length_zero_pad: "length s \<le> w \<Longrightarrow> length (zero_pad w s) = w"
  by (simp add: zero_pad_def)

lemma length_full_row:
  assumes "i < 65536" "length l = 16"
  shows "length (concat (render False (i, l, xs))) = 71"
proof -
  have i: "length (zero_pad 4 (hexs i)) = 4" using length_hexs[of i 3] assms(1) by (intro length_zero_pad) simp
  have h: "length (zero_pad 2 (hexs (unat (b :: u8)))) = 2" for b
    using length_hexs[of "unat b" 1] unsigned_less[of b, where 'a = nat] by (intro length_zero_pad) simp
  have "length (concat (map (\<lambda>c. if c < length l then zero_pad 2 (hexs (unat (l ! c))) @ [32] else [32, 32, 32]) [0..<16])) = 48"
    using h by (simp add: length_concat assms(2) comp_def upt_rec)
  moreover have "length (concat (map (\<lambda>b. [shown b]) l)) = 16" by (simp add: length_concat assms(2) comp_def)
  ultimately show ?thesis using i by (simp add: render_def ascii_def)
qed

lemma length_full_rows:
  "length xs = 16 * n \<Longrightarrow> i + 16 * n \<le> 65536 \<Longrightarrow>
   length (concat (concat (map (render False) (rows False i xs)))) = 71 * n"
proof (induction n arbitrary: i xs)
  case (Suc n)
  have row: "row_of False xs = (take 16 xs, drop 16 xs)" by (simp add: row_of_def width_of_def)
  have "xs \<noteq> []" using Suc.prems(1) by auto
  then have "rows False i xs = (i, take 16 xs, xs) # rows False (i + 16) (drop 16 xs)"
    using row Suc.prems(1) by (simp add: rows.simps[of False i])
  moreover have "length (concat (render False (i, take 16 xs, xs))) = 71"
    using Suc.prems by (intro length_full_row) simp_all
  moreover have "length (concat (concat (map (render False) (rows False (i + 16) (drop 16 xs))))) = 71 * n"
    using Suc.prems by (intro Suc.IH) simp_all
  ultimately show ?case by simp
qed (simp add: rows.simps)

lemma length_dec_912: "length (dec 912) = 3"
  by (simp add: dec.simps)

lemma ssl_overflow_length:
  assumes "length data = 912"
  shows "length (dump_bytes ''<= Recv SSL data'' data False) = 4096"
proof -
  have "length (zero_pad 10 (ascii (dec 912))) = 10" using length_dec_912 by (intro length_zero_pad) (simp add: ascii_def)
  moreover have "length (zero_pad 8 (hexs 912)) = 8" using length_hexs[of 912 7] by (intro length_zero_pad) simp
  moreover have "length (concat (concat (map (render False) (rows False 0 data)))) = 4047"
    using length_full_rows[of data 57 0] assms by simp
  ultimately show ?thesis by (simp add: dump_bytes_def dump_head_def assms)
qed

lemma info_text_nonzero: "info_text ty = Some text \<Longrightarrow> CHR 0x00 \<notin> set text"
  by (cases ty) auto

lemma takeWhile_nonzero: "0 \<notin> set bs \<Longrightarrow> takeWhile (\<lambda>c. c \<noteq> (0 :: u8)) bs = bs"
  by (induction bs) auto

lemma trace_short:
  assumes "length data < 2 ^ 63" "info_text ty = Some text" "length (dump_bytes text data nohex) < 4096"
  shows "trace ty data nohex = Some (dump_bytes text data nohex, 0)"
  using dump_chunk[OF assms(1), of "text" nohex] assms(2,3)
    takeWhile_nonzero[OF dump_bytes_nonzero[OF info_text_nonzero[OF assms(2)]], of data nohex]
  by (simp add: trace_def)

lemma trace_full:
  assumes "length data < 2 ^ 63" "info_text ty = Some text" "length (dump_bytes text data nohex) = 4096"
  shows "trace ty data nohex = None"
  using dump_chunk[OF assms(1), of "text" nohex] assms(2,3) by (simp add: trace_def)

section \<open>Properties\<close>

text \<open>
  C39: trace_dumps. The dump of a transfer's data ends for any data and is its header and rows, where
  the text of the rows shows every byte in order, less the CRLFs that end lines in the format without
  hex; but only while it is shorter than the first chunk of its buffer: a dump of exactly 4096 bytes,
  such as that of 912 bytes of SSL data, puts its NUL after the end of the memory. And an informational
  text that libcurl did not end with a NUL is read past its end.
\<close>

theorem trace_dumps:
  assumes "length data < 2 ^ 63"
  shows "dump_rows nohex data 0 = Some (concat (map (render nohex) (rows nohex 0 data))) \<and>
    concat (map (\<lambda>(i, l, xs). l) (rows nohex 0 data)) = (if nohex then without_crlf data else data) \<and>
    (info_text ty = Some text \<and> length (dump_bytes text data nohex) < 4096 \<longrightarrow>
      trace ty data nohex = Some (dump_bytes text data nohex, 0)) \<and>
    (info_text ty = Some text \<and> length (dump_bytes text data nohex) = 4096 \<longrightarrow> trace ty data nohex = None) \<and>
    (length data = 912 \<longrightarrow> trace SSL_DATA_IN data False = None) \<and>
    (0 \<notin> set data \<longrightarrow> trace INFO_TEXT data nohex = None)"
  using dump_rows_spec[OF assms, of nohex 0] rows_show[of nohex 0 data] trace_short[OF assms, of ty "text" nohex]
    trace_full[OF assms, of ty "text" nohex] trace_full[OF assms, of SSL_DATA_IN "''<= Recv SSL data''" False]
    ssl_overflow_length[of data]
  by (intro conjI impI) (simp_all add: trace_def[of INFO_TEXT])

theorem trace_dumps_witness:
  "trace SSL_DATA_IN (replicate 912 7) False = None \<and> trace INFO_TEXT [72, 105] True = None \<and>
   concat (map (\<lambda>(i, l, xs). l) (rows True 0 [72, 13, 10, 105])) = [72, 105]"
  using trace_dumps[of "replicate 912 7" False SSL_DATA_IN] trace_dumps[of "[72, 105]" True]
    trace_dumps[of "[72, 13, 10, 105]" True] by simp

end
