(* ===== verification/BufferText.thy ===== *)
theory BufferText
  imports Buffer XFile Trace
begin

text \<open>
  The rest of \<open>IOBuffer\<close> (\<open>xutil.cc\<close>): a formatted string and a file put into the buffer, its getters,
  and the hex dump \<open>to_string\<close>, which is checked against its rows.
\<close>

section \<open>Putting text and files in\<close>

text \<open>
  \<open>read_from_string\<close> with a format. What \<open>vsnprintf\<close> formats is an argument (\<open>None\<close>: it fails); of it
  \<open>2 * MaxLine - 2\<close> characters and a NUL fit, and what is above them on the stack is \<open>stack\<close>, as far
  as it may be read.
\<close>

abbreviation (input) FORMAT_ROOM :: nat where "FORMAT_ROOM \<equiv> 8196"

definition read_from_format :: "u8 list option \<Rightarrow> u8 list \<Rightarrow> IOBuffer \<Rightarrow> IOBuffer option" where
  "read_from_format formatted stack b =
     (case formatted of
        None \<Rightarrow> None
      | Some s \<Rightarrow> do {
          let buf = take (FORMAT_ROOM - 2) s @ [0] @ stack;
          bs \<leftarrow> rdn buf 0 (length s);
          read_from_buffer b bs })"

definition read_from_file :: "fs \<Rightarrow> IOBuffer \<Rightarrow> string \<Rightarrow> string \<Rightarrow> (IOBuffer \<times> fs) option" where
  "read_from_file fs b path mode = do {
     (ok, f, fs) \<leftarrow> file_open fs new_File path (Some mode);
     if \<not> ok then Some (b, snd (file_close fs f))
     else do {
       b \<leftarrow> ensure_size b (word_of_int (f_filesz f));
       let m = (case io_buffer b of None \<Rightarrow> [] | Some m \<Rightarrow> m);
       (_, dst, f) \<leftarrow> read_buffer f (drop (unat (io_published b)) m) (nat (f_filesz f));
       let b = (case io_buffer b of None \<Rightarrow> b
                | Some m \<Rightarrow> b\<lparr>io_buffer := Some (take (unat (io_published b)) m @ dst)\<rparr>);
       Some (b\<lparr>io_published := io_published b + word_of_int (f_filesz f)\<rparr>, snd (file_close fs f)) } }"

definition get_min_chunk_size :: "IOBuffer \<Rightarrow> u32" where
  "get_min_chunk_size b = io_min_chunk_size b"

definition get_current_write_position :: "IOBuffer \<Rightarrow> u32" where
  "get_current_write_position b = io_published b"

definition get_pointer :: "IOBuffer \<Rightarrow> mem option" where
  "get_pointer b = io_buffer b"

section \<open>The hex dump\<close>

definition allowed_characters :: string where
  "allowed_characters =
     '' 1234567890-=qwertyuiop[]asdfghjkl;'' @ [CHR 0x27, CHR 0x5C, CHR 0x60] @ ''zxcvbnm'' @
     '',./!@#$%^&*()_+QWERTYUIOP{}ASDFGHJKL:'' @ [CHR 0x22] @ ''|~ZXCVBNM<>?''"

definition visible :: "u8 \<Rightarrow> u8" where
  "visible c = (if c \<in> set (ascii allowed_characters) then c else 46)"

record dump_state =
  ds_ss :: "u8 list"
  ds_address :: "u8 list"
  ds_part1 :: "u8 list"
  ds_part2 :: "u8 list"
  ds_hr :: "u8 list"

definition emit :: "dump_state \<Rightarrow> u8 list" where
  "emit s = ds_ss s @ ds_address s @ [32, 32] @ ds_part1 s @ [32] @ ds_part2 s @ [32] @ ds_hr s @ [10]"

definition hex_byte :: "u8 \<Rightarrow> u8 list" where
  "hex_byte c = zero_pad 2 (hexs (unat c)) @ [32]"

fun string_loop :: "mem \<Rightarrow> nat \<Rightarrow> nat \<Rightarrow> dump_state \<Rightarrow> dump_state option" where
  "string_loop m i 0 s = Some s"
| "string_loop m i (Suc n) s = do {
     let s = (if i mod 16 = 0 \<and> i > 0 then s\<lparr>ds_ss := emit s, ds_part1 := [], ds_part2 := [], ds_hr := []\<rparr> else s);
     c \<leftarrow> rd8 m i;
     let s = s\<lparr>ds_address := zero_pad 8 (ascii (dec (i - i mod 16)))\<rparr>;
     let s = (if i mod 16 < 8 then s\<lparr>ds_part1 := ds_part1 s @ hex_byte c\<rparr> else s\<lparr>ds_part2 := ds_part2 s @ hex_byte c\<rparr>);
     string_loop m (i + 1) n (s\<lparr>ds_hr := ds_hr s @ [visible c]\<rparr>) }"

text \<open>\<open>string(n - s.size(), ' ')\<close>; a negative count would throw.\<close>

definition pad_right :: "nat \<Rightarrow> u8 list \<Rightarrow> u8 list option" where
  "pad_right n s = (if length s \<le> n then Some (s @ replicate (n - length s) 32) else None)"

definition dump_header :: "IOBuffer \<Rightarrow> u8 list \<Rightarrow> u8 list" where
  "dump_header b p =
     ascii ''size: '' @ ascii (dec (unat (io_size b))) @ [10] @
     ascii ''published: '' @ ascii (dec (unat (io_published b))) @ [10] @
     ascii ''consumed: '' @ ascii (dec (unat (io_consumed b))) @ [10] @ ascii ''Address: '' @ p @ [10]"

text \<open>The text of the address, as \<open>%p\<close> prints it, is an argument.\<close>

definition to_string :: "u8 list \<Rightarrow> IOBuffer \<Rightarrow> u32 \<Rightarrow> u32 \<Rightarrow> u8 list option" where
  "to_string p b start_index limit = do {
     let limit = (if limit = 0 then io_published b else limit);
     s \<leftarrow> string_loop (case io_buffer b of None \<Rightarrow> [] | Some m \<Rightarrow> m) (unat start_index) (unat limit - unat start_index)
       \<lparr>ds_ss = dump_header b p, ds_address = [], ds_part1 = [], ds_part2 = [], ds_hr = []\<rparr>;
     if ds_part1 s \<noteq> [] then do {
       p1 \<leftarrow> pad_right 24 (ds_part1 s);
       p2 \<leftarrow> pad_right 24 (ds_part2 s);
       h \<leftarrow> pad_right 16 (ds_hr s);
       Some (emit (s\<lparr>ds_part1 := p1, ds_part2 := p2, ds_hr := h\<rparr>)) }
     else Some (ds_ss s) }"

definition dump_buffer :: "u8 list \<Rightarrow> u8 list \<Rightarrow> u8 list option" where
  "dump_buffer p bs = do { tmp \<leftarrow> read_from_buffer new_IOBuffer bs; to_string p tmp 0 0 }"

section \<open>The rows of the dump\<close>

definition hex_part :: "u8 list \<Rightarrow> u8 list" where
  "hex_part bs = concat (map hex_byte bs)"

definition spaced :: "nat \<Rightarrow> u8 list \<Rightarrow> u8 list" where
  "spaced n s = s @ replicate (n - length s) 32"

definition dump_row :: "nat \<Rightarrow> u8 list \<Rightarrow> u8 list" where
  "dump_row i bs = zero_pad 8 (ascii (dec i)) @ [32, 32] @ spaced 24 (hex_part (take 8 bs)) @ [32] @
     spaced 24 (hex_part (drop 8 bs)) @ [32] @ spaced 16 (map visible bs) @ [10]"

definition dump_lines :: "nat \<Rightarrow> u8 list \<Rightarrow> u8 list" where
  "dump_lines k bs = concat (map (\<lambda>j. dump_row (16 * j) (take 16 (drop (16 * j) bs))) [0..<k])"

lemma length_hex_byte [simp]: "length (hex_byte c) = 3"
  using length_hexs[of "unat c" 1] unsigned_less[of c, where 'a = nat] by (simp add: hex_byte_def length_zero_pad)

lemma length_hex_part: "length (hex_part bs) = 3 * length bs"
  by (induction bs) (simp_all add: hex_part_def)

lemma hex_part_snoc: "hex_part (bs @ [c]) = hex_part bs @ hex_byte c"
  by (simp add: hex_part_def)

lemma dump_lines_Suc: "dump_lines (Suc k) bs = dump_lines k bs @ dump_row (16 * k) (take 16 (drop (16 * k) bs))"
  by (simp add: dump_lines_def)

text \<open>The state in the middle of row \<open>k\<close>, of which the bytes \<open>cur\<close> are done.\<close>

definition row_state :: "u8 list \<Rightarrow> u8 list \<Rightarrow> nat \<Rightarrow> u8 list \<Rightarrow> dump_state" where
  "row_state h m k cur = \<lparr>ds_ss = h @ dump_lines k m, ds_address = zero_pad 8 (ascii (dec (16 * k))),
     ds_part1 = hex_part (take 8 cur), ds_part2 = hex_part (drop 8 cur), ds_hr = map visible cur\<rparr>"

lemma emit_full_row:
  assumes "length cur = 16"
  shows "emit (row_state h m k cur) = h @ dump_lines k m @ dump_row (16 * k) cur"
proof -
  have "spaced 24 (hex_part (take 8 cur)) = hex_part (take 8 cur)" "spaced 24 (hex_part (drop 8 cur)) = hex_part (drop 8 cur)"
    "spaced 16 (map visible cur) = map visible cur"
    using assms by (simp_all add: spaced_def length_hex_part)
  then show ?thesis by (simp add: emit_def row_state_def dump_row_def)
qed

lemma string_loop_row:
  "n + (16 * k + length cur) \<le> length m \<Longrightarrow> cur = take (length cur) (drop (16 * k) m) \<Longrightarrow> 0 < length cur \<Longrightarrow> length cur \<le> 16 \<Longrightarrow>
   \<exists>k' cur'. string_loop m (16 * k + length cur) n (row_state h m k cur) = Some (row_state h m k' cur') \<and>
     cur' = take (length cur') (drop (16 * k') m) \<and> 0 < length cur' \<and> length cur' \<le> 16 \<and>
     16 * k' + length cur' = n + (16 * k + length cur)"
proof (induction n arbitrary: k cur)
  case (Suc n)
  let ?i = "16 * k + length cur"
  have c: "rd8 m ?i = Some (m ! ?i)" using Suc.prems(1) by (simp add: rd8_def)
  show ?case
  proof (cases "length cur = 16")
    case True
    have cur: "take 16 (drop (16 * k) m) = cur" using Suc.prems(2) True by simp
    have i: "?i = 16 * Suc k" using True by simp
    have c': "rd8 m (16 * Suc k) = Some (m ! (16 * Suc k))" using c unfolding i .
    let ?x = "m ! (16 * Suc k)"
    have step: "string_loop m (16 * Suc k) (Suc n) (row_state h m k cur) =
        string_loop m (16 * Suc k + length [?x]) n (row_state h m (Suc k) [?x])"
      using c' emit_full_row[OF True, of h m k] cur
      by (simp add: Let_def row_state_def dump_lines_Suc hex_part_def)
    have sum: "Suc n + 16 * Suc k = n + (16 * Suc k + length [?x])" by simp
    have first: "[?x] = take (length [?x]) (drop (16 * Suc k) m)"
      using Suc.prems(1) i by (simp add: take_Suc hd_drop_conv_nth)
    have "n + (16 * Suc k + length [?x]) \<le> length m" using Suc.prems(1) unfolding i by simp
    from Suc.IH[OF this first] obtain k' cur'
      where "string_loop m (16 * Suc k + length [?x]) n (row_state h m (Suc k) [?x]) = Some (row_state h m k' cur')"
        "cur' = take (length cur') (drop (16 * k') m)" "0 < length cur'" "length cur' \<le> 16"
        "16 * k' + length cur' = n + (16 * Suc k + length [?x])" by auto
    then have "string_loop m ?i (Suc n) (row_state h m k cur) = Some (row_state h m k' cur')"
        "16 * k' + length cur' = Suc n + ?i"
      unfolding i step sum by blast+
    then show ?thesis using \<open>cur' = _\<close> \<open>0 < length cur'\<close> \<open>length cur' \<le> 16\<close> by blast
  next
    case False
    let ?cur = "cur @ [m ! ?i]"
    have l: "length cur < 16" using False Suc.prems(4) by simp
    have mod: "?i mod 16 = length cur" using l by simp
    have "string_loop m ?i (Suc n) (row_state h m k cur) = string_loop m (16 * k + length ?cur) n (row_state h m k ?cur)"
    proof (cases "length cur < 8")
      case True
      then show ?thesis using c mod Suc.prems(3)
        by (simp add: Let_def row_state_def hex_part_snoc)
    next
      case False
      then show ?thesis using c mod Suc.prems(3)
        by (simp add: Let_def row_state_def hex_part_snoc)
    qed
    moreover have "?cur = take (length ?cur) (drop (16 * k) m)"
      using Suc.prems(1,2) by (simp add: take_Suc_conv_app_nth)
    ultimately show ?thesis using Suc.IH[of k ?cur] Suc.prems(1) l by simp
  qed
qed auto

lemma string_loop_take:
  "i + n \<le> l \<Longrightarrow> l \<le> length m \<Longrightarrow> string_loop (take l m) i n s = string_loop m i n s"
  by (induction m i n s rule: string_loop.induct) (simp_all add: rd8_def Let_def)

text \<open>From the first byte on.\<close>

lemma string_loop_start:
  assumes "0 < n" "n \<le> length m"
  shows "\<exists>k cur. string_loop m 0 n \<lparr>ds_ss = h, ds_address = [], ds_part1 = [], ds_part2 = [], ds_hr = []\<rparr> =
      Some (row_state h m k cur) \<and> cur = take (length cur) (drop (16 * k) m) \<and> 0 < length cur \<and> length cur \<le> 16 \<and>
      16 * k + length cur = n"
proof -
  obtain r where n: "n = Suc r" using assms(1) by (cases n) auto
  have m: "m \<noteq> []" using assms by auto
  have "string_loop m 0 n \<lparr>ds_ss = h, ds_address = [], ds_part1 = [], ds_part2 = [], ds_hr = []\<rparr> =
      string_loop m (16 * 0 + length [m ! 0]) r (row_state h m 0 [m ! 0])"
    using m n by (simp add: Let_def rd8_def row_state_def hex_part_def dump_lines_def)
  then show ?thesis using string_loop_row[of r 0 "[m ! 0]" m h] assms n m by (simp add: take_Suc hd_conv_nth)
qed

lemma pad_right_spaced: "length s \<le> n \<Longrightarrow> pad_right n s = Some (spaced n s)"
  by (simp add: pad_right_def spaced_def)

text \<open>Bytes of the second half of one row: nothing is emitted.\<close>

lemma string_loop_second_half:
  "i + n \<le> length m \<Longrightarrow> 8 \<le> i mod 16 \<Longrightarrow> i mod 16 + n \<le> 16 \<Longrightarrow>
   \<exists>s'. string_loop m i n s = Some s' \<and> ds_ss s' = ds_ss s \<and> ds_part1 s' = ds_part1 s"
proof (induction n arbitrary: i s)
  case (Suc n)
  let ?s = "s\<lparr>ds_address := zero_pad 8 (ascii (dec (i - i mod 16))), ds_part2 := ds_part2 s @ hex_byte (m ! i),
    ds_hr := ds_hr s @ [visible (m ! i)]\<rparr>"
  have step: "string_loop m i (Suc n) s = string_loop m (i + 1) n ?s"
    using Suc.prems by (simp add: Let_def rd8_def)
  show ?case
  proof (cases "n = 0")
    case True
    then show ?thesis using step by simp
  next
    case False
    have "8 \<le> (i + 1) mod 16" "(i + 1) mod 16 + n \<le> 16" using Suc.prems(2,3) False by (simp_all add: mod_Suc)
    then show ?thesis using Suc.IH[of "i + 1" ?s] Suc.prems(1) step by simp
  qed
qed simp

section \<open>Properties\<close>

text \<open>
  C40: hexdump_rows. \<open>to_string\<close> of a buffer from its first byte prints, after the header,
  one row for each 16 bytes: their offset, the bytes in hex in two groups of eight, and their
  characters, padded so that the columns line up. A range that lies in the second half of one row,
  though, is not printed at all.
\<close>

theorem hexdump_rows:
  assumes m: "io_buffer b = Some m" and l: "l = (if limit = 0 then io_published b else limit)" "unat l \<le> length m" "0 < unat l"
  shows "to_string p b 0 limit = Some (dump_header b p @ dump_lines ((unat l + 15) div 16) (take (unat l) m)) \<and>
    (8 \<le> unat start mod 16 \<and> unat start < unat l \<and> unat l \<le> 16 * (unat start div 16 + 1) \<longrightarrow>
      to_string p b start limit = Some (dump_header b p))"
proof (intro conjI impI)
  let ?n = "unat l" and ?h = "dump_header b p" and ?m = "take (unat l) m"
  let ?s = "\<lparr>ds_ss = ?h, ds_address = [], ds_part1 = [], ds_part2 = [], ds_hr = []\<rparr>"
  have lm: "?n \<le> length ?m" using l(2) by simp
  obtain k cur where loop: "string_loop ?m 0 ?n ?s = Some (row_state ?h ?m k cur)"
    and cur: "cur = take (length cur) (drop (16 * k) ?m)" "0 < length cur" "length cur \<le> 16" "16 * k + length cur = ?n"
    using string_loop_start[OF l(3) lm, of ?h] by blast
  have m_loop: "string_loop m 0 ?n ?s = Some (row_state ?h ?m k cur)" using loop string_loop_take[of 0 ?n ?n m ?s] l(2) by (simp only: add_0 order_refl simp_thms)
  have k: "(?n + 15) div 16 = Suc k" unfolding cur(4)[symmetric] by (rule div_nat_eqI) (use cur(2,3) in \<open>auto simp: Suc_le_eq\<close>)
  have "length (drop (16 * k) ?m) = length cur" using cur(4) l(2) by simp
  then have "drop (16 * k) ?m = cur" using cur(1) by (metis order_refl take_all)
  then have "take 16 (drop (16 * k) ?m) = cur" using cur(3) by simp
  then have rows: "dump_lines (Suc k) ?m = dump_lines k ?m @ dump_row (16 * k) cur" by (simp add: dump_lines_Suc)
  have "length (hex_part (take 8 cur)) \<noteq> 0" unfolding length_hex_part using cur(2) by simp
  then have "hex_part (take 8 cur) \<noteq> []" by auto
  moreover have "pad_right 24 (hex_part (take 8 cur)) = Some (spaced 24 (hex_part (take 8 cur)))"
    "pad_right 24 (hex_part (drop 8 cur)) = Some (spaced 24 (hex_part (drop 8 cur)))"
    "pad_right 16 (map visible cur) = Some (spaced 16 (map visible cur))"
    using cur(3) by (simp_all add: pad_right_spaced length_hex_part)
  ultimately show "to_string p b 0 limit = Some (?h @ dump_lines ((?n + 15) div 16) ?m)"
    using m m_loop l(1) unfolding k rows
    by (simp add: to_string_def Let_def row_state_def emit_def dump_row_def)
next
  assume a: "8 \<le> unat start mod 16 \<and> unat start < unat l \<and> unat l \<le> 16 * (unat start div 16 + 1)"
  let ?s = "\<lparr>ds_ss = dump_header b p, ds_address = [], ds_part1 = [], ds_part2 = [], ds_hr = []\<rparr>"
  have ar: "r + (n - i) \<le> 16" if "i < n" "n \<le> 16 * (q + 1)" "q * 16 + r = i" for r n i q :: nat
  proof -
    have "r < 16" "n - i \<le> 16 - r" using that by simp_all
    then show ?thesis by simp
  qed
  have "unat start mod 16 + (unat l - unat start) \<le> 16"
    by (rule ar[OF _ _ div_mult_mod_eq]) (use a in simp_all)
  then obtain s' where "string_loop m (unat start) (unat l - unat start) ?s = Some s'" "ds_ss s' = dump_header b p" "ds_part1 s' = []"
    using string_loop_second_half[of "unat start" "unat l - unat start" m ?s] a l(2) by auto
  then show "to_string p b start limit = Some (dump_header b p)" using m l(1) by (simp add: to_string_def Let_def)
qed

definition sample_buffer :: IOBuffer where
  "sample_buffer = \<lparr>io_buffer = Some (replicate 32 0x41), io_size = 32, io_published = 12, io_consumed = 0, io_min_chunk_size = 4096\<rparr>"

theorem hexdump_rows_witness:
  "to_string [] sample_buffer 0 0 = Some (dump_header sample_buffer [] @ dump_row 0 (replicate 12 0x41)) \<and>
   to_string [] sample_buffer 8 0 = Some (dump_header sample_buffer [])"
proof -
  have b: "io_buffer sample_buffer = Some (replicate 32 0x41)" "(12 :: u32) = (if (0 :: u32) = 0 then io_published sample_buffer else 0)"
    by (simp_all add: sample_buffer_def)
  have l: "unat (12 :: u32) \<le> length (replicate 32 (0x41 :: u8))" "0 < unat (12 :: u32)" by simp_all
  have row: "dump_lines 1 (replicate 12 0x41) = dump_row 0 (replicate 12 0x41)" by (simp add: dump_lines_def)
  have n: "(unat (12 :: u32) + 15) div 16 = 1" "take (unat (12 :: u32)) (replicate 32 (0x41 :: u8)) = replicate 12 0x41" by simp_all
  show ?thesis using hexdump_rows[OF b l, of "[]" 8] unfolding n row by simp
qed

text \<open>What is read of a string cut to \<open>r\<close> characters.\<close>

lemma read_cut:
  assumes "r' = r + 1"
  shows "(length s \<le> r \<longrightarrow> Option.bind (rdn (take r s @ 0 # stack) 0 (length s)) f = f s) \<and>
    (r < length s \<and> length s \<le> r' + length stack \<longrightarrow>
      Option.bind (rdn (take r s @ 0 # stack) 0 (length s)) f = f (take r s @ 0 # take (length s - r') stack)) \<and>
    (r' + length stack < length s \<longrightarrow> Option.bind (rdn (take r s @ 0 # stack) 0 (length s)) f = None)"
proof -
  let ?X = "take r s @ 0 # stack"
  have rd: "rdn ?X 0 (length s) = (if length s \<le> length ?X then Some (take (length s) ?X) else None)"
    by (simp only: rdn_def add_0 drop_0)
  have len: "length ?X = min r (length s) + 1 + length stack" by simp
  have "take (length s) ?X = take r s @ 0 # take (length s - r') stack" if longer: "r < length s"
  proof -
    obtain k where "length s = r + Suc k" using less_imp_Suc_add[OF longer] by auto
    then show ?thesis by (simp add: assms)
  qed
  moreover have "take (length s) ?X = s" if "length s \<le> r" using that by simp
  ultimately show ?thesis unfolding rd len assms by auto
qed

text \<open>
  Format overread: A formatted string that fits is put into the buffer as it is; of a longer one the
  buffer gets the characters that fit, a NUL and what lies behind them on the stack, and where that may
  not be read, or the formatting fails, the read is out of bounds.
\<close>

theorem format_overread:
  "(length s \<le> FORMAT_ROOM - 2 \<longrightarrow> read_from_format (Some s) stack b = read_from_buffer b s) \<and>
   (FORMAT_ROOM - 2 < length s \<and> length s \<le> FORMAT_ROOM - 1 + length stack \<longrightarrow>
     read_from_format (Some s) stack b =
       read_from_buffer b (take (FORMAT_ROOM - 2) s @ 0 # take (length s - (FORMAT_ROOM - 1)) stack)) \<and>
   (FORMAT_ROOM - 1 + length stack < length s \<longrightarrow> read_from_format (Some s) stack b = None) \<and>
   read_from_format None stack b = None"
proof -
  have r: "FORMAT_ROOM - 1 = FORMAT_ROOM - 2 + 1" by simp
  have "read_from_format (Some s) stack b =
      Option.bind (rdn (take (FORMAT_ROOM - 2) s @ 0 # stack) 0 (length s)) (read_from_buffer b)"
    unfolding read_from_format_def Let_def append_Cons append_Nil option.case by (rule refl)
  moreover have "read_from_format None stack b = None" by (simp add: read_from_format_def)
  ultimately show ?thesis using read_cut[OF r, of s stack "read_from_buffer b"] by (simp only: simp_thms conj_assoc)
qed

theorem format_overread_witness:
  "read_from_format (Some (replicate 9000 65)) [] new_IOBuffer = None \<and>
   read_from_format (Some [72, 105]) [] new_IOBuffer = read_from_buffer new_IOBuffer [72, 105]"
  using format_overread[of "replicate 9000 65" "[]" new_IOBuffer] format_overread[of "[72, 105]" "[]" new_IOBuffer] by simp

text \<open>An existing file, opened and read into \<open>dst\<close>.\<close>

definition opened :: "string \<Rightarrow> u8 list \<Rightarrow> nat \<Rightarrow> File" where
  "opened path d pos = \<lparr>f_fp = Some \<lparr>st_data = d, st_pos = pos, st_eof = False, st_err = False, st_read = True,
     st_write = False, st_append = False\<rparr>, f_filesz = int (length d), f_path = c_str path\<rparr>"

lemma file_open_r:
  "path \<noteq> [] \<Longrightarrow> file_open fs new_File path (Some ''r'') =
    (case fs (c_str path) of None \<Rightarrow> Some (False, new_File, fs) | Some d \<Rightarrow> Some (True, opened path d 0, fs))"
  by (simp add: file_open_def file_close_def new_File_def fopen_def Let_def seek_end_def seek_to_def fseek_def
      cursor_def seek_begin_def opened_def split: option.splits)

lemma read_opened:
  "length d \<le> length dst \<Longrightarrow> read_buffer (opened path d 0) dst (length d) = Some (True, splice dst 0 d, opened path d (length d))"
  by (simp add: read_buffer_def opened_def fread_def splice_def)

lemma opened_size: "f_filesz (opened path d n) = int (length d)"
  by (simp add: opened_def)

lemma close_opened: "snd (file_close fs (opened path d n)) = fs" "snd (file_close fs new_File) = fs"
  by (simp_all add: file_close_def opened_def new_File_def)

text \<open>
  File buffered: Reading an existing file puts its bytes behind those the buffer holds; a file that
  cannot be opened leaves the buffer as it was.
\<close>

theorem file_buffered:
  assumes "buffer_ok b" "buffer_used b + length d \<le> buffer_limit" "path \<noteq> []"
  shows "(fs (c_str path) = Some d \<longrightarrow> (\<exists>b'. read_from_file fs b path ''r'' = Some (b', fs) \<and> buffer_ok b' \<and>
      buffer_content b' = buffer_content b @ d)) \<and>
    (fs (c_str path) = None \<longrightarrow> read_from_file fs b path ''r'' = Some (b, fs))"
proof (intro conjI impI)
  assume none: "fs (c_str path) = None"
  then show "read_from_file fs b path ''r'' = Some (b, fs)"
    by (simp add: read_from_file_def file_open_r[OF assms(3)] close_opened)
next
  assume found: "fs (c_str path) = Some d"
  let ?n = "of_nat (length d) :: u32"
  have n: "unat ?n = length d" using assms(2) by (intro unat_of_len) (simp add: buffer_limit_def)
  obtain c where c: "ensure_size b ?n = Some c" "buffer_ok c" "buffer_content c = buffer_content b" "buffer_used c \<le> buffer_used b"
    "unat (io_published c) + length d \<le> unat (io_size c)"
    using ensure_size_ok[of b ?n] assms(1,2) unfolding n by auto
  note D = buffer_okD[OF c(2)]
  let ?p = "unat (io_published c)" and ?q = "unat (io_consumed c)"
  have p: "unat (io_published c + ?n) = ?p + length d"
    using unat_add_u32[of "io_published c" ?n] c(4) assms(2) by (simp add: n buffer_used_def buffer_limit_def)
  obtain m where m: "(case io_buffer c of None \<Rightarrow> [] | Some m \<Rightarrow> m) = m" "length m = unat (io_size c)"
    using D(3,4) by (cases "io_buffer c") auto
  let ?b = "(case io_buffer c of None \<Rightarrow> c | Some m \<Rightarrow> c\<lparr>io_buffer := Some (take ?p m @ splice (drop ?p m) 0 d)\<rparr>)
    \<lparr>io_published := io_published c + ?n\<rparr>"
  have room: "length d \<le> length (drop ?p m)" using c(5) m(2) by simp
  have res: "read_from_file fs b path ''r'' = Some (?b, fs)"
    using found c(1) m(1) read_opened[OF room, of path] close_opened
    by (simp add: read_from_file_def file_open_r[OF assms(3)] opened_size split: option.splits)
  have "buffer_ok ?b \<and> buffer_content ?b = buffer_content c @ d"
  proof (cases "io_buffer c")
    case None
    then have "d = []" using D(4) c(5) by simp
    then show ?thesis using None c(2) by simp
  next
    case (Some m')
    then have m': "m' = m" using m(1) by simp
    have "take (?p + length d - ?q) (drop ?q (take ?p m @ splice (drop ?p m) 0 d)) = take (?p - ?q) (drop ?q m) @ d"
      using D(1) c(5) m(2) by (simp add: splice_def drop_take)
    then show ?thesis using Some m' c(2,5) p m(2) D(1)
      by (simp add: buffer_ok_def buffer_content_def word_le_nat_alt splice_def)
  qed
  then show "\<exists>b'. read_from_file fs b path ''r'' = Some (b', fs) \<and> buffer_ok b' \<and> buffer_content b' = buffer_content b @ d"
    using res c(3) by auto
qed

theorem file_buffered_witness:
  "\<exists>b. read_from_file [''f'' \<mapsto> [1, 2]] new_IOBuffer ''f'' ''r'' = Some (b, [''f'' \<mapsto> [1, 2]]) \<and> buffer_content b = [1, 2]"
proof -
  have hyps: "buffer_ok new_IOBuffer" "buffer_used new_IOBuffer + length [1, 2 :: u8] \<le> buffer_limit" "''f'' \<noteq> []"
    by (simp_all add: buffer_ok_def new_IOBuffer_def buffer_used_def buffer_limit_def)
  have "[''f'' \<mapsto> [1, 2 :: u8]] (c_str ''f'') = Some [1, 2]" by (simp add: c_str_def)
  moreover have "buffer_content new_IOBuffer = []" by (simp add: buffer_content_def new_IOBuffer_def)
  ultimately show ?thesis using file_buffered[OF hyps, of "[''f'' \<mapsto> [1, 2]]"] by auto
qed

end
