(* ===== verification/Uri.thy ===== *)
theory Uri
  imports Text
begin

text \<open>
  \<open>xuri\<close>: parsing a URI in place, percent coding, and the options. The parser copies its argument
  into one buffer, writes NULs into it and keeps pointers to the parts; a pointer is an index into
  the buffer and a part is the C string there. The host is a copy of its own.
\<close>

section \<open>The buffer\<close>

definition cstr_at :: "string \<Rightarrow> nat \<Rightarrow> string" where
  "cstr_at buf p = c_str (drop p buf)"

definition strchr_at :: "string \<Rightarrow> nat \<Rightarrow> char \<Rightarrow> nat option" where
  "strchr_at buf p c = map_option ((+) p) (strchr (cstr_at buf p) c)"

fun rfind_char :: "char \<Rightarrow> string \<Rightarrow> nat option" where
  "rfind_char c [] = None"
| "rfind_char c (x # xs) = (case rfind_char c xs of Some n \<Rightarrow> Some (Suc n)
     | None \<Rightarrow> if x = c then Some 0 else None)"

definition strrchr_at :: "string \<Rightarrow> nat \<Rightarrow> char \<Rightarrow> nat option" where
  "strrchr_at buf p c = map_option ((+) p) (rfind_char c (cstr_at buf p))"

section \<open>Percent coding\<close>

definition hex_digit :: "char \<Rightarrow> nat option" where
  "hex_digit c =
     (if isdigit c then Some (ord c - 48)
      else if 97 \<le> ord c \<and> ord c \<le> 102 then Some (ord c - 87)
      else if 65 \<le> ord c \<and> ord c \<le> 70 then Some (ord c - 55)
      else None)"

text \<open>
  \<open>strtoul(s, NULL, 16)\<close>: white space, a sign (a negative number is negated in 64 bits), an
  optional \<open>0x\<close> where a digit follows it, and the digits, none of them counting as zero.
\<close>

definition strtoul16 :: "string \<Rightarrow> nat" where
  "strtoul16 s =
     (let t = dropWhile isspace s;
          neg = (t \<noteq> [] \<and> hd t = CHR ''-'');
          u = (if t \<noteq> [] \<and> (hd t = CHR ''-'' \<or> hd t = CHR ''+'') then tl t else t);
          u = (if length u > 2 \<and> hd u = CHR ''0'' \<and> tolower (u ! 1) = CHR ''x'' \<and> hex_digit (u ! 2) \<noteq> None
               then drop 2 u else u);
          v = min (2 ^ 64 - 1) (foldl (\<lambda>v d. 16 * v + the (hex_digit d)) 0 (takeWhile (\<lambda>c. hex_digit c \<noteq> None) u))
      in if neg then (2 ^ 64 - v) mod 2 ^ 64 else v)"

text \<open>
  The loop of \<open>decode\<close> with the indices \<open>in\<close> and \<open>out\<close>. \<open>False\<close> is a null result, where the text
  ends inside an escape; what was written before stays. \<open>None\<close> is a read past the buffer.
\<close>

function decode_loop :: "string \<Rightarrow> nat \<Rightarrow> nat \<Rightarrow> (bool \<times> string) option" where
  "decode_loop buf inp outp =
     (if inp \<ge> length buf then None
      else if buf ! inp = NUL then Some (True, buf[outp := NUL])
      else if buf ! inp = CHR ''%'' then
        (if inp + 1 \<ge> length buf then None
         else if buf ! (inp + 1) = NUL then Some (False, buf)
         else if inp + 2 \<ge> length buf then None
         else if buf ! (inp + 2) = NUL then Some (False, buf)
         else decode_loop (buf[outp := char_of (strtoul16 [buf ! (inp + 1), buf ! (inp + 2)])]) (inp + 3) (outp + 1))
      else decode_loop (buf[outp := buf ! inp]) (inp + 1) (outp + 1))"
  by pat_completeness auto

termination
  by (relation "measure (\<lambda>(buf, inp, outp). length buf - inp)") auto

declare decode_loop.simps [simp del]

definition decode :: "string \<Rightarrow> nat \<Rightarrow> (bool \<times> string) option" where
  "decode buf p = decode_loop buf p p"

text \<open>A copy of the string, null where decoding fails.\<close>

definition decode_dup :: "string \<Rightarrow> string option option" where
  "decode_dup str = do {
     (ok, buf) \<leftarrow> decode (str @ [NUL]) 0;
     Some (if ok then Some (cstr_at buf 0) else None) }"

definition isurisafe :: "char \<Rightarrow> bool" where
  "isurisafe c \<longleftrightarrow>
     (ord c + 256 - 97) mod 256 < 26 \<or> (ord c + 256 - 65) mod 256 < 26 \<or> (ord c + 256 - 48) mod 256 < 10 \<or>
     strchr ''-._~'' c \<noteq> None"

definition hex_char :: "nat \<Rightarrow> char" where
  "hex_char n = ''0123456789ABCDEF'' ! n"

text \<open>\<open>encode\<close> of the \<open>len\<close> characters of the argument; the new length is that of the result.\<close>

definition encode_char :: "char \<Rightarrow> string" where
  "encode_char c = (if isurisafe c then [c] else [CHR ''%'', hex_char (ord c div 16), hex_char (ord c mod 16)])"

definition encode :: "string \<Rightarrow> string" where
  "encode str = concat (map encode_char str)"

section \<open>Parsing\<close>

record Uri =
  protocol :: "nat option"
  username :: "nat option"
  password :: "nat option"
  host :: "string option"
  port :: "32 word"
  upath :: "nat option"
  uoption :: "nat option"
  ubuffer :: "string option"

definition cleanup :: "Uri \<Rightarrow> Uri" where
  "cleanup u = \<lparr>protocol = None, username = None, password = None, host = None, port = 80,
     upath = None, uoption = None, ubuffer = None\<rparr>"

definition new_Uri :: Uri where
  "new_Uri = \<lparr>protocol = None, username = None, password = None, host = None, port = 80,
     upath = None, uoption = None, ubuffer = None\<rparr>"

definition scheme_char :: "char \<Rightarrow> bool" where
  "scheme_char c \<longleftrightarrow> isupper c \<or> islower c \<or> isdigit c \<or> c \<in> set ''+-.''"

definition idna_to_ascii :: "string \<Rightarrow> string option" where
  "idna_to_ascii idn = (if list_ex (\<lambda>c. ord c \<ge> 128) idn then None else Some idn)"

text \<open>The steps of \<open>parse\<close>, in its order; \<open>cur\<close> is passed on.\<close>

definition parse_protocol :: "Uri \<Rightarrow> string \<Rightarrow> Uri \<times> string \<times> nat" where
  "parse_protocol u buf =
     (let nx = length (takeWhile scheme_char (cstr_at buf 0)) in
      if take 3 (cstr_at buf nx) = ''://'' then (u\<lparr>protocol := Some 0\<rparr>, buf[nx := NUL], nx + 3)
      else (u, buf, 0))"

definition parse_path :: "Uri \<Rightarrow> string \<Rightarrow> nat \<Rightarrow> char \<Rightarrow> Uri \<times> string" where
  "parse_path u buf cur opt_sep =
     (case strchr_at buf cur (CHR ''/'') of
        None \<Rightarrow> (u, buf)
      | Some p \<Rightarrow>
          (let (u, buf) =
             (if opt_sep = NUL then (u, buf)
              else case strchr_at buf p opt_sep of
                None \<Rightarrow> (u, buf)
              | Some q \<Rightarrow> (u\<lparr>uoption := Some (q + 1)\<rparr>, buf[q := NUL]))
           in (u\<lparr>upath := Some p\<rparr>, buf[p := NUL])))"

definition parse_userinfo :: "Uri \<Rightarrow> string \<Rightarrow> nat \<Rightarrow> (Uri \<times> string \<times> nat) option" where
  "parse_userinfo u buf cur =
     (case strrchr_at buf cur (CHR ''@'') of
        None \<Rightarrow> Some (u, buf, cur)
      | Some p \<Rightarrow> do {
          let buf = buf[p := NUL];
          (u, buf) \<leftarrow>
            (case strchr_at buf cur (CHR '':'') of
               None \<Rightarrow> Some (u, buf)
             | Some q \<Rightarrow> do {
                 (ok, buf) \<leftarrow> decode (buf[q := NUL]) (q + 1);
                 Some (u\<lparr>password := Some (q + 1)\<rparr>, buf) });
          (ok, buf) \<leftarrow> decode buf cur;
          Some (u\<lparr>username := Some cur\<rparr>, buf, p + 1) })"

definition parse_host :: "Uri \<Rightarrow> string \<Rightarrow> nat \<Rightarrow> Uri \<times> string" where
  "parse_host u buf cur =
     (let (u, buf, nx) =
        (case (if buf ! cur = CHR ''['' then strrchr_at buf cur (CHR '']'') else None) of
           Some q \<Rightarrow>
             (let buf = buf[q := NUL] in
              (u\<lparr>host := Some (cstr_at buf (cur + 1))\<rparr>, buf,
               if buf ! (q + 1) = CHR '':'' then Some (q + 2) else None))
         | None \<Rightarrow>
             (case strchr_at buf cur (CHR '':'') of
                Some q \<Rightarrow> (let buf = buf[q := NUL] in (u\<lparr>host := idna_to_ascii (cstr_at buf cur)\<rparr>, buf, Some (q + 1)))
              | None \<Rightarrow> (u\<lparr>host := idna_to_ascii (cstr_at buf cur)\<rparr>, buf, None)))
      in (case nx of None \<Rightarrow> u | Some q \<Rightarrow> u\<lparr>port := word_of_int (atoi (cstr_at buf q))\<rparr>, buf))"

definition parse :: "Uri \<Rightarrow> string option \<Rightarrow> char \<Rightarrow> (int \<times> Uri) option" where
  "parse u str opt_sep =
     (case str of
        None \<Rightarrow> Some (- 1, u)
      | Some s \<Rightarrow> do {
          let u = cleanup u;
          let buf = s @ [NUL];
          let (u, buf, cur) = parse_protocol u buf;
          let (u, buf) = parse_path u buf cur opt_sep;
          (u, buf, cur) \<leftarrow> parse_userinfo u buf cur;
          let (u, buf) = parse_host u buf cur;
          let buf = (case upath u of None \<Rightarrow> buf | Some p \<Rightarrow> buf[p := CHR ''/'']);
          Some (0, u\<lparr>ubuffer := Some buf\<rparr>) })"

text \<open>The string a pointer of the record shows.\<close>

definition part :: "Uri \<Rightarrow> nat option \<Rightarrow> string option" where
  "part u p = (case (ubuffer u, p) of (Some buf, Some i) \<Rightarrow> Some (cstr_at buf i) | _ \<Rightarrow> None)"

text \<open>\<open>parse_option\<close>; indexing the pieces of a pair past their number is \<open>None\<close>.\<close>

definition add_option :: "(string \<rightharpoonup> string) \<Rightarrow> string \<Rightarrow> (string \<rightharpoonup> string) option" where
  "add_option result kv =
     (let part = split kv ''='' in
      if length part < 2 then None else Some (result(part ! 0 \<mapsto> part ! 1)))"

definition parse_option :: "string option \<Rightarrow> (string \<rightharpoonup> string) option" where
  "parse_option opt =
     (case opt of None \<Rightarrow> Some Map.empty
      | Some s \<Rightarrow> foldo add_option Map.empty (split s ''&''))"

section \<open>Decoding and encoding\<close>

fun dec_spec :: "string \<Rightarrow> string option" where
  "dec_spec [] = Some []"
| "dec_spec (c # s) =
     (if c \<noteq> CHR ''%'' then map_option ((#) c) (dec_spec s)
      else case s of a # b # r \<Rightarrow> map_option ((#) (char_of (strtoul16 [a, b]))) (dec_spec r) | _ \<Rightarrow> None)"

lemma hex_char_digit: "n < 16 \<Longrightarrow> hex_digit (hex_char n) = Some n \<and> \<not> isspace (hex_char n) \<and>
    hex_char n \<noteq> CHR ''-'' \<and> hex_char n \<noteq> CHR ''+'' \<and> hex_char n \<noteq> NUL"
proof -
  have "list_all (\<lambda>n. hex_digit (hex_char n) = Some n \<and> \<not> isspace (hex_char n) \<and>
    hex_char n \<noteq> CHR ''-'' \<and> hex_char n \<noteq> CHR ''+'' \<and> hex_char n \<noteq> NUL) [0..<16]"
    by (simp add: upt_rec hex_char_def hex_digit_def isdigit_def isspace_def ord_def)
  then show "n < 16 \<Longrightarrow> ?thesis" by (simp add: list_all_iff)
qed

lemma strtoul16_hex: "a < 16 \<Longrightarrow> b < 16 \<Longrightarrow> strtoul16 [hex_char a, hex_char b] = 16 * a + b"
  using hex_char_digit[of a] hex_char_digit[of b] by (simp add: strtoul16_def Let_def)

lemma safe_not_percent: "isurisafe c \<Longrightarrow> c \<noteq> CHR ''%''"
  by (auto simp: isurisafe_def strchr_def ord_def)

lemma dec_encode: "dec_spec (encode s @ r) = map_option ((@) s) (dec_spec r)"
proof (induction s)
  case Nil
  then show ?case by (cases "dec_spec r") (simp_all add: encode_def)
next
  case (Cons c s)
  have e: "encode (c # s) = encode_char c @ encode s" by (simp add: encode_def)
  have "strtoul16 [hex_char (ord c div 16), hex_char (ord c mod 16)] = ord c"
    using strtoul16_hex[of "ord c div 16" "ord c mod 16"] ord_less[of c] by (simp add: div_less_iff_less_mult)
  then show ?case
    using Cons safe_not_percent[of c]
    by (cases "dec_spec r") (auto simp: e encode_char_def)
qed

text \<open>
  The loop over a buffer of decoded text \<open>P\<close>, a gap \<open>G\<close>, the coded text \<open>S\<close> still to come and its
  terminator: the decoded text grows, the gap too, and what lies behind is untouched.
\<close>

lemma decode_loop_spec:
  "NUL \<notin> set S \<Longrightarrow> dec_spec S = Some d \<Longrightarrow>
   \<exists>G'. decode_loop (P @ G @ S @ NUL # R) (length (P @ G)) (length P) = Some (True, P @ d @ G' @ R) \<and>
     length (d @ G') = length (G @ S) + 1 \<and> hd G' = NUL"
proof (induction S arbitrary: P G d rule: dec_spec.induct)
  case 1
  have "(P @ G @ NUL # R)[length P := NUL] = P @ (if G = [] then NUL # R else NUL # tl G @ NUL # R)"
    by (cases G) (simp_all add: list_update_append)
  then have "decode_loop (P @ G @ [] @ NUL # R) (length (P @ G)) (length P) =
      Some (True, P @ [] @ (if G = [] then [NUL] else NUL # tl G @ [NUL]) @ R)"
    by (subst decode_loop.simps) (simp add: nth_append)
  moreover have "length (if G = [] then [NUL] else NUL # tl G @ [NUL]) = length G + 1" by (cases G) simp_all
  ultimately show ?case using 1 by (intro exI[of _ "if G = [] then [NUL] else NUL # tl G @ [NUL]"]) simp
next
  case (2 c s)
  have step: "(P @ G @ c # T)[length P := x] = (P @ [x]) @ (tl (G @ [c])) @ T" for x T
    by (cases G) (simp_all add: list_update_append)
  show ?case
  proof (cases "c = CHR ''%''")
    case False
    have nul: "c \<noteq> NUL" "NUL \<notin> set s" using 2(3) by auto
    from False 2(4) obtain d' where d: "dec_spec s = Some d'" "d = c # d'" by auto
    have "decode_loop (P @ G @ (c # s) @ NUL # R) (length (P @ G)) (length P) =
        decode_loop ((P @ [c]) @ tl (G @ [c]) @ s @ NUL # R) (length ((P @ [c]) @ tl (G @ [c]))) (length (P @ [c]))"
      using False nul step[of "s @ NUL # R" c] by (subst decode_loop.simps) (simp add: nth_append)
    with 2(1)[OF False nul(2) d(1), of "P @ [c]" "tl (G @ [c])"] d(2) show ?thesis by auto
  next
    case True
    with 2(4) obtain a b r d' where s: "s = a # b # r" "dec_spec r = Some d'" "d = char_of (strtoul16 [a, b]) # d'"
      by (auto split: list.splits)
    have nul: "a \<noteq> NUL" "b \<noteq> NUL" "NUL \<notin> set r" using 2(3) s(1) by auto
    let ?x = "char_of (strtoul16 [a, b])"
    have "decode_loop (P @ G @ (c # s) @ NUL # R) (length (P @ G)) (length P) =
        decode_loop ((P @ [?x]) @ (tl (G @ [c]) @ [a, b]) @ r @ NUL # R)
          (length ((P @ [?x]) @ tl (G @ [c]) @ [a, b])) (length (P @ [?x]))"
      using True nul step[of "a # b # r @ NUL # R" ?x] s(1)
      by (subst decode_loop.simps) (simp add: nth_append numeral_3_eq_3)
    with 2(2)[of a "b # r" b r d' "P @ [?x]" "tl (G @ [c]) @ [a, b]"] s nul(3) True show ?thesis by auto
  qed
qed

lemma decode_at:
  assumes "NUL \<notin> set S" "dec_spec S = Some d"
  obtains G where "decode (P @ S @ NUL # R) (length P) = Some (True, P @ d @ NUL # G @ R)"
    "length d + length G = length S"
proof -
  obtain G where G: "decode_loop (P @ S @ NUL # R) (length P) (length P) = Some (True, P @ d @ G @ R)"
    "length d + length G = length S + 1" "hd G = NUL"
    using decode_loop_spec[OF assms, of P "[]" R] by auto
  have "length d \<le> length S" using assms(2)
  proof (induction S arbitrary: d rule: dec_spec.induct)
    case (2 c s)
    then show ?case by (cases "c = CHR ''%''") (fastforce split: list.splits)+
  qed simp
  with G(2,3) obtain G' where "G = NUL # G'" by (cases G) auto
  with G that show thesis by (simp add: decode_def)
qed

section \<open>Searches in the buffer\<close>

lemma cstr_at_here: "NUL \<notin> set s \<Longrightarrow> cstr_at (A @ s @ NUL # r) (length A) = s"
  by (simp add: cstr_at_def c_str_def takeWhile_append)

lemma strchr_at_found:
  "NUL \<notin> set x \<Longrightarrow> NUL \<notin> set y \<Longrightarrow> c \<noteq> NUL \<Longrightarrow> c \<notin> set x \<Longrightarrow>
   strchr_at (A @ (x @ c # y) @ NUL # r) (length A) c = Some (length A + length x)"
  by (subst strchr_at_def, subst cstr_at_here) (auto simp: strchr_def find_char_append)

lemma strchr_at_none:
  "NUL \<notin> set s \<Longrightarrow> c \<noteq> NUL \<Longrightarrow> c \<notin> set s \<Longrightarrow> strchr_at (A @ s @ NUL # r) (length A) c = None"
  by (simp add: strchr_at_def cstr_at_here strchr_def find_char_None)

lemma rfind_char_append: "c \<notin> set y \<Longrightarrow> rfind_char c (x @ c # y) = Some (length x)"
proof (induction x)
  case Nil
  then have "rfind_char c y = None" by (induction y) auto
  then show ?case by simp
qed simp

lemma strrchr_at_found:
  "NUL \<notin> set x \<Longrightarrow> NUL \<notin> set y \<Longrightarrow> c \<noteq> NUL \<Longrightarrow> c \<notin> set y \<Longrightarrow>
   strrchr_at (A @ (x @ c # y) @ NUL # r) (length A) c = Some (length A + length x)"
  by (subst strrchr_at_def, subst cstr_at_here) (auto simp: rfind_char_append)

lemma update_here: "(A @ x @ c # y)[length A + length x := d] = A @ x @ d # y"
  using list_update_length[of "A @ x" c y d] by simp

definition uri_char :: "char \<Rightarrow> bool" where
  "uri_char c \<longleftrightarrow> isalnum c \<or> c \<in> set ''-._~%''"

lemma mod_256_less:
  "n < 256 \<Longrightarrow> k + m \<le> 256 \<Longrightarrow> (n + 256 - k) mod 256 < m \<Longrightarrow> k \<le> n \<and> n < k + m"
  for n k m :: nat
  by (cases "k \<le> n") (auto simp: mod_if not_le split: if_splits)

lemma safe_uri_char: "isurisafe c \<Longrightarrow> c = NUL \<or> uri_char c"
proof -
  assume "isurisafe c"
  then consider "(ord c + 256 - 97) mod 256 < 26" | "(ord c + 256 - 65) mod 256 < 26" | "(ord c + 256 - 48) mod 256 < 10"
    | "strchr ''-._~'' c \<noteq> None" by (auto simp: isurisafe_def)
  then show ?thesis
  proof cases
    case 4
    then show ?thesis by (auto simp: strchr_def uri_char_def split: if_splits)
  qed (use mod_256_less[OF ord_less, of 97 26 c] mod_256_less[OF ord_less, of 65 26 c] mod_256_less[OF ord_less, of 48 10 c] in
    \<open>simp_all add: uri_char_def isalnum_def isalpha_def islower_def isupper_def isdigit_def\<close>)
qed

lemma hex_char_uri: "n < 16 \<Longrightarrow> uri_char (hex_char n)"
proof -
  have "list_all (\<lambda>n. uri_char (hex_char n)) [0..<16]"
    by (simp add: upt_rec hex_char_def uri_char_def isalnum_def isalpha_def islower_def isupper_def isdigit_def ord_def)
  then show "n < 16 \<Longrightarrow> ?thesis" by (simp add: list_all_iff)
qed

lemma encode_chars: "c \<in> set (encode s) \<Longrightarrow> (c = NUL \<and> NUL \<in> set s) \<or> uri_char c \<and> c \<noteq> NUL"
proof (induction s)
  case (Cons x s)
  have "uri_char (CHR ''%'')" "\<not> uri_char NUL"
    by (simp_all add: uri_char_def isalnum_def isalpha_def islower_def isupper_def isdigit_def ord_def)
  moreover have "ord x div 16 < 16" using ord_less[of x] by (simp add: div_less_iff_less_mult)
  ultimately show ?case
    using Cons safe_uri_char[of x] hex_char_uri[of "ord x div 16"] hex_char_uri[of "ord x mod 16"]
    by (auto simp: encode_def encode_char_def split: if_splits)
qed (simp add: encode_def)

lemma encode_avoids: "\<not> uri_char c \<Longrightarrow> c \<noteq> NUL \<Longrightarrow> c \<notin> set (encode s)"
  using encode_chars by blast

lemma separators_not_uri: "list_all (\<lambda>c. \<not> uri_char c \<and> c \<noteq> NUL) ''/?#[]@:&=+ ''"
  by (simp add: uri_char_def isalnum_def isalpha_def isupper_def islower_def isdigit_def ord_def)

section \<open>Properties\<close>

text \<open>
  Uri decode encode: Decoding an encoded string gives it back, in a buffer of its own and in the middle
  of any other, of which only the coded text changes; and the coded text holds no character that
  separates the parts of a URI.
\<close>

theorem uri_decode_encode:
  assumes "NUL \<notin> set s"
  shows "decode_dup (encode s) = Some (Some s) \<and>
    (\<exists>G. decode (P @ encode s @ NUL # R) (length P) = Some (True, P @ s @ NUL # G @ R) \<and>
       length s + length G = length (encode s)) \<and>
    set (encode s) \<inter> set ''/?#[]@:&=+ '' = {} \<and> length (encode s) \<le> 3 * length s"
proof -
  have dec: "dec_spec (encode s) = Some s" using dec_encode[of s "[]"] by simp
  have nul: "NUL \<notin> set (encode s)" using assms encode_chars[of _ s] by auto
  have "\<exists>G. decode (P @ encode s @ NUL # R) (length P) = Some (True, P @ s @ NUL # G @ R) \<and>
       length s + length G = length (encode s)" for P R
    using decode_at[OF nul dec, of P R] by blast
  moreover from this[of "[]" "[]"] have "decode_dup (encode s) = Some (Some s)"
    using cstr_at_here[OF assms, of "[]"] by (auto simp: decode_dup_def)
  moreover have "set (encode s) \<inter> set ''/?#[]@:&=+ '' = {}"
    using encode_avoids separators_not_uri by (auto simp: list_all_iff)
  moreover have "length (encode t) \<le> 3 * length t" for t
    by (induction t) (auto simp: encode_def encode_char_def)
  ultimately show ?thesis by blast
qed

theorem uri_decode_encode_witness:
  "encode ''a b%'' = ''a%20b%25'' \<and> decode_dup (encode ''a b%'') = Some (Some ''a b%'')"
  using uri_decode_encode[of "''a b%''"]
  by (simp add: encode_def encode_char_def isurisafe_def strchr_def hex_char_def ord_def)

section \<open>Parsing a whole URI\<close>

lemma parse_protocol_found:
  assumes "list_all scheme_char P" "NUL \<notin> set P"
  shows "parse_protocol u (P @ ''://'' @ rest) =
    (u\<lparr>protocol := Some 0\<rparr>, (P @ [NUL] @ ''//'') @ rest, length (P @ [NUL] @ ''//''))"
proof -
  have c: "cstr_at (P @ ''://'' @ rest) 0 = P @ ''://'' @ c_str rest"
    using assms(2) by (simp add: cstr_at_def c_str_def takeWhile_append)
  have "\<not> scheme_char (CHR '':'')"
    by (simp add: scheme_char_def isupper_def islower_def isdigit_def ord_def)
  then have n: "length (takeWhile scheme_char (cstr_at (P @ ''://'' @ rest) 0)) = length P"
    using assms(1) unfolding c by (simp add: takeWhile_append list_all_iff)
  have "cstr_at (P @ ''://'' @ rest) (length P) = ''://'' @ c_str rest"
    by (simp add: cstr_at_def c_str_def)
  then show ?thesis
    unfolding parse_protocol_def n Let_def by (simp add: list_update_append)
qed

lemma parse_path_found:
  assumes "NUL \<notin> set X" "CHR ''/'' \<notin> set X" "NUL \<notin> set T" "CHR ''?'' \<notin> set T" "NUL \<notin> set Q"
  shows "parse_path u (A @ X @ ''/'' @ T @ ''?'' @ Q @ [NUL]) (length A) (CHR ''?'') =
    (u\<lparr>uoption := Some (length (A @ X @ ''/'' @ T @ ''?'')), upath := Some (length (A @ X))\<rparr>,
     A @ X @ [NUL] @ T @ [NUL] @ Q @ [NUL])"
proof -
  have p: "strchr_at (A @ X @ ''/'' @ T @ ''?'' @ Q @ [NUL]) (length A) (CHR ''/'') = Some (length (A @ X))"
    using strchr_at_found[of X "T @ ''?'' @ Q" "CHR ''/''" A "[]"] assms by auto
  have q: "strchr_at (A @ X @ ''/'' @ T @ ''?'' @ Q @ [NUL]) (length (A @ X)) (CHR ''?'') =
      Some (length (A @ X @ ''/'' @ T))"
    using strchr_at_found[of "''/'' @ T" Q "CHR ''?''" "A @ X" "[]"] assms by auto
  show ?thesis
    unfolding parse_path_def p option.case q Let_def
    by (simp add: list_update_append nth_append)
qed

lemma parse_userinfo_found:
  assumes U: "NUL \<notin> set U" "CHR '':'' \<notin> set U" "dec_spec U = Some un"
    and W: "NUL \<notin> set W" "dec_spec W = Some pw"
    and H: "NUL \<notin> set H" "CHR ''@'' \<notin> set H"
  obtains G1 G2 where
    "parse_userinfo u (A @ (U @ '':'' @ W @ ''@'' @ H) @ NUL # R) (length A) =
      Some (u\<lparr>password := Some (length (A @ U) + 1), username := Some (length A)\<rparr>,
        A @ (un @ [NUL] @ G1) @ (pw @ [NUL] @ G2) @ H @ NUL # R,
        length (A @ (un @ [NUL] @ G1) @ (pw @ [NUL] @ G2)))"
    "length un + length G1 = length U" "length pw + length G2 = length W"
proof -
  obtain G2 where G2: "decode ((A @ U @ [NUL]) @ W @ NUL # (H @ NUL # R)) (length (A @ U @ [NUL])) =
      Some (True, (A @ U @ [NUL]) @ pw @ NUL # G2 @ (H @ NUL # R))" "length pw + length G2 = length W"
    by (rule decode_at[OF W])
  obtain G1 where G1: "decode (A @ U @ NUL # (pw @ NUL # G2 @ (H @ NUL # R))) (length A) =
      Some (True, A @ un @ NUL # G1 @ (pw @ NUL # G2 @ (H @ NUL # R)))" "length un + length G1 = length U"
    by (rule decode_at[OF U(1,3)])
  have at: "strrchr_at (A @ (U @ '':'' @ W @ ''@'' @ H) @ NUL # R) (length A) (CHR ''@'') =
      Some (length (A @ U @ '':'' @ W))"
    using strrchr_at_found[of "U @ '':'' @ W" H "CHR ''@''" A R] U W H by simp
  have colon: "strchr_at (A @ (U @ '':'' @ W) @ NUL # H @ NUL # R) (length A) (CHR '':'') =
      Some (length (A @ U))"
    using strchr_at_found[of U W "CHR '':''" A "H @ NUL # R"] U W by simp
  have "(A @ (U @ '':'' @ W @ ''@'' @ H) @ NUL # R)[length (A @ U @ '':'' @ W) := NUL] =
      A @ (U @ '':'' @ W) @ NUL # H @ NUL # R"
    by (simp add: list_update_append)
  moreover have "(A @ (U @ '':'' @ W) @ NUL # H @ NUL # R)[length (A @ U) := NUL] =
      (A @ U @ [NUL]) @ W @ NUL # (H @ NUL # R)"
    by (simp add: list_update_append)
  moreover have "length (A @ U) + 1 = length (A @ U @ [NUL])" by simp
  ultimately have "parse_userinfo u (A @ (U @ '':'' @ W @ ''@'' @ H) @ NUL # R) (length A) =
      Some (u\<lparr>password := Some (length (A @ U) + 1), username := Some (length A)\<rparr>,
        A @ un @ NUL # G1 @ (pw @ NUL # G2 @ (H @ NUL # R)), length (A @ U @ '':'' @ W) + 1)"
    using G1(1) unfolding parse_userinfo_def at option.case Let_def
    by (simp only: colon option.case G2(1) bind.bind_lunit prod.case) simp
  with that[of G1 G2] G1(2) G2(2) show thesis by simp
qed

lemma parse_host_found:
  assumes "NUL \<notin> set H" "CHR '':'' \<notin> set H" "CHR ''['' \<notin> set H" "list_all (\<lambda>c. ord c < 128) H" "n < 2 ^ 31"
  shows "parse_host u (A @ (H @ '':'' @ dec n) @ NUL # R) (length A) =
    (u\<lparr>host := Some H, port := of_nat n\<rparr>, A @ H @ NUL # dec n @ NUL # R)"
proof -
  have d: "NUL \<notin> set (dec n)" "CHR '':'' \<notin> set (dec n)"
    using dec_digits[of n] by (auto simp: list_all_iff isdigit_def ord_def)
  have b: "(A @ (H @ '':'' @ dec n) @ NUL # R) ! length A \<noteq> CHR ''[''"
    using assms(3) by (cases H) (auto simp: nth_append)
  have q: "strchr_at (A @ (H @ '':'' @ dec n) @ NUL # R) (length A) (CHR '':'') = Some (length (A @ H))"
    using strchr_at_found[of H "dec n" "CHR '':''" A R] assms(1,2) d by simp
  have buf: "(A @ (H @ '':'' @ dec n) @ NUL # R)[length (A @ H) := NUL] = A @ H @ NUL # dec n @ NUL # R"
    by (simp add: list_update_append)
  have h: "cstr_at (A @ H @ NUL # dec n @ NUL # R) (length A) = H"
    by (rule cstr_at_here[OF assms(1)])
  have "cstr_at ((A @ H @ [NUL]) @ dec n @ NUL # R) (length (A @ H @ [NUL])) = dec n"
    by (rule cstr_at_here[OF d(1)])
  then have pn: "cstr_at (A @ H @ NUL # dec n @ NUL # R) (length (A @ H) + 1) = dec n" by simp
  have ascii: "idna_to_ascii H = Some H"
    using assms(4) by (auto simp: idna_to_ascii_def list_ex_iff list_all_iff)
  show ?thesis
    unfolding parse_host_def if_not_P[OF b] option.case q Let_def buf prod.case h ascii pn atoi_dec[OF assms(5)]
    by simp
qed

text \<open>The buffer after the parse, and the pointers into it.\<close>

lemma parse_chain:
  assumes P: "list_all scheme_char P" "NUL \<notin> set P"
    and un: "NUL \<notin> set un" and pw: "NUL \<notin> set pw"
    and H: "list_all (\<lambda>c. isalnum c \<or> c = CHR ''.'' \<or> c = CHR ''-'') H"
    and n: "n < 2 ^ 31"
    and T: "NUL \<notin> set T" "CHR ''?'' \<notin> set T" and Q: "NUL \<notin> set Q"
  defines "A \<equiv> P @ [NUL] @ ''//''" and "U \<equiv> encode un" and "W \<equiv> encode pw"
  defines "N \<equiv> H @ '':'' @ dec n" and "R \<equiv> T @ [NUL] @ Q @ [NUL]"
  defines "X \<equiv> U @ '':'' @ W @ ''@'' @ N"
  obtains G1 G2 where "length un + length G1 = length U" "length pw + length G2 = length W"
    "parse u (Some (P @ ''://'' @ X @ ''/'' @ T @ ''?'' @ Q)) (CHR ''?'') = Some (0,
      \<lparr>protocol = Some 0, username = Some (length A), password = Some (length (A @ U) + 1), host = Some H,
       port = of_nat n, upath = Some (length (A @ X)), uoption = Some (length (A @ X @ ''/'' @ T @ ''?'')),
       ubuffer = Some (A @ (un @ [NUL] @ G1) @ (pw @ [NUL] @ G2) @ H @ NUL # dec n @ CHR ''/'' # R)\<rparr>)"
proof -
  have avoid: "c \<notin> set U \<and> c \<notin> set W" if "c \<in> set ''/:@''" for c
    using that encode_avoids separators_not_uri unfolding U_def W_def list_all_iff by auto
  have nul: "NUL \<notin> set U" "NUL \<notin> set W"
    using un pw encode_chars unfolding U_def W_def by blast+
  have Hc: "c \<notin> set H" if "c \<in> set (NUL # ''/:@['')" for c
    using that H by (auto simp: list_all_iff isalnum_def isalpha_def isupper_def islower_def isdigit_def ord_def)
  have dn: "c \<notin> set (dec n)" if "c \<in> set (NUL # ''/:@['')" for c
    using that dec_digits[of n] by (auto simp: list_all_iff isdigit_def ord_def)
  have ascii: "list_all (\<lambda>c. ord c < 128) H"
    using H by (auto simp: list_all_iff isalnum_def isalpha_def isupper_def islower_def isdigit_def ord_def)
  have X: "NUL \<notin> set X" "CHR ''/'' \<notin> set X"
    using nul avoid[of "CHR ''/''"] Hc[of NUL] Hc[of "CHR ''/''"] dn[of NUL] dn[of "CHR ''/''"]
    by (simp_all add: X_def N_def)
  have N: "NUL \<notin> set N" "CHR ''@'' \<notin> set N"
    using Hc[of NUL] Hc[of "CHR ''@''"] dn[of NUL] dn[of "CHR ''@''"] by (simp_all add: N_def)
  have dU: "dec_spec U = Some un" and dW: "dec_spec W = Some pw"
    using dec_encode[of un "[]"] dec_encode[of pw "[]"] by (simp_all add: U_def W_def)
  let ?u1 = "(cleanup u)\<lparr>protocol := Some 0\<rparr>"
  let ?u2 = "?u1\<lparr>uoption := Some (length (A @ X @ ''/'' @ T @ ''?'')), upath := Some (length (A @ X))\<rparr>"
  let ?u3 = "?u2\<lparr>password := Some (length (A @ U) + 1), username := Some (length A)\<rparr>"
  have s1: "parse_protocol (cleanup u) ((P @ ''://'' @ X @ ''/'' @ T @ ''?'' @ Q) @ [NUL]) =
      (?u1, A @ X @ ''/'' @ T @ ''?'' @ Q @ [NUL], length A)"
    using parse_protocol_found[OF P, of "cleanup u" "X @ ''/'' @ T @ ''?'' @ Q @ [NUL]"] by (simp add: A_def)
  have s2: "parse_path ?u1 (A @ X @ ''/'' @ T @ ''?'' @ Q @ [NUL]) (length A) (CHR ''?'') =
      (?u2, A @ (U @ '':'' @ W @ ''@'' @ N) @ NUL # R)"
    using parse_path_found[OF X T Q, of ?u1 A] by (simp add: R_def X_def)
  obtain G1 G2 where s3: "parse_userinfo ?u2 (A @ (U @ '':'' @ W @ ''@'' @ N) @ NUL # R) (length A) =
      Some (?u3, A @ (un @ [NUL] @ G1) @ (pw @ [NUL] @ G2) @ N @ NUL # R,
        length (A @ (un @ [NUL] @ G1) @ (pw @ [NUL] @ G2)))"
      and G: "length un + length G1 = length U" "length pw + length G2 = length W"
    by (rule parse_userinfo_found[OF nul(1) _ dU nul(2) dW N]) (use avoid[of "CHR '':''"] in simp)
  define A' where "A' = A @ (un @ [NUL] @ G1) @ (pw @ [NUL] @ G2)"
  define v where "v = ?u3\<lparr>host := Some H, port := of_nat n\<rparr>"
  have s4: "parse_host ?u3 (A' @ N @ NUL # R) (length A') = (v, A' @ H @ NUL # dec n @ NUL # R)"
    unfolding N_def v_def by (rule parse_host_found[OF _ _ _ ascii n]) (rule Hc, simp)+
  have p: "length (A @ X) = length (A' @ H @ NUL # dec n)"
    using G by (simp add: X_def N_def A'_def)
  define buf where "buf = A' @ H @ NUL # dec n @ CHR ''/'' # R"
  have "(A' @ H @ NUL # dec n @ NUL # R)[length (A @ X) := CHR ''/''] = buf"
    unfolding p buf_def by (simp add: list_update_append)
  then have final: "(A' @ H @ NUL # dec n @ NUL # R)[length (A @ X) := CHR ''/''] = buf" .
  have s3': "parse_userinfo ?u2 (A @ (U @ '':'' @ W @ ''@'' @ N) @ NUL # R) (length A) =
      Some (?u3, A' @ N @ NUL # R, length A')"
    unfolding s3 A'_def by simp
  have up: "upath v = Some (length (A @ X))" by (simp add: v_def)
  have "parse u (Some (P @ ''://'' @ X @ ''/'' @ T @ ''?'' @ Q)) (CHR ''?'') = Some (0, v\<lparr>ubuffer := Some buf\<rparr>)"
    unfolding parse_def option.case Let_def s1 s2 prod.case s3' bind.bind_lunit s4 up final ..
  moreover have "v\<lparr>ubuffer := Some buf\<rparr> =
      \<lparr>protocol = Some 0, username = Some (length A), password = Some (length (A @ U) + 1), host = Some H,
       port = of_nat n, upath = Some (length (A @ X)), uoption = Some (length (A @ X @ ''/'' @ T @ ''?'')),
       ubuffer = Some (A @ (un @ [NUL] @ G1) @ (pw @ [NUL] @ G2) @ H @ NUL # dec n @ CHR ''/'' # R)\<rparr>"
    by (simp add: v_def buf_def A'_def cleanup_def)
  ultimately show thesis using that[OF G] by simp
qed

text \<open>
  C19: uri_parses. \<open>parse\<close> takes a full URI apart into exactly the parts it was written
  from: the scheme, the user and password (percent-decoded), the host, the port, the path with its slash
  and the option string; whatever the \<open>Uri\<close> held before is gone.
\<close>

theorem uri_parses:
  assumes P: "list_all scheme_char P" "NUL \<notin> set P"
    and un: "NUL \<notin> set un" and pw: "NUL \<notin> set pw"
    and H: "list_all (\<lambda>c. isalnum c \<or> c = CHR ''.'' \<or> c = CHR ''-'') H"
    and n: "n < 2 ^ 31"
    and T: "NUL \<notin> set T" "CHR ''?'' \<notin> set T" and Q: "NUL \<notin> set Q"
  shows "\<exists>v. parse u (Some (P @ ''://'' @ encode un @ '':'' @ encode pw @ ''@'' @ H @ '':'' @ dec n @ ''/'' @ T @ ''?'' @ Q))
      (CHR ''?'') = Some (0, v) \<and>
    part v (protocol v) = Some P \<and> part v (username v) = Some un \<and> part v (password v) = Some pw \<and>
    host v = Some H \<and> port v = of_nat n \<and> part v (upath v) = Some (CHR ''/'' # T) \<and> part v (uoption v) = Some Q"
proof -
  define A where "A = P @ [NUL] @ ''//''"
  define U where "U = encode un"
  define X where "X = U @ '':'' @ encode pw @ ''@'' @ H @ '':'' @ dec n"
  define R where "R = T @ [NUL] @ Q @ [NUL]"
  obtain G1 G2 where G: "length un + length G1 = length U" "length pw + length G2 = length (encode pw)"
    and parse: "parse u (Some (P @ ''://'' @ X @ ''/'' @ T @ ''?'' @ Q)) (CHR ''?'') = Some (0,
      \<lparr>protocol = Some 0, username = Some (length A), password = Some (length (A @ U) + 1), host = Some H,
       port = of_nat n, upath = Some (length (A @ X)), uoption = Some (length (A @ X @ ''/'' @ T @ ''?'')),
       ubuffer = Some (A @ (un @ [NUL] @ G1) @ (pw @ [NUL] @ G2) @ H @ NUL # dec n @ CHR ''/'' # R)\<rparr>)"
    unfolding A_def U_def X_def R_def by (rule parse_chain[OF assms, of u])
  define A' where "A' = A @ (un @ [NUL] @ G1) @ (pw @ [NUL] @ G2)"
  define buf where "buf = A' @ H @ NUL # dec n @ CHR ''/'' # R"
  have p: "length (A @ X) = length (A' @ H @ NUL # dec n)"
    using G by (simp add: X_def A'_def)
  have proto: "cstr_at buf 0 = P"
    using cstr_at_here[OF P(2), of "[]"] by (simp add: buf_def A'_def A_def)
  have user: "cstr_at buf (length A) = un"
    using cstr_at_here[OF un, of A] by (simp add: buf_def A'_def)
  have "length (A @ U) + 1 = length (A @ un @ [NUL] @ G1)" using G(1) by simp
  then have pass: "cstr_at buf (length (A @ U) + 1) = pw"
    using cstr_at_here[OF pw, of "A @ un @ [NUL] @ G1"] by (simp add: buf_def A'_def)
  have path: "cstr_at buf (length (A @ X)) = CHR ''/'' # T"
    unfolding p using cstr_at_here[of "CHR ''/'' # T" "A' @ H @ NUL # dec n"] T(1) by (simp add: buf_def R_def)
  have "length (A @ X @ ''/'' @ T @ ''?'') = length ((A' @ H @ NUL # dec n) @ ''/'' @ T @ [NUL])"
    using p by simp
  moreover have "cstr_at buf (length ((A' @ H @ NUL # dec n) @ ''/'' @ T @ [NUL])) = Q"
    using cstr_at_here[OF Q, of "(A' @ H @ NUL # dec n) @ ''/'' @ T @ [NUL]" "[]"] by (simp add: buf_def R_def)
  ultimately have opt: "cstr_at buf (length (A @ X @ ''/'' @ T @ ''?'')) = Q"
    by (simp only:)
  show ?thesis
    using parse proto user pass path opt by (simp add: part_def X_def U_def buf_def A'_def)
qed

theorem uri_parses_witness:
  "\<exists>v. parse new_Uri (Some (''rtmp'' @ ''://'' @ encode ''me@x'' @ '':'' @ encode ''p:1'' @ ''@'' @ ''live.host'' @ '':'' @ dec 1935
      @ ''/'' @ ''app/s'' @ ''?'' @ ''k=v'')) (CHR ''?'') = Some (0, v) \<and> part v (username v) = Some ''me@x'' \<and> port v = 1935"
proof -
  have "list_all scheme_char ''rtmp''" "list_all (\<lambda>c. isalnum c \<or> c = CHR ''.'' \<or> c = CHR ''-'') ''live.host''"
    by (simp_all add: scheme_char_def isalnum_def isalpha_def islower_def isupper_def isdigit_def ord_def)
  then show ?thesis
    using uri_parses[of "''rtmp''" "''me@x''" "''p:1''" "''live.host''" 1935 "''app/s''" "''k=v''" new_Uri]
    by auto
qed

lemma split_pair:
  assumes "k \<noteq> []" "v \<noteq> []" "set (k @ v) \<inter> set (NUL # ''='') = {}"
  shows "split (k @ ''='' @ v) ''='' = [k, v]"
proof -
  have "c_str (k @ ''='' @ v) = k @ ''='' @ v" by (rule c_str_id) (use assms(3) in auto)
  then show ?thesis
    using tokens_sep[of k "''=''" "CHR ''=''" v] tokens_last[of v "''=''"] assms by (simp add: split_def)
qed

lemma add_options:
  "\<forall>(k, v)\<in>set kvs. k \<noteq> [] \<and> v \<noteq> [] \<and> set (k @ v) \<inter> set (NUL # ''&='') = {} \<Longrightarrow>
   foldo add_option m (map (\<lambda>(k, v). k @ ''='' @ v) kvs) = Some (fold (\<lambda>(k, v) m. m(k \<mapsto> v)) kvs m)"
proof (induction kvs arbitrary: m)
  case (Cons kv kvs)
  obtain k v where kv: "kv = (k, v)" by (cases kv)
  with Cons.prems have "split (k @ ''='' @ v) ''='' = [k, v]" by (intro split_pair) auto
  then have "add_option m (k @ ''='' @ v) = Some (m(k \<mapsto> v))" by (simp add: add_option_def)
  moreover have "foldo add_option (m(k \<mapsto> v)) (map (\<lambda>(k, v). k @ ''='' @ v) kvs) =
      Some (fold (\<lambda>(k, v) m. m(k \<mapsto> v)) kvs (m(k \<mapsto> v)))"
    by (rule Cons.IH) (use Cons.prems in auto)
  ultimately show ?case
    unfolding kv by (simp only: list.map prod.case foldo.simps bind.bind_lunit fold_simps)
qed simp

text \<open>
  Uri options: Options written as \<open>k=v\<close> pairs joined by \<open>&\<close> read back as the
  map they describe, a later pair winning; but a pair without a value indexes a vector past its end.
\<close>

theorem uri_options:
  assumes "\<forall>(k, v)\<in>set kvs. k \<noteq> [] \<and> v \<noteq> [] \<and> set (k @ v) \<inter> set (NUL # ''&='') = {}"
  shows "parse_option (Some (join (CHR ''&'') (map (\<lambda>(k, v). k @ ''='' @ v) kvs))) =
      Some (fold (\<lambda>(k, v) m. m(k \<mapsto> v)) kvs Map.empty) \<and>
    (\<forall>k. k \<noteq> [] \<and> set k \<inter> set (NUL # ''&='') = {} \<longrightarrow> parse_option (Some (k @ ''='')) = None)"
proof (intro conjI allI impI)
  let ?ts = "map (\<lambda>(k, v). k @ ''='' @ v) kvs"
  have ts: "\<forall>t\<in>set ?ts. t \<noteq> [] \<and> set t \<inter> set ''&'' = {} \<and> NUL \<notin> set t"
    using assms by auto
  have "NUL \<notin> set (join d us)" if "\<forall>t\<in>set us. NUL \<notin> set t" "d \<noteq> NUL" for d us
    using that by (induction d us rule: join.induct) auto
  then have "c_str (join (CHR ''&'') ?ts) = join (CHR ''&'') ?ts"
    using ts by (intro c_str_id) auto
  moreover have "tokens ''&'' (join (CHR ''&'') ?ts) = ?ts"
    using ts by (intro tokens_join) auto
  ultimately show "parse_option (Some (join (CHR ''&'') ?ts)) = Some (fold (\<lambda>(k, v) m. m(k \<mapsto> v)) kvs Map.empty)"
    using add_options[OF assms] by (simp add: parse_option_def split_def)
next
  fix k assume k: "k \<noteq> [] \<and> set k \<inter> set (NUL # ''&='') = {}"
  have c: "c_str (k @ ''='') = k @ ''=''" by (rule c_str_id) (use k in auto)
  have "tokens ''&'' (k @ ''='') = [k @ ''='']" by (rule tokens_last) (use k in auto)
  moreover have "tokens ''='' (k @ ''='') = [k]"
    using tokens_sep[of k "''=''" "CHR ''=''" "[]"] tokens.simps[of "''=''" "[]"] k by simp
  ultimately show "parse_option (Some (k @ ''='')) = None"
    using c by (simp add: parse_option_def split_def add_option_def)
qed

theorem uri_options_witness:
  "parse_option (Some (join (CHR ''&'') (map (\<lambda>(k, v). k @ ''='' @ v) [(''a'', ''1''), (''b'', ''2'')]))) =
    Some [''a'' \<mapsto> ''1'', ''b'' \<mapsto> ''2'']"
  using uri_options[of "[(''a'', ''1''), (''b'', ''2'')]"] by simp

end
