(* ===== verification/Queue.thy ===== *)
theory Queue
  imports Prelude
begin

text \<open>
  The blocking queue \<open>Queue<T>\<close> (\<open>xqueue.h\<close>) under interleaving. A section under the mutex is one
  step; \<open>pop\<close> is two of them, the one of \<open>front\<close> and the one that removes the element, with the
  mutex released in between. A thread in \<open>pthread_cond_wait\<close> is \<open>Waiting\<close>; \<open>signal\<close> lets one such
  thread test its condition again (the system chooses which), \<open>broadcast\<close> lets all, and a thread
  may also wake spuriously. \<open>q_pushed\<close> and \<open>q_popped\<close> are history: what was pushed, and what the
  calls of \<open>pop\<close> have returned.
\<close>

section \<open>The state and its steps\<close>

datatype call = Front | Back | Pop

datatype 'a pc =
    Idle
  | Testing call
  | Waiting call
  | Removing 'a
  | Returned "'a option"

record 'a Queue =
  q_items :: "'a list"
  q_cancel_wait :: bool
  q_pc :: "nat \<Rightarrow> 'a pc"
  q_undefined :: bool
  q_pushed :: "'a list"
  q_popped :: "(nat \<times> 'a) list"

definition new_Queue :: "'a Queue" where
  "new_Queue = \<lparr>q_items = [], q_cancel_wait = False, q_pc = (\<lambda>t. Idle), q_undefined = False,
     q_pushed = [], q_popped = []\<rparr>"

definition set_pc :: "'a Queue \<Rightarrow> nat \<Rightarrow> 'a pc \<Rightarrow> 'a Queue" where
  "set_pc q t p = q\<lparr>q_pc := (q_pc q)(t := p)\<rparr>"

text \<open>
  \<open>signal\<close> and \<open>broadcast\<close>. The argument of \<open>signal\<close> is the waiting thread that the system picks,
  if one is waiting at all.
\<close>

definition wake :: "'a Queue \<Rightarrow> nat \<Rightarrow> 'a Queue" where
  "wake q t = (case q_pc q t of Waiting c \<Rightarrow> set_pc q t (Testing c) | _ \<Rightarrow> q)"

definition signal_ok :: "'a Queue \<Rightarrow> nat option \<Rightarrow> bool" where
  "signal_ok q w = (case w of Some t \<Rightarrow> \<exists>c. q_pc q t = Waiting c | None \<Rightarrow> \<forall>t c. q_pc q t \<noteq> Waiting c)"

definition signal :: "'a Queue \<Rightarrow> nat option \<Rightarrow> 'a Queue" where
  "signal q w = (case w of Some t \<Rightarrow> wake q t | None \<Rightarrow> q)"

definition broadcast :: "'a Queue \<Rightarrow> 'a Queue" where
  "broadcast q = q\<lparr>q_pc := (\<lambda>t. case q_pc q t of Waiting c \<Rightarrow> Testing c | p \<Rightarrow> p)\<rparr>"

definition push :: "'a Queue \<Rightarrow> 'a \<Rightarrow> nat option \<Rightarrow> 'a Queue" where
  "push q x w =
     (let q = q\<lparr>q_items := q_items q @ [x], q_pushed := q_pushed q @ [x]\<rparr>
      in if length (q_items q) = 1 then signal q w else q)"

text \<open>\<open>front\<close> and \<open>back\<close> from the test of the loop on; in \<open>pop\<close> what follows is the removal.\<close>

definition test :: "'a Queue \<Rightarrow> nat \<Rightarrow> call \<Rightarrow> 'a Queue" where
  "test q t c =
     (if q_items q = [] \<and> \<not> q_cancel_wait q then set_pc q t (Waiting c)
      else if q_items q = [] then set_pc q t (Returned None)
      else case c of
        Front \<Rightarrow> set_pc q t (Returned (Some (hd (q_items q))))
      | Back \<Rightarrow> set_pc q t (Returned (Some (last (q_items q))))
      | Pop \<Rightarrow> set_pc q t (Removing (hd (q_items q))))"

text \<open>The second section of \<open>pop\<close>; \<open>std::queue::pop\<close> of an empty queue is undefined.\<close>

definition remove :: "'a Queue \<Rightarrow> nat \<Rightarrow> 'a \<Rightarrow> 'a Queue" where
  "remove q t x =
     (if q_items q = [] then q\<lparr>q_undefined := True\<rparr>
      else set_pc (q\<lparr>q_items := tl (q_items q), q_popped := q_popped q @ [(t, x)]\<rparr>) t (Returned (Some x)))"

definition cancel_wait :: "'a Queue \<Rightarrow> 'a Queue" where
  "cancel_wait q = broadcast (q\<lparr>q_cancel_wait := True\<rparr>)"

definition queue_size :: "'a Queue \<Rightarrow> nat" where
  "queue_size q = length (q_items q)"

text \<open>The steps of any number of threads; \<open>pops\<close> tells which threads call \<open>pop\<close>.\<close>

inductive qstep :: "(nat \<Rightarrow> bool) \<Rightarrow> 'a Queue \<Rightarrow> 'a Queue \<Rightarrow> bool" for pops where
  step_push: "\<not> q_undefined q \<Longrightarrow> signal_ok q w \<Longrightarrow> qstep pops q (push q x w)"
| step_call: "\<not> q_undefined q \<Longrightarrow> q_pc q t = Idle \<Longrightarrow> c = Pop \<longrightarrow> pops t \<Longrightarrow> qstep pops q (set_pc q t (Testing c))"
| step_test: "\<not> q_undefined q \<Longrightarrow> q_pc q t = Testing c \<Longrightarrow> qstep pops q (test q t c)"
| step_remove: "\<not> q_undefined q \<Longrightarrow> q_pc q t = Removing x \<Longrightarrow> qstep pops q (remove q t x)"
| step_return: "\<not> q_undefined q \<Longrightarrow> q_pc q t = Returned r \<Longrightarrow> qstep pops q (set_pc q t Idle)"
| step_spurious: "\<not> q_undefined q \<Longrightarrow> q_pc q t = Waiting c \<Longrightarrow> qstep pops q (wake q t)"
| step_cancel: "\<not> q_undefined q \<Longrightarrow> qstep pops q (cancel_wait q)"

inductive reachable :: "(nat \<Rightarrow> bool) \<Rightarrow> 'a Queue \<Rightarrow> bool" for pops where
  reachable_new: "reachable pops new_Queue"
| reachable_step: "reachable pops q \<Longrightarrow> qstep pops q q' \<Longrightarrow> reachable pops q'"

inductive_cases qstepE: "qstep pops q q'"

section \<open>Invariants\<close>

text \<open>
  Only threads that call \<open>pop\<close> are about to remove; where one thread alone calls it, what it is
  about to remove is still at the front.
\<close>

definition queue_inv :: "nat \<Rightarrow> 'a Queue \<Rightarrow> bool" where
  "queue_inv consumer q \<longleftrightarrow>
     \<not> q_undefined q \<and>
     map snd (q_popped q) @ q_items q = q_pushed q \<and>
     (\<forall>t. t \<noteq> consumer \<longrightarrow> q_pc q t \<noteq> Testing Pop \<and> q_pc q t \<noteq> Waiting Pop \<and> (\<forall>x. q_pc q t \<noteq> Removing x)) \<and>
     (\<forall>x. q_pc q consumer = Removing x \<longrightarrow> q_items q \<noteq> [] \<and> hd (q_items q) = x)"

lemmas queue_defs = set_pc_def wake_def signal_def broadcast_def push_def test_def remove_def cancel_wait_def

lemma queue_inv_new: "queue_inv consumer new_Queue"
  by (simp add: queue_inv_def new_Queue_def)

lemma queue_inv_wake: "queue_inv consumer q \<Longrightarrow> queue_inv consumer (wake q t)"
  by (auto simp: queue_inv_def queue_defs split: pc.splits)

lemma queue_inv_push: "queue_inv consumer q \<Longrightarrow> queue_inv consumer (push q x w)"
proof -
  assume inv: "queue_inv consumer q"
  let ?q = "q\<lparr>q_items := q_items q @ [x], q_pushed := q_pushed q @ [x]\<rparr>"
  have "queue_inv consumer ?q"
    using inv by (auto simp: queue_inv_def)
  then show ?thesis
    using queue_inv_wake by (auto simp: push_def signal_def Let_def split: option.splits)
qed

lemma queue_inv_step:
  assumes "qstep (\<lambda>t. t = consumer) q q'" "queue_inv consumer q"
  shows "queue_inv consumer q'"
  using assms
proof (cases rule: qstep.cases)
  case (step_test t c)
  then show ?thesis
    using assms(2) by (cases c) (auto simp: queue_inv_def queue_defs)
next
  case (step_remove t x)
  then show ?thesis
    using assms(2) by (cases "q_items q") (auto simp: queue_inv_def queue_defs)
next
  case step_cancel
  then show ?thesis
    using assms(2) by (auto simp: queue_inv_def queue_defs split: pc.splits)
next
  case (step_push w x)
  then show ?thesis using queue_inv_push[OF assms(2)] by simp
next
  case (step_spurious t c)
  then show ?thesis using queue_inv_wake[OF assms(2)] by simp
qed (use assms(2) in \<open>auto simp: queue_inv_def set_pc_def\<close>)

lemma queue_inv_reachable: "reachable (\<lambda>t. t = consumer) q \<Longrightarrow> queue_inv consumer q"
  by (induction rule: reachable.induct) (auto intro: queue_inv_new queue_inv_step)

definition cancelled_inv :: "'a Queue \<Rightarrow> bool" where
  "cancelled_inv q \<longleftrightarrow> (q_cancel_wait q \<longrightarrow> (\<forall>t c. q_pc q t \<noteq> Waiting c))"

lemma cancelled_inv_step: "qstep pops q q' \<Longrightarrow> cancelled_inv q \<Longrightarrow> cancelled_inv q'"
  by (erule qstepE) (auto simp: cancelled_inv_def queue_defs Let_def split: pc.splits call.splits option.splits if_splits)

lemma cancelled_inv_reachable: "reachable pops q \<Longrightarrow> cancelled_inv q"
proof (induction rule: reachable.induct)
  case reachable_new
  then show ?case by (simp add: cancelled_inv_def new_Queue_def)
qed (rule cancelled_inv_step)

section \<open>Properties\<close>

text \<open>
  C10: queue_fifo. With one thread that calls \<open>pop\<close>, among any number that push, look,
  cancel and wake spuriously, the queue never pops an empty \<open>std::queue\<close>, and what
  \<open>pop\<close> has returned followed by what is queued is exactly what was pushed, in order.
\<close>

theorem queue_fifo:
  assumes "reachable (\<lambda>t. t = consumer) q"
  shows "\<not> q_undefined q \<and> map snd (q_popped q) @ q_items q = q_pushed q \<and>
    queue_size q = length (q_pushed q) - length (q_popped q)"
proof -
  have "map snd (q_popped q) @ q_items q = q_pushed q" "\<not> q_undefined q"
    using queue_inv_reachable[OF assms] by (auto simp: queue_inv_def)
  moreover from this have "length (q_pushed q) = length (q_popped q) + length (q_items q)"
    by (metis length_append length_map)
  ultimately show ?thesis by (simp add: queue_size_def)
qed

lemma run_push: "reachable pops q \<Longrightarrow> \<not> q_undefined q \<Longrightarrow> signal_ok q w \<Longrightarrow> reachable pops (push q x w)"
  and run_call: "reachable pops q \<Longrightarrow> \<not> q_undefined q \<Longrightarrow> q_pc q t = Idle \<Longrightarrow> pops t \<Longrightarrow> reachable pops (set_pc q t (Testing c))"
  and run_test: "reachable pops q \<Longrightarrow> \<not> q_undefined q \<Longrightarrow> q_pc q t = Testing c \<Longrightarrow> reachable pops (test q t c)"
  and run_remove: "reachable pops q \<Longrightarrow> \<not> q_undefined q \<Longrightarrow> q_pc q t = Removing x \<Longrightarrow> reachable pops (remove q t x)"
  and run_return: "reachable pops q \<Longrightarrow> \<not> q_undefined q \<Longrightarrow> q_pc q t = Returned r \<Longrightarrow> reachable pops (set_pc q t Idle)"
  by (blast intro: reachable_step qstep.intros)+

theorem queue_fifo_witness:
  "map snd (q_popped (remove (test (set_pc (push new_Queue (7 :: nat) None) 1 (Testing Pop)) 1 Pop) 1 7)) = [7]"
proof -
  let ?p = "\<lambda>t. t = (1 :: nat)"
  have a: "reachable ?p (push new_Queue (7 :: nat) None)"
    by (rule run_push[OF reachable_new]) (simp_all add: new_Queue_def signal_ok_def)
  have b: "reachable ?p (set_pc (push new_Queue (7 :: nat) None) 1 (Testing Pop))"
    by (rule run_call[OF a]) (simp_all add: new_Queue_def queue_defs)
  have c: "reachable ?p (test (set_pc (push new_Queue (7 :: nat) None) 1 (Testing Pop)) 1 Pop)"
    by (rule run_test[OF b]) (simp_all add: new_Queue_def queue_defs)
  have d: "reachable ?p (remove (test (set_pc (push new_Queue (7 :: nat) None) 1 (Testing Pop)) 1 Pop) 1 7)"
    by (rule run_remove[OF c]) (simp_all add: new_Queue_def queue_defs)
  show ?thesis
    using queue_fifo[OF d] by (simp add: new_Queue_def queue_defs)
qed

text \<open>
  C32: queue_cancel_releases. Once \<open>cancel_wait\<close> has been called no thread is left waiting,
  and a thread at the test of its loop leaves it, with an element or with an error.
\<close>

theorem queue_cancel_releases:
  assumes "reachable pops q" "q_cancel_wait q"
  shows "(\<forall>t c. q_pc q t \<noteq> Waiting c) \<and>
    (\<forall>t c. q_pc q t = Testing c \<longrightarrow>
       (case q_pc (test q t c) t of Returned r \<Rightarrow> (r = None) = (q_items q = []) | Removing x \<Rightarrow> c = Pop | _ \<Rightarrow> False))"
  using cancelled_inv_reachable[OF assms(1)] assms(2)
  by (auto simp: cancelled_inv_def test_def set_pc_def split: call.splits)

theorem queue_cancel_releases_witness:
  "q_pc (test (cancel_wait (test (set_pc (new_Queue :: nat Queue) 1 (Testing Pop)) 1 Pop)) 1 Pop) 1 = Returned None"
proof -
  let ?p = "\<lambda>t. t = (1 :: nat)"
  let ?w = "test (set_pc (new_Queue :: nat Queue) 1 (Testing Pop)) 1 Pop"
  have a: "reachable ?p (set_pc (new_Queue :: nat Queue) 1 (Testing Pop))"
    by (rule run_call[OF reachable_new]) (simp_all add: new_Queue_def)
  have b: "reachable ?p ?w"
    by (rule run_test[OF a]) (simp_all add: new_Queue_def queue_defs)
  have c: "reachable ?p (cancel_wait ?w)"
    using reachable_step[OF b step_cancel] by (simp add: new_Queue_def queue_defs)
  have "q_cancel_wait (cancel_wait ?w)" "q_pc (cancel_wait ?w) 1 = Testing Pop"
    by (simp_all add: new_Queue_def queue_defs)
  then show ?thesis
    using queue_cancel_releases[OF c] by (simp add: new_Queue_def queue_defs)
qed

text \<open>Two threads that call \<open>pop\<close>.\<close>

definition two_poppers :: "nat \<Rightarrow> bool" where
  "two_poppers t \<longleftrightarrow> t = 1 \<or> t = 2"

text \<open>
  Queue two consumers: With two threads that call \<open>pop\<close> the gap between its two sections
  shows: both can return the same element while another is lost, and both can see the one element there
  is, so that the later of them pops an empty \<open>std::queue\<close>.
\<close>

theorem queue_two_consumers:
  fixes x y :: 'a
  shows "(\<exists>q. reachable two_poppers q \<and> q_pushed q = [x, y] \<and> q_popped q = [(1, x), (2, x)] \<and> q_items q = []) \<and>
    (\<exists>q. reachable two_poppers q \<and> q_pushed q = [x] \<and> q_undefined q)"
proof -
  have p: "two_poppers 1" "two_poppers (Suc 0)" "two_poppers 2" by (simp_all add: two_poppers_def)
  have race: "reachable two_poppers (test (test (set_pc (set_pc q 1 (Testing Pop)) 2 (Testing Pop)) 1 Pop) 2 Pop)"
    if q: "reachable two_poppers q" "\<not> q_undefined q" "q_pc q = (\<lambda>t. Idle)" "q_items q \<noteq> []" for q :: "'a Queue"
  proof -
    have a: "reachable two_poppers (set_pc q 1 (Testing Pop))"
      by (rule run_call) (use q p in simp_all)
    have b: "reachable two_poppers (set_pc (set_pc q 1 (Testing Pop)) 2 (Testing Pop))"
      by (rule run_call[OF a]) (use q p in \<open>simp_all add: set_pc_def\<close>)
    have c: "reachable two_poppers (test (set_pc (set_pc q 1 (Testing Pop)) 2 (Testing Pop)) 1 Pop)"
      by (rule run_test[OF b]) (use q in \<open>simp_all add: set_pc_def\<close>)
    show ?thesis
      by (rule run_test[OF c]) (use q in \<open>simp_all add: set_pc_def test_def\<close>)
  qed
  have both: "reachable two_poppers (remove (remove (test (test (set_pc (set_pc q 1 (Testing Pop)) 2 (Testing Pop)) 1 Pop) 2 Pop) 1 (hd (q_items q))) 2 (hd (q_items q)))"
    if q: "reachable two_poppers q" "\<not> q_undefined q" "q_pc q = (\<lambda>t. Idle)" "q_items q \<noteq> []" for q :: "'a Queue"
  proof -
    have a: "reachable two_poppers (remove (test (test (set_pc (set_pc q 1 (Testing Pop)) 2 (Testing Pop)) 1 Pop) 2 Pop) 1 (hd (q_items q)))"
      by (rule run_remove[OF race[OF q]]) (use q in \<open>simp_all add: set_pc_def test_def\<close>)
    show ?thesis
      by (rule run_remove[OF a]) (use q in \<open>simp_all add: set_pc_def test_def remove_def\<close>)
  qed
  have one: "reachable two_poppers (push new_Queue x None)"
    by (rule run_push[OF reachable_new]) (simp_all add: new_Queue_def signal_ok_def)
  have two: "reachable two_poppers (push (push new_Queue x None) y None)"
    by (rule run_push[OF one]) (simp_all add: new_Queue_def signal_ok_def queue_defs)
  have "\<exists>q. reachable two_poppers q \<and> q_pushed q = [x, y] \<and> q_popped q = [(1, x), (2, x)] \<and> q_items q = []"
    by (rule exI, rule conjI, rule both[OF two]) (simp_all add: new_Queue_def queue_defs)
  moreover have "\<exists>q. reachable two_poppers q \<and> q_pushed q = [x] \<and> q_undefined q"
    by (rule exI, rule conjI, rule both[OF one]) (simp_all add: new_Queue_def queue_defs)
  ultimately show ?thesis by blast
qed

text \<open>
  Queue lost wakeup: \<open>push\<close> signals only when it makes the queue non-empty: with two
  threads waiting and two elements pushed in a row one of them is woken, and a state is reachable in
  which an element is queued, a thread waits for one, and no wake-up is under way.
\<close>

theorem queue_lost_wakeup:
  fixes x y :: 'a
  shows "\<exists>q. reachable two_poppers q \<and> q_items q = [y] \<and> q_pc q = (\<lambda>t. Idle)(2 := Waiting Pop)"
proof -
  have p: "two_poppers 1" "two_poppers (Suc 0)" "two_poppers 2" by (simp_all add: two_poppers_def)
  define q0 where "q0 = set_pc (new_Queue :: 'a Queue) 1 (Testing Pop)"
  have r0: "reachable two_poppers q0" unfolding q0_def by (rule run_call[OF reachable_new]) (simp_all add: p new_Queue_def)
  define q1 where "q1 = set_pc q0 2 (Testing Pop)"
  have r1: "reachable two_poppers q1" unfolding q1_def by (rule run_call[OF r0]) (simp_all add: p q0_def new_Queue_def set_pc_def)
  define q2 where "q2 = test q1 1 Pop"
  have r2: "reachable two_poppers q2" unfolding q2_def by (rule run_test[OF r1]) (simp_all add: q1_def q0_def new_Queue_def set_pc_def)
  note d2 = q2_def q1_def q0_def new_Queue_def queue_defs
  define q3 where "q3 = test q2 2 Pop"
  have r3: "reachable two_poppers q3" unfolding q3_def by (rule run_test[OF r2]) (simp_all add: d2)
  define q4 where "q4 = push q3 x (Some 1)"
  have r4: "reachable two_poppers q4" unfolding q4_def by (rule run_push[OF r3]) (simp_all add: q3_def d2 signal_ok_def)
  define q5 where "q5 = push q4 y (Some 2)"
  have r5: "reachable two_poppers q5" unfolding q5_def by (rule run_push[OF r4]) (simp_all add: q4_def q3_def d2 signal_ok_def)
  define q6 where "q6 = test q5 1 Pop"
  have r6: "reachable two_poppers q6" unfolding q6_def by (rule run_test[OF r5]) (simp_all add: q5_def q4_def q3_def d2)
  define q7 where "q7 = remove q6 1 x"
  have r7: "reachable two_poppers q7" unfolding q7_def by (rule run_remove[OF r6]) (simp_all add: q6_def q5_def q4_def q3_def d2)
  have "reachable two_poppers (set_pc q7 1 Idle)"
    by (rule run_return[OF r7]) (simp_all add: q7_def q6_def q5_def q4_def q3_def d2)
  then show ?thesis
    by (rule exI[of _ "set_pc q7 1 Idle", OF conjI]) (simp_all add: fun_eq_iff q7_def q6_def q5_def q4_def q3_def d2)
qed

end
