(* ===== verification/Config.thy ===== *)
theory Config
  imports Text
begin

text \<open>
  The configuration (\<open>xconfig.cc\<close>): typed items with their checks, the line syntax of the file and
  its loader, and the operations with their update callbacks. The callbacks of a change are
  appended to a log. A null or overrun pointer is \<open>None\<close>: the character arrays of the parser hold
  256 (128 in the checks) bytes and nothing guards them. The locale \<open>settings\<close> is what a user of
  \<open>Config\<close> relies on. The thread that watches the file only calls \<open>load\<close> again.
\<close>

section \<open>Items\<close>

datatype ConfigType = INTEGER | BOOL | STRING | ENUM | UNKNOWN

record ConfigItem =
  ci_name :: "string option"
  ci_value :: "string option"
  ci_type :: ConfigType
  ci_def :: "string option"
  ci_range :: "string option"
  ci_note :: "string option"

text \<open>\<open>!strncasecmp(s, t, length t)\<close>.\<close>

definition strncaseeq :: "string \<Rightarrow> string \<Rightarrow> bool" where
  "strncaseeq s t \<longleftrightarrow> strcaseeq (take (length t) s) t"

definition str2type :: "string option \<Rightarrow> ConfigType" where
  "str2type typestr =
     (case typestr of None \<Rightarrow> UNKNOWN
      | Some s \<Rightarrow> if strncaseeq s ''INTEGER'' then INTEGER
          else if strncaseeq s ''BOOL'' then BOOL
          else if strncaseeq s ''STRING'' then STRING
          else if strncaseeq s ''ENUM'' then ENUM
          else UNKNOWN)"

fun type2str :: "ConfigType \<Rightarrow> string" where
  "type2str INTEGER = ''INTEGER''"
| "type2str BOOL = ''BOOL''"
| "type2str STRING = ''STRING''"
| "type2str ENUM = ''ENUM''"
| "type2str UNKNOWN = ''UNKNOWN''"

text \<open>Copying a run of characters into an array that has room for \<open>n\<close> and the terminator.\<close>

definition copy_while :: "nat \<Rightarrow> (char \<Rightarrow> bool) \<Rightarrow> string \<Rightarrow> (string \<times> string) option" where
  "copy_while n P s =
     (if length (takeWhile P s) \<le> n then Some (takeWhile P s, dropWhile P s) else None)"

definition check_integer :: "string option \<Rightarrow> string option \<Rightarrow> bool option" where
  "check_integer val rng =
     (case rng of None \<Rightarrow> Some True
      | Some r0 \<Rightarrow>
          (let r0 = skip_blank r0 in
           if r0 = [] then Some False
           else do {
             (r1, r) \<leftarrow> copy_while 127 (\<lambda>c. \<not> isspace c \<and> c \<noteq> CHR ''~'') r0;
             if r1 = [] then Some False
             else case find_char (CHR ''~'') r of
               None \<Rightarrow> Some False
             | Some i \<Rightarrow>
                 (let r = skip_blank (drop (i + 1) r) in
                  if r = [] then Some False
                  else do {
                    (r2, r) \<leftarrow> copy_while 127 (\<lambda>c. \<not> isspace c) r;
                    v \<leftarrow> val;
                    Some (strtol10 v \<ge> strtol10 r1 \<and> strtol10 v \<le> strtol10 r2) }) }))"

definition check_bool :: "string option \<Rightarrow> bool" where
  "check_bool val = (case val of None \<Rightarrow> False | Some v \<Rightarrow> strncaseeq v ''true'' \<or> strncaseeq v ''false'')"

definition check_string :: "string option \<Rightarrow> bool" where
  "check_string val = (case val of None \<Rightarrow> False | Some v \<Rightarrow> v \<noteq> [])"

text \<open>The candidates of an enumeration; \<open>n\<close> places of the array are free.\<close>

definition enum_char :: "char \<Rightarrow> bool" where
  "enum_char c \<longleftrightarrow> \<not> isspace c \<and> c \<noteq> CHR '',''"

lemma enum_shrinks:
  assumes "skip_blank r \<noteq> []"
  defines "s \<equiv> dropWhile enum_char (skip_blank r)"
  shows "s = CHR '','' # x \<Longrightarrow> length x < length r" "s = [] \<or> hd s \<noteq> CHR '','' \<Longrightarrow> length (skip_blank s) < length r"
proof -
  have r: "length (skip_blank r) \<le> length r" by (simp add: skip_blank_def length_dropWhile_le)
  have s: "length s \<le> length (skip_blank r)" unfolding s_def by (rule length_dropWhile_le)
  show "s = CHR '','' # x \<Longrightarrow> length x < length r" using r s by simp
  assume stop: "s = [] \<or> hd s \<noteq> CHR '',''"
  obtain c cs where c: "skip_blank r = c # cs" using assms(1) by (cases "skip_blank r") auto
  have "\<not> isspace c" using c by (simp add: skip_blank_def dropWhile_eq_Cons_conv)
  with stop c have "enum_char c" by (auto simp: s_def enum_char_def)
  then have "s = dropWhile enum_char cs" by (simp add: s_def c)
  then have "length s \<le> length cs" by (simp add: length_dropWhile_le)
  moreover have "length (skip_blank s) \<le> length s" by (simp add: skip_blank_def length_dropWhile_le)
  ultimately show "length (skip_blank s) < length r" using r c by simp
qed

function enum_candidates :: "nat \<Rightarrow> string \<Rightarrow> string list option" where
  "enum_candidates n r =
     (let s0 = skip_blank r in
      if s0 = [] then Some []
      else if n = 0 \<or> length (takeWhile enum_char s0) > 127 then None
      else
        (case dropWhile enum_char s0 of
           [] \<Rightarrow> Some [takeWhile enum_char s0]
         | c # x \<Rightarrow>
             map_option ((#) (takeWhile enum_char s0))
               (if c = CHR '','' then (if x = [] then Some [] else enum_candidates (n - 1) x)
                else if skip_blank (c # x) = [] then Some []
                else enum_candidates (n - 1) (skip_blank (c # x)))))"
  by pat_completeness auto

termination
  using enum_shrinks by (relation "measure (length \<circ> snd)") (auto, metis list.sel(1))

declare enum_candidates.simps [simp del]

definition check_enum :: "string option \<Rightarrow> string option \<Rightarrow> bool option" where
  "check_enum val rng = do {
     r \<leftarrow> rng;
     cs \<leftarrow> enum_candidates 128 r;
     if cs = [] then Some False
     else do { v \<leftarrow> val; Some (list_ex (\<lambda>c. strcaseeq c v) cs) } }"

definition is_valid :: "ConfigItem \<Rightarrow> bool option" where
  "is_valid i =
     (case ci_type i of
        INTEGER \<Rightarrow> check_integer (ci_value i) (ci_range i)
      | BOOL \<Rightarrow> Some (check_bool (ci_value i))
      | STRING \<Rightarrow> Some (check_string (ci_value i))
      | ENUM \<Rightarrow> check_enum (ci_value i) (ci_range i)
      | UNKNOWN \<Rightarrow> Some (ci_def i = None \<and> ci_range i = None))"

definition new_item ::
  "string option \<Rightarrow> string option \<Rightarrow> string option \<Rightarrow> string option \<Rightarrow> string option \<Rightarrow> string option \<Rightarrow> ConfigItem" where
  "new_item name val typestr def rng note =
     \<lparr>ci_name = name, ci_value = val, ci_type = str2type typestr, ci_def = def, ci_range = rng, ci_note = note\<rparr>"

section \<open>The line syntax\<close>

text \<open>\<open>is_delime\<close> steps over a backslash; the second component is the pointer after the call.\<close>

fun is_delime :: "string \<Rightarrow> bool \<times> string" where
  "is_delime [] = (False, [])"
| "is_delime (c # s) =
     (if c = CHR 0x5C then (False, s) else (isspace c \<or> c = CHR '':'' \<or> c = CHR ''='', c # s))"

text \<open>
  \<open>for (pdst = t; *pline && !is_delime(pline); ++pline) *pdst++ = *pline;\<close> A backslash at the end of
  the line makes the loop copy the terminator and run on behind it.
\<close>

fun take_token :: "nat \<Rightarrow> string \<Rightarrow> (string \<times> string) option" where
  "take_token n [] = Some ([], [])"
| "take_token n (c # s) =
     (if c = CHR 0x5C then
        (case s of [] \<Rightarrow> None
         | d # r \<Rightarrow> if n = 0 then None else map_option (apfst ((#) d)) (take_token (n - 1) r))
      else if fst (is_delime (c # s)) then Some ([], c # s)
      else if n = 0 then None else map_option (apfst ((#) c)) (take_token (n - 1) s))"

fun skip_delims :: "string \<Rightarrow> string" where
  "skip_delims [] = []"
| "skip_delims (c # s) =
     (if c = CHR 0x5C then s else if fst (is_delime (c # s)) then skip_delims s else c # s)"

text \<open>\<open>strchr(p, c)\<close>, giving what starts at the character found.\<close>

definition after_chr :: "string \<Rightarrow> char \<Rightarrow> string option" where
  "after_chr s c = map_option (\<lambda>i. drop i s) (find_char c s)"

text \<open>The text from behind an opening bracket up to the closing one, and the rest from there.\<close>

definition bracketed :: "string \<Rightarrow> char \<Rightarrow> (string \<times> string) option" where
  "bracketed s close = copy_while 255 (\<lambda>c. c \<noteq> close) (drop 1 s)"

datatype line =
    Blank
  | Note string
  | Item string string string string string
  | Skip string

definition scan_range :: "string \<Rightarrow> string \<Rightarrow> string \<Rightarrow> string \<Rightarrow> string option \<Rightarrow> line option" where
  "scan_range name val typ def p =
     (if strncaseeq typ ''INTEGER'' \<or> strncaseeq typ ''ENUM'' then
        (case p of None \<Rightarrow> None
         | Some p \<Rightarrow>
             (case after_chr p (CHR ''{'') of
                None \<Rightarrow> (if typ \<noteq> [] \<and> toupper (hd typ) = CHR ''I'' then Some (Item name val typ def []) else Some (Skip name))
              | Some q \<Rightarrow> do {
                  (rng, q) \<leftarrow> bracketed q (CHR ''}'');
                  Some (if q = [] then Skip name else Item name val typ def rng) }))
      else Some (Item name val typ def []))"

definition scan_spec :: "string \<Rightarrow> string \<Rightarrow> string \<Rightarrow> line option" where
  "scan_spec name val p =
     (case after_chr p (CHR ''#'') of
        None \<Rightarrow> Some (Item name val [] [] [])
      | Some p \<Rightarrow>
          (case after_chr (drop 1 p) (CHR ''<'') of
             None \<Rightarrow> Some (Skip name)
           | Some p \<Rightarrow> do {
               (typ, p) \<leftarrow> bracketed p (CHR ''>'');
               if p = [] then Some (Skip name)
               else case after_chr (drop 1 p) (CHR ''['') of
                 None \<Rightarrow> scan_range name val typ [] None
               | Some p \<Rightarrow> do {
                   (def, p) \<leftarrow> bracketed p (CHR '']'');
                   if p = [] then Some (Skip name) else scan_range name val typ def (Some p) } }))"

text \<open>The note of a comment: without the hash, and without blanks at both ends.\<close>

definition comment_note :: "string \<Rightarrow> string" where
  "comment_note p = skip_blank (drop 1 (rev (dropWhile isspace (rev p))))"

definition scan_line :: "string \<Rightarrow> line option" where
  "scan_line l =
     (let p = skip_blank l in
      if p = [] then Some Blank
      else if hd p = CHR ''#'' then Some (Note (comment_note p))
      else do {
        (name, p) \<leftarrow> take_token 255 p;
        (val, p) \<leftarrow> take_token 255 (skip_delims p);
        if val = [] then Some (Skip name) else scan_spec name val p })"

section \<open>The configuration\<close>

text \<open>A callback is a number with its user data, in the order of the map; the log has one entry per call.\<close>

type_synonym notice = "nat \<times> nat \<times> string \<times> string option"

record Config =
  m_map :: "string \<rightharpoonup> ConfigItem"
  m_reg :: "string set"
  m_cb_map :: "(nat \<times> nat) list"
  m_path :: string
  m_log :: "notice list"

definition new_Config :: Config where
  "new_Config = \<lparr>m_map = Map.empty, m_reg = {}, m_cb_map = [], m_path = [], m_log = []\<rparr>"

definition notify :: "Config \<Rightarrow> string \<Rightarrow> string option \<Rightarrow> Config" where
  "notify c name val = c\<lparr>m_log := m_log c @ map (\<lambda>(cb, user). (cb, user, name, val)) (m_cb_map c)\<rparr>"

definition has_config :: "Config \<Rightarrow> string option \<Rightarrow> bool" where
  "has_config c conf_name = (case conf_name of None \<Rightarrow> False | Some n \<Rightarrow> m_map c n \<noteq> None)"

definition get_config :: "Config \<Rightarrow> string option \<Rightarrow> string option" where
  "get_config c conf_name =
     (case conf_name of None \<Rightarrow> None
      | Some n \<Rightarrow> (case m_map c n of None \<Rightarrow> None | Some i \<Rightarrow> ci_value i))"

definition set_config :: "Config \<Rightarrow> string option \<Rightarrow> string option \<Rightarrow> string option \<Rightarrow> (int \<times> Config) option" where
  "set_config c conf_name conf_value note =
     (case conf_name of None \<Rightarrow> Some (- 1, c)
      | Some n \<Rightarrow>
          (case m_map c n of None \<Rightarrow> Some (- 1, c)
           | Some item \<Rightarrow> do {
               c \<leftarrow>
                 (if m_cb_map c = [] then Some c
                  else do {
                    v \<leftarrow> conf_value; old \<leftarrow> ci_value item;
                    Some (if v \<noteq> old \<and> n \<in> m_reg c then notify c n conf_value else c) });
               Some (0, c\<lparr>m_map := (m_map c)(n \<mapsto> item\<lparr>ci_value := conf_value, ci_note := note\<rparr>)\<rparr>) }))"

definition add_config ::
  "Config \<Rightarrow> string option \<Rightarrow> string option \<Rightarrow> string option \<Rightarrow> ConfigType \<Rightarrow> string option \<Rightarrow> string option \<Rightarrow> (int \<times> Config) option" where
  "add_config c conf_name conf_value note typ def rng =
     (if has_config c conf_name then Some (- 1, c)
      else do {
        let item = new_item conf_name conf_value (Some (type2str typ)) def rng note;
        ok \<leftarrow> is_valid item;
        if \<not> ok then Some (- 1, c)
        else do { n \<leftarrow> conf_name; Some (0, c\<lparr>m_map := (m_map c)(n \<mapsto> item)\<rparr>) } })"

definition del_config :: "Config \<Rightarrow> string option \<Rightarrow> int \<times> Config" where
  "del_config c conf_name =
     (case conf_name of None \<Rightarrow> (- 1, c)
      | Some n \<Rightarrow>
          (case m_map c n of None \<Rightarrow> (- 1, c)
           | Some item \<Rightarrow>
               (let c = (if m_cb_map c \<noteq> [] \<and> n \<in> m_reg c then (notify c n None)\<lparr>m_reg := m_reg c - {n}\<rparr> else c)
                in (0, c\<lparr>m_map := (m_map c)(n := None)\<rparr>))))"

definition register_config_update_cb :: "Config \<Rightarrow> nat \<Rightarrow> nat \<Rightarrow> int \<times> Config" where
  "register_config_update_cb c cb user =
     (0, c\<lparr>m_cb_map := filter (\<lambda>(k, u). k < cb) (m_cb_map c) @ [(cb, user)] @ filter (\<lambda>(k, u). k > cb) (m_cb_map c)\<rparr>)"

definition register_config :: "Config \<Rightarrow> string option \<Rightarrow> int \<times> Config" where
  "register_config c conf_name =
     (if \<not> has_config c conf_name then (- 1, c) else (0, c\<lparr>m_reg := insert (the conf_name) (m_reg c)\<rparr>))"

definition unregister_config :: "Config \<Rightarrow> string option \<Rightarrow> int \<times> Config" where
  "unregister_config c conf_name =
     (if \<not> has_config c conf_name then (- 1, c) else (0, c\<lparr>m_reg := m_reg c - {the conf_name}\<rparr>))"

definition register_all :: "Config \<Rightarrow> int \<times> Config" where
  "register_all c = (0, c\<lparr>m_reg := m_reg c \<union> dom (m_map c)\<rparr>)"

definition unregister_all :: "Config \<Rightarrow> int \<times> Config" where
  "unregister_all c = (0, c\<lparr>m_reg := {}\<rparr>)"

text \<open>One line of the file; \<open>note\<close> is the comment kept for the next item.\<close>

definition opt :: "string \<Rightarrow> string option" where
  "opt s = (if s = [] then None else Some s)"

definition load_item :: "Config \<Rightarrow> string \<Rightarrow> string \<Rightarrow> string \<Rightarrow> string \<Rightarrow> string \<Rightarrow> string \<Rightarrow> Config option" where
  "load_item c note name val typ def rng = do {
     let item = new_item (Some name) (Some val) (opt typ) (opt def) (opt rng) (opt note);
     ok \<leftarrow> is_valid item;
     if \<not> ok then Some c
     else do {
       c \<leftarrow>
         (case m_map c name of None \<Rightarrow> Some c
          | Some old \<Rightarrow>
              if m_cb_map c \<noteq> [] \<and> name \<in> m_reg c then do {
                v \<leftarrow> ci_value old;
                Some (if v \<noteq> val then notify c name (Some val) else c) }
              else Some c);
       Some (c\<lparr>m_map := (m_map c)(name \<mapsto> item)\<rparr>) } }"

fun load_lines :: "Config \<Rightarrow> string \<Rightarrow> string list \<Rightarrow> Config option" where
  "load_lines c note [] = Some c"
| "load_lines c note (l # ls) = do {
     r \<leftarrow> scan_line l;
     case r of
       Blank \<Rightarrow> load_lines c note ls
     | Note n \<Rightarrow> load_lines c n ls
     | Skip name \<Rightarrow> load_lines c [] ls
     | Item name val typ def rng \<Rightarrow> do { c \<leftarrow> load_item c note name val typ def rng; load_lines c [] ls } }"

text \<open>
  \<open>load\<close>: \<open>config_path\<close> after \<open>ABS_PATH\<close>, and the lines \<open>fgets\<close> returns, \<open>None\<close> where the file
  does not open.
\<close>

definition load :: "Config \<Rightarrow> string \<Rightarrow> string list option \<Rightarrow> (int \<times> Config) option" where
  "load c config_path file = do {
     let c = c\<lparr>m_path := config_path\<rparr>;
     case file of None \<Rightarrow> Some (- 1, c)
     | Some lines \<Rightarrow> map_option (\<lambda>c. (0, c)) (load_lines c [] lines) }"

text \<open>The access macros; a missing item stops the program in \<open>assert\<close>.\<close>

definition GET_CONFIG_INT :: "Config \<Rightarrow> string \<Rightarrow> int option" where
  "GET_CONFIG_INT c x = map_option atoi (get_config c (Some x))"

definition GET_CONFIG_BOOL :: "Config \<Rightarrow> string \<Rightarrow> bool option" where
  "GET_CONFIG_BOOL c x = map_option (\<lambda>s. strncaseeq s ''true'') (get_config c (Some x))"

definition GET_CONFIG_STRING :: "Config \<Rightarrow> string \<Rightarrow> string option" where
  "GET_CONFIG_STRING c x = get_config c (Some x)"

text \<open>
  One \<open>read\<close> of the monitor thread: the events it returned, and the file as it is by then. The
  results are whether the thread goes on, the watch and the configuration.
\<close>

record inotify_event =
  ev_wd :: int
  ev_mask :: "32 word"

abbreviation IN_IGNORED :: "32 word" where "IN_IGNORED \<equiv> 0x8000"

definition monitor_events :: "Config \<Rightarrow> int \<Rightarrow> inotify_event list \<Rightarrow> string list option \<Rightarrow> (bool \<times> int \<times> Config) option" where
  "monitor_events c wd evs file =
     (case find (\<lambda>ev. ev_wd ev = wd) evs of
        None \<Rightarrow> Some (True, wd, c)
      | Some ev \<Rightarrow>
          if ev_mask ev AND IN_IGNORED \<noteq> 0 then Some (True, - 1, c)
          else map_option (\<lambda>(r, c). (0 \<le> r, wd, c)) (load c (m_path c) file))"

definition create_config :: "string \<Rightarrow> string list option \<Rightarrow> Config option option" where
  "create_config config_path file =
     map_option (\<lambda>(r, c). if r < 0 then None else Some c) (load new_Config config_path file)"

section \<open>Runs of operations\<close>

datatype conf_op =
    Load string "string list option"
  | Set "string option" "string option" "string option"
  | Add "string option" "string option" "string option" ConfigType "string option" "string option"
  | Del "string option"
  | RegisterCb nat nat
  | Register "string option"
  | Unregister "string option"
  | RegisterAll
  | UnregisterAll

fun conf_step :: "Config \<Rightarrow> conf_op \<Rightarrow> (int \<times> Config) option" where
  "conf_step c (Load p f) = load c p f"
| "conf_step c (Set n v t) = set_config c n v t"
| "conf_step c (Add n v t ty d r) = add_config c n v t ty d r"
| "conf_step c (Del n) = Some (del_config c n)"
| "conf_step c (RegisterCb cb u) = Some (register_config_update_cb c cb u)"
| "conf_step c (Register n) = Some (register_config c n)"
| "conf_step c (Unregister n) = Some (unregister_config c n)"
| "conf_step c RegisterAll = Some (register_all c)"
| "conf_step c UnregisterAll = Some (unregister_all c)"

fun conf_run :: "Config \<Rightarrow> conf_op list \<Rightarrow> Config option" where
  "conf_run c [] = Some c"
| "conf_run c (op # ops) = do { (r, c) \<leftarrow> conf_step c op; conf_run c ops }"

lemmas conf_defs = set_config_def add_config_def del_config_def register_config_update_cb_def
  register_config_def unregister_config_def register_all_def unregister_all_def

lemmas conf_splits = option.splits if_splits prod.splits line.splits bind_splits

text \<open>A relation between configurations that every accepted line keeps is kept by \<open>load\<close>.\<close>

lemma load_lines_induct:
  assumes step: "\<And>c nt n v ty d r c'. P c \<Longrightarrow> load_item c nt n v ty d r = Some c' \<Longrightarrow> P c'"
  shows "load_lines c nt ls = Some c' \<Longrightarrow> P c \<Longrightarrow> P c'"
proof (induction c nt ls rule: load_lines.induct)
  case (2 c nt l ls)
  from 2(5) obtain x where x: "scan_line l = Some x" by (auto split: bind_splits)
  show ?case
  proof (cases x)
    case (Item n v ty d r)
    with 2(5) x obtain c1 where c1: "load_item c nt n v ty d r = Some c1" "load_lines c1 [] ls = Some c'"
      by (auto split: bind_splits)
    show ?thesis by (rule 2(3)[OF x Item c1 step[OF 2(6) c1(1)]])
  qed (use 2 x in simp_all)
qed simp

lemma load_keeps:
  assumes "load c p f = Some (r, c')" "P (c\<lparr>m_path := p\<rparr>)"
    and "\<And>c nt n v ty d r c'. P c \<Longrightarrow> load_item c nt n v ty d r = Some c' \<Longrightarrow> P c'"
  shows "P c'"
proof (cases f)
  case None
  then show ?thesis using assms(1,2) by (simp add: load_def)
next
  case (Some ls)
  then have "load_lines (c\<lparr>m_path := p\<rparr>) [] ls = Some c'" using assms(1) by (auto simp: load_def)
  then show ?thesis using load_lines_induct[of P] assms(2,3) by blast
qed

section \<open>Items stay valid\<close>

definition items_ok :: "Config \<Rightarrow> bool" where
  "items_ok c \<longleftrightarrow> (\<forall>n i. m_map c n = Some i \<longrightarrow> ci_name i = Some n \<and> is_valid i = Some True)"

fun is_set :: "conf_op \<Rightarrow> bool" where
  "is_set (Set n v t) = True" | "is_set _ = False"

lemma notify_simps [simp]:
  "m_map (notify c n v) = m_map c" "m_reg (notify c n v) = m_reg c" "m_cb_map (notify c n v) = m_cb_map c"
  by (simp_all add: notify_def)

lemma items_ok_cong: "m_map c' = m_map c \<Longrightarrow> items_ok c' = items_ok c"
  by (simp add: items_ok_def)

lemma items_ok_upd:
  "items_ok c \<Longrightarrow> ci_name i = Some n \<Longrightarrow> is_valid i = Some True \<Longrightarrow> m_map c' = (m_map c)(n \<mapsto> i) \<Longrightarrow> items_ok c'"
  by (simp add: items_ok_def)

lemma load_item_map:
  assumes "load_item c nt n v ty d r = Some c'"
  defines "i \<equiv> new_item (Some n) (Some v) (opt ty) (opt d) (opt r) (opt nt)"
  shows "(c' = c \<and> is_valid i = Some False) \<or>
    (is_valid i = Some True \<and> m_map c' = (m_map c)(n \<mapsto> i) \<and> m_reg c' = m_reg c \<and> m_cb_map c' = m_cb_map c)"
  using assms(1) unfolding load_item_def Let_def i_def[symmetric]
  by (cases "is_valid i"; cases "m_map c n") (auto split: if_splits bind_splits)

lemma new_item_name: "ci_name (new_item n v ty d r t) = n"
  by (simp add: new_item_def)

lemma load_item_ok: "items_ok c \<Longrightarrow> load_item c nt n v ty d r = Some c' \<Longrightarrow> items_ok c'"
  using load_item_map[of c nt n v ty d r c'] items_ok_upd[OF _ new_item_name, of c n _ _ _ _ _ c'] by blast

lemma add_config_map:
  assumes "add_config c n v t ty d r = Some (k, c')"
  defines "i \<equiv> new_item n v (Some (type2str ty)) d r t"
  shows "(c' = c \<and> k = - 1) \<or> (\<exists>x. n = Some x \<and> m_map c x = None \<and> is_valid i = Some True \<and> k = 0 \<and>
    c' = c\<lparr>m_map := (m_map c)(x \<mapsto> i)\<rparr>)"
  using assms(1) unfolding add_config_def Let_def i_def[symmetric]
  by (cases "is_valid i"; cases n) (auto simp: has_config_def split: if_splits)

lemma conf_step_items:
  assumes "items_ok c" "conf_step c op = Some (r, c')" "\<not> is_set op"
  shows "items_ok c'"
proof (cases op)
  case (Load p f)
  have "items_ok (c\<lparr>m_path := p\<rparr>)" using assms(1) by (simp add: items_ok_def)
  then show ?thesis using load_keeps[of c p f r c' items_ok] load_item_ok assms(2) Load by auto
next
  case (Add n v t ty d rg)
  with assms(2) have "add_config c n v t ty d rg = Some (r, c')" by simp
  from add_config_map[OF this] show ?thesis
  proof (elim disjE exE conjE)
    fix x
    assume n: "n = Some x" and ok: "is_valid (new_item n v (Some (type2str ty)) d rg t) = Some True"
      and c': "c' = c\<lparr>m_map := (m_map c)(x \<mapsto> new_item n v (Some (type2str ty)) d rg t)\<rparr>"
    show ?thesis by (rule items_ok_upd[OF assms(1) _ ok]) (simp_all add: c' n new_item_name)
  qed (use assms(1) in simp)
next
  case (Del n)
  then show ?thesis using assms by (auto simp: del_config_def items_ok_def Let_def split: option.splits if_splits)
qed (use assms in \<open>auto simp: items_ok_def register_config_update_cb_def
  register_config_def unregister_config_def register_all_def unregister_all_def split: if_splits\<close>)

lemma conf_run_items:
  "conf_run c ops = Some c' \<Longrightarrow> items_ok c \<Longrightarrow> \<forall>op\<in>set ops. \<not> is_set op \<Longrightarrow> items_ok c'"
  by (induction c ops rule: conf_run.induct) (auto split: bind_splits dest: conf_step_items)

text \<open>
  C8: config_items_valid. Whatever is loaded, added, deleted and registered, in any order, every item of
  the configuration is stored under its own name and passes the check of its type.
\<close>

theorem config_items_valid:
  assumes "conf_run new_Config ops = Some c" "\<forall>op\<in>set ops. \<not> is_set op" "m_map c n = Some i"
  shows "ci_name i = Some n \<and> is_valid i = Some True"
  using conf_run_items[OF assms(1) _ assms(2)] assms(3) by (simp add: items_ok_def new_Config_def)

section \<open>Listeners\<close>

text \<open>What a callback that keeps a copy of the values makes of the notices it gets.\<close>

fun replay :: "nat \<Rightarrow> (string \<Rightarrow> string option) \<Rightarrow> notice list \<Rightarrow> (string \<Rightarrow> string option)" where
  "replay cb view [] = view"
| "replay cb view ((k, u, n, v) # l) = replay cb (if k = cb then view(n := v) else view) l"

lemma replay_append: "replay cb view (l @ l') = replay cb (replay cb view l) l'"
  by (induction cb view l rule: replay.induct) auto

lemma replay_notify:
  "replay cb view (map (\<lambda>(k, u). (k, u, n, v)) cbs) = (if cb \<in> fst ` set cbs then view(n := v) else view)"
  by (induction cbs arbitrary: view) (auto split: prod.splits)

text \<open>The listener started from \<open>view\<close> when the log was \<open>l\<close>.\<close>

definition in_sync :: "nat \<Rightarrow> (string \<Rightarrow> string option) \<Rightarrow> notice list \<Rightarrow> Config \<Rightarrow> bool" where
  "in_sync cb view l c \<longleftrightarrow> cb \<in> fst ` set (m_cb_map c) \<and> m_reg c \<subseteq> dom (m_map c) \<and>
     (\<exists>l'. m_log c = l @ l' \<and> (\<forall>n\<in>m_reg c. replay cb view l' n = get_config c (Some n)))"

lemma in_sync_notify:
  assumes "in_sync cb view l c" "n \<in> m_reg c" "m_map c' = (m_map c)(n \<mapsto> i)" "ci_value i = v"
    and "m_log c' = m_log (notify c n v)" "m_reg c' = m_reg c" "m_cb_map c' = m_cb_map c"
  shows "in_sync cb view l c'"
proof -
  obtain l' where l': "m_log c = l @ l'" "\<forall>n\<in>m_reg c. replay cb view l' n = get_config c (Some n)"
    and cb: "cb \<in> fst ` set (m_cb_map c)" "m_reg c \<subseteq> dom (m_map c)"
    using assms(1) by (auto simp: in_sync_def)
  let ?new = "map (\<lambda>(k, u). (k, u, n, v)) (m_cb_map c)"
  have "m_log c' = l @ (l' @ ?new)" using assms(5) l'(1) by (simp add: notify_def)
  moreover have "\<forall>m\<in>m_reg c'. replay cb view (l' @ ?new) m = get_config c' (Some m)"
    using l'(2) cb assms(3,4,6) by (auto simp: replay_append replay_notify get_config_def split: option.splits)
  ultimately show ?thesis using cb assms(3,6,7) by (auto simp: in_sync_def)
qed

lemma in_sync_quiet:
  assumes "in_sync cb view l c" "m_log c' = m_log c" "m_reg c' \<subseteq> m_reg c" "cb \<in> fst ` set (m_cb_map c')"
    and "\<And>n. n \<in> m_reg c' \<Longrightarrow> get_config c' (Some n) = get_config c (Some n) \<and> m_map c' n \<noteq> None"
  shows "in_sync cb view l c'"
  using assms by (auto simp: in_sync_def) (metis subsetD)

lemma in_sync_facts:
  "in_sync cb view l c \<Longrightarrow> m_cb_map c \<noteq> [] \<and> cb \<in> fst ` set (m_cb_map c) \<and> (\<forall>n\<in>m_reg c. m_map c n \<noteq> None)"
  by (auto simp: in_sync_def)

lemma load_item_rejected:
  "is_valid (new_item (Some n) (Some v) (opt ty) (opt d) (opt r) (opt nt)) = Some False \<Longrightarrow>
   load_item c nt n v ty d r = Some c"
  by (simp add: load_item_def)

lemma load_item_quiet:
  "is_valid (new_item (Some n) (Some v) (opt ty) (opt d) (opt r) (opt nt)) = Some True \<Longrightarrow> n \<notin> m_reg c \<Longrightarrow>
   load_item c nt n v ty d r = Some (c\<lparr>m_map := (m_map c)(n \<mapsto> new_item (Some n) (Some v) (opt ty) (opt d) (opt r) (opt nt))\<rparr>)"
  by (cases "m_map c n") (simp_all add: load_item_def)

lemma load_item_registered:
  "is_valid (new_item (Some n) (Some v) (opt ty) (opt d) (opt r) (opt nt)) = Some True \<Longrightarrow> m_cb_map c \<noteq> [] \<Longrightarrow>
   n \<in> m_reg c \<Longrightarrow> m_map c n = Some old \<Longrightarrow>
   load_item c nt n v ty d r = map_option (\<lambda>w. (if w \<noteq> v then notify c n (Some v) else c)
     \<lparr>m_map := (m_map c)(n \<mapsto> new_item (Some n) (Some v) (opt ty) (opt d) (opt r) (opt nt))\<rparr>) (ci_value old)"
  by (cases "ci_value old") (simp_all add: load_item_def)

lemma load_item_sync:
  assumes s: "in_sync cb view l c" and li: "load_item c nt n v ty d r = Some c'"
  shows "in_sync cb view l c'"
proof -
  define i where "i = new_item (Some n) (Some v) (opt ty) (opt d) (opt r) (opt nt)"
  have iv: "ci_value i = Some v" by (simp add: i_def new_item_def)
  note f = in_sync_facts[OF s]
  consider "c' = c" | "n \<notin> m_reg c" "c' = c\<lparr>m_map := (m_map c)(n \<mapsto> i)\<rparr>"
    | old where "n \<in> m_reg c" "m_map c n = Some old" "ci_value old = Some v" "c' = c\<lparr>m_map := (m_map c)(n \<mapsto> i)\<rparr>"
    | "n \<in> m_reg c" "c' = (notify c n (Some v))\<lparr>m_map := (m_map c)(n \<mapsto> i)\<rparr>"
  proof (cases "is_valid i = Some True \<and> n \<in> m_reg c")
    case False
    then have "c' = c \<or> (n \<notin> m_reg c \<and> c' = c\<lparr>m_map := (m_map c)(n \<mapsto> i)\<rparr>)"
      using li load_item_rejected[of n v ty d r nt c] load_item_quiet[of n v ty d r nt c]
      unfolding i_def by (cases "is_valid i") (auto simp: i_def load_item_def)
    then show thesis using that(1,2) by blast
  next
    case True
    then obtain old where old: "m_map c n = Some old" using f by auto
    note eq = load_item_registered[of n v ty d r nt c old, folded i_def, OF conjunct1[OF True] _ conjunct2[OF True] old]
    obtain w where w: "ci_value old = Some w" using li f eq by (cases "ci_value old") auto
    have "c' = (if w \<noteq> v then notify c n (Some v) else c)\<lparr>m_map := (m_map c)(n \<mapsto> i)\<rparr>"
      using li f eq w by simp
    then show thesis using that(3)[OF _ old] that(4) w True by (cases "w = v") auto
  qed
  then show ?thesis
  proof cases
    case 2
    show ?thesis by (rule in_sync_quiet[OF s]) (use 2 f in \<open>auto simp: get_config_def\<close>)
  next
    case 3
    show ?thesis by (rule in_sync_quiet[OF s]) (use 3 f iv in \<open>auto simp: get_config_def\<close>)
  next
    case 4
    show ?thesis by (rule in_sync_notify[OF s 4(1) _ iv]) (simp_all add: 4(2))
  qed (use s in simp)
qed

lemma set_config_sync:
  assumes s: "in_sync cb view l c" and st: "set_config c n v t = Some (k, c')"
  shows "in_sync cb view l c'"
proof -
  note f = in_sync_facts[OF s]
  consider "c' = c" | n' old where "n = Some n'" "m_map c n' = Some old"
      "c' = c\<lparr>m_map := (m_map c)(n' \<mapsto> old\<lparr>ci_value := v, ci_note := t\<rparr>)\<rparr>" "n' \<notin> m_reg c \<or> ci_value old = v"
    | n' old where "n = Some n'" "n' \<in> m_reg c"
      "c' = (notify c n' v)\<lparr>m_map := (m_map c)(n' \<mapsto> old\<lparr>ci_value := v, ci_note := t\<rparr>)\<rparr>"
  proof (cases "\<exists>n' old. n = Some n' \<and> m_map c n' = Some old")
    case False
    then show thesis using st that(1) unfolding set_config_def by (cases n) (auto split: option.splits)
  next
    case True
    then obtain n' old where n': "n = Some n'" "m_map c n' = Some old" by auto
    then obtain w w' where w: "v = Some w" "ci_value old = Some w'" using st f
      unfolding set_config_def by (cases v; cases "ci_value old") simp_all
    show thesis
    proof (cases "w \<noteq> w' \<and> n' \<in> m_reg c")
      case True
      then show thesis using that(3)[of n' old] st f n' w by (simp add: set_config_def)
    next
      case False
      then have "c' = c\<lparr>m_map := (m_map c)(n' \<mapsto> old\<lparr>ci_value := v, ci_note := t\<rparr>)\<rparr>"
        using st f n' w by (simp add: set_config_def split: if_splits)
      then show thesis using that(2)[of n' old] n' w False by blast
    qed
  qed
  then show ?thesis
  proof cases
    case (2 n' old)
    show ?thesis by (rule in_sync_quiet[OF s]) (use 2 f in \<open>auto simp: get_config_def\<close>)
  next
    case (3 n' old)
    show ?thesis by (rule in_sync_notify[OF s 3(2), of c' "old\<lparr>ci_value := v, ci_note := t\<rparr>" v]) (simp_all add: 3(3))
  qed (use s in simp)
qed

lemma del_config_sync:
  assumes s: "in_sync cb view l c" and d: "del_config c n = (k, c')"
  shows "in_sync cb view l c'"
proof -
  note f = in_sync_facts[OF s]
  consider "c' = c" | n' where "n' \<notin> m_reg c" "c' = c\<lparr>m_map := (m_map c)(n' := None)\<rparr>"
    | n' where "c' = (notify c n' None)\<lparr>m_reg := m_reg c - {n'}, m_map := (m_map c)(n' := None)\<rparr>"
  proof (cases "\<exists>n'. n = Some n' \<and> m_map c n' \<noteq> None")
    case False
    then show thesis using d that(1) unfolding del_config_def by (cases n) (auto split: option.splits)
  next
    case True
    then obtain n' old where n': "n = Some n'" "m_map c n' = Some old" by auto
    show thesis
    proof (cases "n' \<in> m_reg c")
      case True
      then show thesis using that(3)[of n'] d f n' by (simp add: del_config_def)
    next
      case False
      then show thesis using that(2)[of n'] d f n' by (simp add: del_config_def)
    qed
  qed
  then show ?thesis
  proof cases
    case (2 n')
    show ?thesis by (rule in_sync_quiet[OF s]) (use 2 f in \<open>auto simp: get_config_def\<close>)
  next
    case (3 n')
    obtain l' where l': "m_log c = l @ l'" "\<forall>n\<in>m_reg c. replay cb view l' n = get_config c (Some n)"
      using s by (auto simp: in_sync_def)
    let ?new = "map (\<lambda>(k, u). (k, u, n', None)) (m_cb_map c)"
    have "m_log c' = l @ (l' @ ?new)" using 3 l'(1) by (simp add: notify_def)
    moreover have "\<forall>m\<in>m_reg c'. replay cb view (l' @ ?new) m = get_config c' (Some m)"
      using l'(2) 3 f by (auto simp: replay_append replay_notify get_config_def)
    ultimately show ?thesis using 3 f by (auto simp: in_sync_def)
  qed (use s in simp)
qed

fun registers :: "conf_op \<Rightarrow> bool" where
  "registers (Register n) = True" | "registers RegisterAll = True" | "registers _ = False"

lemma conf_step_sync:
  assumes s: "in_sync cb view l c" and "conf_step c op = Some (k, c')" "\<not> registers op"
  shows "in_sync cb view l c'"
proof (cases op)
  case (Load p f)
  have "in_sync cb view l (c\<lparr>m_path := p\<rparr>)" using s by (simp add: in_sync_def get_config_def)
  then show ?thesis
    using load_keeps[of c p f k c' "in_sync cb view l"] load_item_sync assms(2) Load by auto
next
  case (Add n v t ty d rg)
  then consider "c' = c" | x i where "m_map c x = None" "c' = c\<lparr>m_map := (m_map c)(x \<mapsto> i)\<rparr>"
    using assms(2) add_config_map[of c n v t ty d rg k c'] by auto
  then show ?thesis
  proof cases
    case (2 x i)
    then have "x \<notin> m_reg c" using in_sync_facts[OF s] by auto
    with 2 show ?thesis by (intro in_sync_quiet[OF s]) (use in_sync_facts[OF s] in \<open>auto simp: get_config_def\<close>)
  qed (use s in simp)
next
  case (RegisterCb b u)
  then have c': "c' = c\<lparr>m_cb_map := filter (\<lambda>(k, u). k < b) (m_cb_map c) @ [(b, u)] @ filter (\<lambda>(k, u). k > b) (m_cb_map c)\<rparr>"
    using assms(2) by (simp add: register_config_update_cb_def)
  have "cb \<in> fst ` set (m_cb_map c')"
    using in_sync_facts[OF s] by (cases cb b rule: linorder_cases) (force simp: c')+
  then show ?thesis by (intro in_sync_quiet[OF s]) (use in_sync_facts[OF s] in \<open>auto simp: c' get_config_def\<close>)
next
  case (Set n v t)
  then show ?thesis using set_config_sync[OF s] assms(2) by simp
next
  case (Del n)
  then show ?thesis using del_config_sync[OF s] assms(2) by simp
next
  case (Unregister n)
  show ?thesis by (rule in_sync_quiet[OF s])
    (use assms(2) Unregister in_sync_facts[OF s] in \<open>auto simp: unregister_config_def get_config_def split: if_splits\<close>)
next
  case UnregisterAll
  show ?thesis by (rule in_sync_quiet[OF s])
    (use assms(2) UnregisterAll in_sync_facts[OF s] in \<open>auto simp: unregister_all_def get_config_def\<close>)
qed (use assms(3) in simp_all)

text \<open>
  A listener: it reads the items it finds newly registered, and applies the notices its callback is
  called with, operation by operation.
\<close>

definition hears :: "nat \<Rightarrow> (string \<Rightarrow> string option) \<Rightarrow> Config \<Rightarrow> Config \<Rightarrow> string \<Rightarrow> string option" where
  "hears cb view c c' n =
     (if n \<in> m_reg c' - m_reg c then get_config c' (Some n)
      else replay cb view (drop (length (m_log c)) (m_log c')) n)"

fun listen :: "nat \<Rightarrow> (string \<Rightarrow> string option) \<Rightarrow> Config \<Rightarrow> conf_op list \<Rightarrow> ((string \<Rightarrow> string option) \<times> Config) option" where
  "listen cb view c [] = Some (view, c)"
| "listen cb view c (op # ops) = do { (r, c') \<leftarrow> conf_step c op; listen cb (hears cb view c c') c' ops }"

lemma register_sync:
  assumes "registers op" "conf_step c op = Some (k, c')" "m_reg c \<subseteq> dom (m_map c)"
  shows "m_log c' = m_log c \<and> m_map c' = m_map c \<and> m_cb_map c' = m_cb_map c \<and> m_reg c' \<subseteq> dom (m_map c)"
  using assms
  by (cases op rule: registers.cases)
    (auto simp: register_config_def register_all_def has_config_def split: if_splits option.splits)

lemma hears_sync:
  assumes s: "in_sync cb view (m_log c) c" and st: "conf_step c op = Some (k, c')"
  shows "in_sync cb (hears cb view c c') (m_log c') c'"
proof (cases "registers op")
  case True
  from register_sync[OF True st] s show ?thesis by (auto simp: in_sync_def hears_def get_config_def)
next
  case False
  from conf_step_sync[OF s st False] show ?thesis by (auto simp: in_sync_def hears_def)
qed

lemma listen_sync:
  "listen cb view c ops = Some (view', c') \<Longrightarrow> in_sync cb view (m_log c) c \<Longrightarrow> in_sync cb view' (m_log c') c'"
proof (induction cb view c ops rule: listen.induct)
  case (2 cb view c op ops)
  from 2(2) obtain r c1 where "conf_step c op = Some (r, c1)" "listen cb (hears cb view c c1) c1 ops = Some (view', c')"
    by (auto split: bind_splits)
  with 2(1)[of "(r, c1)" r c1] hears_sync[OF 2(3)] show ?case by auto
qed simp

text \<open>
  C7: config_listener_in_sync. A callback that starts with the values of the registered items, applies
  every notice it is sent, and reads an item when it is registered, has, after any sequence of the
  operations (loads, settings, additions, deletions, registrations of callbacks and of items, one or
  all, and their ends), exactly the values the configuration holds for the items then registered, and
  all of these exist.
\<close>

theorem config_listener_in_sync:
  assumes "cb \<in> fst ` set (m_cb_map c)" "m_reg c \<subseteq> dom (m_map c)"
    and "\<forall>n\<in>m_reg c. view n = get_config c (Some n)"
    and "listen cb view c ops = Some (view', c')"
  shows "conf_run c ops = Some c' \<and> m_reg c' \<subseteq> dom (m_map c') \<and> (\<forall>n\<in>m_reg c'. view' n = get_config c' (Some n))"
proof -
  have "in_sync cb view (m_log c) c" using assms(1-3) by (auto simp: in_sync_def)
  from listen_sync[OF assms(4) this] have "m_reg c' \<subseteq> dom (m_map c') \<and> (\<forall>n\<in>m_reg c'. view' n = get_config c' (Some n))"
    by (simp add: in_sync_def)
  moreover have "conf_run c ops = Some c'"
    using assms(4) by (induction cb view c ops rule: listen.induct) (auto split: bind_splits)
  ultimately show ?thesis by simp
qed

section \<open>The line syntax\<close>

definition plain :: "char \<Rightarrow> bool" where
  "plain c \<longleftrightarrow> c \<noteq> CHR 0x5C \<and> \<not> isspace c \<and> c \<noteq> CHR '':'' \<and> c \<noteq> CHR ''='' \<and> c \<noteq> CHR ''#''"

fun esc :: "string \<Rightarrow> string" where
  "esc [] = []"
| "esc (c # s) = (if plain c then c # esc s else CHR 0x5C # c # esc s)"

text \<open>An item as a line of the file.\<close>

definition item_line :: "string \<Rightarrow> string \<Rightarrow> string \<Rightarrow> string \<Rightarrow> string \<Rightarrow> string" where
  "item_line name val typ def rng =
     esc name @ ''='' @ esc val @ '' # <'' @ typ @ ''> ['' @ def @ ''] {'' @ rng @ ''}''"

lemma chars: "\<not> isspace (CHR ''='')" "\<not> isspace (CHR 0x5C)" "isspace (CHR '' '')" "\<not> isspace (CHR ''#'')"
  "\<not> isspace (CHR '':'')"
  by (simp_all add: isspace_def ord_def)

lemma take_token_esc:
  "length s \<le> n \<Longrightarrow> c = CHR ''='' \<or> c = CHR '' '' \<Longrightarrow> take_token n (esc s @ c # r) = Some (s, c # r)"
  by (induction s arbitrary: n) (auto simp: plain_def chars)

lemma hd_esc: "s \<noteq> [] \<Longrightarrow> hd (esc s) = (if plain (hd s) then hd s else CHR 0x5C)" "s \<noteq> [] \<Longrightarrow> esc s \<noteq> []"
  by (cases s; simp)+

lemma scan_line_name:
  assumes "length name \<le> 255"
  shows "scan_line (esc name @ CHR ''='' # t) = do {
    (val, p) \<leftarrow> take_token 255 (skip_delims t);
    if val = [] then Some (Skip name) else scan_spec name val p }"
proof -
  let ?l = "esc name @ CHR ''='' # t"
  have h: "?l \<noteq> [] \<and> \<not> isspace (hd ?l) \<and> hd ?l \<noteq> CHR ''#''"
    using hd_esc[of name] by (cases "name = []") (auto simp: chars plain_def)
  then have "skip_blank ?l = ?l" unfolding skip_blank_def by (cases ?l) auto
  moreover have "take_token 255 ?l = Some (name, CHR ''='' # t)"
    by (rule take_token_esc[OF assms]) simp
  ultimately show ?thesis using h by (simp add: scan_line_def)
qed

lemma scan_line_tokens:
  assumes "length name \<le> 255" "length val \<le> 255" "val \<noteq> []" "plain (hd val)"
  shows "scan_line (esc name @ ''='' @ esc val @ '' '' @ r) = scan_spec name val ('' '' @ r)"
proof -
  have "skip_delims (esc val @ CHR '' '' # r) = esc val @ CHR '' '' # r"
    using assms(3,4) by (cases val) (auto simp: plain_def chars)
  moreover have "take_token 255 (esc val @ CHR '' '' # r) = Some (val, CHR '' '' # r)"
    by (rule take_token_esc[OF assms(2)]) simp
  ultimately show ?thesis using scan_line_name[OF assms(1)] assms(3) by simp
qed

lemma find_char_notin: "c \<notin> set a \<Longrightarrow> find_char c (a @ c # b) = Some (length a)"
  by (induction a) auto

lemma after_chr_append: "c \<notin> set a \<Longrightarrow> after_chr (a @ c # b) c = Some (c # b)"
  by (simp add: after_chr_def find_char_notin)

lemma after_chr_none: "c \<notin> set a \<Longrightarrow> after_chr a c = None"
  by (induction a) (auto simp: after_chr_def)

lemma bracketed_append: "c \<notin> set a \<Longrightarrow> length a \<le> 255 \<Longrightarrow> bracketed (d # a @ c # b) c = Some (a, c # b)"
proof -
  assume a: "c \<notin> set a" "length a \<le> 255"
  then have "takeWhile (\<lambda>x. x \<noteq> c) (a @ c # b) = a" "dropWhile (\<lambda>x. x \<noteq> c) (a @ c # b) = c # b"
    by (auto simp: takeWhile_append dropWhile_append)
  with a(2) show ?thesis by (simp add: bracketed_def copy_while_def)
qed

lemma scan_spec_type:
  assumes "CHR ''>'' \<notin> set typ" "length typ \<le> 255"
  shows "scan_spec name val ('' '' @ ''# <'' @ typ @ ''>'' @ r) =
    (case after_chr r (CHR ''['') of
       None \<Rightarrow> scan_range name val typ [] None
     | Some p \<Rightarrow> do {
         (def, p) \<leftarrow> bracketed p (CHR '']'');
         if p = [] then Some (Skip name) else scan_range name val typ def (Some p) })"
  using after_chr_append[of "CHR ''#''" "'' ''"] after_chr_append[of "CHR ''<''" "'' ''"] bracketed_append[OF assms]
  by (simp add: scan_spec_def)

lemma scan_spec_full:
  assumes "CHR ''>'' \<notin> set typ" "length typ \<le> 255" "CHR '']'' \<notin> set def" "length def \<le> 255"
    and "CHR ''}'' \<notin> set rng" "length rng \<le> 255"
  shows "scan_spec name val ('' # <'' @ typ @ ''> ['' @ def @ ''] {'' @ rng @ ''}'') =
    Some (Item name val typ def (if strncaseeq typ ''INTEGER'' \<or> strncaseeq typ ''ENUM'' then rng else []))"
proof -
  let ?r = "'' ['' @ def @ ''] {'' @ rng @ ''}''"
  have "after_chr ?r (CHR ''['') = Some (CHR ''['' # def @ CHR '']'' # '' {'' @ rng @ ''}'')"
    using after_chr_append[of "CHR ''[''" "'' ''"] by simp
  moreover have "after_chr (CHR '']'' # '' {'' @ rng @ ''}'') (CHR ''{'') = Some (CHR ''{'' # rng @ ''}'')"
    using after_chr_append[of "CHR ''{''" "''] ''"] by simp
  ultimately show ?thesis
    using scan_spec_type[OF assms(1,2), of name val ?r] bracketed_append[OF assms(3,4)] bracketed_append[OF assms(5,6)]
    by (simp add: scan_range_def)
qed

text \<open>
  Config line roundtrip: A line written from a name, a value, a type, a default and a range, with the
  delimiters, hashes and backslashes of the name and the value escaped, is read back as exactly these
  (the range only for the types that have one); a value whose first character needs the escape is lost,
  because skipping the delimiters swallows the backslash.
\<close>

theorem config_line_roundtrip:
  assumes "length name \<le> 255" "length val \<le> 255" "val \<noteq> []"
    and "CHR ''>'' \<notin> set typ" "length typ \<le> 255" "CHR '']'' \<notin> set def" "length def \<le> 255"
    and "CHR ''}'' \<notin> set rng" "length rng \<le> 255"
  shows "(plain (hd val) \<longrightarrow> scan_line (item_line name val typ def rng) =
      Some (Item name val typ def (if strncaseeq typ ''INTEGER'' \<or> strncaseeq typ ''ENUM'' then rng else []))) \<and>
    (hd val \<in> {CHR '':'', CHR ''='', CHR '' ''} \<longrightarrow> scan_line (item_line name val typ def rng) = Some (Skip name))"
proof (intro conjI impI)
  assume "plain (hd val)"
  then show "scan_line (item_line name val typ def rng) =
      Some (Item name val typ def (if strncaseeq typ ''INTEGER'' \<or> strncaseeq typ ''ENUM'' then rng else []))"
    using scan_line_tokens[OF assms(1-3), of "''# <'' @ typ @ ''> ['' @ def @ ''] {'' @ rng @ ''}''"]
      scan_spec_full[OF assms(4-9), of name val] by (simp add: item_line_def)
next
  assume "hd val \<in> {CHR '':'', CHR ''='', CHR '' ''}"
  then obtain c vs where v: "val = c # vs" "\<not> plain c" "c = CHR '':'' \<or> c = CHR ''='' \<or> c = CHR '' ''"
    using assms(3) by (cases val) (auto simp: plain_def chars)
  then have "take_token 255 (skip_delims (esc val @ t)) = Some ([], c # esc vs @ t)" for t
    by (auto simp: chars)
  then show "scan_line (item_line name val typ def rng) = Some (Skip name)"
    using scan_line_name[OF assms(1)] by (simp add: item_line_def)
qed

theorem config_line_roundtrip_witness:
  "scan_line (item_line ''a b'' ''5'' ''INTEGER'' ''3'' ''0~9'') = Some (Item ''a b'' ''5'' ''INTEGER'' ''3'' ''0~9'') \<and>
   scan_line (item_line ''n'' '':x'' ''STRING'' ''d'' ''r'') = Some (Skip ''n'')"
proof -
  have "plain CHR ''5''" "strncaseeq ''INTEGER'' ''INTEGER''"
    by (simp_all add: plain_def isspace_def ord_def strncaseeq_def strcaseeq_def)
  then show ?thesis
    using config_line_roundtrip[of "''a b''" "''5''" "''INTEGER''" "''3''" "''0~9''"]
      config_line_roundtrip[of "''n''" "'':x''" "''STRING''" "''d''" "''r''"] by simp
qed

text \<open>
  Config integer needs default: A line that declares an \<open>INTEGER\<close> or an \<open>ENUM\<close>
  and has no \<open>[default]\<close> makes \<open>load\<close> search from a null pointer, whatever
  else follows on the line, and so does an \<open>ENUM\<close> whose range is empty when its value is
  checked.
\<close>

theorem config_integer_needs_default:
  assumes "length name \<le> 255" "length val \<le> 255" "val \<noteq> []" "plain (hd val)"
    and "CHR ''>'' \<notin> set typ" "length typ \<le> 255" "strncaseeq typ ''INTEGER'' \<or> strncaseeq typ ''ENUM''"
    and "CHR ''['' \<notin> set rest"
  shows "load_lines c note ((esc name @ ''='' @ esc val @ '' # <'' @ typ @ ''>'' @ rest) # ls) = None \<and>
    load_item c note name val ''ENUM'' def [] = None"
proof
  have "scan_line (esc name @ ''='' @ esc val @ '' # <'' @ typ @ ''>'' @ rest) = None"
    using scan_line_tokens[OF assms(1-4), of "''# <'' @ typ @ ''>'' @ rest"]
      scan_spec_type[OF assms(5,6), of name val rest] after_chr_none[OF assms(8)] assms(7)
    by (simp add: scan_range_def)
  then show "load_lines c note ((esc name @ ''='' @ esc val @ '' # <'' @ typ @ ''>'' @ rest) # ls) = None"
    by simp
  have "str2type (opt ''ENUM'') = ENUM" 
    by (simp add: str2type_def opt_def strncaseeq_def strcaseeq_def tolower_def isupper_def ord_def)
  then show "load_item c note name val ''ENUM'' def [] = None"
    by (simp add: load_item_def new_item_def is_valid_def check_enum_def opt_def)
qed

theorem config_integer_needs_default_witness:
  "load_lines new_Config [] [esc ''n'' @ ''='' @ esc ''5'' @ '' # <'' @ ''INTEGER'' @ ''>'' @ '' {0~9}''] = None"
proof -
  have "plain CHR ''5''" "strncaseeq ''INTEGER'' ''INTEGER''"
    by (simp_all add: plain_def isspace_def ord_def strncaseeq_def strcaseeq_def)
  then show ?thesis by (intro conjunct1[OF config_integer_needs_default]) simp_all
qed

section \<open>Settings\<close>

fun put_all :: "('s \<Rightarrow> string \<Rightarrow> string \<Rightarrow> 's option) \<Rightarrow> 's \<Rightarrow> (string \<times> string) list \<Rightarrow> 's option" where
  "put_all put s [] = Some s"
| "put_all put s ((n, v) # ws) = do { s \<leftarrow> put s n v; put_all put s ws }"

text \<open>What the users of a configuration rely on: a value that was set is the one that is read.\<close>

locale settings =
  fixes get :: "'s \<Rightarrow> string \<Rightarrow> string option"
    and put :: "'s \<Rightarrow> string \<Rightarrow> string \<Rightarrow> 's option"
    and ok :: "'s \<Rightarrow> bool"
  assumes put_known: "ok s \<Longrightarrow> get s n \<noteq> None \<Longrightarrow>
      \<exists>s'. put s n v = Some s' \<and> ok s' \<and> get s' n = Some v \<and> (\<forall>m. m \<noteq> n \<longrightarrow> get s' m = get s m)"
begin

lemma last_put_wins:
  "ok s \<Longrightarrow> \<forall>(n, v)\<in>set ws. get s n \<noteq> None \<Longrightarrow>
   \<exists>s'. put_all put s ws = Some s' \<and> ok s' \<and> (\<forall>m. get s' m = (case map_of (rev ws) m of None \<Rightarrow> get s m | Some v \<Rightarrow> Some v))"
proof (induction ws arbitrary: s)
  case (Cons w ws)
  obtain n v where w: "w = (n, v)" by (cases w)
  obtain s1 where s1: "put s n v = Some s1" "ok s1" "get s1 n = Some v" "\<forall>m. m \<noteq> n \<longrightarrow> get s1 m = get s m"
    using put_known[OF Cons(2), of n v] Cons(3) w by auto
  have "\<forall>(n, v)\<in>set ws. get s1 n \<noteq> None" using Cons(3) s1 by (metis (mono_tags, lifting) case_prodI2 list.set_intros(2) option.distinct(1) case_prodD)
  from Cons(1)[OF s1(2) this] obtain s2 where s2: "put_all put s1 ws = Some s2" "ok s2"
    "\<forall>m. get s2 m = (case map_of (rev ws) m of None \<Rightarrow> get s1 m | Some v \<Rightarrow> Some v)" by blast
  have "get s2 m = (case map_of (rev (w # ws)) m of None \<Rightarrow> get s m | Some v \<Rightarrow> Some v)" for m
    using s2(3) s1(3,4) w by (auto simp: map_add_def split: option.splits)
  with s1(1) s2(1,2) w show ?case by simp
qed simp

end

definition config_get :: "Config \<Rightarrow> string \<Rightarrow> string option" where
  "config_get c n = get_config c (Some n)"

definition config_put :: "Config \<Rightarrow> string \<Rightarrow> string \<Rightarrow> Config option" where
  "config_put c n v =
     (case set_config c (Some n) (Some v) None of Some (r, c') \<Rightarrow> if r = 0 then Some c' else None | None \<Rightarrow> None)"

interpretation cfg: settings config_get config_put "\<lambda>c. True"
proof unfold_locales
  fix c n v
  assume "config_get c n \<noteq> None"
  then obtain i w where i: "m_map c n = Some i" "ci_value i = Some w"
    by (auto simp: config_get_def get_config_def split: option.splits)
  then have "\<exists>c'. config_put c n v = Some (c'\<lparr>m_map := (m_map c)(n \<mapsto> i\<lparr>ci_value := Some v, ci_note := None\<rparr>)\<rparr>)"
    by (cases "m_cb_map c = []") (auto simp: config_put_def set_config_def)
  then show "\<exists>c'. config_put c n v = Some c' \<and> True \<and> config_get c' n = Some v \<and>
      (\<forall>m. m \<noteq> n \<longrightarrow> config_get c' m = config_get c m)"
    by (auto simp: config_get_def get_config_def)
qed

text \<open>
  Config last set wins: After any sequence of \<open>set_config\<close> calls on existing items, with
  any callbacks registered, the access macros read the value that was set last for each item (an integer
  as the number it was printed from), and what was there before where none was set.
\<close>

theorem config_last_set_wins:
  assumes "\<forall>(n, v)\<in>set ws. get_config c (Some n) \<noteq> None"
  shows "\<exists>c'. put_all config_put c ws = Some c' \<and> (\<forall>m.
    (case map_of (rev ws) m of
       None \<Rightarrow> GET_CONFIG_STRING c' m = GET_CONFIG_STRING c m
     | Some v \<Rightarrow> GET_CONFIG_STRING c' m = Some v \<and> GET_CONFIG_BOOL c' m = Some (strncaseeq v ''true'') \<and>
         (\<forall>k < 2 ^ 31. v = dec k \<longrightarrow> GET_CONFIG_INT c' m = Some (int k))))"
proof -
  obtain c' where "put_all config_put c ws = Some c'"
    "\<forall>m. config_get c' m = (case map_of (rev ws) m of None \<Rightarrow> config_get c m | Some v \<Rightarrow> Some v)"
    using cfg.last_put_wins[of ws c] assms by (auto simp: config_get_def)
  then show ?thesis
    by (auto simp: GET_CONFIG_STRING_def GET_CONFIG_BOOL_def GET_CONFIG_INT_def config_get_def atoi_dec
        split: option.splits)
qed

text \<open>A configuration to try the properties on: one item, registered, with one callback.\<close>

definition sample :: Config where
  "sample = \<lparr>m_map = [''on'' \<mapsto> new_item (Some ''on'') (Some ''true'') (Some ''BOOL'') None None None],
     m_reg = {''on''}, m_cb_map = [(7, 1)], m_path = [], m_log = []\<rparr>"

lemma sample_get: "get_config sample (Some ''on'') = Some ''true''"
  by (simp add: sample_def get_config_def new_item_def)

theorem config_last_set_wins_witness:
  "\<exists>c'. put_all config_put sample [(''on'', ''false''), (''on'', dec 5)] = Some c' \<and>
    GET_CONFIG_INT c' ''on'' = Some 5"
proof -
  have "\<forall>(n, v)\<in>set [(''on'', ''false''), (''on'', dec 5)]. get_config sample (Some n) \<noteq> None"
    by (simp add: sample_get)
  from config_last_set_wins[OF this] obtain c' where c':
    "put_all config_put sample [(''on'', ''false''), (''on'', dec 5)] = Some c'"
    "case map_of (rev [(''on'', ''false''), (''on'', dec 5)]) ''on'' of
       None \<Rightarrow> True | Some v \<Rightarrow> (\<forall>k < 2 ^ 31. v = dec k \<longrightarrow> GET_CONFIG_INT c' ''on'' = Some (int k))"
    by (auto split: option.splits)
  have "GET_CONFIG_INT c' ''on'' = Some (int 5)" using c'(2) by (simp, elim allE[of _ 5]) simp
  with c'(1) show ?thesis by auto
qed

theorem config_listener_in_sync_witness:
  "\<exists>view c. listen 7 (\<lambda>n. None) (sample\<lparr>m_reg := {}\<rparr>) [RegisterAll, Set (Some ''on'') (Some ''false'') None] = Some (view, c) \<and>
    m_reg c = {''on''} \<and> view ''on'' = get_config c (Some ''on'')"
proof -
  obtain view c where 1: "listen 7 (\<lambda>n. None) (sample\<lparr>m_reg := {}\<rparr>) [RegisterAll, Set (Some ''on'') (Some ''false'') None] = Some (view, c)"
    "m_reg c = {''on''}"
    by (auto simp: set_config_def register_all_def sample_def new_item_def notify_def)
  moreover have "7 \<in> fst ` set (m_cb_map (sample\<lparr>m_reg := {}\<rparr>))" "m_reg (sample\<lparr>m_reg := {}\<rparr>) \<subseteq> dom (m_map (sample\<lparr>m_reg := {}\<rparr>))"
    by (simp_all add: sample_def)
  ultimately show ?thesis using config_listener_in_sync[OF _ _ _ 1(1)] by auto
qed

theorem config_items_valid_witness:
  "\<exists>c i. conf_run new_Config [Add (Some ''on'') (Some ''true'') None BOOL None None] = Some c \<and>
    m_map c ''on'' = Some i \<and> is_valid i = Some True"
proof -
  let ?ops = "[Add (Some ''on'') (Some ''true'') None BOOL None None]"
  have "strncaseeq ''true'' ''true''" "str2type (Some ''BOOL'') = BOOL"
    by (simp_all add: str2type_def strncaseeq_def strcaseeq_def tolower_def isupper_def ord_def)
  then obtain c i where "conf_run new_Config ?ops = Some c" "m_map c ''on'' = Some i"
    by (auto simp: add_config_def new_Config_def has_config_def new_item_def is_valid_def check_bool_def)
  then show ?thesis using config_items_valid[of ?ops c "''on''" i] by auto
qed

end
