(* ===== verification/Monitor.thy ===== *)
theory Monitor
  imports Config
begin

text \<open>
  The monitor thread of \<open>ConfigImpl\<close> (\<open>xconfig.cc\<close>): the loop around \<open>inotify\<close> and \<open>select\<close>, with what the
  system answers in each round as an argument, and starting and stopping it.
\<close>

section \<open>The loop\<close>

text \<open>
  One round: the watched variable at the head of the loop, what \<open>inotify_add_watch\<close> and \<open>select\<close>
  return, the variable after that, the two \<open>FD_ISSET\<close>, what \<open>read\<close> returns (the events, or an error
  and whether it is \<open>EAGAIN\<close>), and the file by then.
\<close>

record round =
  rd_stop :: bool
  rd_added :: int
  rd_select :: int
  rd_stopped :: bool
  rd_woken :: bool
  rd_ready :: bool
  rd_read :: "bool + inotify_event list"
  rd_file :: "string list option"

text \<open>Whether the loop goes on, the watch and the configuration; \<open>ctl\<close> is that the control socket exists.\<close>

definition monitor_round :: "bool \<Rightarrow> int \<Rightarrow> Config \<Rightarrow> round \<Rightarrow> (bool \<times> int \<times> Config) option" where
  "monitor_round ctl wd c r =
     (if rd_stop r then Some (False, wd, c)
      else
        (let wd = (if wd < 0 then rd_added r else wd) in
         if wd < 0 then Some (False, wd, c)
         else if rd_select r = 0 then Some (True, wd, c)
         else if rd_select r < 0 then Some (False, wd, c)
         else if rd_stopped r then Some (False, wd, c)
         else if ctl \<and> rd_woken r then Some (False, wd, c)
         else if \<not> rd_ready r then Some (True, wd, c)
         else
           (case rd_read r of
              Inl eagain \<Rightarrow> Some (eagain, wd, c)
            | Inr evs \<Rightarrow> monitor_events c wd evs (rd_file r))))"

fun monitor_loop :: "bool \<Rightarrow> int \<Rightarrow> Config \<Rightarrow> round list \<Rightarrow> (bool \<times> int \<times> Config) option" where
  "monitor_loop ctl wd c [] = Some (True, wd, c)"
| "monitor_loop ctl wd c (r # rs) = do {
     (go, wd, c) \<leftarrow> monitor_round ctl wd c r;
     if go then monitor_loop ctl wd c rs else Some (False, wd, c) }"

text \<open>
  \<open>monitor_routine\<close>: the loop still running after these rounds, the watches and descriptors it gave
  back, and the configuration.
\<close>

datatype cleanup = Rm_watch int | Close_fd int

definition monitor_routine :: "int \<Rightarrow> int \<Rightarrow> Config \<Rightarrow> round list \<Rightarrow> (bool \<times> cleanup list \<times> Config) option" where
  "monitor_routine fd pair c rs =
     (if fd < 0 then Some (False, [], c)
      else do {
        (go, wd, c) \<leftarrow> monitor_loop (pair \<ge> 0) (- 1) c rs;
        Some (go, if go then [] else (if wd \<ge> 0 then [Rm_watch wd] else []) @ [Close_fd fd], c) })"

text \<open>\<open>start_monitor\<close> asserts that there is a variable; \<open>stop_monitor\<close> sets it, wakes the thread and waits for it.\<close>

datatype stop_call = Set_variable | Send_wakeup | Join_thread

definition start_monitor :: "bool \<Rightarrow> bool option" where
  "start_monitor watch_variable = (if watch_variable then Some True else None)"

definition stop_monitor :: "int \<Rightarrow> bool \<Rightarrow> stop_call list" where
  "stop_monitor ctl thrd =
     [Set_variable] @ (if ctl \<noteq> - 1 then [Send_wakeup] else []) @ (if thrd then [Join_thread] else [])"

section \<open>Properties\<close>
















lemma monitor_loop_stops:
  assumes "rd_stop r"
  shows "monitor_loop ctl wd c (rs @ r # rs') = monitor_loop ctl wd c (rs @ [r])"
    and "monitor_loop ctl wd c (rs @ [r]) = Some (go, wd', c') \<Longrightarrow> \<not> go"
  using assms by (induction rs arbitrary: wd c) (auto simp: monitor_round_def split: bind_splits if_splits)


text \<open>
  Monitor stops: Once the watched variable is set, which is the first thing \<open>stop_monitor\<close>
  does, the loop ends in its next round, whatever the answers after that, and closes its descriptor.
\<close>

theorem monitor_stops:
  assumes "rd_stop r"
  shows "hd (stop_monitor ctl thrd) = Set_variable \<and>
    monitor_routine fd pair c (rs @ r # rs') = monitor_routine fd pair c (rs @ [r]) \<and>
    (\<forall>go calls c'. monitor_routine fd pair c (rs @ [r]) = Some (go, calls, c') \<longrightarrow> \<not> go \<and> (0 \<le> fd \<longrightarrow> last calls = Close_fd fd))"
  using monitor_loop_stops(1)[OF assms, of "pair \<ge> 0" "- 1" c rs rs'] monitor_loop_stops(2)[OF assms, of "pair \<ge> 0" "- 1" c rs]
  by (auto simp: monitor_routine_def stop_monitor_def split: bind_splits)

text \<open>
  Monitor misses replacement: A file that is replaced by another of its name is not loaded: the end of
  the old watch changes nothing but the watch, and if the new file is not there yet when the thread
  looks again, the monitoring is over.
\<close>

theorem monitor_misses_replacement:
  assumes "0 \<le> wd" "0 < rd_select r" "\<not> rd_stop r" "\<not> rd_stopped r" "\<not> rd_woken r" "rd_ready r"
    and "rd_read r = Inr [\<lparr>ev_wd = wd, ev_mask = IN_IGNORED\<rparr>]" "rd_added r2 < 0"
  shows "monitor_round ctl wd c r = Some (True, - 1, c) \<and> (\<exists>w. monitor_loop ctl wd c (r # r2 # rs) = Some (False, w, c))"
  using assms by (simp add: monitor_round_def monitor_events_def Let_def)

text \<open>A round of a rewritten file, and one after \<open>stop_monitor\<close>.\<close>

definition sample_round :: "bool \<Rightarrow> round" where
  "sample_round stop = \<lparr>rd_stop = stop, rd_added = 1, rd_select = 1, rd_stopped = False, rd_woken = False, rd_ready = True,
     rd_read = Inr [\<lparr>ev_wd = 1, ev_mask = 8\<rparr>], rd_file = Some []\<rparr>"





theorem monitor_stops_witness:
  "monitor_routine 3 0 sample [sample_round True, sample_round False] = monitor_routine 3 0 sample [sample_round True]"
  using monitor_stops[of "sample_round True" 4 True 3 0 sample "[]" "[sample_round False]"] by (simp add: sample_round_def)

theorem monitor_misses_replacement_witness:
  "\<exists>r r2 w. monitor_loop True 1 sample [r, r2] = Some (False, w, sample)"
proof -
  let ?r = "(sample_round False)\<lparr>rd_read := Inr [\<lparr>ev_wd = 1, ev_mask = IN_IGNORED\<rparr>]\<rparr>" and ?r2 = "(sample_round False)\<lparr>rd_added := - 1\<rparr>"
  have "\<exists>w. monitor_loop True 1 sample [?r, ?r2] = Some (False, w, sample)"
    using monitor_misses_replacement[of 1 ?r ?r2 True sample "[]"]
    by (simp add: sample_round_def del: monitor_loop.simps)
  then show ?thesis by blast
qed

end
