(* ===== verification/Net.thy ===== *)
theory Net
  imports ByteOrder Text PosixIO
begin

text \<open>
  \<open>xnet\<close>: addresses, the buffered socket with its loops, and address lists. What the system answers
  is an argument. A socket reads from the bytes on the \<open>wire\<close>; each \<open>recv\<close> takes the next event of
  a list, which says how many of them have arrived. \<open>Waits\<close> is a \<open>recv\<close> or \<open>send\<close> whose answer is
  not in the list. \<open>inet_addr\<close> is a parameter; its results are in network order.
\<close>

section \<open>Addresses\<close>

abbreviation (input) INADDR_NONE :: u32 where "INADDR_NONE \<equiv> 0xFFFFFFFF"
abbreviation (input) INADDR_ANY :: u32 where "INADDR_ANY \<equiv> 0"
abbreviation (input) INADDR_BROADCAST :: u32 where "INADDR_BROADCAST \<equiv> 0xFFFFFFFF"

definition is_valid_ip :: "(string \<Rightarrow> u32) \<Rightarrow> string \<Rightarrow> bool" where
  "is_valid_ip inet_addr ip \<longleftrightarrow> inet_addr ip \<noteq> INADDR_NONE"

record AddressPort =
  ap_ip :: string
  ap_port :: u16

definition reset_ap :: AddressPort where
  "reset_ap = \<lparr>ap_ip = ''0.0.0.0'', ap_port = 0\<rparr>"

definition parse_ap :: "string \<Rightarrow> AddressPort" where
  "parse_ap str =
     (case find_char CHR '':'' str of
        None \<Rightarrow> reset_ap
      | Some pos \<Rightarrow> \<lparr>ap_ip = take pos str, ap_port = word_of_int (atoi (c_str (drop (pos + 1) str)))\<rparr>)"

definition set_address :: "(string \<Rightarrow> u32) \<Rightarrow> AddressPort \<Rightarrow> string \<Rightarrow> bool \<times> AddressPort" where
  "set_address inet_addr ap ip = (if is_valid_ip inet_addr ip then (True, ap\<lparr>ap_ip := ip\<rparr>) else (False, ap))"

definition set_port :: "AddressPort \<Rightarrow> u16 \<Rightarrow> bool \<times> AddressPort" where
  "set_port ap port = (True, ap\<lparr>ap_port := port\<rparr>)"

definition set_address_port :: "(string \<Rightarrow> u32) \<Rightarrow> AddressPort \<Rightarrow> string \<Rightarrow> u16 \<Rightarrow> bool \<times> AddressPort" where
  "set_address_port inet_addr ap ip port =
     (case set_address inet_addr ap ip of (ok, ap) \<Rightarrow> if ok then set_port ap port else (False, ap))"

definition ap_eq :: "AddressPort \<Rightarrow> AddressPort \<Rightarrow> bool" where
  "ap_eq a b \<longleftrightarrow> c_str (ap_ip a) = c_str (ap_ip b) \<and> ap_port a = ap_port b"

text \<open>\<open>sprintf_\<close> formats into \<open>2 * MaxLine\<close> bytes less one and keeps a byte for the NUL.\<close>

abbreviation (input) SPRINTF_ROOM :: nat where "SPRINTF_ROOM \<equiv> 8194"

definition ap_to_string :: "AddressPort \<Rightarrow> string" where
  "ap_to_string ap = take SPRINTF_ROOM (c_str (ap_ip ap) @ '':'' @ dec (unat (ap_port ap)))"

text \<open>\<open>is_multicast_address\<close> and the macro \<open>IN_MULTICAST\<close>, which is given the host order.\<close>

definition is_multicast_address :: "u32 \<Rightarrow> bool" where
  "is_multicast_address address \<longleftrightarrow> htonl address > 0xE00000FF \<and> htonl address \<le> 0xEFFFFFFF"

definition IN_MULTICAST :: "u32 \<Rightarrow> bool" where
  "IN_MULTICAST a \<longleftrightarrow> a AND 0xf0000000 = 0xe0000000"

text \<open>
  The interfaces \<open>SIOCGIFCONF\<close> lists, each with the result of \<open>SIOCGIFFLAGS\<close>: whether it is a
  loopback and whether it is up.
\<close>

fun first_up :: "(string \<times> (bool \<times> bool) option) list \<Rightarrow> string" where
  "first_up [] = []"
| "first_up ((ip, None) # r) = first_up r"
| "first_up ((ip, Some (loopback, up)) # r) = (if \<not> loopback \<and> up then ip else first_up r)"

definition our_ip :: "int \<Rightarrow> (string \<times> (bool \<times> bool) option) list option \<Rightarrow> string" where
  "our_ip sockfd ifconf = (if sockfd < 0 then [] else case ifconf of None \<Rightarrow> [] | Some l \<Rightarrow> first_up l)"

text \<open>\<open>getsockname\<close> with \<open>inet_ntop\<close> gives a text and a port, or fails.\<close>

definition get_local_address_from_sockfd ::
  "(string \<Rightarrow> u32) \<Rightarrow> string \<Rightarrow> (string \<times> u16) option \<Rightarrow> int \<Rightarrow> AddressPort \<Rightarrow> int \<times> AddressPort" where
  "get_local_address_from_sockfd inet_addr ours name sockfd ap =
     (if sockfd < 0 then (- 1, ap)
      else case name of
        None \<Rightarrow> (- 1, ap)
      | Some (ip, port) \<Rightarrow>
          (0, snd (set_address_port inet_addr ap (if ip = ''0.0.0.0'' then ours else ip) port)))"

section \<open>The buffered socket\<close>

abbreviation (input) BUFFER_CACHE_SIZE :: nat where "BUFFER_CACHE_SIZE \<equiv> 16384"

text \<open>\<open>sb_start\<close> is an offset into the buffer.\<close>

record SockBuf =
  sb_socket :: int
  sb_size :: nat
  sb_start :: nat
  sb_buf :: mem
  sb_timeout :: bool

definition sock_buf_init :: SockBuf where
  "sock_buf_init = \<lparr>sb_socket = - 1, sb_size = 0, sb_start = 0, sb_buf = replicate BUFFER_CACHE_SIZE 0, sb_timeout = False\<rparr>"

definition sock_buf_close :: "SockBuf \<Rightarrow> SockBuf" where
  "sock_buf_close sb = (if sb_socket sb \<ge> 0 then sb\<lparr>sb_socket := - 1\<rparr> else sb)"

definition is_connected :: "SockBuf \<Rightarrow> bool" where
  "is_connected sb \<longleftrightarrow> sb_socket sb \<noteq> - 1"

datatype recv_event = Arrives nat | Interrupted | WouldBlock | Broken

type_synonym net = "recv_event list \<times> u8 list"

fun fill_loop :: "recv_event list \<Rightarrow> u8 list \<Rightarrow> SockBuf \<Rightarrow> (int \<times> SockBuf \<times> net) run" where
  "fill_loop [] wire sb = Waits"
| "fill_loop (ev # evs) wire sb =
     (if sb_start sb + sb_size sb > BUFFER_CACHE_SIZE - 1 then Undefined
      else case ev of
        Arrives k \<Rightarrow>
          (let n = min (min k (BUFFER_CACHE_SIZE - 1 - sb_size sb - sb_start sb)) (length wire)
           in andthen (run_option (wrn (sb_buf sb) (sb_start sb + sb_size sb) (take n wire))) (\<lambda>m.
             Done (int n, sb\<lparr>sb_buf := m, sb_size := sb_size sb + n\<rparr>, evs, drop n wire)))
      | Interrupted \<Rightarrow> fill_loop evs wire sb
      | WouldBlock \<Rightarrow> Done (0, sb\<lparr>sb_timeout := True\<rparr>, evs, wire)
      | Broken \<Rightarrow> Done (- 1, sb, evs, wire))"

definition sock_buf_fill :: "SockBuf \<Rightarrow> net \<Rightarrow> (int \<times> SockBuf \<times> net) run" where
  "sock_buf_fill sb net =
     fill_loop (fst net) (snd net) (if sb_size sb = 0 then sb\<lparr>sb_start := 0\<rparr> else sb)"

text \<open>\<open>memcpy\<close> of \<open>n\<close> bytes at the start of the buffer to \<open>p\<close>, which takes them out.\<close>

definition sb_take :: "SockBuf \<Rightarrow> nat \<Rightarrow> mem \<Rightarrow> nat \<Rightarrow> (mem \<times> SockBuf) run" where
  "sb_take sb n buf p =
     andthen (run_option (do { bs \<leftarrow> rdn (sb_buf sb) (sb_start sb) n; wrn buf p bs })) (\<lambda>buf.
       Done (buf, sb\<lparr>sb_start := sb_start sb + n, sb_size := sb_size sb - n\<rparr>))"

definition close_unless_timeout :: "SockBuf \<Rightarrow> SockBuf" where
  "close_unless_timeout sb = (if sb_timeout sb then sb else sock_buf_close sb)"

definition sock_read :: "SockBuf \<Rightarrow> net \<Rightarrow> mem \<Rightarrow> nat \<Rightarrow> (int \<times> mem \<times> SockBuf \<times> net) run" where
  "sock_read sb net buf buf_size =
     (if \<not> is_connected sb then Done (- 1, buf, sb, net)
      else if sb_size sb \<ge> buf_size then
        andthen (sb_take sb (sb_size sb) buf 0) (\<lambda>(buf, sb). Done (int buf_size, buf, sb, net))
      else andthen (sock_buf_fill sb net) (\<lambda>(r, sb, net).
        if r < 1 then Done (0, buf, close_unless_timeout sb, net)
        else let n2read = min (sb_size sb) buf_size in
          andthen (sb_take sb n2read buf 0) (\<lambda>(buf, sb). Done (int n2read, buf, sb, net))))"

text \<open>\<open>p\<close> bytes are in the caller's buffer and \<open>sz\<close> are still wanted.\<close>

function sock_readn_loop :: "SockBuf \<Rightarrow> net \<Rightarrow> mem \<Rightarrow> nat \<Rightarrow> nat \<Rightarrow> (int \<times> mem \<times> SockBuf \<times> net) run" where
  "sock_readn_loop sb net buf p sz =
     (if sz = 0 then Done (int p, buf, sb, net)
      else andthen (if sb_size sb = 0 then sock_buf_fill sb net else Done (1, sb, net)) (\<lambda>(r, sb, net).
        if r < 1 then Done (0, buf, close_unless_timeout sb, net)
        else let n2read = min sz (sb_size sb) in
          if n2read = 0 then Done (int p, buf, sock_buf_close sb, net)
          else andthen (sb_take sb n2read buf p) (\<lambda>(buf, sb). sock_readn_loop sb net buf (p + n2read) (sz - n2read))))"
  by pat_completeness auto
termination by (relation "measure (\<lambda>(sb, net, buf, p, sz). sz)") auto

declare sock_readn_loop.simps [simp del]

definition sock_readn :: "SockBuf \<Rightarrow> net \<Rightarrow> mem \<Rightarrow> nat \<Rightarrow> (int \<times> mem \<times> SockBuf \<times> net) run" where
  "sock_readn sb net buf buf_size =
     (if \<not> is_connected sb then Done (- 1, buf, sb, net)
      else sock_readn_loop (sb\<lparr>sb_timeout := False\<rparr>) net buf 0 buf_size)"

text \<open>
  What was handed to the kernel: the pieces, each with the address it was sent to. \<open>Wrote k\<close>: the
  call took \<open>k\<close> bytes, or all of them.
\<close>

type_synonym sockaddr_in = "u32 \<times> u16"
type_synonym sent = "(sockaddr_in option \<times> u8 list) list"

fun send_loop ::
  "sockaddr_in option \<Rightarrow> SockBuf \<Rightarrow> write_res list \<Rightarrow> mem \<Rightarrow> nat \<Rightarrow> nat \<Rightarrow> sent \<Rightarrow> (int \<times> SockBuf \<times> sent) run" where
  "send_loop remote sb evs buf p 0 out = Done (int p, sb, out)"
| "send_loop remote sb [] buf p (Suc t) out = Waits"
| "send_loop remote sb (ev # evs) buf p (Suc t) out =
     (case ev of
        WIntr \<Rightarrow> send_loop remote sb evs buf p (Suc t) out
      | WErr \<Rightarrow> Done (- 1, sock_buf_close sb, out)
      | Wrote k \<Rightarrow>
          (let n = min k (Suc t)
           in if n = 0 then Done (0, sb, out)
              else andthen (run_option (rdn buf p (Suc t))) (\<lambda>bs.
                send_loop remote sb evs buf (p + n) (Suc t - n) (out @ [(remote, take n bs)]))))"

definition sock_write :: "SockBuf \<Rightarrow> write_res list \<Rightarrow> mem \<Rightarrow> nat \<Rightarrow> sockaddr_in option \<Rightarrow> (int \<times> SockBuf \<times> sent) run" where
  "sock_write sb evs buf sz remote =
     (if \<not> is_connected sb then Done (- 1, sb, []) else send_loop remote sb evs buf 0 sz [])"

section \<open>Connecting and options\<close>

text \<open>The \<open>sockaddr_in\<close> of an address, and what \<open>socket\<close>, \<open>bind\<close> and \<open>getsockname\<close> answer.\<close>

definition sockaddr_of :: "(string \<Rightarrow> u32) \<Rightarrow> AddressPort \<Rightarrow> sockaddr_in" where
  "sockaddr_of inet_addr ap = (inet_addr (c_str (ap_ip ap)), ap_port ap)"

definition sock_connect :: "(string \<Rightarrow> u32) \<Rightarrow> (sockaddr_in \<Rightarrow> bool) \<Rightarrow> AddressPort \<Rightarrow> int" where
  "sock_connect inet_addr connects ap = (if connects (sockaddr_of inet_addr ap) then 0 else - 1)"

definition tcp_accept :: "int \<Rightarrow> int" where
  "tcp_accept connfd = (if connfd < 0 then - 1 else connfd)"

definition tcp_listen :: "bool \<Rightarrow> int" where
  "tcp_listen ok = (if ok then 0 else - 1)"

record answers =
  an_socket :: int
  an_bind :: "sockaddr_in \<Rightarrow> bool"
  an_name :: "(string \<times> u16) option"
  an_ours :: string

datatype sockopt = REUSEADDR | RCVTIMEO nat | MULTICAST_TTL nat | MULTICAST_LOOP | ADD_MEMBERSHIP u32 | BROADCAST

definition bind_and_name ::
  "(string \<Rightarrow> u32) \<Rightarrow> answers \<Rightarrow> sockaddr_in \<Rightarrow> AddressPort \<Rightarrow> int \<times> AddressPort" where
  "bind_and_name inet_addr an addr ap =
     (if \<not> an_bind an addr then (- 1, ap)
      else get_local_address_from_sockfd inet_addr (an_ours an) (an_name an) (an_socket an) ap)"

definition tcp_open :: "(string \<Rightarrow> u32) \<Rightarrow> answers \<Rightarrow> SockBuf \<Rightarrow> AddressPort \<Rightarrow> int \<times> SockBuf \<times> AddressPort \<times> sockopt list" where
  "tcp_open inet_addr an sb ap =
     (let sb = sock_buf_close sb
      in if an_socket an < 0 then (- 1, sb, ap, [])
         else case bind_and_name inet_addr an (sockaddr_of inet_addr ap) ap of
           (ret, ap) \<Rightarrow> (if ret < 0 then - 1 else 0, sb\<lparr>sb_socket := an_socket an\<rparr>, ap, [REUSEADDR, RCVTIMEO 30]))"

definition udp_open :: "(string \<Rightarrow> u32) \<Rightarrow> answers \<Rightarrow> SockBuf \<Rightarrow> AddressPort \<Rightarrow> int \<times> SockBuf \<times> AddressPort \<times> sockopt list" where
  "udp_open inet_addr an sb ap =
     (let sb = sock_buf_close sb
      in if an_socket an < 0 then (- 1, sb, ap, [])
         else
           (let a = inet_addr (c_str (ap_ip ap));
                a = (if IN_MULTICAST (htonl a) \<or> a = INADDR_BROADCAST then htonl INADDR_ANY else a);
                opts = [REUSEADDR, MULTICAST_TTL 255];
                sb = sb\<lparr>sb_socket := an_socket an\<rparr>
            in case bind_and_name inet_addr an (a, ap_port ap) ap of
              (ret, ap) \<Rightarrow>
                if ret < 0 then (- 1, sb, ap, opts)
                else
                  (let b = inet_addr (c_str (ap_ip ap))
                   in (0, sb, ap, opts @ (if IN_MULTICAST (htonl b) then [MULTICAST_LOOP, ADD_MEMBERSHIP b] else [])
                     @ (if b = INADDR_BROADCAST then [BROADCAST] else [])))))"

text \<open>\<open>Udp\<close>: the remote address that is kept, and the writes that go to it.\<close>

definition init_remote_addr :: "(string \<Rightarrow> u32) \<Rightarrow> AddressPort \<Rightarrow> sockaddr_in option" where
  "init_remote_addr inet_addr ap = (if c_str (ap_ip ap) = ''0.0.0.0'' then Some (sockaddr_of inet_addr ap) else None)"

definition new_Udp :: "(string \<Rightarrow> u32) \<Rightarrow> sockaddr_in option" where
  "new_Udp inet_addr = init_remote_addr inet_addr reset_ap"

definition new_Udp_to :: "(string \<Rightarrow> u32) \<Rightarrow> string option \<Rightarrow> u16 \<Rightarrow> sockaddr_in option" where
  "new_Udp_to inet_addr ip port =
     init_remote_addr inet_addr \<lparr>ap_ip = (case ip of None \<Rightarrow> ''0.0.0.0'' | Some s \<Rightarrow> s), ap_port = port\<rparr>"

definition udp_write ::
  "sockaddr_in option \<Rightarrow> SockBuf \<Rightarrow> write_res list \<Rightarrow> mem \<Rightarrow> nat \<Rightarrow> sockaddr_in option \<Rightarrow> (int \<times> SockBuf \<times> sent) run" where
  "udp_write m_remote_addr sb evs buf sz remote =
     sock_write sb evs buf sz (if remote \<noteq> None then remote else m_remote_addr)"

text \<open>
  The size of a kernel buffer: \<open>sizes\<close> are the results of \<open>getsockopt\<close> before and after the loop and
  \<open>sets i\<close> whether the \<open>i\<close>-th \<open>setsockopt\<close> succeeds. The loop runs with fuel; \<open>Some n\<close> is the size
  it set. A sum of two sizes outside \<open>int\<close> is undefined.
\<close>

definition get_buffer_size :: "int option \<Rightarrow> int" where
  "get_buffer_size opt = (case opt of None \<Rightarrow> 0 | Some n \<Rightarrow> n)"

fun increate_loop :: "nat \<Rightarrow> (nat \<Rightarrow> bool) \<Rightarrow> nat \<Rightarrow> int \<Rightarrow> int \<Rightarrow> int option run" where
  "increate_loop 0 sets i cur_size requested_size = Unfinished"
| "increate_loop (Suc k) sets i cur_size requested_size =
     (if requested_size < cur_size then
        (if sets i then Done (Some requested_size)
         else if \<bar>requested_size + cur_size\<bar> > INT_MAX then Undefined
         else increate_loop k sets (Suc i) cur_size
           (if requested_size + cur_size < 0 then - (- (requested_size + cur_size) div 2) else (requested_size + cur_size) div 2))
      else Done None)"

definition increate_buffer_to :: "nat \<Rightarrow> (nat \<Rightarrow> bool) \<Rightarrow> int option \<times> int option \<Rightarrow> int \<Rightarrow> (int \<times> int option) run" where
  "increate_buffer_to fuel sets sizes requested_size =
     andthen (increate_loop fuel sets 0 (get_buffer_size (fst sizes)) requested_size) (\<lambda>r.
       Done (case r of Some n \<Rightarrow> (n, r) | None \<Rightarrow> (get_buffer_size (snd sizes), r)))"

text \<open>\<open>poll\<close> on one descriptor: what it returns, the events it reports and \<open>errno\<close>.\<close>

datatype poll_event = POLLIN | POLLOUT | POLLERR | POLLHUP

abbreviation (input) EAGAIN :: int where "EAGAIN \<equiv> 11"

definition network_wait_fd :: "int \<Rightarrow> poll_event set \<Rightarrow> int \<Rightarrow> bool \<Rightarrow> int" where
  "network_wait_fd ret revents errno write =
     (if ret < 0 then errno
      else if (if write then POLLOUT else POLLIN) \<in> revents \<or> POLLERR \<in> revents \<or> POLLHUP \<in> revents then 0
      else EAGAIN)"

section \<open>Address lists\<close>

text \<open>A \<open>NetAddress\<close> is its bytes; \<open>assign\<close> copies them.\<close>

type_synonym NetAddress = "u8 list"

definition na_assign :: "mem \<Rightarrow> nat \<Rightarrow> NetAddress option" where
  "na_assign data n = rdn data 0 n"

definition na_zero :: "nat \<Rightarrow> NetAddress" where
  "na_zero n = replicate n 0"

record NetAddressList =
  m_num_addresses :: u32
  m_address_array :: "NetAddress list option"

text \<open>
  What \<open>getaddrinfo\<close> lists: the length of each address and its four bytes. An entry that is too
  short is skipped by a \<open>continue\<close> that does not move on: the loop never ends (\<open>None\<close>).
\<close>

fun count_addrs :: "(nat \<times> u8 list) list \<Rightarrow> nat option" where
  "count_addrs [] = Some 0"
| "count_addrs ((addrlen, a) # r) = (if addrlen < 4 then None else map_option Suc (count_addrs r))"

definition bytes_of_addr :: "u32 \<Rightarrow> u8 list" where
  "bytes_of_addr a = [ucast a, ucast (drop_bit 8 a), ucast (drop_bit 16 a), ucast (drop_bit 24 a)]"

definition new_NetAddressList ::
  "(string \<Rightarrow> u32) \<Rightarrow> (string \<Rightarrow> (nat \<times> u8 list) list option) \<Rightarrow> string \<Rightarrow> NetAddressList option" where
  "new_NetAddressList inet_addr getaddrinfo hostname =
     (let addr = inet_addr hostname
      in if addr \<noteq> INADDR_NONE then Some \<lparr>m_num_addresses = 1, m_address_array = Some [bytes_of_addr addr]\<rparr>
         else case getaddrinfo hostname of
           None \<Rightarrow> Some \<lparr>m_num_addresses = 0, m_address_array = None\<rparr>
         | Some [] \<Rightarrow> Some \<lparr>m_num_addresses = 0, m_address_array = None\<rparr>
         | Some l \<Rightarrow> map_option (\<lambda>n. \<lparr>m_num_addresses = of_nat n, m_address_array = Some (map snd l)\<rparr>) (count_addrs l))"

definition list_assign :: "u32 \<Rightarrow> NetAddress list option \<Rightarrow> NetAddressList option" where
  "list_assign n a =
     (case a of
        None \<Rightarrow> if n = 0 then Some \<lparr>m_num_addresses = n, m_address_array = Some []\<rparr> else None
      | Some l \<Rightarrow> if unat n \<le> length l then Some \<lparr>m_num_addresses = n, m_address_array = Some (take (unat n) l)\<rparr> else None)"

text \<open>\<open>clean\<close> counts down with \<open>m_num_addresses--\<close> and so ends one below zero.\<close>

definition list_clean :: "NetAddressList \<Rightarrow> NetAddressList" where
  "list_clean nl = nl\<lparr>m_num_addresses := 0 - 1, m_address_array := None\<rparr>"

definition list_set :: "bool \<Rightarrow> NetAddressList \<Rightarrow> NetAddressList \<Rightarrow> NetAddressList option" where
  "list_set same nl rhs = (if same then Some nl else list_assign (m_num_addresses rhs) (m_address_array rhs))"

definition first_address :: "NetAddressList \<Rightarrow> NetAddress option option" where
  "first_address nl =
     (if m_num_addresses nl = 0 then Some None
      else case m_address_array nl of Some (a # r) \<Rightarrow> Some (Some a) | _ \<Rightarrow> None)"

definition next_address :: "NetAddressList \<Rightarrow> u32 \<Rightarrow> (NetAddress option \<times> u32) option" where
  "next_address nl i =
     (if i \<ge> m_num_addresses nl then Some (None, i)
      else case m_address_array nl of
        Some l \<Rightarrow> if unat i < length l then Some (Some (l ! unat i), i + 1) else None
      | None \<Rightarrow> None)"

section \<open>Reading\<close>

definition sb_ok :: "SockBuf \<Rightarrow> bool" where
  "sb_ok sb \<longleftrightarrow> sb_start sb + sb_size sb \<le> BUFFER_CACHE_SIZE - 1 \<and> length (sb_buf sb) = BUFFER_CACHE_SIZE"

definition sb_content :: "SockBuf \<Rightarrow> u8 list" where
  "sb_content sb = take (sb_size sb) (drop (sb_start sb) (sb_buf sb))"

text \<open>All that is still to be read, in its order.\<close>

definition to_come :: "SockBuf \<Rightarrow> net \<Rightarrow> u8 list" where
  "to_come sb net = sb_content sb @ snd net"

lemma length_sb_content: "sb_ok sb \<Longrightarrow> length (sb_content sb) = sb_size sb"
  by (auto simp: sb_ok_def sb_content_def)

lemma sb_fill_bytes:
  assumes "sb_ok sb" "length bs + sb_size sb + sb_start sb \<le> BUFFER_CACHE_SIZE - 1"
  shows "\<exists>m. wrn (sb_buf sb) (sb_start sb + sb_size sb) bs = Some m \<and>
    sb_ok (sb\<lparr>sb_buf := m, sb_size := sb_size sb + length bs\<rparr>) \<and>
    sb_content (sb\<lparr>sb_buf := m, sb_size := sb_size sb + length bs\<rparr>) = sb_content sb @ bs"
proof -
  let ?m = "splice (sb_buf sb) (sb_start sb + sb_size sb) bs"
  have "take (sb_size sb + length bs) (drop (sb_start sb) ?m) = sb_content sb @ bs"
    using assms by (simp add: splice_def sb_ok_def sb_content_def drop_take)
  then show ?thesis using assms by (simp add: wrn_def sb_ok_def sb_content_def)
qed

lemma fill_loop_ok:
  "sb_ok sb \<Longrightarrow> fill_loop evs wire sb = Waits \<or> (\<exists>r sb' evs' wire'. fill_loop evs wire sb = Done (r, sb', evs', wire') \<and>
     sb_ok sb' \<and> sb_socket sb' = sb_socket sb \<and> sb_content sb' @ wire' = sb_content sb @ wire \<and> sb_size sb' = sb_size sb + nat r)"
proof (induction evs wire sb rule: fill_loop.induct)
  case (2 ev evs wire sb)
  have le: "\<not> sb_start sb + sb_size sb > BUFFER_CACHE_SIZE - 1" using 2(2) by (simp add: sb_ok_def)
  show ?case
  proof (cases ev)
    case (Arrives k)
    let ?n = "min (min k (BUFFER_CACHE_SIZE - 1 - sb_size sb - sb_start sb)) (length wire)"
    have "length (take ?n wire) = ?n" by simp
    moreover have "?n + sb_size sb + sb_start sb \<le> BUFFER_CACHE_SIZE - 1" using le by linarith
    ultimately obtain m where "wrn (sb_buf sb) (sb_start sb + sb_size sb) (take ?n wire) = Some m"
      "sb_ok (sb\<lparr>sb_buf := m, sb_size := sb_size sb + ?n\<rparr>)"
      "sb_content (sb\<lparr>sb_buf := m, sb_size := sb_size sb + ?n\<rparr>) = sb_content sb @ take ?n wire"
      using sb_fill_bytes[OF 2(2), of "take ?n wire"] by metis
    then show ?thesis using le Arrives by (simp add: Let_def run_option_def)
  next
    case Interrupted
    then show ?thesis using le 2(1)[OF le Interrupted 2(2)] by simp
  next
    case WouldBlock
    then show ?thesis using le 2(2) by (simp add: sb_ok_def sb_content_def)
  next
    case Broken
    then show ?thesis using le 2(2) by simp
  qed
qed simp

lemma fill_ok:
  assumes "sb_ok sb"
  shows "sock_buf_fill sb net = Waits \<or> (\<exists>r sb' net'. sock_buf_fill sb net = Done (r, sb', net') \<and>
     sb_ok sb' \<and> sb_socket sb' = sb_socket sb \<and> to_come sb' net' = to_come sb net \<and> sb_size sb' = sb_size sb + nat r)"
proof -
  let ?sb = "if sb_size sb = 0 then sb\<lparr>sb_start := 0\<rparr> else sb"
  have "sb_ok ?sb" "sb_content ?sb = sb_content sb" "sb_socket ?sb = sb_socket sb" "sb_size ?sb = sb_size sb"
    using assms by (auto simp: sb_ok_def sb_content_def)
  then show ?thesis
    using fill_loop_ok[of ?sb "fst net" "snd net"] unfolding sock_buf_fill_def to_come_def by fastforce
qed

lemma sb_take_ok:
  assumes "sb_ok sb" "n \<le> sb_size sb" "p + n \<le> length buf"
  shows "\<exists>sb'. sb_take sb n buf p = Done (splice buf p (take n (sb_content sb)), sb') \<and> sb_ok sb' \<and>
    sb_content sb' = drop n (sb_content sb) \<and> sb_socket sb' = sb_socket sb \<and> sb_size sb' = sb_size sb - n \<and>
    sb_timeout sb' = sb_timeout sb"
proof -
  have "rdn (sb_buf sb) (sb_start sb) n = Some (take n (sb_content sb))" "length (take n (sb_content sb)) = n"
    using assms(1,2) by (auto simp: rdn_def sb_ok_def sb_content_def)
  then show ?thesis
    using assms by (simp add: sb_take_def run_option_def wrn_def sb_ok_def sb_content_def drop_take add.commute)
qed

lemma readn_loop_step:
  assumes "sb_ok sb" "p + sz \<le> length buf" "sz \<noteq> 0" "sb_size sb \<noteq> 0"
  shows "\<exists>sb'. sock_readn_loop sb net buf p sz =
      sock_readn_loop sb' net (splice buf p (take (min sz (sb_size sb)) (to_come sb net))) (p + min sz (sb_size sb)) (sz - min sz (sb_size sb)) \<and>
    sb_ok sb' \<and> to_come sb' net = drop (min sz (sb_size sb)) (to_come sb net) \<and> sb_socket sb' = sb_socket sb"
proof -
  let ?n = "min sz (sb_size sb)"
  have le: "p + ?n \<le> length buf" using assms(2) by linarith
  have nz: "(?n = 0) = False" using assms(3,4) by simp
  obtain sb' where sb': "sb_take sb ?n buf p = Done (splice buf p (take ?n (sb_content sb)), sb')" "sb_ok sb'"
    "sb_content sb' = drop ?n (sb_content sb)" "sb_socket sb' = sb_socket sb"
    using sb_take_ok[OF assms(1), of ?n p buf] le by auto
  have "take ?n (to_come sb net) = take ?n (sb_content sb)" "drop ?n (to_come sb net) = to_come sb' net"
    using length_sb_content[OF assms(1)] sb'(3) by (simp_all add: to_come_def)
  moreover have "sock_readn_loop sb net buf p sz = sock_readn_loop sb' net (splice buf p (take ?n (sb_content sb))) (p + ?n) (sz - ?n)"
    using assms(3,4) sb'(1) by (subst sock_readn_loop.simps) (simp add: Let_def nz)
  ultimately show ?thesis using sb'(2,4) by metis
qed

text \<open>How a call of the reading loop may end: \<open>m\<close> bytes arrived in the caller's buffer.\<close>

definition read_ends :: "mem \<Rightarrow> nat \<Rightarrow> nat \<Rightarrow> u8 list \<Rightarrow> SockBuf \<Rightarrow> nat \<Rightarrow> int \<times> mem \<times> SockBuf \<times> net \<Rightarrow> bool" where
  "read_ends buf p sz coming sb m out = (case out of (r, buf', sb', net') \<Rightarrow>
     m \<le> sz \<and> m \<le> length coming \<and> buf' = splice buf p (take m coming) \<and> to_come sb' net' = drop m coming \<and> sb_ok sb' \<and>
     (if m = sz then r = int (p + sz) \<and> sb_socket sb' = sb_socket sb else r = 0 \<and> (sb_timeout sb' \<or> sb_socket sb' < 0)))"

lemma close_unless_ok: "sb_ok sb \<Longrightarrow> sb_ok (close_unless_timeout sb) \<and> to_come (close_unless_timeout sb) net = to_come sb net \<and>
    (sb_timeout (close_unless_timeout sb) \<or> sb_socket (close_unless_timeout sb) < 0)"
  by (auto simp: close_unless_timeout_def sock_buf_close_def sb_ok_def to_come_def sb_content_def)

lemma read_ends_later:
  assumes "read_ends (splice buf p (take n coming)) (p + n) (sz - n) (drop n coming) sb m out" "n \<le> sz" "n \<le> length coming"
    "p + sz \<le> length buf"
  shows "read_ends buf p sz coming sb (n + m) out"
proof -
  have "splice (splice buf p (take n coming)) (p + n) (take m (drop n coming)) = splice buf p (take (n + m) coming)"
    using splice_append[of p "take n coming" buf "take m (drop n coming)"] assms(2-4) by (simp add: take_add min_absorb2)
  then show ?thesis using assms by (auto simp: read_ends_def add.assoc add.commute split: if_splits)
qed

lemma read_ends_cong: "sb_socket s = sb_socket s' \<Longrightarrow> read_ends buf p sz c s m out = read_ends buf p sz c s' m out"
  by (cases out) (simp add: read_ends_def split_beta)

lemma readn_loop_fill:
  assumes "sz \<noteq> 0" "sb_size sb = 0"
  shows "sock_buf_fill sb net = Waits \<Longrightarrow> sock_readn_loop sb net buf p sz = Waits"
    and "sock_buf_fill sb net = Done (r, s, nt) \<Longrightarrow> r < 1 \<Longrightarrow>
      sock_readn_loop sb net buf p sz = Done (0, buf, close_unless_timeout s, nt)"
    and "sock_buf_fill sb net = Done (r, s, nt) \<Longrightarrow> \<not> r < 1 \<Longrightarrow> sb_size s \<noteq> 0 \<Longrightarrow>
      sock_readn_loop sb net buf p sz = sock_readn_loop s nt buf p sz"
  using assms sock_readn_loop.simps[of sb net buf p sz] sock_readn_loop.simps[of s nt buf p sz] by simp_all

lemma readn_loop_ends:
  "sb_ok sb \<Longrightarrow> p + sz \<le> length buf \<Longrightarrow> sock_readn_loop sb net buf p sz = Waits \<or>
    (\<exists>m out. sock_readn_loop sb net buf p sz = Done out \<and> read_ends buf p sz (to_come sb net) sb m out)"
proof (induction sz arbitrary: sb net buf p rule: less_induct)
  case (less sz)
  have step: "sock_readn_loop s nt buf p sz = Waits \<or>
      (\<exists>m out. sock_readn_loop s nt buf p sz = Done out \<and> read_ends buf p sz (to_come s nt) s m out)"
    if ok: "sb_ok s" and nz: "sb_size s \<noteq> 0" "sz \<noteq> 0" for s nt
  proof -
    let ?n = "min sz (sb_size s)"
    let ?b = "splice buf p (take ?n (to_come s nt))"
    obtain s' where s': "sock_readn_loop s nt buf p sz = sock_readn_loop s' nt ?b (p + ?n) (sz - ?n)" "sb_ok s'"
      "to_come s' nt = drop ?n (to_come s nt)" "sb_socket s' = sb_socket s"
      using readn_loop_step[OF ok less.prems(2) nz(2,1)] by blast
    have n: "0 < ?n" "?n \<le> length (to_come s nt)" "?n \<le> sz" "length ?b = length buf"
      using nz length_sb_content[OF ok] less.prems(2) by (auto simp: to_come_def)
    have "sock_readn_loop s' nt ?b (p + ?n) (sz - ?n) = Waits \<or>
        (\<exists>m out. sock_readn_loop s' nt ?b (p + ?n) (sz - ?n) = Done out \<and> read_ends ?b (p + ?n) (sz - ?n) (to_come s' nt) s' m out)"
      using less.prems(2) n by (intro less.IH s'(2)) auto
    then show ?thesis
      unfolding s'(1) s'(3) read_ends_cong[OF s'(4)] using read_ends_later[OF _ n(3,2) less.prems(2)] by blast
  qed
  show ?case
  proof (cases "sz = 0 \<or> sb_size sb \<noteq> 0")
    case True
    then show ?thesis using step[OF less.prems(1)] less.prems(1) by (cases "sz = 0") (simp_all add: read_ends_def sock_readn_loop.simps[of _ _ _ _ 0])
  next
    case False
    then have z: "sz \<noteq> 0" "sb_size sb = 0" by auto
    show ?thesis
    proof (cases "sock_buf_fill sb net = Waits")
      case True
      then show ?thesis using readn_loop_fill(1)[OF z] by simp
    next
      case nw: False
      then obtain r s nt where f: "sock_buf_fill sb net = Done (r, s, nt)" "sb_ok s" "sb_socket s = sb_socket sb"
        "to_come s nt = to_come sb net" "sb_size s = sb_size sb + nat r" using fill_ok[OF less.prems(1)] by blast
      show ?thesis
      proof (cases "r < 1")
        case True
        then show ?thesis
          using readn_loop_fill(2)[OF z f(1)] close_unless_ok[OF f(2), of nt] f(4) z by (auto simp: read_ends_def intro!: exI[of _ 0])
      next
        case ge: False
        then have "sb_size s \<noteq> 0" using f(5) by simp
        then show ?thesis
          using readn_loop_fill(3)[OF z f(1) ge] step[OF f(2) _ z(1), of nt] unfolding f(4) read_ends_cong[OF f(3)] by metis
      qed
    qed
  qed
qed

text \<open>
  A connection that keeps delivering: interrupted calls aside, every event brings something, and
  there are \<open>n\<close> of them at least.
\<close>

definition flowing :: "net \<Rightarrow> nat \<Rightarrow> bool" where
  "flowing net n \<longleftrightarrow> list_all (\<lambda>e. e = Interrupted \<or> (\<exists>k>0. e = Arrives k)) (fst net) \<and>
     n \<le> length (filter (\<lambda>e. e \<noteq> Interrupted) (fst net))"

lemma flowing_mono: "flowing net n \<Longrightarrow> m \<le> n \<Longrightarrow> flowing net m"
  by (simp add: flowing_def)

lemma fill_loop_flowing:
  "sb_ok sb \<Longrightarrow> sb_size sb = 0 \<Longrightarrow> sb_start sb = 0 \<Longrightarrow> wire \<noteq> [] \<Longrightarrow> flowing (evs, wire) (Suc n) \<Longrightarrow>
   \<exists>r sb' net'. fill_loop evs wire sb = Done (r, sb', net') \<and> 1 \<le> r \<and> flowing net' n"
proof (induction evs)
  case (Cons ev evs)
  show ?case
  proof (cases "ev = Interrupted")
    case True
    then show ?thesis using Cons by (simp add: flowing_def)
  next
    case False
    then obtain k where k: "ev = Arrives k" "k > 0" "flowing (evs, drop j wire) n" for j
      using Cons.prems(5) by (auto simp: flowing_def)
    let ?j = "min (min k (BUFFER_CACHE_SIZE - 1)) (length wire)"
    have "?j \<noteq> 0" using k(2) Cons.prems(4) by simp
    moreover have "length (take ?j wire) = ?j" "?j \<le> BUFFER_CACHE_SIZE" by simp_all
    ultimately show ?thesis
      using Cons.prems(1-3) k(1,3) by (simp add: Let_def run_option_def wrn_def sb_ok_def Suc_le_eq)
  qed
qed (simp add: flowing_def)

lemma fill_flowing:
  assumes "sb_ok sb" "sb_size sb = 0" "snd net \<noteq> []" "flowing net (Suc n)"
  shows "\<exists>r sb' net'. sock_buf_fill sb net = Done (r, sb', net') \<and> 1 \<le> r \<and> flowing net' n"
  using fill_loop_flowing[of "sb\<lparr>sb_start := 0\<rparr>" "snd net" "fst net" n] assms
  by (simp add: sock_buf_fill_def sb_ok_def)

lemma readn_loop_flows:
  "sb_ok sb \<Longrightarrow> p + sz \<le> length buf \<Longrightarrow> sz \<le> length (to_come sb net) \<Longrightarrow> flowing net (sz + k) \<Longrightarrow>
    \<exists>r buf' sb' net'. sock_readn_loop sb net buf p sz = Done (r, buf', sb', net') \<and> r = int (p + sz) \<and> flowing net' k"
proof (induction sz arbitrary: sb net buf p rule: less_induct)
  case (less sz)
  have step: "\<exists>r buf' sb' net'. sock_readn_loop s nt buf p sz = Done (r, buf', sb', net') \<and> r = int (p + sz) \<and> flowing net' k"
    if ok: "sb_ok s" "sb_size s \<noteq> 0" "sz \<noteq> 0" "sz \<le> length (to_come s nt)" "flowing nt (sz - 1 + k)" for s nt
  proof -
    let ?n = "min sz (sb_size s)"
    let ?b = "splice buf p (take ?n (to_come s nt))"
    obtain s' where s': "sock_readn_loop s nt buf p sz = sock_readn_loop s' nt ?b (p + ?n) (sz - ?n)" "sb_ok s'"
      "to_come s' nt = drop ?n (to_come s nt)"
      using readn_loop_step[OF ok(1) less.prems(2) ok(3,2)] by blast
    have n: "0 < ?n" "?n \<le> sz" "length ?b = length buf" using ok(2-4) less.prems(2) by auto
    have "\<exists>r buf' sb' net'. sock_readn_loop s' nt ?b (p + ?n) (sz - ?n) = Done (r, buf', sb', net') \<and>
        r = int (p + ?n + (sz - ?n)) \<and> flowing net' k"
      using less.prems(2) n s'(3) ok(4) flowing_mono[OF ok(5), of "sz - ?n + k"] by (intro less.IH s'(2)) auto
    then show ?thesis using s'(1) n(2) by auto
  qed
  show ?case
  proof (cases "sz = 0")
    case True
    then show ?thesis using less.prems(4) by (simp add: sock_readn_loop.simps[of _ _ _ _ 0])
  next
    case sz: False
    show ?thesis
    proof (cases "sb_size sb = 0")
      case True
      have "length (sb_content sb) = 0" using length_sb_content[OF less.prems(1)] True by simp
      then have "snd net \<noteq> []" using less.prems(3) sz by (auto simp: to_come_def)
      moreover have "flowing net (Suc (sz - 1 + k))" using less.prems(4) sz by simp
      ultimately obtain r s nt where f: "sock_buf_fill sb net = Done (r, s, nt)" "1 \<le> r" "flowing nt (sz - 1 + k)"
        using fill_flowing[OF less.prems(1) True] by blast
      then have s: "sb_ok s" "to_come s nt = to_come sb net" "sb_size s \<noteq> 0"
        using fill_ok[OF less.prems(1), of net] by auto
      then show ?thesis
        using readn_loop_fill(3)[OF sz True f(1) _ s(3)] f(2,3) step[OF s(1,3) sz, of nt] less.prems(3) by simp
    next
      case False
      then show ?thesis using step[OF less.prems(1) False sz less.prems(3)] flowing_mono[OF less.prems(4), of "sz - 1 + k"] by simp
    qed
  qed
qed

text \<open>
  A source of bytes as its clients use it: \<open>stream\<close> is what is still to come, \<open>ready s n\<close> that \<open>n\<close>
  bytes of it can be read.
\<close>

locale byte_source =
  fixes stream :: "'s \<Rightarrow> u8 list"
    and ready :: "'s \<Rightarrow> nat \<Rightarrow> bool"
    and read :: "'s \<Rightarrow> nat \<Rightarrow> (u8 list \<times> 's) option"
  assumes read_law: "ready s (n + k) \<Longrightarrow>
      \<exists>s'. read s n = Some (take n (stream s), s') \<and> stream s' = drop n (stream s) \<and> ready s' k"
begin

lemma read_pieces:
  "ready s (sum_list ns + k) \<Longrightarrow>
   \<exists>s'. foldo (\<lambda>(xs, s) n. do { (x, s) \<leftarrow> read s n; Some (xs @ x, s) }) (xs, s) ns =
     Some (xs @ take (sum_list ns) (stream s), s') \<and> stream s' = drop (sum_list ns) (stream s) \<and> ready s' k"
proof (induction ns arbitrary: s xs)
  case (Cons n ns)
  then obtain s1 where s1: "read s n = Some (take n (stream s), s1)" "stream s1 = drop n (stream s)" "ready s1 (sum_list ns + k)"
    using read_law[of s n "sum_list ns + k"] by (auto simp: add.assoc)
  then show ?case using Cons.IH[OF s1(3), of "xs @ take n (stream s)"]
    by (auto simp: take_add add.commute)
qed simp

end

text \<open>\<open>readn\<close> as such a source: a call that returns less than it was asked for is a failure.\<close>

definition sock_ready :: "SockBuf \<times> net \<Rightarrow> nat \<Rightarrow> bool" where
  "sock_ready s n \<longleftrightarrow> sb_ok (fst s) \<and> is_connected (fst s) \<and> n \<le> length (to_come (fst s) (snd s)) \<and> flowing (snd s) n"

definition read_exactly :: "SockBuf \<times> net \<Rightarrow> nat \<Rightarrow> (u8 list \<times> SockBuf \<times> net) option" where
  "read_exactly s n =
     (case sock_readn (fst s) (snd s) (replicate n 0) n of
        Done (r, buf, sb, net) \<Rightarrow> if r = int n then Some (buf, sb, net) else None
      | _ \<Rightarrow> None)"

lemma readn_flows:
  assumes "sb_ok sb" "is_connected sb" "n \<le> length buf" "n \<le> length (to_come sb net)" "flowing net (n + k)"
  shows "\<exists>sb' net'. sock_readn sb net buf n = Done (int n, splice buf 0 (take n (to_come sb net)), sb', net') \<and> sb_ok sb' \<and>
    is_connected sb' \<and> to_come sb' net' = drop n (to_come sb net) \<and> flowing net' k"
proof -
  let ?sb = "sb\<lparr>sb_timeout := False\<rparr>"
  have ok: "sb_ok ?sb" "to_come ?sb net = to_come sb net" using assms(1) by (simp_all add: sb_ok_def to_come_def sb_content_def)
  obtain buf' sb' net' where d: "sock_readn_loop ?sb net buf 0 n = Done (int n, buf', sb', net')" "flowing net' k"
    using readn_loop_flows[OF ok(1), of 0 n buf net k] assms(3-5) ok(2) by auto
  with readn_loop_ends[OF ok(1), of 0 n buf net] assms(3) obtain m where
    m: "read_ends buf 0 n (to_come ?sb net) ?sb m (int n, buf', sb', net')" by auto
  have "m = n" using m by (auto simp: read_ends_def split: if_splits)
  then show ?thesis
    using m d assms(2) ok(2) by (auto simp: read_ends_def sock_readn_def is_connected_def)
qed

interpretation sock: byte_source "\<lambda>s. to_come (fst s) (snd s)" sock_ready read_exactly
proof
  fix s :: "SockBuf \<times> net" and n k
  assume "sock_ready s (n + k)"
  then show "\<exists>s'. read_exactly s n = Some (take n (to_come (fst s) (snd s)), s') \<and>
      to_come (fst s') (snd s') = drop n (to_come (fst s) (snd s)) \<and> sock_ready s' k"
    using readn_flows[of "fst s" n "replicate n 0" "snd s" k]
    by (auto simp: sock_ready_def read_exactly_def splice_def)
qed

section \<open>Properties\<close>

text \<open>
  C25: socket_readn_safe. Whatever the network does, \<open>readn\<close> on an open socket stays within
  both buffers: it waits, or it has delivered all it was asked for, the next bytes of the stream, or it
  returns 0 after a timeout or with the socket closed (the bytes it had taken until then are in the
  caller's buffer but are not reported).
\<close>

theorem socket_readn_safe:
  assumes "sb_ok sb" "is_connected sb" "n \<le> length buf"
  shows "sock_readn sb net buf n = Waits \<or> (\<exists>r buf' sb' net' m. sock_readn sb net buf n = Done (r, buf', sb', net') \<and>
    m \<le> n \<and> sb_ok sb' \<and> buf' = splice buf 0 (take m (to_come sb net)) \<and> to_come sb' net' = drop m (to_come sb net) \<and>
    (if m = n then r = int n \<and> is_connected sb' else r = 0 \<and> (sb_timeout sb' \<or> sb_socket sb' < 0)))"
proof -
  let ?sb = "sb\<lparr>sb_timeout := False\<rparr>"
  have ok: "sb_ok ?sb" "to_come ?sb net = to_come sb net" using assms(1) by (simp_all add: sb_ok_def to_come_def sb_content_def)
  have run: "sock_readn sb net buf n = sock_readn_loop ?sb net buf 0 n" using assms(2) by (simp add: sock_readn_def)
  from readn_loop_ends[OF ok(1), of 0 n buf net] assms(3) consider "sock_readn sb net buf n = Waits"
    | m r buf' sb' net' where "sock_readn sb net buf n = Done (r, buf', sb', net')"
        "read_ends buf 0 n (to_come sb net) ?sb m (r, buf', sb', net')"
    unfolding run ok(2) by (metis add_0 prod_cases4)
  then show ?thesis
  proof cases
    case 2
    then show ?thesis using assms(2) unfolding 2(1)
      by (intro disjI2 exI[of _ r] exI[of _ buf'] exI[of _ sb'] exI[of _ net'] exI[of _ m])
        (auto simp: read_ends_def is_connected_def)
  qed simp
qed

text \<open>What a call of the sending loop hands over: a prefix of what it was given, all of it if it says so.\<close>

definition sends_part :: "sockaddr_in option \<Rightarrow> mem \<Rightarrow> nat \<Rightarrow> nat \<Rightarrow> int \<Rightarrow> sent \<Rightarrow> bool" where
  "sends_part remote buf p t r ps \<longleftrightarrow> (\<exists>m\<le>t. concat (map snd ps) = take m (drop p buf) \<and>
     (r = int (p + t) \<and> p + t \<noteq> 0 \<longrightarrow> m = t)) \<and> list_all (\<lambda>x. fst x = remote) ps"

lemma sends_part_none: "r \<noteq> int (p + t) \<or> t = 0 \<Longrightarrow> sends_part remote buf p t r []"
  by (auto simp: sends_part_def)

lemma sends_part_more:
  assumes "sends_part remote buf (p + n) (t - n) r ps" "n \<le> t" "bs = take n (drop p buf)"
  shows "sends_part remote buf p t r ((remote, bs) # ps)"
proof -
  obtain m where m: "m \<le> t - n" "concat (map snd ps) = take m (drop (p + n) buf)" "r = int (p + t) \<and> p + t \<noteq> 0 \<longrightarrow> m = t - n"
    using assms(1,2) by (auto simp: sends_part_def)
  have "concat (map snd ((remote, bs) # ps)) = take (n + m) (drop p buf)"
    using m(2) assms(3) by (simp add: take_add add.commute[of p n])
  moreover have "n + m \<le> t" "r = int (p + t) \<and> p + t \<noteq> 0 \<longrightarrow> n + m = t" using m(1,3) assms(2) by auto
  ultimately show ?thesis using assms(1) unfolding sends_part_def by auto
qed

lemma send_loop_sends:
  "p + t \<le> length buf \<Longrightarrow> send_loop remote sb evs buf p t out = Done (r, sb', out') \<Longrightarrow>
   \<exists>ps. out' = out @ ps \<and> sends_part remote buf p t r ps"
proof (induction remote sb evs buf p t out rule: send_loop.induct)
  case (3 remote sb ev evs buf p t out)
  show ?case
  proof (cases ev)
    case (Wrote k)
    let ?n = "min k (Suc t)"
    let ?bs = "take ?n (drop p buf)"
    show ?thesis
    proof (cases "?n = 0")
      case True
      then show ?thesis using 3(4) Wrote sends_part_none[of r p "Suc t"] by (simp add: Let_def)
    next
      case False
      have rd: "run_option (rdn buf p (Suc t)) = Done (take (Suc t) (drop p buf))"
        using 3(3) by (simp add: rdn_def run_option_def)
      have bs: "take ?n (take (Suc t) (drop p buf)) = ?bs" by simp
      have run: "send_loop remote sb evs buf (p + ?n) (Suc t - ?n) (out @ [(remote, ?bs)]) = Done (r, sb', out')"
        using 3(4) Wrote False rd bs by (simp add: Let_def)
      have "p + ?n + (Suc t - ?n) \<le> length buf" using 3(3) by simp
      from 3(1)[OF Wrote refl False rd this] run bs obtain ps where
        ps: "out' = (out @ [(remote, ?bs)]) @ ps" "sends_part remote buf (p + ?n) (Suc t - ?n) r ps" by metis
      have "sends_part remote buf p (Suc t) r ((remote, ?bs) # ps)"
        by (rule sends_part_more[OF ps(2)]) simp_all
      then show ?thesis using ps(1) by (intro exI[of _ "(remote, ?bs) # ps"]) simp
    qed
  next
    case WIntr
    then show ?thesis using 3(2)[OF WIntr 3(3)] 3(4) by simp
  next
    case WErr
    then show ?thesis using 3(4) sends_part_none[of r p "Suc t"] by simp
  qed
qed (auto intro: sends_part_none)

text \<open>
  C13: socket_transfers. What one socket writes the other reads: however the kernel splits the two,
  \<open>write\<close> sends a prefix of its buffer in order, all of it when it returns the size, and
  reading from the other end in pieces of any sizes gives the successive slices of the buffer.
\<close>

theorem socket_transfers:
  assumes "n \<le> length buf" "n \<noteq> 0" "sock_write sb evs buf n remote = Done (r, sb', out)"
    and "0 \<le> fd" "flowing (revs, concat (map snd out)) (sum_list ns)" "sum_list ns \<le> n"
  shows "(\<exists>m\<le>n. concat (map snd out) = take m buf) \<and>
    (r = int n \<longrightarrow> concat (map snd out) = take n buf \<and>
      (\<exists>s. foldo (\<lambda>(xs, s) k. do { (x, s) \<leftarrow> read_exactly s k; Some (xs @ x, s) })
        ([], sock_buf_init\<lparr>sb_socket := fd\<rparr>, revs, concat (map snd out)) ns = Some (take (sum_list ns) buf, s)))"
proof -
  have "\<exists>m\<le>n. concat (map snd out) = take m buf \<and> (r = int n \<longrightarrow> m = n)"
    using assms(2,3) send_loop_sends[of 0 n buf remote sb evs "[]" r sb' out] assms(1)
    by (auto simp: sock_write_def sends_part_def split: if_splits intro: exI[of _ 0])
  moreover have "\<exists>s. foldo (\<lambda>(xs, s) k. do { (x, s) \<leftarrow> read_exactly s k; Some (xs @ x, s) })
      ([], sock_buf_init\<lparr>sb_socket := fd\<rparr>, revs, take n buf) ns = Some (take (sum_list ns) buf, s)"
  proof -
    let ?s = "(sock_buf_init\<lparr>sb_socket := fd\<rparr>, revs, take n buf)"
    have "to_come (fst ?s) (snd ?s) = take n buf" by (simp add: to_come_def sb_content_def sock_buf_init_def)
    moreover from this have "sock_ready ?s (sum_list ns + 0)"
      using assms(1,4,5,6) by (simp add: sock_ready_def sb_ok_def is_connected_def flowing_def sock_buf_init_def)
    ultimately show ?thesis using sock.read_pieces[of ?s ns 0 "[]"] assms(6) by (auto simp: min_absorb1)
  qed
  ultimately show ?thesis by auto
qed

text \<open>
  Socket read faults: \<open>read\<close> copies all it has buffered, however small the caller's buffer
  is; and once the buffered bytes reach its last usable position, it asks the kernel for zero bytes,
  takes the answer for the end of the stream, and closes the socket with bytes still unread.
\<close>

theorem socket_read_faults:
  assumes "is_connected sb" "sb_ok sb"
  shows "(length buf < sb_size sb \<longrightarrow> sock_read sb net buf (length buf) = Undefined) \<and>
    (sb_start sb + sb_size sb = BUFFER_CACHE_SIZE - 1 \<and> 0 < sb_size sb \<and> sb_size sb < n \<and> \<not> sb_timeout sb \<and> 0 \<le> sb_socket sb \<longrightarrow>
      (\<exists>sb'. sock_read sb (Arrives k # evs, wire) buf n = Done (0, buf, sb', evs, wire) \<and>
        \<not> is_connected sb' \<and> sb_content sb' = sb_content sb))"
proof (intro conjI impI)
  assume "length buf < sb_size sb"
  moreover have "length (sb_content sb) = sb_size sb" by (rule length_sb_content[OF assms(2)])
  ultimately show "sock_read sb net buf (length buf) = Undefined"
    using assms by (auto simp: sock_read_def sb_take_def run_option_def rdn_def wrn_def sb_ok_def split: option.splits)
next
  assume a: "sb_start sb + sb_size sb = BUFFER_CACHE_SIZE - 1 \<and> 0 < sb_size sb \<and> sb_size sb < n \<and> \<not> sb_timeout sb \<and> 0 \<le> sb_socket sb"
  have "sb\<lparr>sb_buf := sb_buf sb, sb_size := sb_size sb\<rparr> = sb" by simp
  then have "sock_buf_fill sb (Arrives k # evs, wire) = Done (0, sb, evs, wire)"
    using a assms(2) by (simp add: sock_buf_fill_def run_option_def wrn_def sb_ok_def)
  then show "\<exists>sb'. sock_read sb (Arrives k # evs, wire) buf n = Done (0, buf, sb', evs, wire) \<and>
      \<not> is_connected sb' \<and> sb_content sb' = sb_content sb"
    using a assms(1) by (simp add: sock_read_def close_unless_timeout_def sock_buf_close_def is_connected_def sb_content_def)
qed

text \<open>
  Kernel buffer shrinks: Asked for a larger kernel buffer, \<open>increate_buffer_to\<close> does
  nothing; asked for a smaller one it shrinks the buffer; and where the system refuses, it never
  returns.
\<close>

theorem kernel_buffer_shrinks:
  assumes "0 \<le> req" "0 \<le> cur" "req + cur \<le> INT_MAX" "cur \<le> 2 ^ 30"
  shows "(cur \<le> req \<longrightarrow> increate_buffer_to (Suc k) sets (Some cur, got') req = Done (get_buffer_size got', None)) \<and>
    (req < cur \<longrightarrow> increate_buffer_to (Suc k) (\<lambda>i. True) (Some cur, got') req = Done (req, Some req) \<and>
      increate_buffer_to fuel (\<lambda>i. False) (Some cur, got') req = Unfinished)"
proof -
  have "increate_loop fuel (\<lambda>i. False) i cur r = Unfinished" if "0 \<le> r" "r < cur" for i r
    using that assms(4) by (induction fuel arbitrary: i r) simp_all
  then show ?thesis using assms by (simp add: increate_buffer_to_def get_buffer_size_def)
qed

lemma length_dec: "0 < k \<Longrightarrow> n < 10 ^ k \<Longrightarrow> length (dec n) \<le> k"
proof (induction k arbitrary: n)
  case (Suc k)
  show ?case
  proof (cases "n < 10")
    case False
    then have "0 < k" "n div 10 < 10 ^ k" using Suc.prems(2) by (cases k; auto)+
    then show ?thesis using False Suc.IH[of "n div 10"] by (subst dec.simps) simp
  qed (subst dec.simps, simp)
qed simp

text \<open>
  Address port roundtrip: An address printed is read back, and the port is whatever \<open>atoi\<close>
  makes of the rest, modulo 65536; a text without a colon gives \<open>0.0.0.0:0\<close>.
\<close>

theorem address_port_roundtrip:
  assumes "CHR '':'' \<notin> set ip" "NUL \<notin> set ip" "length ip \<le> 8000"
  shows "parse_ap (ap_to_string \<lparr>ap_ip = ip, ap_port = port\<rparr>) = \<lparr>ap_ip = ip, ap_port = port\<rparr> \<and>
    parse_ap ip = reset_ap \<and> (n < 2 ^ 31 \<longrightarrow> ap_port (parse_ap (ip @ '':'' @ dec n)) = of_nat n)"
proof -
  have p: "unat port < 65536" using unsigned_less[of port, where 'a = nat] by simp
  have "length (dec (unat port)) \<le> 5" using p by (intro length_dec) simp_all
  then have pr: "ap_to_string \<lparr>ap_ip = ip, ap_port = port\<rparr> = ip @ CHR '':'' # dec (unat port)"
    using assms(2,3) by (simp add: ap_to_string_def c_str_id)
  have d: "c_str (dec m) = dec m" for m
    using dec_digits[of m] by (intro c_str_id) (auto simp: list_all_iff isdigit_def ord_def)
  have rd: "parse_ap (ip @ CHR '':'' # dec m) = \<lparr>ap_ip = ip, ap_port = of_nat m\<rparr>" if "m < 2 ^ 31" for m
    using that assms(1) by (simp add: parse_ap_def find_char_append d atoi_dec)
  have "parse_ap ip = reset_ap" using assms(1) by (simp add: parse_ap_def find_char_None[THEN iffD2])
  then show ?thesis using pr rd[of "unat port"] rd[of n] p by simp
qed

text \<open>The two tests of a multicast address differ in the local block \<open>224.0.0.x\<close> alone.\<close>

lemma multicast_tests: "is_multicast_address a \<longleftrightarrow> IN_MULTICAST (htonl a) \<and> htonl a > 0xE00000FF"
proof -
  define v where "v = htonl a"
  have c: "(0xf0000000 :: u32) = push_bit 28 (mask 4)" by (simp add: mask_eq_exp_minus_1 push_bit_eq_mult)
  have "v AND 0xf0000000 = push_bit 28 (drop_bit 28 v)"
    unfolding c by (rule bit_word_eqI) (auto simp: bit_simps)
  moreover have "push_bit 28 (drop_bit 28 v) = 0xe0000000 \<longleftrightarrow> unat (drop_bit 28 v) = 14"
  proof
    have "drop_bit 28 (push_bit 28 (drop_bit 28 v)) = drop_bit 28 v"
      by (rule bit_word_eqI) (auto simp: bit_simps dest: bit_imp_le_length)
    then show "push_bit 28 (drop_bit 28 v) = 0xe0000000 \<Longrightarrow> unat (drop_bit 28 v) = 14" by simp
    assume "unat (drop_bit 28 v) = 14"
    then have "drop_bit 28 v = 14" by (simp only: word_unat_eq_iff) simp
    then show "push_bit 28 (drop_bit 28 v) = 0xe0000000" by simp
  qed
  moreover have "unat (drop_bit 28 v) = unat v div 2 ^ 28"
    by (rule trans[OF unat_drop_bit_eq drop_bit_eq_div])
  ultimately have "IN_MULTICAST v \<longleftrightarrow> unat v div 2 ^ 28 = 14" by (simp add: IN_MULTICAST_def)
  then show ?thesis
    unfolding is_multicast_address_def v_def[symmetric]
    by (auto simp: word_less_nat_alt word_le_nat_alt)
qed

text \<open>A list of resolved addresses is handed out in order, and then the end of it.\<close>

fun iterate :: "NetAddressList \<Rightarrow> nat \<Rightarrow> u32 \<Rightarrow> NetAddress option list option" where
  "iterate nl 0 i = Some []"
| "iterate nl (Suc n) i = do { (a, i) \<leftarrow> next_address nl i; as \<leftarrow> iterate nl n i; Some (a # as) }"

lemma count_addrs_all: "list_all (\<lambda>x. 4 \<le> fst x) l \<Longrightarrow> count_addrs l = Some (length l)"
  by (induction l rule: count_addrs.induct) auto

lemma iterate_from:
  assumes "m_num_addresses nl = of_nat (length l)" "m_address_array nl = Some l" "length l < 2 ^ 32 - 1"
  shows "j \<le> length l \<Longrightarrow> iterate nl n (of_nat j) =
    Some (map Some (take n (drop j l)) @ replicate (n - (length l - j)) None)"
proof (induction n arbitrary: j)
  case (Suc n)
  have le: "of_nat j \<ge> m_num_addresses nl \<longleftrightarrow> j \<ge> length l"
    using Suc.prems assms by (simp add: word_le_nat_alt unat_of_len)
  show ?case
  proof (cases "j = length l")
    case True
    then show ?thesis using Suc le by (simp add: next_address_def)
  next
    case False
    then have j: "j < length l" using Suc.prems by simp
    have "next_address nl (of_nat j) = Some (Some (l ! j), of_nat (Suc j))"
      using j le assms by (simp add: next_address_def unat_of_len add.commute)
    moreover have "take (Suc n) (drop j l) = l ! j # take n (drop (Suc j) l)"
      using j by (simp add: Cons_nth_drop_Suc[symmetric])
    ultimately show ?thesis using j Suc.IH[of "Suc j"] by simp
  qed
qed simp

text \<open>
  Addresses listed: A list made of a dotted address has that address, one made of a name has the
  resolver's addresses in order; iterating gives each of them once and then NULL, also after the list is
  assigned to another; but one short entry of the resolver keeps the constructor in its loop.
\<close>

theorem addresses_listed:
  assumes "inet_addr h = INADDR_NONE" "getaddrinfo h = Some l" "l \<noteq> []" "length l < 2 ^ 32 - 1"
  shows "(list_all (\<lambda>x. 4 \<le> fst x) l \<longrightarrow> (\<exists>nl nl'. new_NetAddressList inet_addr getaddrinfo h = Some nl \<and>
      list_set False old nl = Some nl' \<and>
      iterate nl (length l + k) 0 = Some (map (Some \<circ> snd) l @ replicate k None) \<and>
      iterate nl' (length l + k) 0 = Some (map (Some \<circ> snd) l @ replicate k None))) \<and>
    (\<not> list_all (\<lambda>x. 4 \<le> fst x) l \<longrightarrow> new_NetAddressList inet_addr getaddrinfo h = None)"
proof -
  let ?nl = "\<lparr>m_num_addresses = of_nat (length l), m_address_array = Some (map snd l)\<rparr>"
  have new: "new_NetAddressList inet_addr getaddrinfo h =
      map_option (\<lambda>n. \<lparr>m_num_addresses = of_nat n, m_address_array = Some (map snd l)\<rparr>) (count_addrs l)"
    using assms(1-3) by (cases l) (simp_all add: new_NetAddressList_def)
  have bad: "\<not> list_all (\<lambda>x. 4 \<le> fst x) l \<Longrightarrow> count_addrs l = None"
    by (induction l rule: count_addrs.induct) auto
  have "iterate ?nl (length l + k) 0 = Some (map (Some \<circ> snd) l @ replicate k None)"
    using iterate_from[of ?nl "map snd l" 0 "length l + k"] assms(4) by simp
  moreover have "list_set False old ?nl = Some ?nl"
    using assms(4) by (simp add: list_set_def list_assign_def unat_of_len)
  ultimately show ?thesis using new bad count_addrs_all[of l] by auto
qed

section \<open>Witnesses\<close>

definition sample_sock :: SockBuf where
  "sample_sock = sock_buf_init\<lparr>sb_socket := 3\<rparr>"

lemma sample_sock_ok: "sb_ok (sample_sock\<lparr>sb_start := a, sb_size := b\<rparr>) \<longleftrightarrow> a + b \<le> BUFFER_CACHE_SIZE - 1"
  "is_connected (sample_sock\<lparr>sb_start := a, sb_size := b\<rparr>)" "sb_ok sample_sock" "is_connected sample_sock"
  by (simp_all add: sample_sock_def sock_buf_init_def sb_ok_def is_connected_def)

theorem socket_readn_safe_witness:
  "sock_readn sample_sock ([Arrives 2], [7, 8, 9]) [0, 0] 2 \<noteq> Undefined"
  using socket_readn_safe[OF sample_sock_ok(3,4), of 2 "[0, 0]" "([Arrives 2], [7, 8, 9])"] by auto

theorem socket_transfers_witness:
  "\<exists>out s. sock_write sample_sock [Wrote 1, WIntr, Wrote 5] [7, 8, 9] 3 None = Done (3, sample_sock, out) \<and>
    foldo (\<lambda>(xs, s) k. do { (x, s) \<leftarrow> read_exactly s k; Some (xs @ x, s) })
      ([], sock_buf_init\<lparr>sb_socket := 4\<rparr>, [Arrives 1, Interrupted, Arrives 1, Arrives 9], concat (map snd out)) [2, 1] = Some ([7, 8, 9], s)"
proof -
  have w: "sock_write sample_sock [Wrote 1, WIntr, Wrote 5] [7, 8, 9] 3 None = Done (3, sample_sock, [(None, [7]), (None, [8, 9])])"
    using sample_sock_ok(4) by (simp add: sock_write_def run_option_def rdn_def eval_nat_numeral Let_def)
  show ?thesis
    using socket_transfers[OF _ _ w, of 4 "[Arrives 1, Interrupted, Arrives 1, Arrives 9]" "[2, 1]"] w
    by (auto simp: flowing_def)
qed

theorem socket_read_faults_witness:
  "sock_read (sample_sock\<lparr>sb_start := 0, sb_size := 4\<rparr>) ([], []) [0, 0] 2 = Undefined \<and>
   (\<exists>sb'. sock_read (sample_sock\<lparr>sb_start := 16381, sb_size := 2\<rparr>) ([Arrives 9], [5]) [0, 0, 0] 3 = Done (0, [0, 0, 0], sb', [], [5]) \<and>
     \<not> is_connected sb')"
proof -
  have "\<not> sb_timeout (sample_sock\<lparr>sb_start := 16381, sb_size := 2\<rparr>)" "0 \<le> sb_socket (sample_sock\<lparr>sb_start := 16381, sb_size := 2\<rparr>)"
    by (simp_all add: sample_sock_def sock_buf_init_def)
  then show ?thesis
    using socket_read_faults[OF sample_sock_ok(2), of 4 0 "[0, 0]" "([], [])"]
      socket_read_faults[OF sample_sock_ok(2), of 2 16381 "[0, 0, 0]" _ 3 9 "[]" "[5]"] sample_sock_ok(1)
    by (auto simp: numeral_2_eq_2)
qed

theorem kernel_buffer_shrinks_witness:
  "increate_buffer_to 9 (\<lambda>i. False) (Some 4096, None) 1024 = Unfinished"
  using kernel_buffer_shrinks[of 1024 4096 0 "\<lambda>i. False" None 9] by simp

theorem address_port_roundtrip_witness:
  "parse_ap (ap_to_string \<lparr>ap_ip = ''10.0.0.1'', ap_port = 1935\<rparr>) = \<lparr>ap_ip = ''10.0.0.1'', ap_port = 1935\<rparr>"
  using address_port_roundtrip[of "''10.0.0.1''" 1935 0] by simp

theorem addresses_listed_witness:
  "\<exists>nl. new_NetAddressList (\<lambda>s. 0xFFFFFFFF) (\<lambda>s. Some [(16, [10, 0, 0, 1]), (16, [10, 0, 0, 2])]) ''localhost'' = Some nl \<and>
    iterate nl (2 + 1) 0 = Some [Some [10, 0, 0, 1], Some [10, 0, 0, 2], None]"
proof -
  define l :: "(nat \<times> u8 list) list" where "l = [(16, [10, 0, 0, 1]), (16, [10, 0, 0, 2])]"
  have l: "list_all (\<lambda>x. 4 \<le> fst x) l" "l \<noteq> []" "length l = 2" by (simp_all add: l_def)
  obtain nl where nl: "new_NetAddressList (\<lambda>s. 0xFFFFFFFF) (\<lambda>s. Some l) ''localhost'' = Some nl"
    "iterate nl (2 + 1) 0 = Some (map (Some \<circ> snd) l @ replicate 1 None)"
    using addresses_listed[of "\<lambda>s. 0xFFFFFFFF" "''localhost''" "\<lambda>s. Some l" l _ 1] l(1,2) unfolding l(3) by auto
  moreover have "map (Some \<circ> snd) l @ replicate 1 None = [Some [10, 0, 0, 1], Some [10, 0, 0, 2], None]" by (simp add: l_def)
  ultimately show ?thesis unfolding l_def by metis
qed

end
