(* ===== verification/Log.thy ===== *)
theory Log
  imports Text
begin

text \<open>
  \<open>xlog\<close>: the list of log destinations and the lines written to them. The destinations are linked
  through a heap of \<open>log_t\<close> cells; an address without a cell is freed memory, and using it, like a
  write past the line buffer, is \<open>None\<close>. The crash handler and the text of time and thread are
  arguments. The abstraction of the heap is the list of the destinations in their order.
\<close>

section \<open>Levels\<close>

datatype log_level = DEBUG | INFO | WARN | ERR

fun level_no :: "log_level \<Rightarrow> nat" where
  "level_no DEBUG = 0" | "level_no INFO = 1" | "level_no WARN = 2" | "level_no ERR = 3"

instantiation log_level :: linorder
begin
definition "a \<le> b \<longleftrightarrow> level_no a \<le> level_no b"
definition "a < b \<longleftrightarrow> level_no a < level_no b"
instance
proof
  show "x = y" if "x \<le> y" "y \<le> x" for x y :: log_level
    using that by (cases x; cases y) (simp_all add: less_eq_log_level_def)
qed (auto simp: less_eq_log_level_def less_log_level_def)
end

definition level_of :: "string \<Rightarrow> log_level option" where
  "level_of lvlstr =
     (if strcaseeq lvlstr ''DEBUG'' then Some DEBUG
      else if strcaseeq lvlstr ''INFO'' then Some INFO
      else if strcaseeq lvlstr ''WARN'' then Some WARN
      else if strcaseeq lvlstr ''ERR'' then Some ERR
      else None)"

definition ESC :: char where "ESC = char_of (27 :: nat)"

fun color_level :: "log_level \<Rightarrow> string" where
  "color_level DEBUG = ESC # ''[37;0m''"
| "color_level INFO = ESC # ''[37;0m''"
| "color_level WARN = ESC # ''[33;1m''"
| "color_level ERR = ESC # ''[31;1m''"

definition COLOR_FORMAT_NONE :: string where "COLOR_FORMAT_NONE = ESC # ''[0m''"

fun lvl_name :: "log_level \<Rightarrow> string" where
  "lvl_name DEBUG = ''[D]''" | "lvl_name INFO = ''[I]''" | "lvl_name WARN = ''[W]''" | "lvl_name ERR = ''[E]''"

datatype log_flag = LOG_TRUNC | LOG_NODATE | LOG_NOLF | LOG_NOLVL | LOG_STDERR | LOG_NOTID | LOG_NOPID

section \<open>Destinations\<close>

type_synonym addr = nat

record log_t =
  l_fd :: int
  l_lvl :: log_level
  l_flgs :: "log_flag set"
  l_next :: "addr option"

record Logger =
  lg_heap :: "addr \<rightharpoonup> log_t"
  lg_log :: "addr option"

definition new_Logger :: Logger where
  "new_Logger = \<lparr>lg_heap = Map.empty, lg_log = None\<rparr>"

text \<open>The loops \<open>for (l = log; l; l = l->next)\<close>: the addresses they visit.\<close>

partial_function (option) walk :: "(addr \<rightharpoonup> log_t) \<Rightarrow> addr option \<Rightarrow> addr list option" where
  "walk h p = (case p of None \<Rightarrow> Some []
     | Some a \<Rightarrow> do { l \<leftarrow> h a; as \<leftarrow> walk h (l_next l); Some (a # as) })"

text \<open>
  \<open>fd\<close> is what \<open>open\<close> returns, \<open>calloc\<close> the cell it gives, \<open>sigs\<close> whether the signal handlers
  could be installed, which the first destination does.
\<close>

definition log_add_dst ::
  "((addr \<rightharpoonup> log_t) \<Rightarrow> addr option) \<Rightarrow> bool \<Rightarrow> Logger \<Rightarrow> int \<Rightarrow> log_level \<Rightarrow> log_flag set \<Rightarrow> (int \<times> Logger) option" where
  "log_add_dst calloc sigs lg fd lvl flgs =
     (if fd < 0 then Some (- 1, lg)
      else case calloc (lg_heap lg) of
        None \<Rightarrow> Some (- 1, lg)
      | Some l \<Rightarrow>
          (case lg_log lg of
             None \<Rightarrow>
               (let lg = lg\<lparr>lg_heap := (lg_heap lg)(l \<mapsto> \<lparr>l_fd = fd, l_lvl = lvl, l_flgs = flgs, l_next = None\<rparr>)\<rparr>
                in Some (if sigs then (0, lg\<lparr>lg_log := Some l\<rparr>) else (- 1, lg)))
           | Some h \<Rightarrow> do {
               let new = \<lparr>l_fd = fd, l_lvl = lvl, l_flgs = flgs, l_next = None\<rparr>;
               c \<leftarrow> ((lg_heap lg)(l \<mapsto> new)) h;
               let heap = (lg_heap lg)(l \<mapsto> new\<lparr>l_next := l_next c\<rparr>);
               c \<leftarrow> heap h;
               Some (0, lg\<lparr>lg_heap := heap(h \<mapsto> c\<lparr>l_next := Some l\<rparr>)\<rparr>) }))"

definition set_log_level :: "Logger \<Rightarrow> log_level \<Rightarrow> (int \<times> Logger) option" where
  "set_log_level lg lvl = do {
     as \<leftarrow> walk (lg_heap lg) (lg_log lg);
     Some (0, lg\<lparr>lg_heap := (\<lambda>a. if a \<in> set as then map_option (\<lambda>l. l\<lparr>l_lvl := lvl\<rparr>) (lg_heap lg a) else lg_heap lg a)\<rparr>) }"

text \<open>
  \<open>log_close\<close> closes and frees every cell and leaves \<open>log\<close> pointing to the first. The third result is
  the descriptors it closes; the crash handler it takes back is in the theory of that.
\<close>

definition log_close :: "Logger \<Rightarrow> (int \<times> Logger \<times> int list) option" where
  "log_close lg = do {
     as \<leftarrow> walk (lg_heap lg) (lg_log lg);
     Some (0, lg\<lparr>lg_heap := (lg_heap lg) |` (- set as)\<rparr>, map (\<lambda>a. case lg_heap lg a of Some l \<Rightarrow> l_fd l | None \<Rightarrow> - 1) as) }"

section \<open>Lines\<close>

abbreviation (input) MaxLine :: nat where "MaxLine \<equiv> 4098"

text \<open>Where a line comes from, and the texts of the time, the process and the thread.\<close>

record origin =
  og_file :: string
  og_line :: int
  og_func :: string
  og_time :: string
  og_pid :: nat
  og_tid :: nat

definition id_buf :: "nat \<Rightarrow> string" where
  "id_buf n = take 9 (dec n @ '' '')"

definition dec_int :: "int \<Rightarrow> string" where
  "dec_int n = (if n < 0 then CHR ''-'' # dec (nat (- n)) else dec (nat n))"

definition log_header :: "log_flag set \<Rightarrow> log_level \<Rightarrow> origin \<Rightarrow> string" where
  "log_header flgs lvl og =
     color_level lvl @ (if LOG_NODATE \<in> flgs then [] else og_time og) @
     (if LOG_NOPID \<in> flgs then [] else id_buf (og_pid og)) @ (if LOG_NOTID \<in> flgs then [] else id_buf (og_tid og)) @
     ''['' @ og_file og @ '':'' @ dec_int (og_line og) @ '' ('' @ og_func og @ '')] '' @ lvl_name lvl @ '' ''"

text \<open>
  \<open>snprintf\<close> returns the length it would have written; \<open>buf + ret\<close> and \<open>sizeof(buf) - ret\<close> then place
  the message. \<open>strcat\<close> appends whatever room is left.
\<close>

definition strcat :: "nat \<Rightarrow> string \<Rightarrow> string \<Rightarrow> string option" where
  "strcat room s t = (if length s + length t < room then Some (s @ t) else None)"

definition log_line :: "log_flag set \<Rightarrow> string \<Rightarrow> string \<Rightarrow> string option" where
  "log_line flgs header msg =
     (if length header > MaxLine then None
      else do {
        let buf = take (MaxLine - 1) header;
        let buf = buf @ take (MaxLine - length header - 1) msg;
        buf \<leftarrow> strcat MaxLine buf COLOR_FORMAT_NONE;
        if LOG_NOLF \<in> flgs then Some buf else strcat MaxLine buf [CHR 0x0A] })"

text \<open>What is written to a descriptor or to the standard error, and what is closed.\<close>

datatype written = ToFd int string | ToStderr string | Closed int

definition print_to :: "log_level \<Rightarrow> origin \<Rightarrow> string \<Rightarrow> log_t \<Rightarrow> written list option" where
  "print_to lvl og msg l =
     (if lvl < l_lvl l then Some []
      else do {
        s \<leftarrow> log_line (l_flgs l) (log_header (l_flgs l) lvl og) msg;
        Some ((if LOG_STDERR \<in> l_flgs l then [ToStderr s] else []) @ [ToFd (l_fd l) s]) })"

definition log_print :: "Logger \<Rightarrow> log_level \<Rightarrow> origin \<Rightarrow> string \<Rightarrow> (int \<times> written list) option" where
  "log_print lg lvl og msg = do {
     as \<leftarrow> walk (lg_heap lg) (lg_log lg);
     out \<leftarrow> foldo (\<lambda>out a. do { l \<leftarrow> lg_heap lg a; o1 \<leftarrow> print_to lvl og msg l; Some (out @ o1) }) [] as;
     Some (0, out) }"

definition bad_level :: "string \<Rightarrow> string" where
  "bad_level s = ''Invalid log level '' @ [CHR 0x22] @ s @ [CHR 0x22]"

text \<open>\<open>set_log_level\<close> by name; a name that is not one is itself logged.\<close>

definition set_log_level_str :: "Logger \<Rightarrow> origin \<Rightarrow> string option \<Rightarrow> (int \<times> Logger \<times> written list) option" where
  "set_log_level_str lg og lvlstr =
     (case lvlstr of
        None \<Rightarrow> Some (- 1, lg, [])
      | Some s \<Rightarrow>
          (case level_of s of
             Some lvl \<Rightarrow> map_option (\<lambda>(r, lg). (0, lg, [])) (set_log_level lg lvl)
           | None \<Rightarrow> map_option (\<lambda>(r, out). (- 1, lg, out))
               (log_print lg ERR og (bad_level s))))"

section \<open>The list of destinations\<close>

fun path :: "(addr \<rightharpoonup> log_t) \<Rightarrow> addr option \<Rightarrow> addr list \<Rightarrow> bool" where
  "path h p [] \<longleftrightarrow> p = None"
| "path h p (a # as) \<longleftrightarrow> p = Some a \<and> (\<exists>l. h a = Some l \<and> path h (l_next l) as)"

lemma path_cong:
  "\<forall>a\<in>set as. map_option l_next (h' a) = map_option l_next (h a) \<Longrightarrow> path h' p as = path h p as"
proof (induction as arbitrary: p)
  case (Cons a as)
  then show ?case by (cases "h a"; cases "h' a") auto
qed simp

lemma walk_path: "path h p as \<Longrightarrow> walk h p = Some as"
proof (induction as arbitrary: p)
  case (Cons a as)
  then show ?case by (subst walk.simps) auto
qed (subst walk.simps, simp)

text \<open>What a destination is to the client: a descriptor, a level and flags.\<close>

type_synonym dest = "int \<times> log_level \<times> log_flag set"

definition dest_of :: "log_t \<Rightarrow> dest" where
  "dest_of l = (l_fd l, l_lvl l, l_flgs l)"

definition represents :: "Logger \<Rightarrow> dest list \<Rightarrow> bool" where
  "represents lg ds \<longleftrightarrow> (\<exists>as. path (lg_heap lg) (lg_log lg) as \<and> distinct as \<and>
     map (\<lambda>a. map_option dest_of (lg_heap lg a)) as = map Some ds)"

fun spec_add :: "dest list \<Rightarrow> dest \<Rightarrow> dest list" where
  "spec_add [] d = [d]"
| "spec_add (x # xs) d = x # d # xs"

definition spec_line :: "log_flag set \<Rightarrow> log_level \<Rightarrow> origin \<Rightarrow> string \<Rightarrow> string" where
  "spec_line flgs lvl og msg =
     log_header flgs lvl og @ msg @ COLOR_FORMAT_NONE @ (if LOG_NOLF \<in> flgs then [] else [CHR 0x0A])"

definition spec_print :: "dest list \<Rightarrow> log_level \<Rightarrow> origin \<Rightarrow> string \<Rightarrow> written list" where
  "spec_print ds lvl og msg = concat (map (\<lambda>(fd, l, flgs). if lvl < l then []
     else (if LOG_STDERR \<in> flgs then [ToStderr (spec_line flgs lvl og msg)] else []) @ [ToFd fd (spec_line flgs lvl og msg)]) ds)"

lemma length_color: "length (color_level lvl) = 7" "length COLOR_FORMAT_NONE = 4"
  by (cases lvl) (simp_all add: COLOR_FORMAT_NONE_def)

lemma header_length: "length (log_header flgs lvl og) \<le> length (log_header {} lvl og)"
  by (simp add: log_header_def)

lemma log_line_eq:
  "log_line flgs header msg = (if length header + length msg + (if LOG_NOLF \<in> flgs then 4 else 5) < MaxLine
     then Some (header @ msg @ COLOR_FORMAT_NONE @ (if LOG_NOLF \<in> flgs then [] else [CHR 0x0A])) else None)"
  by (auto simp: log_line_def strcat_def length_color min_def Let_def)

definition line_fits :: "log_level \<Rightarrow> origin \<Rightarrow> string \<Rightarrow> bool" where
  "line_fits lvl og msg \<longleftrightarrow> length (log_header {} lvl og) + length msg + 5 < MaxLine"

lemma print_to_spec:
  "line_fits lvl og msg \<Longrightarrow> print_to lvl og msg l = Some (spec_print [dest_of l] lvl og msg)"
  using header_length[of "l_flgs l" lvl og]
  by (auto simp: print_to_def log_line_eq line_fits_def spec_print_def spec_line_def dest_of_def)

lemma log_print_spec:
  assumes "represents lg ds" "line_fits lvl og msg"
  shows "log_print lg lvl og msg = Some (0, spec_print ds lvl og msg)"
proof -
  obtain as where as: "path (lg_heap lg) (lg_log lg) as" "map (\<lambda>a. map_option dest_of (lg_heap lg a)) as = map Some ds"
    using assms(1) by (auto simp: represents_def)
  have "foldo (\<lambda>out a. do { l \<leftarrow> lg_heap lg a; o1 \<leftarrow> print_to lvl og msg l; Some (out @ o1) }) out as = Some (out @ spec_print ds lvl og msg)" for out
    using as(2)
  proof (induction as arbitrary: ds out)
    case (Cons a as)
    then obtain d ds' where ds: "ds = d # ds'" "map_option dest_of (lg_heap lg a) = Some d"
      "map (\<lambda>a. map_option dest_of (lg_heap lg a)) as = map Some ds'" by (cases ds) auto
    then obtain l where "lg_heap lg a = Some l" "dest_of l = d" by auto
    moreover have "spec_print (d # ds') lvl og msg = spec_print [d] lvl og msg @ spec_print ds' lvl og msg" for d
      by (simp add: spec_print_def)
    ultimately show ?case using Cons.IH[OF ds(3)] print_to_spec[OF assms(2), of l] by (simp add: ds(1))
  qed (simp add: spec_print_def)
  then show ?thesis by (simp add: log_print_def walk_path[OF as(1)])
qed

lemma set_log_level_spec:
  assumes "represents lg ds"
  shows "\<exists>lg'. set_log_level lg lvl = Some (0, lg') \<and> represents lg' (map (\<lambda>(fd, l, flgs). (fd, lvl, flgs)) ds)"
proof -
  obtain as where as: "path (lg_heap lg) (lg_log lg) as" "distinct as"
    "map (\<lambda>a. map_option dest_of (lg_heap lg a)) as = map Some ds"
    using assms by (auto simp: represents_def)
  let ?h = "\<lambda>a. if a \<in> set as then map_option (\<lambda>l. l\<lparr>l_lvl := lvl\<rparr>) (lg_heap lg a) else lg_heap lg a"
  let ?f = "\<lambda>(fd, l, flgs). (fd, lvl, flgs)"
  have "path ?h (lg_log lg) as" using as(1) by (subst path_cong[of _ _ "lg_heap lg"]) (auto simp: option.map_comp comp_def)
  moreover have "map (\<lambda>a. map_option dest_of (?h a)) as = map (map_option ?f) (map (\<lambda>a. map_option dest_of (lg_heap lg a)) as)"
    by (auto simp: option.map_comp comp_def dest_of_def intro!: option.map_cong)
  ultimately show ?thesis
    using as(2,3) by (auto simp: set_log_level_def walk_path[OF as(1)] represents_def)
qed

text \<open>A new cell is one that was free.\<close>

definition fresh :: "((addr \<rightharpoonup> log_t) \<Rightarrow> addr option) \<Rightarrow> bool" where
  "fresh calloc \<longleftrightarrow> (\<forall>h a. calloc h = Some a \<longrightarrow> h a = None)"

lemma path_in: "path h p as \<Longrightarrow> a \<in> set as \<Longrightarrow> h a \<noteq> None"
  by (induction as arbitrary: p) auto

lemma log_add_dst_spec:
  assumes "represents lg ds" "fresh calloc"
  shows "\<exists>r lg'. log_add_dst calloc sigs lg fd lvl flgs = Some (r, lg') \<and>
    represents lg' (if r = 0 then spec_add ds (fd, lvl, flgs) else ds)"
proof (cases "fd < 0 \<or> calloc (lg_heap lg) = None")
  case True
  then show ?thesis using assms(1) by (intro exI[of _ "- 1"] exI[of _ lg]) (auto simp: log_add_dst_def)
next
  case False
  then obtain l where l: "calloc (lg_heap lg) = Some l" "lg_heap lg l = None" "\<not> fd < 0"
    using assms(2) by (auto simp: fresh_def)
  obtain as where as: "path (lg_heap lg) (lg_log lg) as" "distinct as"
    "map (\<lambda>a. map_option dest_of (lg_heap lg a)) as = map Some ds"
    using assms(1) by (auto simp: represents_def)
  let ?new = "\<lparr>l_fd = fd, l_lvl = lvl, l_flgs = flgs, l_next = None\<rparr>"
  have no: "l \<notin> set as" using path_in[OF as(1), of l] l(2) by blast
  show ?thesis
  proof (cases as)
    case Nil
    then have "lg_log lg = None" "ds = []" using as by simp_all
    moreover have "dest_of ?new = (fd, lvl, flgs)" by (simp add: dest_of_def)
    ultimately show ?thesis
      using l by (auto simp: log_add_dst_def Let_def represents_def intro!: exI[of _ "if sigs then [l] else []"])
  next
    case (Cons h rest)
    then obtain c where c: "lg_log lg = Some h" "lg_heap lg h = Some c" "path (lg_heap lg) (l_next c) rest"
      "h \<notin> set rest" "h \<noteq> l" using as no by auto
    obtain ds' where ds: "ds = dest_of c # ds'" "map (\<lambda>a. map_option dest_of (lg_heap lg a)) rest = map Some ds'"
      using as(3) Cons c(2) by (cases ds) auto
    let ?heap = "(lg_heap lg)(l \<mapsto> ?new\<lparr>l_next := l_next c\<rparr>, h \<mapsto> c\<lparr>l_next := Some l\<rparr>)"
    have same: "\<forall>a\<in>set rest. ?heap a = lg_heap lg a" using c(4) no Cons by auto
    then have "path ?heap (l_next c) rest" using c(3) by (subst path_cong[of _ _ "lg_heap lg"]) auto
    then have "path ?heap (Some h) (h # l # rest)" using c(5) by simp
    moreover have "map (\<lambda>a. map_option dest_of (?heap a)) (h # l # rest) = map Some (spec_add ds (fd, lvl, flgs))"
    proof -
      have "map (\<lambda>a. map_option dest_of (?heap a)) rest = map Some ds'"
        unfolding ds(2)[symmetric] by (rule map_cong[OF refl]) (use same in auto)
      then show ?thesis using c(5) ds(1) by (simp add: dest_of_def)
    qed
    moreover have "log_add_dst calloc sigs lg fd lvl flgs = Some (0, lg\<lparr>lg_heap := ?heap\<rparr>)"
      using l c by (simp add: log_add_dst_def Let_def)
    ultimately show ?thesis using as(2) no c(1) Cons by (auto simp: represents_def simp del: path.simps intro!: exI[of _ "h # l # rest"])
  qed
qed

text \<open>Runs of operations, of the logger and of the list of destinations; the latter is told the results.\<close>

datatype log_op = Add int log_level "log_flag set" bool | Level log_level | LevelName origin "string option"
  | Print log_level origin string | Close

fun log_step :: "((addr \<rightharpoonup> log_t) \<Rightarrow> addr option) \<Rightarrow> Logger \<Rightarrow> log_op \<Rightarrow> (int \<times> Logger \<times> written list) option" where
  "log_step calloc lg (Add fd lvl flgs sigs) = map_option (\<lambda>(r, lg). (r, lg, [])) (log_add_dst calloc sigs lg fd lvl flgs)"
| "log_step calloc lg (Level lvl) = map_option (\<lambda>(r, lg). (r, lg, [])) (set_log_level lg lvl)"
| "log_step calloc lg (LevelName og s) = set_log_level_str lg og s"
| "log_step calloc lg Close = map_option (\<lambda>(r, lg, fds). (r, lg, map Closed fds)) (log_close lg)"
| "log_step calloc lg (Print lvl og msg) = map_option (\<lambda>(r, out). (r, lg, out)) (log_print lg lvl og msg)"

fun log_run :: "((addr \<rightharpoonup> log_t) \<Rightarrow> addr option) \<Rightarrow> Logger \<Rightarrow> log_op list \<Rightarrow> (int list \<times> written list) option" where
  "log_run calloc lg [] = Some ([], [])"
| "log_run calloc lg (op # ops) = do {
     (r, lg, o1) \<leftarrow> log_step calloc lg op; (rs, o2) \<leftarrow> log_run calloc lg ops; Some (r # rs, o1 @ o2) }"

fun spec_step :: "dest list \<Rightarrow> log_op \<Rightarrow> int \<Rightarrow> dest list \<times> written list" where
  "spec_step ds (Add fd lvl flgs sigs) r = ((if r = 0 then spec_add ds (fd, lvl, flgs) else ds), [])"
| "spec_step ds (Level lvl) r = (map (\<lambda>(fd, l, flgs). (fd, lvl, flgs)) ds, [])"
| "spec_step ds (LevelName og s) r =
     (case s of None \<Rightarrow> (ds, [])
      | Some n \<Rightarrow> (case level_of n of Some lvl \<Rightarrow> (map (\<lambda>(fd, l, flgs). (fd, lvl, flgs)) ds, [])
          | None \<Rightarrow> (ds, spec_print ds ERR og (bad_level n))))"
| "spec_step ds (Print lvl og msg) r = (ds, spec_print ds lvl og msg)"
| "spec_step ds Close r = ([], map (\<lambda>(fd, l, flgs). Closed fd) ds)"

fun spec_run :: "dest list \<Rightarrow> log_op list \<Rightarrow> int list \<Rightarrow> written list" where
  "spec_run ds (op # ops) (r # rs) = snd (spec_step ds op r) @ spec_run (fst (spec_step ds op r)) ops rs"
| "spec_run ds ops rs = []"

definition op_fits :: "log_op \<Rightarrow> bool" where
  "op_fits op = (case op of Print lvl og msg \<Rightarrow> line_fits lvl og msg
     | LevelName og (Some s) \<Rightarrow> level_of s = None \<longrightarrow> line_fits ERR og (bad_level s)
     | _ \<Rightarrow> True)"

lemma log_close_spec:
  assumes "represents lg ds"
  shows "\<exists>lg'. log_close lg = Some (0, lg', map fst ds)"
proof -
  obtain as where as: "path (lg_heap lg) (lg_log lg) as" "map (\<lambda>a. map_option dest_of (lg_heap lg a)) as = map Some ds"
    using assms by (auto simp: represents_def)
  have "map (\<lambda>a. case lg_heap lg a of Some l \<Rightarrow> l_fd l | None \<Rightarrow> - 1) as = map fst ds"
    using as(2)
  proof (induction as arbitrary: ds)
    case (Cons a as)
    then show ?case by (cases ds) (auto simp: dest_of_def)
  qed simp
  then show ?thesis by (simp add: log_close_def walk_path[OF as(1)])
qed

lemma set_log_level_str_spec:
  assumes "represents lg ds" "op_fits (LevelName og s)"
  shows "\<exists>r lg'. set_log_level_str lg og s = Some (r, lg', snd (spec_step ds (LevelName og s) k)) \<and>
    represents lg' (fst (spec_step ds (LevelName og s) k))"
proof (cases s)
  case (Some n)
  show ?thesis
  proof (cases "level_of n")
    case None
    then show ?thesis using log_print_spec[OF assms(1), of ERR og "bad_level n"] assms Some
      by (simp add: set_log_level_str_def op_fits_def)
  next
    case lvl: (Some lvl)
    then show ?thesis using set_log_level_spec[OF assms(1), of lvl] Some by (auto simp: set_log_level_str_def)
  qed
qed (use assms(1) in \<open>simp add: set_log_level_str_def\<close>)

lemma log_step_spec:
  assumes "represents lg ds" "fresh calloc" "op_fits op"
  shows "\<exists>r lg' out. log_step calloc lg op = Some (r, lg', out) \<and>
    (op \<noteq> Close \<longrightarrow> represents lg' (fst (spec_step ds op r))) \<and> out = snd (spec_step ds op r)"
proof (cases op)
  case (Add fd lvl flgs sigs)
  then show ?thesis using log_add_dst_spec[OF assms(1,2), of sigs fd lvl flgs] by force
next
  case (Level lvl)
  then show ?thesis using set_log_level_spec[OF assms(1), of lvl] by force
next
  case (LevelName og s)
  then obtain r lg' where "set_log_level_str lg og s = Some (r, lg', snd (spec_step ds op 0))"
    "represents lg' (fst (spec_step ds op 0))"
    using set_log_level_str_spec[OF assms(1), of og s 0] assms(3) by auto
  moreover have "spec_step ds op r = spec_step ds op 0" unfolding LevelName by (simp only: spec_step.simps)
  ultimately show ?thesis using LevelName by (simp only: log_step.simps) auto
next
  case (Print lvl og msg)
  then show ?thesis using log_print_spec[OF assms(1)] assms(1,3) by (simp add: op_fits_def)
next
  case Close
  then show ?thesis using log_close_spec[OF assms(1)] by (auto simp: comp_def case_prod_beta)
qed

lemma log_run_spec:
  "represents lg ds \<Longrightarrow> fresh calloc \<Longrightarrow> list_all op_fits ops \<Longrightarrow> Close \<notin> set (butlast ops) \<Longrightarrow>
   \<exists>rs out. log_run calloc lg ops = Some (rs, out) \<and> length rs = length ops \<and> out = spec_run ds ops rs"
proof (induction ops arbitrary: lg ds)
  case (Cons op ops)
  then obtain r lg' where 1: "log_step calloc lg op = Some (r, lg', snd (spec_step ds op r))"
    "op \<noteq> Close \<longrightarrow> represents lg' (fst (spec_step ds op r))" using log_step_spec[of lg ds calloc op] by auto
  show ?case
  proof (cases "ops = []")
    case True
    then show ?thesis using 1(1) by (simp add: exI[of _ "[r]"])
  next
    case False
    then have "op \<noteq> Close" "Close \<notin> set (butlast ops)" using Cons.prems(4) by auto
    with Cons.IH[of lg' "fst (spec_step ds op r)"] 1(2) Cons.prems obtain rs where
      "log_run calloc lg' ops = Some (rs, spec_run (fst (spec_step ds op r)) ops rs)" "length rs = length ops" by auto
    then show ?thesis using 1(1) by simp
  qed
qed simp

section \<open>Properties\<close>

text \<open>
  C14: logger_refines. Over any run of the logger's operations (additions, level changes by value and by
  name, lines, and at the end the closing) in which every line, with its longest header, fits the buffer
  of 4098 bytes, the linked list behaves as the list of destinations: nothing undefined happens, each
  line reaches exactly the destinations whose level lets it through, in the order of the list (the first
  one added, then the others from the latest on), and on the standard error where that is asked for;
  closing closes each of their descriptors once.
\<close>

theorem logger_refines:
  assumes "fresh calloc" "list_all op_fits ops" "Close \<notin> set (butlast ops)"
  shows "\<exists>rs. length rs = length ops \<and> log_run calloc new_Logger ops = Some (rs, spec_run [] ops rs)"
proof -
  have "represents new_Logger []" by (simp add: represents_def new_Logger_def)
  then show ?thesis using log_run_spec[OF _ assms, of new_Logger "[]"] by auto
qed

text \<open>
  Log line overflow: With a header of \<open>h\<close> characters a line fits its buffer exactly when
  \<open>h\<close>, the message, the colour's end and the newline make less than 4098; a longer message
  is cut by \<open>vsnprintf\<close> but the two \<open>strcat\<close> calls then write past the end.
\<close>

theorem log_line_overflow:
  assumes "path (lg_heap lg) (lg_log lg) (a # as)" "lg_heap lg a = Some l" "l_lvl l \<le> lvl"
    and "MaxLine \<le> length (log_header (l_flgs l) lvl og) + length msg + (if LOG_NOLF \<in> l_flgs l then 4 else 5)"
  shows "log_print lg lvl og msg = None \<and>
    (length header + length msg' + (if LOG_NOLF \<in> flgs then 4 else 5) < MaxLine \<longleftrightarrow> log_line flgs header msg' \<noteq> None)"
  using assms(2-4) by (auto simp: log_print_def walk_path[OF assms(1)] print_to_def log_line_eq)

lemma walk_loop: "h a = Some l \<Longrightarrow> l_next l = Some a \<Longrightarrow> walk h (Some a) = None"
proof (rule ccontr)
  assume a: "h a = Some l" "l_next l = Some a" "walk h (Some a) \<noteq> None"
  then obtain as where "walk h (Some a) = Some as" by auto
  moreover have "walk h (Some a) = map_option ((#) a) (walk h (Some a))"
    using a(1,2) by (subst walk.simps) (simp add: map_conv_bind_option comp_def)
  ultimately show False by simp
qed

text \<open>
  Log after close: \<open>log_close\<close> keeps the pointer to the first cell it freed: the next line
  and the next change of level use freed memory, and so does the next destination, unless the memory
  allocator hands out the very same cell; then it is linked to itself, and the next line never ends.
\<close>

theorem log_after_close:
  assumes "represents lg (d # ds)" "0 \<le> fd"
  shows "\<exists>lg' h. log_close lg = Some (0, lg', map fst (d # ds)) \<and> lg_log lg' = Some h \<and>
    log_print lg' lvl og msg = None \<and> set_log_level lg' lvl = None \<and>
    (\<forall>a. a \<noteq> h \<longrightarrow> log_add_dst (\<lambda>_. Some a) sigs lg' fd lvl flgs = None) \<and>
    (\<exists>lg2. log_add_dst (\<lambda>_. Some h) sigs lg' fd lvl flgs = Some (0, lg2) \<and> log_print lg2 lvl og msg = None)"
proof -
  obtain as where as: "path (lg_heap lg) (lg_log lg) as" "map (\<lambda>a. map_option dest_of (lg_heap lg a)) as = map Some (d # ds)"
    using assms(1) unfolding represents_def by blast
  then obtain h rest where h: "as = h # rest" "lg_log lg = Some h" by (cases as) auto
  define lg' where "lg' = lg\<lparr>lg_heap := (lg_heap lg) |` (- set as)\<rparr>"
  have free: "lg_heap lg' h = None" "lg_log lg' = Some h" using h by (simp_all add: lg'_def)
  have w: "walk (lg_heap lg') (Some h) = None" using free(1) by (subst walk.simps) simp
  have "\<exists>lg2. log_add_dst (\<lambda>_. Some h) sigs lg' fd lvl flgs = Some (0, lg2) \<and> log_print lg2 lvl og msg = None"
    using free assms(2) walk_loop[of _ h] by (simp add: log_add_dst_def Let_def log_print_def)
  moreover have "log_add_dst (\<lambda>_. Some a) sigs lg' fd lvl flgs = None" if "a \<noteq> h" for a
    using free assms(2) that by (simp add: log_add_dst_def Let_def)
  moreover have "log_close lg = Some (0, lg', map fst (d # ds))"
    using log_close_spec[OF assms(1)] walk_path[OF as(1)] by (auto simp: log_close_def lg'_def)
  ultimately show ?thesis using w free(2) by (intro exI[of _ lg'] exI[of _ h]) (simp add: log_print_def set_log_level_def)
qed

section \<open>Witnesses\<close>

definition two_cells :: "(addr \<rightharpoonup> log_t) \<Rightarrow> addr option" where
  "two_cells h = (if h 0 = None then Some 0 else if h 1 = None then Some 1 else None)"

definition sample_origin :: origin where
  "sample_origin = \<lparr>og_file = ''a.cc'', og_line = 7, og_func = ''f'', og_time = ''now '', og_pid = 10, og_tid = 11\<rparr>"

definition long_origin :: origin where
  "long_origin = sample_origin\<lparr>og_time := replicate 4100 CHR ''t''\<rparr>"

lemma two_cells_fresh: "fresh two_cells"
  by (auto simp: fresh_def two_cells_def split: if_splits)

lemma sample_fits: "line_fits INFO sample_origin ''hello''"
proof -
  have "length (id_buf n) \<le> 9" for n by (simp add: id_buf_def)
  from this[of 10] this[of 11] show ?thesis
    by (simp add: line_fits_def log_header_def sample_origin_def length_color dec_int_def dec.simps[of 7])
qed

definition sample_ops :: "log_op list" where
  "sample_ops = [Add 3 WARN {} True, Add 4 DEBUG {} True, Print INFO sample_origin ''hello'', LevelName sample_origin (Some ''debug''), Close]"

lemma sample_name: "level_of ''debug'' = Some DEBUG"
  by code_simp

theorem logger_refines_witness:
  "\<exists>rs. length rs = 5 \<and> log_run two_cells new_Logger sample_ops = Some (rs, spec_run [] sample_ops rs)"
proof -
  have "list_all op_fits sample_ops" "Close \<notin> set (butlast sample_ops)"
    using sample_fits by (simp_all add: sample_ops_def op_fits_def sample_name)
  moreover have "length sample_ops = 5" by (simp add: sample_ops_def)
  ultimately show ?thesis using logger_refines[OF two_cells_fresh, of sample_ops] by metis
qed

definition one_dest :: Logger where
  "one_dest = \<lparr>lg_heap = [0 \<mapsto> \<lparr>l_fd = 3, l_lvl = DEBUG, l_flgs = {}, l_next = None\<rparr>], lg_log = Some 0\<rparr>"

theorem log_line_overflow_witness: "log_print one_dest DEBUG long_origin ''x'' = None"
  using log_line_overflow[of one_dest 0 "[]" "\<lparr>l_fd = 3, l_lvl = DEBUG, l_flgs = {}, l_next = None\<rparr>" DEBUG long_origin "''x''"]
  by (simp add: one_dest_def long_origin_def log_header_def)

theorem log_after_close_witness:
  "\<exists>lg'. log_close one_dest = Some (0, lg', [3]) \<and> log_print lg' ERR sample_origin ''bye'' = None"
proof -
  have "represents one_dest [(3, DEBUG, {})]"
    by (auto simp: represents_def one_dest_def dest_of_def intro!: exI[of _ "[0]"])
  from log_after_close[OF this, where fd = 5 and lvl = ERR and og = sample_origin and msg = "''bye''" and sigs = True and flgs = "{}"] show ?thesis by auto
qed

end
