(* ===== verification/Crash.thy ===== *)
theory Crash
  imports Log Uri
begin

text \<open>
  The crash handler of \<open>xlog.cc\<close>: its signals and its alternate stack, the report it writes into a
  buffer of 4096 bytes, and the lookup of a frame with \<open>/proc/<pid>/maps\<close> and \<open>addr2line\<close>. What the
  system, \<open>addr2line\<close> and \<open>__cxa_demangle\<close> answer is an argument; a read or write outside a buffer is
  \<open>None\<close>. Below, numbers in base 16 are read back, the report is compared with its full text, and
  its way through the logger is followed.
\<close>

section \<open>Signals and the alternate stack\<close>

datatype disposition = SIG_DFL | Fault_handler | Other_handler nat

text \<open>
  The alternate stack the kernel has (address and size), the blocks of \<open>malloc\<close>, the flag
  \<open>_need_free_sigstack\<close> and the dispositions.
\<close>

record crash_state =
  cs_altstack :: "(nat \<times> nat) option"
  cs_blocks :: "nat set"
  cs_need_free :: bool
  cs_disp :: "nat \<Rightarrow> disposition"

abbreviation (input) SIGQUIT :: nat where "SIGQUIT \<equiv> 3"
abbreviation (input) SIGSEGV :: nat where "SIGSEGV \<equiv> 11"

definition k_exception_signals :: "nat list" where
  "k_exception_signals = [11, 6, 8, 4, 7]"

definition k_sig_stack_size :: nat where
  "k_sig_stack_size = 40960"

definition set_handlers :: "disposition \<Rightarrow> (nat \<Rightarrow> disposition) \<Rightarrow> nat \<Rightarrow> disposition" where
  "set_handlers d disp = (fold (\<lambda>n f. f(n := d)) k_exception_signals disp)(SIGQUIT := d)"

text \<open>\<open>queried\<close> and \<open>accepted\<close> are the two answers of \<open>sigaltstack\<close>, \<open>p\<close> is the block \<open>malloc\<close> gives.\<close>

definition sig_crashes_setup :: "bool \<Rightarrow> nat \<Rightarrow> bool \<Rightarrow> crash_state \<Rightarrow> int \<times> crash_state" where
  "sig_crashes_setup queried p accepted s =
     (let small = (case cs_altstack s of None \<Rightarrow> True | Some (sp, sz) \<Rightarrow> sz < k_sig_stack_size)
      in if (\<not> queried \<or> small) \<and> \<not> accepted then (- 1, s)
         else
           (let s = (if \<not> queried \<or> small
                then s\<lparr>cs_altstack := Some (p, k_sig_stack_size), cs_blocks := insert p (cs_blocks s), cs_need_free := True\<rparr>
                else s)
            in (0, s\<lparr>cs_disp := set_handlers Fault_handler (cs_disp s)\<rparr>)))"

definition sig_crashes_restore :: "bool \<Rightarrow> crash_state \<Rightarrow> crash_state option" where
  "sig_crashes_restore queried s =
     (let s = s\<lparr>cs_disp := set_handlers SIG_DFL (cs_disp s)\<rparr>
      in if \<not> cs_need_free s then Some s
         else
           (case cs_altstack s of
              Some (sp, sz) \<Rightarrow>
                if queried then
                  (if sp \<in> cs_blocks s then Some (s\<lparr>cs_blocks := cs_blocks s - {sp}, cs_need_free := False\<rparr>) else None)
                else Some (s\<lparr>cs_need_free := False\<rparr>)
            | None \<Rightarrow> Some (s\<lparr>cs_need_free := False\<rparr>)))"

definition signal_name :: "nat \<Rightarrow> string" where
  "signal_name n =
     (if n = 11 then ''SIGSEGV'' else if n = 6 then ''SIGABRT'' else if n = 8 then ''SIGFPE''
      else if n = 4 then ''SIGILL'' else if n = 7 then ''SIGBUS'' else if n = 3 then ''SIGQUIT''
      else if n = 13 then ''SIGPIPE'' else ''UnKnown'')"

section \<open>Frames\<close>

abbreviation (input) newline :: char where "newline \<equiv> CHR 0x0A"

definition contains :: "string \<Rightarrow> string \<Rightarrow> bool" where
  "contains s t \<longleftrightarrow> find_str t s \<noteq> None"

text \<open>\<open>if (strchr(s, c)) *(strchr(s, c)) = '\0';\<close>\<close>

definition cut_at :: "char \<Rightarrow> string \<Rightarrow> string" where
  "cut_at c s = takeWhile (\<lambda>x. x \<noteq> c) s"

text \<open>The lines \<open>fgets\<close> returns, up to the mapping of the library.\<close>

fun find_mapping :: "string \<Rightarrow> string list \<Rightarrow> string option" where
  "find_mapping library [] = None"
| "find_mapping library (l # ls) =
     (let line = cut_at newline l
      in if \<not> contains line ''r-xp'' then find_mapping library ls
         else if contains line library then Some line
         else find_mapping library ls)"

text \<open>\<open>strtoll(s, NULL, 16)\<close>.\<close>

definition strtoll16 :: "string \<Rightarrow> int" where
  "strtoll16 s =
     (let t = dropWhile isspace s;
          neg = (t \<noteq> [] \<and> hd t = CHR ''-'');
          u = (if t \<noteq> [] \<and> (hd t = CHR ''-'' \<or> hd t = CHR ''+'') then tl t else t);
          u = (if length u > 2 \<and> hd u = CHR ''0'' \<and> tolower (u ! 1) = CHR ''x'' \<and> hex_digit (u ! 2) \<noteq> None
               then drop 2 u else u);
          v = int (foldl (\<lambda>v d. 16 * v + the (hex_digit d)) 0 (takeWhile (\<lambda>c. hex_digit c \<noteq> None) u))
      in max (- (2 ^ 63)) (min (2 ^ 63 - 1) (if neg then - v else v)))"

text \<open>\<open>%x\<close>.\<close>

definition hex_lower :: "nat \<Rightarrow> char" where
  "hex_lower n = ''0123456789abcdef'' ! n"

fun hex_str :: "nat \<Rightarrow> string" where
  "hex_str n = (if n < 16 then [hex_lower n] else hex_str (n div 16) @ [hex_lower (n mod 16)])"

declare hex_str.simps [simp del]

text \<open>
  The command for an address: \<open>lib\<close> points into the line, behind its last blank, and is not set when
  there is none; the line is then cut at its first hyphen, the library's name with it if that comes
  later.
\<close>

definition resolve_cmd :: "string \<Rightarrow> string \<Rightarrow> string option" where
  "resolve_cmd line addr = do {
     k \<leftarrow> map_option Suc (rfind_char (CHR '' '') line);
     let lib = drop k (if length (cut_at (CHR ''-'') line) < k then line else cut_at (CHR ''-'') line);
     let baseaddr = (word_of_int (strtoll16 (cut_at (CHR ''-'') line)) :: u64);
     let runaddr = (word_of_int (strtoll16 addr) :: u64);
     let vaddr = (if \<not> contains lib ''.so'' then runaddr else runaddr - baseaddr);
     Some (take 127 (''addr2line -C -f -e '' @ lib @ '' '' @ hex_str (unat (ucast vaddr :: u32)))) }"

text \<open>
  \<open>addr2line\<close> with the lines of the maps, \<open>None\<close> where they do not open, and \<open>popen\<close> with what the
  command prints. Of that 512 bytes are read; without a NUL among them the search for the newline
  leaves the buffer. \<open>Inl\<close> is a failure's code.
\<close>

definition addr2line :: "string list option \<Rightarrow> (string \<Rightarrow> string option) \<Rightarrow> string \<Rightarrow> string \<Rightarrow> (int + string) option" where
  "addr2line maps popen library addr =
     (case maps of
        None \<Rightarrow> Some (Inl (- 1))
      | Some lines \<Rightarrow>
          (case find_mapping library lines of
             None \<Rightarrow> Some (Inl (- 1))
           | Some line \<Rightarrow> do {
               cmd \<leftarrow> resolve_cmd line addr;
               case popen cmd of
                 None \<Rightarrow> Some (Inl 3)
               | Some out \<Rightarrow>
                   (if 512 \<le> length out \<and> NUL \<notin> set (take 512 out) then None
                    else
                      (let text = c_str (take 512 out)
                       in Some (Inr (case find_char newline text of None \<Rightarrow> text
                            | Some i \<Rightarrow> text[i := CHR 0x09])))) }))"

text \<open>A conversion \<open>%n[set]\<close> of \<open>sscanf\<close>.\<close>

definition scan_set :: "nat \<Rightarrow> (char \<Rightarrow> bool) \<Rightarrow> string \<Rightarrow> (string \<times> string) option" where
  "scan_set n P s = (let t = takeWhile P (take n s) in if t = [] then None else Some (t, drop (length t) s))"

definition scan_lit :: "char \<Rightarrow> string \<Rightarrow> string option" where
  "scan_lit c s = (case s of [] \<Rightarrow> None | x # r \<Rightarrow> if x = c then Some r else None)"

text \<open>\<open>library(function+offset) [address]\<close>, or \<open>library [address]\<close>.\<close>

definition scan_frame :: "string \<Rightarrow> (string \<times> string) option" where
  "scan_frame symbol =
     (case do {
          (library, r) \<leftarrow> scan_set 255 (\<lambda>c. c \<noteq> CHR ''('') symbol;
          (_, r) \<leftarrow> scan_set (length r) (\<lambda>c. c \<noteq> CHR ''['') r;
          r \<leftarrow> scan_lit (CHR ''['') r;
          (addr, _) \<leftarrow> scan_set 63 (\<lambda>c. c \<noteq> CHR '']'') r;
          Some (library, addr) } of
        Some f \<Rightarrow> Some f
      | None \<Rightarrow> do {
          (library, r) \<leftarrow> scan_set 255 (\<lambda>c. c \<noteq> CHR '' '') symbol;
          r \<leftarrow> scan_lit (CHR ''['') (dropWhile isspace r);
          (addr, _) \<leftarrow> scan_set 63 (\<lambda>c. c \<noteq> CHR '']'') r;
          Some (library, addr) })"

definition demangle_using_addr2line :: "string list option \<Rightarrow> (string \<Rightarrow> string option) \<Rightarrow> string \<Rightarrow> string option" where
  "demangle_using_addr2line maps popen symbol =
     (case scan_frame symbol of
        None \<Rightarrow> Some []
      | Some (library, addr) \<Rightarrow>
          (let lib = (case rfind_char (CHR ''/'') library of None \<Rightarrow> library | Some k \<Rightarrow> drop (Suc k) library)
           in map_option (\<lambda>r. case r of Inl _ \<Rightarrow> [] | Inr text \<Rightarrow> text) (addr2line maps popen lib addr)))"

definition demangle :: "(string \<Rightarrow> string option) \<Rightarrow> string \<Rightarrow> string" where
  "demangle cxa symbol =
     (case do {
          (_, r) \<leftarrow> scan_set (length symbol) (\<lambda>c. c \<noteq> CHR ''('') symbol;
          (_, r) \<leftarrow> scan_set (length r) (\<lambda>c. c \<noteq> CHR ''_'') r;
          (mangled, _) \<leftarrow> scan_set 384 (\<lambda>c. c \<noteq> CHR '')'' \<and> c \<noteq> CHR ''+'') r;
          cxa mangled } of
        Some d \<Rightarrow> take 511 d
      | None \<Rightarrow>
          (case scan_set 384 (\<lambda>c. \<not> isspace c) (dropWhile isspace symbol) of
             Some (s, _) \<Rightarrow> s
           | None \<Rightarrow> symbol))"

section \<open>The report\<close>

abbreviation (input) REPORT_LEN :: nat where "REPORT_LEN \<equiv> 4096"

text \<open>
  \<open>len += snprintf(stack_buffer+len, SEGMENT_FAULT_STRING_LEN-len, ...)\<close>: the text so far and \<open>len\<close>, which
  counts what was cut, too. Above the buffer's length the size wraps around.
\<close>

definition append_text :: "string \<Rightarrow> string \<times> nat \<Rightarrow> (string \<times> nat) option" where
  "append_text s buf =
     (case buf of (b, len) \<Rightarrow>
        if len > REPORT_LEN then None
        else if len = REPORT_LEN then Some (b, len + length s)
        else Some (take len b @ take (REPORT_LEN - len - 1) s, len + length s))"

text \<open>The command line from \<open>/proc\<close>; 256 bytes without a NUL have no end.\<close>

definition proc_cmdline :: "string option \<Rightarrow> string option" where
  "proc_cmdline content =
     (case content of
        None \<Rightarrow> Some ''debugme''
      | Some bytes \<Rightarrow>
          if 256 \<le> length bytes \<and> NUL \<notin> set (take 256 bytes) then None else Some (c_str (take 256 bytes)))"

record siginfo =
  si_signo :: nat
  si_addr :: string
  si_errno :: int
  si_code :: int

definition stars :: string where
  "stars = newline # replicate 84 (CHR ''*'') @ [newline]"

definition report_head :: "int \<Rightarrow> string \<Rightarrow> siginfo \<Rightarrow> string" where
  "report_head pid cmdline si =
     ''!PID: '' @ dec_int pid @ '', cmdline: '' @ cmdline @ [newline] @ ''!Caught signal '' @ signal_name (si_signo si) @
     ''('' @ dec (si_signo si) @ ''), may crash address is '' @ si_addr si @ [newline] @
     ''!errno: '' @ dec_int (si_errno si) @ '', code: '' @ dec_int (si_code si) @ [newline]"

definition backtrace_stopped :: string where
  "backtrace_stopped = ''!Backtrace stopped: previous frame inner to this frame (corrupt stack?)''"

text \<open>The text of one frame: what \<open>addr2line\<close> says, or else the demangled symbol.\<close>

definition frame_text :: "bool \<Rightarrow> (string \<Rightarrow> string option) \<Rightarrow> (string \<Rightarrow> string option) \<Rightarrow> string \<Rightarrow> string option" where
  "frame_text segv resolve cxa symbol = do {
     sbuffer \<leftarrow> (if segv then resolve symbol else Some []);
     Some (if sbuffer = [] \<or> contains sbuffer ''??'' then demangle cxa symbol @ [newline] else sbuffer) }"

fun frame_loop :: "(string \<Rightarrow> string option) \<Rightarrow> string list \<Rightarrow> string \<times> nat \<Rightarrow> (string \<times> nat) option" where
  "frame_loop frame [] buf = Some buf"
| "frame_loop frame (symbol # symbols) buf = do {
     text \<leftarrow> frame symbol;
     (b, len) \<leftarrow> append_text text buf;
     frame_loop frame symbols (b, if len < REPORT_LEN then len else REPORT_LEN) }"

definition fault_report ::
  "int \<Rightarrow> string option \<Rightarrow> siginfo \<Rightarrow> string list option \<Rightarrow> (string \<Rightarrow> string option) \<Rightarrow> (string \<Rightarrow> string option) \<Rightarrow> string option" where
  "fault_report pid content si symbols resolve cxa = do {
     cmdline \<leftarrow> proc_cmdline content;
     buf \<leftarrow> append_text (stars @ [newline]) ([], 0);
     buf \<leftarrow> append_text (report_head pid cmdline si) buf;
     buf \<leftarrow>
       (case symbols of
          None \<Rightarrow> do { buf \<leftarrow> append_text backtrace_stopped buf; append_text (stars @ [newline]) buf }
        | Some syms \<Rightarrow> do {
            buf \<leftarrow> frame_loop (frame_text (si_signo si = SIGSEGV) resolve cxa) syms buf;
            append_text stars buf });
     Some (fst buf) }"

text \<open>The handler: the report goes to the log, the dispositions are reset and the signal is raised again.\<close>

definition fault_handler_sigaction ::
  "Logger \<Rightarrow> origin \<Rightarrow> int \<Rightarrow> string option \<Rightarrow> siginfo \<Rightarrow> string list option \<Rightarrow> string list option \<Rightarrow> (string \<Rightarrow> string option) \<Rightarrow>
     (string \<Rightarrow> string option) \<Rightarrow> bool \<Rightarrow> crash_state \<Rightarrow> (written list \<times> crash_state) option" where
  "fault_handler_sigaction lg og pid content si symbols maps popen cxa queried s = do {
     report \<leftarrow> fault_report pid content si symbols (demangle_using_addr2line maps popen) cxa;
     (_, out) \<leftarrow> log_print lg WARN og report;
     s \<leftarrow> sig_crashes_restore queried s;
     Some (out, s) }"

section \<open>The report against its full text\<close>

text \<open>The buffer after the text \<open>t\<close>, once its length is limited.\<close>

definition holds_text :: "string \<Rightarrow> string \<times> nat \<Rightarrow> bool" where
  "holds_text t buf \<longleftrightarrow> buf = (take (REPORT_LEN - 1) t, min REPORT_LEN (length t))"

lemma append_holds:
  assumes "holds_text t buf"
  shows "append_text s buf = Some (take (REPORT_LEN - 1) (t @ s), min REPORT_LEN (length t) + length s)"
proof -
  define r where "r = REPORT_LEN"
  have "0 < r" by (simp add: r_def)
  then show ?thesis
    using assms unfolding holds_text_def append_text_def r_def[symmetric]
    by (cases "length t < r") (auto simp: min_def)
qed

lemma append_holds_limited:
  "holds_text t buf \<Longrightarrow> append_text s buf = Some (b, len) \<Longrightarrow> holds_text (t @ s) (b, if len < REPORT_LEN then len else REPORT_LEN)"
  by (auto simp: append_holds holds_text_def)

lemma append_holds_short:
  assumes "holds_text t buf" "length t + length s \<le> REPORT_LEN"
  obtains buf' where "append_text s buf = Some buf'" "holds_text (t @ s) buf'"
  using assms append_holds[OF assms(1), of s] by (auto simp: holds_text_def)

lemma frame_loop_holds:
  "holds_text t buf \<Longrightarrow> those (map frame syms) = Some texts \<Longrightarrow>
    \<exists>buf'. frame_loop frame syms buf = Some buf' \<and> holds_text (t @ concat texts) buf'"
proof (induction syms arbitrary: t buf texts)
  case (Cons s syms)
  obtain x xs where x: "frame s = Some x" "those (map frame syms) = Some xs" "texts = x # xs"
    using Cons.prems(2) by (auto split: option.splits)
  obtain b len where a: "append_text x buf = Some (b, len)" using append_holds[OF Cons.prems(1), of x] by auto
  from Cons.IH[OF append_holds_limited[OF Cons.prems(1) a] x(2)] show ?case using x a by simp
qed simp

section \<open>Numbers in base 16\<close>

lemma hex_lower_digit: "n < 16 \<Longrightarrow> hex_digit (hex_lower n) = Some n"
proof -
  have "list_all (\<lambda>n. hex_digit (hex_lower n) = Some n) [0..<16]"
    by (simp add: upt_rec hex_lower_def hex_digit_def isdigit_def ord_def)
  then show "n < 16 \<Longrightarrow> ?thesis" by (simp add: list_all_iff)
qed

lemma hex_digit_plain: "hex_digit c \<noteq> None \<Longrightarrow> \<not> isspace c \<and> c \<noteq> CHR ''-'' \<and> c \<noteq> CHR ''+'' \<and> tolower c \<noteq> CHR ''x''"
proof -
  have o: "ord (CHR ''x'') = 120" "ord (CHR ''-'') = 45" "ord (CHR ''+'') = 43" by (simp_all add: ord_def)
  show "hex_digit c \<noteq> None \<Longrightarrow> ?thesis"
    by (auto simp: hex_digit_def isdigit_def isspace_def tolower_def isupper_def o ord_char_of simp flip: ord_inject split: if_splits)
qed

lemma hex_str_digits: "(\<forall>c\<in>set (hex_str n). hex_digit c \<noteq> None) \<and> hex_str n \<noteq> []"
proof (induction n rule: hex_str.induct)
  case (1 n)
  then show ?case by (subst (1 2) hex_str.simps) (auto simp: hex_lower_digit)
qed

lemma hex_str_value: "foldl (\<lambda>v d. 16 * v + the (hex_digit d)) 0 (hex_str n) = n"
proof (induction n rule: hex_str.induct)
  case (1 n)
  then show ?case by (subst hex_str.simps) (auto simp: hex_lower_digit)
qed

lemma strtoll16_hex_str:
  assumes "n < 2 ^ 63"
  shows "strtoll16 (hex_str n) = int n" "strtoll16 (''0x'' @ hex_str n) = int n"
proof -
  obtain c cs where c: "hex_str n = c # cs" "hex_digit c \<noteq> None" using hex_str_digits[of n] by (cases "hex_str n") auto
  note plain = hex_digit_plain[OF c(2)]
  have all: "takeWhile (\<lambda>c. \<exists>y. hex_digit c = Some y) (hex_str n) = hex_str n"
    using hex_str_digits[of n] by (simp add: takeWhile_eq_all_conv)
  have no_x: "\<not> (length (hex_str n) > 2 \<and> tolower (hex_str n ! 1) = CHR ''x'')"
  proof
    assume a: "length (hex_str n) > 2 \<and> tolower (hex_str n ! 1) = CHR ''x''"
    then have "hex_str n ! 1 \<in> set (hex_str n)" by simp
    then show False using hex_str_digits[of n] hex_digit_plain a by blast
  qed
  have v: "max (- (2 ^ 63)) (min (2 ^ 63 - 1) (int n)) = int n" using assms by simp
  have t: "dropWhile isspace (hex_str n) = hex_str n" "hd (hex_str n) \<noteq> CHR ''-''" "hd (hex_str n) \<noteq> CHR ''+''" using c(1) plain by auto
  show "strtoll16 (hex_str n) = int n"
    unfolding strtoll16_def Let_def t(1) using t(2,3) no_x v by (auto simp: all hex_str_value)
  define x where "x = ''0x'' @ hex_str n"
  have o: "\<not> isspace (CHR ''0'')" "tolower (CHR ''x'') = CHR ''x''" by (simp_all add: isspace_def tolower_def isupper_def ord_def)
  have "dropWhile isspace x = x" "x \<noteq> []" "hd x = CHR ''0''" "length x > 2" "tolower (x ! 1) = CHR ''x''" "hex_digit (x ! 2) \<noteq> None" "drop 2 x = hex_str n"
    using c o by (simp_all add: x_def)
  then show "strtoll16 (''0x'' @ hex_str n) = int n"
    unfolding x_def[symmetric] strtoll16_def Let_def using v by (simp add: all hex_str_value)
qed

section \<open>Properties\<close>

text \<open>
  C36: crash_report_logged. The report is the first 4095 characters of its full text, however many
  frames there are; one that fits a line of the log reaches the destinations that let warnings through,
  and one that fills its buffer is written past the end of the log's line buffer.
\<close>

theorem crash_report_logged:
  assumes "proc_cmdline content = Some cmdline" "length (stars @ [newline] @ report_head pid cmdline si) \<le> REPORT_LEN"
    and "those (map (frame_text (si_signo si = SIGSEGV) (demangle_using_addr2line maps popen) cxa) syms) = Some texts"
    and "full = stars @ [newline] @ report_head pid cmdline si @ concat texts @ stars" "represents lg ds"
  shows "fault_report pid content si (Some syms) (demangle_using_addr2line maps popen) cxa = Some (take (REPORT_LEN - 1) full) \<and>
    (line_fits WARN og full \<and> sig_crashes_restore queried s = Some s' \<longrightarrow>
      fault_handler_sigaction lg og pid content si (Some syms) maps popen cxa queried s = Some (spec_print ds WARN og full, s')) \<and>
    (REPORT_LEN - 1 \<le> length full \<and> (\<exists>a as l. Log.path (lg_heap lg) (lg_log lg) (a # as) \<and> lg_heap lg a = Some l \<and> l_lvl l \<le> WARN) \<longrightarrow>
      fault_handler_sigaction lg og pid content si (Some syms) maps popen cxa queried s = None)"
proof -
  let ?frame = "frame_text (si_signo si = SIGSEGV) (demangle_using_addr2line maps popen) cxa"
  have "holds_text [] ([], 0)" by (simp add: holds_text_def)
  moreover have "length [] + length (stars @ [newline]) \<le> REPORT_LEN" by (simp add: stars_def)
  ultimately obtain b1 where b1: "append_text (stars @ [newline]) ([], 0) = Some b1" "holds_text ([] @ stars @ [newline]) b1"
    by (rule append_holds_short)
  have "length ([] @ stars @ [newline]) + length (report_head pid cmdline si) \<le> REPORT_LEN" using assms(2) by simp
  from append_holds_short[OF b1(2) this] obtain b2 where b2: "append_text (report_head pid cmdline si) b1 = Some b2"
    "holds_text (([] @ stars @ [newline]) @ report_head pid cmdline si) b2" by blast
  from frame_loop_holds[OF b2(2) assms(3)] obtain b3 where b3: "frame_loop ?frame syms b2 = Some b3"
    "holds_text ((([] @ stars @ [newline]) @ report_head pid cmdline si) @ concat texts) b3" by blast
  have report: "fault_report pid content si (Some syms) (demangle_using_addr2line maps popen) cxa = Some (take (REPORT_LEN - 1) full)"
    using assms(1) b1(1) b2(1) b3(1) append_holds[OF b3(2), of stars] by (simp add: fault_report_def assms(4) split_def)
  moreover have "fault_handler_sigaction lg og pid content si (Some syms) maps popen cxa queried s = Some (spec_print ds WARN og full, s')"
    if fits: "line_fits WARN og full" and restore: "sig_crashes_restore queried s = Some s'"
  proof -
    have "take (REPORT_LEN - 1) full = full" using fits by (intro take_all) (simp add: line_fits_def)
    then show ?thesis using report restore log_print_spec[OF assms(5) fits] by (simp add: fault_handler_sigaction_def)
  qed
  moreover have "fault_handler_sigaction lg og pid content si (Some syms) maps popen cxa queried s = None"
    if "REPORT_LEN - 1 \<le> length full" "Log.path (lg_heap lg) (lg_log lg) (a # as)" "lg_heap lg a = Some l" "l_lvl l \<le> WARN" for a as l
  proof -
    have "length (take (REPORT_LEN - 1) full) = REPORT_LEN - 1" using that(1) by simp
    then have "log_print lg WARN og (take (REPORT_LEN - 1) full) = None"
      using that(3,4) by (auto simp: log_print_def walk_path[OF that(2)] print_to_def log_line_eq)
    then show ?thesis using report by (simp add: fault_handler_sigaction_def)
  qed
  ultimately show ?thesis by blast
qed

text \<open>
  Crash stack dangles: Closing the log sets the crash signals to their defaults and frees the alternate
  stack, but the kernel keeps it: when the log is opened again, the handler is back and runs on memory
  that is freed.
\<close>

theorem crash_stack_dangles:
  assumes "cs_altstack s = None" "p \<notin> cs_blocks s"
  shows "\<exists>s1 s2 s3. sig_crashes_setup queried p True s = (0, s1) \<and> sig_crashes_restore True s1 = Some s2 \<and>
    (\<forall>n. cs_disp s2 n = (if n \<in> {3, 4, 6, 7, 8, 11} then SIG_DFL else cs_disp s n)) \<and> cs_blocks s2 = cs_blocks s \<and>
    sig_crashes_setup True q True s2 = (0, s3) \<and> cs_disp s3 SIGSEGV = Fault_handler \<and>
    cs_altstack s3 = Some (p, k_sig_stack_size) \<and> p \<notin> cs_blocks s3"
  using assms by (auto simp: sig_crashes_setup_def sig_crashes_restore_def set_handlers_def k_exception_signals_def)


lemma find_mapping_at:
  "\<forall>x\<in>set pre. \<not> (contains (cut_at newline x) ''r-xp'' \<and> contains (cut_at newline x) library) \<Longrightarrow>
    contains l ''r-xp'' \<Longrightarrow> contains l library \<Longrightarrow> newline \<notin> set l \<Longrightarrow> find_mapping library (pre @ l # post) = Some l"
proof (induction pre)
  case Nil
  then have "cut_at newline l = l" by (auto simp: cut_at_def takeWhile_eq_all_conv)
  then show ?case using Nil by simp
qed (auto simp: Let_def)

lemma cut_hex: "cut_at (CHR ''-'') (hex_str n @ CHR ''-'' # r) = hex_str n"
proof -
  have "\<forall>c\<in>set (hex_str n). c \<noteq> CHR ''-''" using hex_str_digits[of n] hex_digit_plain by blast
  then show ?thesis by (simp add: cut_at_def takeWhile_append2)
qed

lemma offset_u32:
  assumes "run < 2 ^ 63" "base \<le> run"
  shows "unat (ucast (word_of_int (int run) :: u64) :: u32) = run mod 2 ^ 32"
    and "unat (ucast (word_of_int (int run) - word_of_int (int base) :: u64) :: u32) = (run - base) mod 2 ^ 32"
proof -
  have *: "unat (ucast (word_of_int (int n) :: u64) :: u32) = n mod 2 ^ 32" if "n < 2 ^ 63" for n
    using that by (simp add: unsigned_ucast_eq take_bit_eq_mod unsigned_of_nat mod_mod_cancel)
  show "unat (ucast (word_of_int (int run) :: u64) :: u32) = run mod 2 ^ 32" by (rule *[OF assms(1)])
  have "word_of_int (int run) - word_of_int (int base) = (word_of_int (int (run - base)) :: u64)"
    using assms(2) by (simp add: of_nat_diff)
  then show "unat (ucast (word_of_int (int run) - word_of_int (int base) :: u64) :: u32) = (run - base) mod 2 ^ 32"
    using *[of "run - base"] assms by simp
qed

text \<open>
  Addr2line offsets: From the executable mapping of a library the handler asks \<open>addr2line\<close>
  for the library's path and the address less the mapping's base; for a file without \<open>.so\<close>
  in its path it asks for the address as it is, cut to 32 bits, which is no address of a program that is
  loaded above them.
\<close>

theorem addr2line_offsets:
  assumes "l = hex_str base @ ''-'' @ mid @ '' '' @ lib" "CHR '' '' \<notin> set lib" "newline \<notin> set l"
    and "contains l ''r-xp''" "contains l library" "base \<le> run" "run < 2 ^ 63"
    and "\<forall>x\<in>set pre. \<not> (contains (cut_at newline x) ''r-xp'' \<and> contains (cut_at newline x) library)"
  shows "find_mapping library (pre @ l # post) = Some l \<and>
    resolve_cmd l (''0x'' @ hex_str run) = Some (take 127 (''addr2line -C -f -e '' @ lib @ '' '' @
      hex_str ((if contains lib ''.so'' then run - base else run) mod 2 ^ 32)))"
proof
  show "find_mapping library (pre @ l # post) = Some l" using find_mapping_at[OF assms(8,4,5,3)] .
  have l: "l = (hex_str base @ ''-'' @ mid) @ CHR '' '' # lib" using assms(1) by simp
  have k: "rfind_char (CHR '' '') l = Some (length (hex_str base @ ''-'' @ mid))"
    unfolding l by (rule rfind_char_append[OF assms(2)])
  have cut: "cut_at (CHR ''-'') l = hex_str base" using cut_hex[of base "mid @ '' '' @ lib"] assms(1) by simp
  have d: "drop (Suc (length (hex_str base @ ''-'' @ mid))) l = lib" unfolding l by simp
  have "base < 2 ^ 63" using assms(6,7) by simp
  note n = strtoll16_hex_str(1)[OF this] strtoll16_hex_str(2)[OF assms(7)]
  show "resolve_cmd l (''0x'' @ hex_str run) = Some (take 127 (''addr2line -C -f -e '' @ lib @ '' '' @
      hex_str ((if contains lib ''.so'' then run - base else run) mod 2 ^ 32)))"
    unfolding resolve_cmd_def k option.map bind.bind_lunit Let_def cut n d offset_u32[OF assms(7,6)]
    using d offset_u32[OF assms(7,6)] by auto
qed

section \<open>Examples\<close>

definition sample_si :: siginfo where
  "sample_si = \<lparr>si_signo = 6, si_addr = ''0x2a'', si_errno = 0, si_code = - 6\<rparr>"

theorem crash_stack_dangles_witness:
  "\<exists>s2. sig_crashes_restore True (snd (sig_crashes_setup True 7 True \<lparr>cs_altstack = None, cs_blocks = {}, cs_need_free = False, cs_disp = \<lambda>_. SIG_DFL\<rparr>)) = Some s2 \<and>
    cs_altstack (snd (sig_crashes_setup True 8 True s2)) = Some (7, k_sig_stack_size) \<and> cs_blocks s2 = {}"
  using crash_stack_dangles[of "\<lparr>cs_altstack = None, cs_blocks = {}, cs_need_free = False, cs_disp = \<lambda>_. SIG_DFL\<rparr>" 7 True 8] by auto

definition sample_full :: string where
  "sample_full = stars @ [newline] @ report_head 1 ''debugme'' sample_si @ concat [''f'' @ [newline]] @ stars"

theorem crash_report_logged_witness:
  "fault_handler_sigaction one_dest sample_origin 1 None sample_si (Some [''f'']) None (\<lambda>_. None) (\<lambda>_. None) True
     \<lparr>cs_altstack = None, cs_blocks = {}, cs_need_free = False, cs_disp = \<lambda>_. SIG_DFL\<rparr> =
   Some (spec_print [(3, DEBUG, {})] WARN sample_origin sample_full,
     \<lparr>cs_altstack = None, cs_blocks = {}, cs_need_free = False, cs_disp = set_handlers SIG_DFL (\<lambda>_. SIG_DFL)\<rparr>)"
proof -
  let ?s = "\<lparr>cs_altstack = None, cs_blocks = {}, cs_need_free = False, cs_disp = \<lambda>_. SIG_DFL\<rparr>"
  have cmd: "proc_cmdline None = Some ''debugme''" by (simp add: proc_cmdline_def)
  have head: "length (stars @ [newline] @ report_head 1 ''debugme'' sample_si) \<le> REPORT_LEN" by code_simp
  have texts: "those (map (frame_text (si_signo sample_si = SIGSEGV) (demangle_using_addr2line None (\<lambda>_. None)) (\<lambda>_. None)) [''f'']) =
      Some [''f'' @ [newline]]"
    by (simp add: frame_text_def sample_si_def demangle_def scan_set_def isspace_def ord_def)
  have rep: "represents one_dest [(3, DEBUG, {})]"
    by (auto simp: represents_def one_dest_def dest_of_def intro!: exI[of _ "[0]"])
  have fits: "line_fits WARN sample_origin sample_full" by code_simp
  have "sig_crashes_restore True ?s = Some (?s\<lparr>cs_disp := set_handlers SIG_DFL (cs_disp ?s)\<rparr>)" by (simp add: sig_crashes_restore_def)
  then show ?thesis
    using crash_report_logged[OF cmd head texts sample_full_def rep, of sample_origin True ?s "?s\<lparr>cs_disp := set_handlers SIG_DFL (cs_disp ?s)\<rparr>"]
      fits by simp
qed

theorem addr2line_offsets_witness:
  "find_mapping ''x.so'' [''7f00-7f10 r-xp 00 /l/x.so''] = Some ''7f00-7f10 r-xp 00 /l/x.so'' \<and>
   resolve_cmd ''7f00-7f10 r-xp 00 /l/x.so'' ''0x7f12'' = Some ''addr2line -C -f -e /l/x.so 12''"
proof -
  have h: "hex_str 32512 = ''7f00''" "hex_str 32530 = ''7f12''" "hex_str 18 = ''12''"
    by (simp_all add: hex_str.simps hex_lower_def)
  have "''7f00-7f10 r-xp 00 /l/x.so'' = hex_str 32512 @ ''-'' @ ''7f10 r-xp 00'' @ '' '' @ ''/l/x.so''" by (simp add: h)
  moreover have "contains ''7f00-7f10 r-xp 00 /l/x.so'' ''r-xp''" "contains ''7f00-7f10 r-xp 00 /l/x.so'' ''x.so''" "contains ''/l/x.so'' ''.so''"
    by (simp_all add: contains_def)
  ultimately show ?thesis
    using addr2line_offsets[of "''7f00-7f10 r-xp 00 /l/x.so''" 32512 "''7f10 r-xp 00''" "''/l/x.so''" "''x.so''" 32530 "[]" "[]"] by (simp add: h)
qed

end
