(* ===== verification/Curl.thy ===== *)
theory Curl
  imports Buffer Text
begin

text \<open>
  \<open>xcurl.cc\<close>: requests, the bookkeeping of transfers around libcurl's easy and multi handles, and
  the hex dump of a traced transfer. libcurl is not in the repository: what its functions answer is
  an argument (\<open>setup_answer\<close>, \<open>multi_answer\<close>), and of its state there are the easy handles alive with
  the options set on them and the handles added to the multi handle. Freeing a handle that is not
  alive, or is still added, is undefined, as is any access to a freed request or connection, and a
  transfer that is to send a form at an address where there is none (\<open>follows_form\<close>). The
  error buffer, which only libcurl writes, and the log lines are not represented.
\<close>

section \<open>Requests\<close>

text \<open>\<open>Unnamed\<close> is the value of the enum's range that has no name.\<close>

datatype request_type = GET | POST | OPTIONS | Unnamed

text \<open>Functions and user data are opaque pointers, a \<open>double\<close> its 64 bits.\<close>

record request =
  rq_type :: request_type
  rq_url :: "string option"
  rq_write_cb :: "nat option"
  rq_write_data :: "nat option"
  rq_timeout :: int
  rq_range :: "string option"
  rq_verbose :: bool
  rq_trace_ascii :: bool
  rq_no_signal :: bool
  rq_follow_location :: bool
  rq_max_redirs :: int
  rq_progress :: bool
  rq_read_cb :: "nat option"
  rq_read_data :: "nat option"
  rq_post_fields :: "string option"
  rq_post_field_size :: int
  rq_cookie_file :: "string option"
  rq_low_speed_limit :: int
  rq_low_speed_time :: int
  rq_user_agent :: "string option"
  rq_effective_url :: "string option"
  rq_response_code :: int
  rq_speed_download :: u64
  rq_total_time :: u64

definition build ::
  "request_type \<Rightarrow> string option \<Rightarrow> nat option \<Rightarrow> nat option \<Rightarrow> int \<Rightarrow> string option \<Rightarrow> bool \<Rightarrow> bool \<Rightarrow> bool \<Rightarrow>
   bool \<Rightarrow> int \<Rightarrow> bool \<Rightarrow> nat option \<Rightarrow> nat option \<Rightarrow> string option \<Rightarrow> int \<Rightarrow> string option \<Rightarrow> int \<Rightarrow> int \<Rightarrow>
   string option \<Rightarrow> request" where
  "build ty url write_cb write_data timeout rang verbose trace_ascii no_signal follow_location max_redirs
     progress read_cb read_data post_fields post_fields_size cookie_file low_speed_limit low_speed_time user_agent =
     \<lparr>rq_type = ty, rq_url = strdup' url, rq_write_cb = write_cb, rq_write_data = write_data,
      rq_timeout = timeout, rq_range = strdup' rang, rq_verbose = verbose, rq_trace_ascii = trace_ascii,
      rq_no_signal = no_signal, rq_follow_location = follow_location, rq_max_redirs = max_redirs,
      rq_progress = progress, rq_read_cb = read_cb, rq_read_data = read_data,
      rq_post_fields = strdup' post_fields, rq_post_field_size = post_fields_size,
      rq_cookie_file = strdup' cookie_file, rq_low_speed_limit = low_speed_limit,
      rq_low_speed_time = low_speed_time, rq_user_agent = strdup' user_agent,
      rq_effective_url = None, rq_response_code = - 1, rq_speed_download = 0, rq_total_time = 0\<rparr>"

text \<open>A call that gives only the type and the URL: the default arguments of the header.\<close>

definition build_default :: "request_type \<Rightarrow> string option \<Rightarrow> request" where
  "build_default ty url = build ty url None None (- 1) None True True True True (- 1) False None None None (- 1)
     None (- 1) (- 1) (Some ''libcurl-agent/1.0'')"

section \<open>Connections and the multi handle\<close>

datatype curl_opt = URL "string option" | HTTPGET int | HTTPPOST int | POSTFIELDS string | POSTFIELDSIZE int
  | COOKIEFILE string | CUSTOMREQUEST string | WRITEFUNCTION nat | WRITEDATA nat | READFUNCTION nat
  | READDATA nat | TIMEOUT int | RANGE string | VERBOSE int | DEBUGFUNCTION_trace | DEBUGDATA nat
  | NOPROGRESS int | PROGRESSFUNCTION_progress | PROGRESSDATA nat | FOLLOWLOCATION int | MAXREDIRS int
  | NOSIGNAL int | LOW_SPEED_LIMIT int | LOW_SPEED_TIME int | USERAGENT string | ERRORBUFFER nat | PRIVATE nat

record conn_info =
  ci_easy :: "nat option"
  ci_req :: "nat option"
  ci_glob :: bool
  ci_trace_ascii :: bool

text \<open>
  The requests (the caller's), easy handles and connections alive, by address; \<open>cu_next\<close> is beyond
  every address given out. \<open>cu_multi\<close> is the multi handle with the easy handles added to it.
\<close>

record curl =
  cu_next :: nat
  cu_reqs :: "nat \<rightharpoonup> request"
  cu_easies :: "nat \<rightharpoonup> curl_opt list"
  cu_conns :: "nat \<rightharpoonup> conn_info"
  cu_multi :: "nat list option"
  cu_connvec :: "nat list"

definition recycle_request :: "nat option \<Rightarrow> curl \<Rightarrow> curl" where
  "recycle_request req s = (case req of None \<Rightarrow> s | Some r \<Rightarrow> s\<lparr>cu_reqs := (cu_reqs s)(r := None)\<rparr>)"

text \<open>\<open>glob_info\<close>: \<open>curl_multi_init\<close> failing ends in an assertion.\<close>

definition new_glob :: "bool \<Rightarrow> (nat \<rightharpoonup> request) \<Rightarrow> nat \<Rightarrow> curl option" where
  "new_glob multi_init reqs n = (if multi_init
     then Some \<lparr>cu_next = n, cu_reqs = reqs, cu_easies = Map.empty, cu_conns = Map.empty, cu_multi = Some [], cu_connvec = []\<rparr>
     else None)"

definition new_conn :: conn_info where
  "new_conn = \<lparr>ci_easy = None, ci_req = None, ci_glob = False, ci_trace_ascii = True\<rparr>"

text \<open>libcurl: an easy handle is freed once, and not while it is added to the multi handle.\<close>

definition curl_easy_cleanup :: "nat \<Rightarrow> curl \<Rightarrow> curl option" where
  "curl_easy_cleanup e s =
     (if e \<in> dom (cu_easies s) \<and> (case cu_multi s of None \<Rightarrow> True | Some l \<Rightarrow> e \<notin> set l)
      then Some (s\<lparr>cu_easies := (cu_easies s)(e := None)\<rparr>) else None)"

definition conn_cleanup :: "nat \<Rightarrow> curl \<Rightarrow> curl option" where
  "conn_cleanup c s = do {
     ci \<leftarrow> cu_conns s c;
     case ci_easy ci of
       None \<Rightarrow> Some s
     | Some e \<Rightarrow> do {
         let s = (if ci_glob ci \<and> c \<in> set (cu_connvec s)
                  then s\<lparr>cu_multi := map_option (remove1 e) (cu_multi s), cu_connvec := remove1 c (cu_connvec s)\<rparr>
                  else s);
         s \<leftarrow> curl_easy_cleanup e s;
         Some (s\<lparr>cu_conns := (cu_conns s)(c \<mapsto> ci\<lparr>ci_glob := False, ci_req := None, ci_easy := None\<rparr>)\<rparr>) } }"

definition delete_conn :: "nat \<Rightarrow> curl \<Rightarrow> curl option" where
  "delete_conn c s = do { s \<leftarrow> conn_cleanup c s; Some (s\<lparr>cu_conns := (cu_conns s)(c := None)\<rparr>) }"

text \<open>The loop over \<open>connvec\<close>, which ends only if the destructor takes the connection out of it.\<close>

partial_function (option) delete_all :: "curl \<Rightarrow> curl option" where
  "delete_all s = (case cu_connvec s of [] \<Rightarrow> Some s | c # cs \<Rightarrow> Option.bind (delete_conn c s) delete_all)"

definition glob_cleanup :: "curl \<Rightarrow> curl option" where
  "glob_cleanup s =
     (if cu_multi s = None then Some s
      else do { s \<leftarrow> delete_all s; Some (s\<lparr>cu_multi := None, cu_connvec := []\<rparr>) })"

text \<open>The options set on an easy handle for a request, \<open>None\<close> for an unsupported type.\<close>

definition opt_when :: "bool \<Rightarrow> curl_opt \<Rightarrow> curl_opt list" where
  "opt_when b x = (if b then [x] else [])"

definition opt_given :: "('a \<Rightarrow> curl_opt) \<Rightarrow> 'a option \<Rightarrow> curl_opt list" where
  "opt_given f v = (case v of None \<Rightarrow> [] | Some v \<Rightarrow> [f v])"

fun type_opts :: "request \<Rightarrow> request_type \<Rightarrow> curl_opt list option" where
  "type_opts req GET = Some [HTTPGET 1]"
| "type_opts req POST = Some (HTTPPOST 1 # opt_given POSTFIELDS (rq_post_fields req) @
     opt_when (rq_post_field_size req > 0) (POSTFIELDSIZE (rq_post_field_size req)) @
     opt_given COOKIEFILE (rq_cookie_file req))"
| "type_opts req OPTIONS = Some [CUSTOMREQUEST ''OPTIONS'']"
| "type_opts req Unnamed = None"

definition setopts :: "nat \<Rightarrow> request \<Rightarrow> curl_opt list option" where
  "setopts c req = map_option (\<lambda>opts.
     URL (rq_url req) # opts @
     opt_given WRITEFUNCTION (rq_write_cb req) @ opt_given WRITEDATA (rq_write_data req) @
     opt_given READFUNCTION (rq_read_cb req) @ opt_given READDATA (rq_read_data req) @
     opt_when (rq_timeout req > 0) (TIMEOUT (rq_timeout req)) @ opt_given RANGE (rq_range req) @
     (if rq_verbose req then VERBOSE 1 # (if rq_trace_ascii req then [] else [DEBUGFUNCTION_trace, DEBUGDATA c]) else []) @
     (if rq_progress req then [NOPROGRESS 0, PROGRESSFUNCTION_progress, PROGRESSDATA c] else []) @
     opt_when (rq_follow_location req) (FOLLOWLOCATION 1) @
     opt_when (rq_max_redirs req > 0) (MAXREDIRS (rq_max_redirs req)) @
     opt_when (rq_no_signal req) (NOSIGNAL 1) @
     opt_when (rq_low_speed_limit req > 0) (LOW_SPEED_LIMIT (rq_low_speed_limit req)) @
     opt_when (rq_low_speed_time req > 0) (LOW_SPEED_TIME (rq_low_speed_time req)) @
     (case rq_user_agent req of None \<Rightarrow> [] | Some ua \<Rightarrow> if ua \<noteq> [] then [USERAGENT ua] else []) @
     [ERRORBUFFER c, PRIVATE c]) (type_opts req (rq_type req))"

datatype CURLMcode = CALL_MULTI_PERFORM | CURLM_OK | CURLM_FAILED

text \<open>What \<open>curl_easy_init\<close> (it gives a handle or not) and \<open>curl_multi_add_handle\<close> answer.\<close>

record setup_answer =
  sa_easy :: bool
  sa_add :: CURLMcode

definition failed_setup :: "nat \<Rightarrow> curl \<Rightarrow> (int \<times> curl) option" where
  "failed_setup c s = map_option (\<lambda>s. (- 1, s)) (conn_cleanup c s)"

definition conn_setup :: "nat \<Rightarrow> nat \<Rightarrow> bool \<Rightarrow> setup_answer \<Rightarrow> curl \<Rightarrow> (int \<times> curl) option" where
  "conn_setup c r glob a s = do {
     ci \<leftarrow> cu_conns s c;
     req \<leftarrow> cu_reqs s r;
     let ci = ci\<lparr>ci_req := Some r, ci_trace_ascii := rq_trace_ascii req\<rparr>;
     let e = cu_next s;
     if \<not> sa_easy a then failed_setup c (s\<lparr>cu_conns := (cu_conns s)(c \<mapsto> ci)\<rparr>)
     else do {
       let ci = ci\<lparr>ci_easy := Some e\<rparr>;
       let s = s\<lparr>cu_next := e + 1, cu_easies := (cu_easies s)(e \<mapsto> []), cu_conns := (cu_conns s)(c \<mapsto> ci)\<rparr>;
       case setopts c req of
         None \<Rightarrow> failed_setup c s
       | Some opts \<Rightarrow>
           (let s = s\<lparr>cu_easies := (cu_easies s)(e \<mapsto> opts)\<rparr>
            in if \<not> glob then Some (0, s)
               else case cu_multi s of
                 None \<Rightarrow> failed_setup c s
               | Some l \<Rightarrow>
                   (if sa_add a \<noteq> CURLM_OK then failed_setup c s
                    else Some (0, s\<lparr>cu_multi := Some (l @ [e]), cu_conns := (cu_conns s)(c \<mapsto> ci\<lparr>ci_glob := True\<rparr>),
                                   cu_connvec := cu_connvec s @ [c]\<rparr>))) } }"

section \<open>Performing\<close>

record easy_info =
  ei_effective_url :: "string option"
  ei_response_code :: int
  ei_speed_download :: u64
  ei_total_time :: u64

definition filled :: "easy_info \<Rightarrow> request \<Rightarrow> request" where
  "filled i req = req\<lparr>rq_effective_url := strdup' (ei_effective_url i), rq_response_code := ei_response_code i,
     rq_speed_download := ei_speed_download i, rq_total_time := ei_total_time i\<rparr>"

definition store_info :: "nat option \<Rightarrow> easy_info \<Rightarrow> curl \<Rightarrow> curl option" where
  "store_info r i s = do {
     r \<leftarrow> r;
     req \<leftarrow> cu_reqs s r;
     Some (s\<lparr>cu_reqs := (cu_reqs s)(r \<mapsto> filled i req)\<rparr>) }"

text \<open>
  By its documentation libcurl sends what the last of the method options asks for, and
  \<open>CURLOPT_HTTPPOST\<close> takes the address of a form; the code passes 1, which a transfer that is to
  send the form follows.
\<close>

fun form_step :: "bool \<Rightarrow> curl_opt \<Rightarrow> bool" where
  "form_step b (HTTPGET v) = (if v \<noteq> 0 then False else b)"
| "form_step b (HTTPPOST v) = (v \<noteq> 0)"
| "form_step b (POSTFIELDS v) = False"
| "form_step b _ = b"

definition follows_form :: "curl_opt list \<Rightarrow> bool" where
  "follows_form opts = foldl form_step False opts"

text \<open>
  One transfer; whether \<open>curl_easy_perform\<close> succeeds, and the handle's information after it.
  \<open>None\<close> also where the transfer follows the address 1.
\<close>

definition conn_perform :: "nat \<Rightarrow> bool \<Rightarrow> easy_info \<Rightarrow> curl \<Rightarrow> (int \<times> curl) option" where
  "conn_perform c ok i s = do {
     ci \<leftarrow> cu_conns s c;
     e \<leftarrow> ci_easy ci;
     opts \<leftarrow> cu_easies s e;
     if follows_form opts then None
     else if \<not> ok then failed_setup c s
     else do { s \<leftarrow> store_info (ci_req ci) i s; Some (0, s) } }"

text \<open>\<open>curl_multi_perform\<close> again until it does not ask for that; the code and the transfers still running.\<close>

fun multi_perform :: "(CURLMcode \<times> int) list \<Rightarrow> (CURLMcode \<times> int) run" where
  "multi_perform [] = Waits"
| "multi_perform ((mc, running) # as) = (if mc = CALL_MULTI_PERFORM then multi_perform as else Done (mc, running))"

text \<open>The time \<open>select\<close> waits for, in seconds and microseconds.\<close>

definition select_timeout :: "int \<Rightarrow> int \<times> int" where
  "select_timeout curl_timeo =
     (if curl_timeo \<ge> 0 then
        (if curl_timeo div 1000 > 1 then (1, 0) else (curl_timeo div 1000, curl_timeo mod 1000 * 1000))
      else (1, 0))"

text \<open>One round of the loop: \<open>curl_multi_timeout\<close>, \<open>curl_multi_fdset\<close> with \<open>maxfd\<close>, \<open>select\<close>, \<open>curl_multi_perform\<close>.\<close>

record round_answer =
  ra_timeout :: "CURLMcode \<times> int"
  ra_fdset :: "CURLMcode \<times> int"
  ra_select :: "int \<times> int \<Rightarrow> int"
  ra_perform :: "(CURLMcode \<times> int) list"

text \<open>\<open>Done True\<close> when no transfer runs any more, \<open>Done False\<close> for the jump to \<open>bail\<close>.\<close>

fun rounds :: "round_answer list \<Rightarrow> bool run" where
  "rounds [] = Waits"
| "rounds (a # as) =
     (if fst (ra_timeout a) \<noteq> CURLM_OK then Done False
      else if fst (ra_fdset a) \<noteq> CURLM_OK then Done False
      else let rc = (if snd (ra_fdset a) = - 1 then 0 else ra_select a (select_timeout (snd (ra_timeout a))))
        in if rc = - 1 then Done False
           else andthen (multi_perform (ra_perform a)) (\<lambda>(mc, running).
             if mc \<noteq> CURLM_OK then Done False else if running \<noteq> 0 then rounds as else Done True))"

text \<open>\<open>CURLINFO_PRIVATE\<close>: the pointer set last.\<close>

definition private_of :: "curl_opt list \<Rightarrow> nat option" where
  "private_of opts = foldl (\<lambda>p x. case x of PRIVATE c \<Rightarrow> Some c | _ \<Rightarrow> p) None opts"

fun find_conn :: "curl \<Rightarrow> nat \<Rightarrow> nat list \<Rightarrow> nat option option" where
  "find_conn s easy_handle [] = Some None"
| "find_conn s easy_handle (c # cs) = do {
     ci \<leftarrow> cu_conns s c;
     conn \<leftarrow> (case ci_easy ci of None \<Rightarrow> Some None | Some e \<Rightarrow> map_option private_of (cu_easies s e));
     if conn = Some c \<and> ci_easy ci = Some easy_handle then Some (Some c) else find_conn s easy_handle cs }"

text \<open>The messages: whether each is \<open>CURLMSG_DONE\<close>, and its easy handle.\<close>

fun read_msgs :: "(bool \<times> nat) list \<Rightarrow> (nat \<Rightarrow> easy_info) \<Rightarrow> int \<Rightarrow> curl \<Rightarrow> (int \<times> curl) option" where
  "read_msgs [] info transfers s = Some (transfers, s)"
| "read_msgs ((is_done, e) # ms) info transfers s =
     (if \<not> is_done then read_msgs ms info transfers s
      else do {
        found \<leftarrow> find_conn s e (cu_connvec s);
        case found of
          None \<Rightarrow> read_msgs ms info transfers s
        | Some c \<Rightarrow> do {
            ci \<leftarrow> cu_conns s c;
            s \<leftarrow> store_info (ci_req ci) (info e) s;
            read_msgs ms info (transfers - 1) s } })"

record multi_answer =
  ma_first :: "(CURLMcode \<times> int) list"
  ma_rounds :: "round_answer list"
  ma_msgs :: "(bool \<times> nat) list"
  ma_info :: "nat \<Rightarrow> easy_info"

definition bail :: "curl \<Rightarrow> (int \<times> curl) run" where
  "bail s = andthen (run_option (glob_cleanup s)) (\<lambda>s. Done (- 1, s))"

text \<open>A transfer of the multi handle that follows the address 1, from the first \<open>curl_multi_perform\<close> on.\<close>

definition form_pending :: "curl \<Rightarrow> bool" where
  "form_pending s = (case cu_multi s of None \<Rightarrow> False | Some l \<Rightarrow>
     list_ex (\<lambda>e. case cu_easies s e of None \<Rightarrow> False | Some opts \<Rightarrow> follows_form opts) l)"

definition glob_perform :: "multi_answer \<Rightarrow> curl \<Rightarrow> (int \<times> curl) run" where
  "glob_perform a s =
     (if form_pending s then Undefined else
      andthen (multi_perform (ma_first a)) (\<lambda>(mc, running).
       if mc \<noteq> CURLM_OK then bail s
       else andthen (rounds (ma_rounds a)) (\<lambda>ok.
         if \<not> ok then bail s
         else andthen (run_option (read_msgs (ma_msgs a) (ma_info a) (int (length (cu_connvec s))) s)) (\<lambda>(transfers, s).
           if transfers = 0 then andthen (run_option (delete_all s)) (\<lambda>s. Done (0, s)) else bail s))))"

text \<open>The connections of several requests, each \<open>new\<close>ed and set up; the first failure ends it.\<close>

definition alloc_conn :: "curl \<Rightarrow> nat \<times> curl" where
  "alloc_conn s = (cu_next s, s\<lparr>cu_next := cu_next s + 1, cu_conns := (cu_conns s)(cu_next s \<mapsto> new_conn)\<rparr>)"

fun setup_all :: "nat list \<Rightarrow> setup_answer list \<Rightarrow> curl \<Rightarrow> (bool \<times> curl) run" where
  "setup_all [] as s = Done (True, s)"
| "setup_all (r # rs) [] s = Waits"
| "setup_all (r # rs) (a # as) s =
     (case alloc_conn s of (c, s) \<Rightarrow>
        andthen (run_option (conn_setup c r True a s)) (\<lambda>(rc, s).
          if rc < 0 then andthen (run_option (delete_conn c s)) (\<lambda>s. Done (False, s)) else setup_all rs as s))"

definition perform_one :: "nat \<Rightarrow> setup_answer \<Rightarrow> bool \<times> easy_info \<Rightarrow> curl \<Rightarrow> (int \<times> curl) option" where
  "perform_one r a p s =
     (case alloc_conn s of (c, s) \<Rightarrow> do {
        (rc, s) \<leftarrow> conn_setup c r False a s;
        (rc, s) \<leftarrow> (if rc < 0 then Some (- 1, s)
          else do { (rc, s) \<leftarrow> conn_perform c (fst p) (snd p) s; Some (if rc < 0 then (- 1, s) else (0, s)) });
        s \<leftarrow> delete_conn c s;
        Some (rc, s) })"

definition perform :: "nat list \<Rightarrow> setup_answer list \<Rightarrow> bool \<times> easy_info \<Rightarrow> multi_answer \<Rightarrow> curl \<Rightarrow> (int \<times> curl) run" where
  "perform reqvec sas p a s =
     (if reqvec = [] then Done (0, s)
      else if length reqvec = 1 then
        (case sas of [] \<Rightarrow> Waits | sa # _ \<Rightarrow> run_option (perform_one (hd reqvec) sa p s))
      else andthen (setup_all reqvec sas s) (\<lambda>(ok, s).
        if \<not> ok then Done (- 1, s)
        else andthen (glob_perform a s) (\<lambda>(rc, s). if rc < 0 then Done (- 1, s) else Done (0, s))))"

text \<open>The variadic \<open>perform\<close>: the requests up to the null pointer that ends the arguments.\<close>

definition va_requests :: "nat \<Rightarrow> nat option list \<Rightarrow> nat list option" where
  "va_requests req ap = (if None \<in> set ap then Some (req # map the (takeWhile (\<lambda>r. r \<noteq> None) ap)) else None)"

text \<open>The callback that collects a body; the length passed on is a \<open>uint32_t\<close>.\<close>

definition write_cb :: "mem \<Rightarrow> u64 \<Rightarrow> u64 \<Rightarrow> IOBuffer \<Rightarrow> (u64 \<times> IOBuffer) option" where
  "write_cb p sz nmemb iobuf = do {
     bs \<leftarrow> rdn p 0 (unat (ucast (sz * nmemb) :: u32));
     iobuf \<leftarrow> read_from_buffer iobuf bs;
     Some (sz * nmemb, iobuf) }"

definition curl_init :: "bool \<Rightarrow> int" where
  "curl_init ok = (if ok then 0 else - 1)"

text \<open>The destructor of \<open>CurlImpl\<close>.\<close>

definition delete_curl :: "curl \<Rightarrow> curl option" where
  "delete_curl s = glob_cleanup s"

section \<open>The transfers a multi handle has\<close>

text \<open>
  The abstract state: the transfers in the order they were added, each a connection, its easy handle
  and its request. Nothing else is alive.
\<close>

type_synonym transfer = "nat \<times> nat \<times> nat"

abbreviation tr_conn :: "transfer \<Rightarrow> nat" where "tr_conn t \<equiv> fst t"
abbreviation tr_easy :: "transfer \<Rightarrow> nat" where "tr_easy t \<equiv> fst (snd t)"
abbreviation tr_req :: "transfer \<Rightarrow> nat" where "tr_req t \<equiv> snd (snd t)"

definition fresh_from :: "nat \<Rightarrow> curl \<Rightarrow> bool" where
  "fresh_from n s \<longleftrightarrow> (\<forall>x \<ge> n. cu_conns s x = None \<and> cu_easies s x = None \<and> x \<notin> set (cu_connvec s) \<and>
     (\<forall>l. cu_multi s = Some l \<longrightarrow> x \<notin> set l))"

definition transfer_ok :: "curl \<Rightarrow> transfer \<Rightarrow> bool" where
  "transfer_ok s t \<longleftrightarrow>
     (\<exists>asc. cu_conns s (tr_conn t) =
       Some \<lparr>ci_easy = Some (tr_easy t), ci_req = Some (tr_req t), ci_glob = True, ci_trace_ascii = asc\<rparr>) \<and>
     Option.bind (cu_easies s (tr_easy t)) private_of = Some (tr_conn t)"

definition tracks :: "curl \<Rightarrow> transfer list \<Rightarrow> bool" where
  "tracks s ts \<longleftrightarrow> cu_connvec s = map tr_conn ts \<and> distinct (map tr_conn ts) \<and> distinct (map tr_easy ts) \<and>
     dom (cu_conns s) = tr_conn ` set ts \<and> dom (cu_easies s) = tr_easy ` set ts \<and>
     (\<forall>t \<in> set ts. transfer_ok s t) \<and>
     (case cu_multi s of None \<Rightarrow> ts = [] | Some l \<Rightarrow> l = map tr_easy ts) \<and> fresh_from (cu_next s) s"

lemma tracks_fresh: "tracks s ts \<Longrightarrow> fresh_from (cu_next s) s"
  by (simp add: tracks_def)

lemma tracks_new_glob: "new_glob True reqs n = Some s \<Longrightarrow> tracks s []"
  by (auto simp: new_glob_def tracks_def fresh_from_def)

lemma tracks_next: "tracks s ts \<Longrightarrow> cu_next s \<le> n \<Longrightarrow> tracks (s\<lparr>cu_next := n\<rparr>) ts"
  using order_trans[of "cu_next s" n] by (auto simp: tracks_def fresh_from_def transfer_ok_def)

lemma tracks_reqs: "tracks (s\<lparr>cu_reqs := m\<rparr>) ts = tracks s ts"
  by (simp add: tracks_def fresh_from_def transfer_ok_def)

lemma tracks_recycle [simp]: "tracks (recycle_request r s) ts = tracks s ts"
  by (simp add: recycle_request_def tracks_reqs split: option.splits)

lemma tracks_next_reqs: "tracks s ts \<Longrightarrow> cu_next s \<le> n \<Longrightarrow> tracks (s\<lparr>cu_next := n, cu_reqs := m\<rparr>) ts"
  using tracks_next tracks_reqs by blast

lemma tracks_multi: "tracks s [] \<Longrightarrow> cu_multi s = None \<or> cu_multi s = Some []"
  by (auto simp: tracks_def split: option.splits)

text \<open>A POST without fields leaves the address 1 as what to send; no other request does.\<close>

definition bad_form :: "request \<Rightarrow> bool" where
  "bad_form req \<longleftrightarrow> rq_type req = POST \<and> rq_post_fields req = None"

text \<open>One of the requests is such a POST.\<close>

definition any_bad :: "nat list \<Rightarrow> curl \<Rightarrow> bool" where
  "any_bad rs s \<longleftrightarrow> (\<exists>r \<in> set rs. bad_form (the (cu_reqs s r)))"

lemma any_bad_take: "any_bad (take n rs) s \<Longrightarrow> any_bad rs s"
  by (auto simp: any_bad_def dest: in_set_takeD)

lemma form_step_given: "(\<And>v b. form_step b (f v) = b) \<Longrightarrow> foldl form_step b (opt_given f v) = b"
  by (simp add: opt_given_def split: option.splits)

lemma form_step_when: "(\<And>b. form_step b x = b) \<Longrightarrow> foldl form_step b (opt_when c x) = b"
  by (simp add: opt_when_def)

lemma form_step_if:
  "foldl form_step b xs = b \<Longrightarrow> foldl form_step b ys = b \<Longrightarrow> foldl form_step b (if c then xs else ys) = b"
  by simp

lemma form_step_agent:
  "foldl form_step b (case ua of None \<Rightarrow> [] | Some ua \<Rightarrow> if ua \<noteq> [] then [USERAGENT ua] else []) = b"
  by (simp split: option.splits)

lemma follows_type_opts:
  "type_opts req ty = Some opts \<Longrightarrow> foldl form_step False opts \<longleftrightarrow> ty = POST \<and> rq_post_fields req = None"
  by (cases "(req, ty)" rule: type_opts.cases; cases "rq_post_fields req")
    (auto simp: form_step_given form_step_when opt_given_def[of POSTFIELDS])

lemma follows_setopts:
  assumes "setopts c req = Some opts" shows "follows_form opts \<longleftrightarrow> bad_form req"
proof -
  obtain t where t: "type_opts req (rq_type req) = Some t" using assms by (auto simp: setopts_def)
  have "follows_form opts = foldl form_step False t"
    using assms by (auto simp: setopts_def t follows_form_def form_step_given form_step_when form_step_if form_step_agent
        split del: if_split)
  then show ?thesis using follows_type_opts[OF t] by (simp add: bad_form_def)
qed

lemma pending_reqs [simp]: "form_pending (s\<lparr>cu_reqs := m\<rparr>) = form_pending s"
  by (simp add: form_pending_def split: option.splits)

lemma pending_next [simp]: "form_pending (s\<lparr>cu_next := n\<rparr>) = form_pending s"
  by (simp add: form_pending_def split: option.splits)

lemma pending_recycle [simp]: "form_pending (recycle_request r s) = form_pending s"
  by (simp add: recycle_request_def split: option.splits)

lemma pending_tracked: "tracks s [] \<Longrightarrow> \<not> form_pending s"
  by (auto simp: form_pending_def dest: tracks_multi)

lemma private_setopts: "setopts c req = Some opts \<Longrightarrow> private_of opts = Some c"
  by (auto simp: setopts_def private_of_def)

subsection \<open>Deleting connections\<close>

lemma delete_tracked:
  assumes "tracks s (t # ts)"
  shows "\<exists>s'. delete_conn (tr_conn t) s = Some s' \<and> tracks s' ts \<and> cu_reqs s' = cu_reqs s \<and> cu_multi s' \<noteq> None"
proof -
  let ?c = "tr_conn t" and ?e = "tr_easy t"
  note T = assms[unfolded tracks_def]
  obtain asc where ci: "cu_conns s ?c = Some \<lparr>ci_easy = Some ?e, ci_req = Some (tr_req t), ci_glob = True, ci_trace_ascii = asc\<rparr>"
    using T by (auto simp: transfer_ok_def)
  obtain l where l: "cu_multi s = Some (?e # map tr_easy ts)" using T by (auto split: option.splits)
  have e: "?e \<in> dom (cu_easies s)" "?e \<notin> set (map tr_easy ts)" "?c \<notin> set (map tr_conn ts)" using T by auto
  have cv: "cu_connvec s = ?c # map tr_conn ts" using T by simp
  let ?s = "s\<lparr>cu_multi := Some (map tr_easy ts), cu_connvec := map tr_conn ts, cu_easies := (cu_easies s)(?e := None),
    cu_conns := (cu_conns s)(?c := None)\<rparr>"
  have d: "delete_conn ?c s = Some ?s"
    using cv ci l e by (simp add: delete_conn_def conn_cleanup_def curl_easy_cleanup_def)
  have "tracks ?s ts"
    unfolding tracks_def
  proof (intro conjI)
    show "\<forall>u \<in> set ts. transfer_ok ?s u"
    proof
      fix u assume u: "u \<in> set ts"
      then have "tr_conn u \<noteq> ?c" "tr_easy u \<noteq> ?e" using e(2,3) by (auto simp: image_iff)
      then show "transfer_ok ?s u" using T u by (simp add: transfer_ok_def)
    qed
    show "dom (cu_conns ?s) = tr_conn ` set ts" "dom (cu_easies ?s) = tr_easy ` set ts" using T e by auto
    show "fresh_from (cu_next ?s) ?s" using T by (auto simp: fresh_from_def)
  qed (use T in auto)
  then show ?thesis using d by auto
qed

lemma delete_all_tracked:
  "tracks s ts \<Longrightarrow> \<exists>s'. delete_all s = Some s' \<and> tracks s' [] \<and> cu_reqs s' = cu_reqs s \<and>
    (cu_multi s' = None \<longleftrightarrow> cu_multi s = None)"
proof (induction ts arbitrary: s)
  case Nil
  then have "delete_all s = Some s" by (subst delete_all.simps) (simp add: tracks_def)
  then show ?case using Nil by blast
next
  case (Cons t ts)
  obtain s1 where s1: "delete_conn (tr_conn t) s = Some s1" "tracks s1 ts" "cu_reqs s1 = cu_reqs s" "cu_multi s1 \<noteq> None"
    using delete_tracked[OF Cons.prems] by blast
  have "delete_all s = delete_all s1"
    using Cons.prems s1(1) by (subst delete_all.simps) (simp add: tracks_def)
  moreover have "cu_multi s \<noteq> None" using Cons.prems by (auto simp: tracks_def split: option.splits)
  ultimately show ?case using Cons.IH[OF s1(2)] s1(3,4) by auto
qed

lemma glob_cleanup_tracked:
  assumes "tracks s ts"
  shows "\<exists>s'. glob_cleanup s = Some s' \<and> tracks s' [] \<and> cu_reqs s' = cu_reqs s \<and> cu_multi s' = None"
proof (cases "cu_multi s = None")
  case True
  then have "ts = []" using assms by (simp add: tracks_def)
  then show ?thesis using True assms by (auto simp: glob_cleanup_def)
next
  case False
  obtain s1 where s1: "delete_all s = Some s1" "tracks s1 []" "cu_reqs s1 = cu_reqs s"
    using delete_all_tracked[OF assms] by blast
  then have "tracks (s1\<lparr>cu_multi := None, cu_connvec := []\<rparr>) []"
    by (auto simp: tracks_def fresh_from_def)
  then show ?thesis using False s1 by (auto simp: glob_cleanup_def)
qed

lemma bail_tracked:
  "tracks s ts \<Longrightarrow> \<exists>s'. bail s = Done (- 1, s') \<and> tracks s' [] \<and> cu_reqs s' = cu_reqs s \<and> cu_multi s' = None"
  using glob_cleanup_tracked[of s ts] by (auto simp: bail_def run_option_def)

subsection \<open>Setting connections up\<close>

text \<open>A set-up that fails, and the deletion of its connection, leave nothing behind.\<close>

definition setup_succeeds :: "nat \<Rightarrow> request \<Rightarrow> setup_answer \<Rightarrow> curl \<Rightarrow> bool" where
  "setup_succeeds c req a s \<longleftrightarrow> sa_easy a \<and> setopts c req \<noteq> None \<and> cu_multi s \<noteq> None \<and> sa_add a = CURLM_OK"

lemma forget_conn [simp]:
  "cu_conns s c = None \<Longrightarrow> s\<lparr>cu_next := n, cu_conns := (cu_conns s)(c := None)\<rparr> = s\<lparr>cu_next := n\<rparr>"
  "cu_conns s c = None \<Longrightarrow> cu_easies s e = None \<Longrightarrow>
   s\<lparr>cu_next := n, cu_easies := (cu_easies s)(e := None), cu_conns := (cu_conns s)(c := None)\<rparr> = s\<lparr>cu_next := n\<rparr>"
  "cu_conns s c = None \<Longrightarrow> cu_easies s e = None \<Longrightarrow>
   s\<lparr>cu_next := n, cu_reqs := m, cu_easies := (cu_easies s)(e := None), cu_conns := (cu_conns s)(c := None)\<rparr> =
   s\<lparr>cu_next := n, cu_reqs := m\<rparr>"
  by (rule curl.equality; auto simp: fun_upd_idem)+

lemma setup_fails:
  assumes fresh: "fresh_from (cu_next s) s" and req: "cu_reqs s r = Some req"
    and a: "alloc_conn s = (c, s1)" and no: "\<not> setup_succeeds c req a s"
  shows "\<exists>s2 n. conn_setup c r True a s1 = Some (- 1, s2) \<and> delete_conn c s2 = Some (s\<lparr>cu_next := n\<rparr>) \<and> cu_next s \<le> n"
proof -
  have c: "c = cu_next s" "s1 = s\<lparr>cu_next := cu_next s + 1, cu_conns := (cu_conns s)(c \<mapsto> new_conn)\<rparr>"
    using a by (auto simp: alloc_conn_def)
  have f: "cu_conns s c = None" "cu_easies s (c + 1) = None" "c \<notin> set (cu_connvec s)" "\<And>l. cu_multi s = Some l \<Longrightarrow> c + 1 \<notin> set l"
    using fresh by (auto simp: fresh_from_def c(1))
  show ?thesis
  proof (cases "sa_easy a")
    case False
    then show ?thesis using req f c
      by (auto simp: conn_setup_def failed_setup_def conn_cleanup_def delete_conn_def new_conn_def Let_def
          intro!: exI[of _ "cu_next s + 1"])
  next
    case True
    then show ?thesis using req f no c
      by (auto simp: conn_setup_def failed_setup_def conn_cleanup_def delete_conn_def new_conn_def Let_def
          curl_easy_cleanup_def setup_succeeds_def fun_upd_idem_iff split: option.splits
          intro!: exI[of _ "cu_next s + 2"])
  qed
qed

lemma setup_adds:
  assumes T: "tracks s ts" and req: "cu_reqs s r = Some req"
    and a: "alloc_conn s = (c, s1)" and yes: "setup_succeeds c req a s"
  shows "\<exists>s2. conn_setup c r True a s1 = Some (0, s2) \<and> tracks s2 (ts @ [(c, c + 1, r)]) \<and> cu_reqs s2 = cu_reqs s \<and>
    cu_multi s2 \<noteq> None \<and> cu_next s2 = c + 2 \<and> (form_pending s2 \<longleftrightarrow> form_pending s \<or> bad_form req)"
proof -
  have c: "c = cu_next s" "s1 = s\<lparr>cu_next := c + 1, cu_conns := (cu_conns s)(c \<mapsto> new_conn)\<rparr>"
    using a by (auto simp: alloc_conn_def)
  obtain opts l where o: "sa_easy a" "setopts c req = Some opts" "cu_multi s = Some l" "sa_add a = CURLM_OK"
    using yes by (auto simp: setup_succeeds_def)
  have D: "tr_conn ` set ts = dom (cu_conns s)" "tr_easy ` set ts = dom (cu_easies s)" using T by (simp_all add: tracks_def)
  have f: "x \<notin> tr_conn ` set ts" "x \<notin> tr_easy ` set ts" if "x \<ge> c" for x
    unfolding D using tracks_fresh[OF T] that by (simp_all add: fresh_from_def c(1) domIff)
  let ?ci = "\<lparr>ci_easy = Some (c + 1), ci_req = Some r, ci_glob = True, ci_trace_ascii = rq_trace_ascii req\<rparr>"
  let ?s = "s\<lparr>cu_next := c + 2, cu_easies := (cu_easies s)(c + 1 \<mapsto> opts), cu_conns := (cu_conns s)(c \<mapsto> ?ci),
    cu_multi := Some (l @ [c + 1]), cu_connvec := cu_connvec s @ [c]\<rparr>"
  have d: "conn_setup c r True a s1 = Some (0, ?s)"
    using c req o by (simp add: conn_setup_def new_conn_def Let_def)
  have "tracks ?s (ts @ [(c, c + 1, r)])"
    unfolding tracks_def
  proof (intro conjI)
    show "\<forall>t \<in> set (ts @ [(c, c + 1, r)]). transfer_ok ?s t"
    proof
      fix t assume t: "t \<in> set (ts @ [(c, c + 1, r)])"
      show "transfer_ok ?s t"
      proof (cases "t \<in> set ts")
        case True
        then have "tr_conn t \<noteq> c" "tr_easy t \<noteq> c + 1" using f[of c] f[of "c + 1"] by (auto simp: image_iff)
        then show ?thesis using T True by (simp add: tracks_def transfer_ok_def)
      next
        case False
        then show ?thesis using t private_setopts[OF o(2)] by (simp add: transfer_ok_def)
      qed
    qed
    show "dom (cu_conns ?s) = tr_conn ` set (ts @ [(c, c + 1, r)])" "dom (cu_easies ?s) = tr_easy ` set (ts @ [(c, c + 1, r)])"
      using T by (simp_all add: tracks_def insert_commute)
    show "fresh_from (cu_next ?s) ?s"
      unfolding fresh_from_def
    proof (intro allI impI)
      fix x assume "cu_next ?s \<le> x"
      then have x: "cu_next s \<le> x" "x \<noteq> c" "x \<noteq> c + 1" using c(1) by simp_all
      show "cu_conns ?s x = None \<and> cu_easies ?s x = None \<and> x \<notin> set (cu_connvec ?s) \<and>
          (\<forall>k. cu_multi ?s = Some k \<longrightarrow> x \<notin> set k)"
        using tracks_fresh[OF T] x o(3) by (simp add: fresh_from_def)
    qed
    show "case cu_multi ?s of None \<Rightarrow> ts @ [(c, c + 1, r)] = [] | Some l \<Rightarrow> l = map tr_easy (ts @ [(c, c + 1, r)])"
      using T o(3) by (simp add: tracks_def)
    show "distinct (map tr_conn (ts @ [(c, c + 1, r)]))" "distinct (map tr_easy (ts @ [(c, c + 1, r)]))"
      using T f[of c] f[of "c + 1"] by (simp_all add: tracks_def)
  qed (use T in \<open>simp add: tracks_def\<close>)
  moreover have "form_pending ?s \<longleftrightarrow> form_pending s \<or> bad_form req"
  proof -
    have "c + 1 \<notin> set l" using tracks_fresh[OF T] o(3) by (simp add: fresh_from_def c(1))
    then show ?thesis using o(3) follows_setopts[OF o(2)]
      by (auto simp: form_pending_def list_ex_iff)
  qed
  ultimately show ?thesis using d by auto
qed

lemma setup_all_tracks:
  assumes "tracks s ts" "set rs \<subseteq> dom (cu_reqs s)"
  shows "setup_all rs as s = Waits \<or> (\<exists>ok s' new. setup_all rs as s = Done (ok, s') \<and> tracks s' (ts @ new) \<and>
    map tr_req new = take (length new) rs \<and> (ok \<longleftrightarrow> length new = length rs) \<and> cu_reqs s' = cu_reqs s \<and>
    (cu_multi s = None \<longrightarrow> cu_multi s' = None \<and> new = []) \<and>
    (form_pending s' \<longleftrightarrow> form_pending s \<or> any_bad (map tr_req new) s))"
  using assms
proof (induction rs as s arbitrary: ts rule: setup_all.induct)
  case (1 as s)
  then show ?case by (intro disjI2 exI[of _ True] exI[of _ s] exI[of _ "[]"]) (simp add: any_bad_def)
next
  case (3 r rs a as s)
  obtain req where req: "cu_reqs s r = Some req" using 3(3) by auto
  obtain c s1 where a: "alloc_conn s = (c, s1)" by (cases "alloc_conn s")
  show ?case
  proof (cases "setup_succeeds c req a s")
    case True
    obtain s2 where s2: "conn_setup c r True a s1 = Some (0, s2)" "tracks s2 (ts @ [(c, c + 1, r)])" "cu_reqs s2 = cu_reqs s"
      and form: "form_pending s2 \<longleftrightarrow> form_pending s \<or> bad_form req"
      using setup_adds[OF 3(2) req a True] by blast
    have step: "setup_all (r # rs) (a # as) s = setup_all rs as s2" using a s2(1) by (simp add: run_option_def)
    have multi: "cu_multi s \<noteq> None" using True by (simp add: setup_succeeds_def)
    have "set rs \<subseteq> dom (cu_reqs s2)" using 3(3) s2(3) by simp
    moreover have "run_option (conn_setup c r True a s1) = Done (0, s2)" using s2(1) by (simp add: run_option_def)
    ultimately consider "setup_all rs as s2 = Waits" |
      ok s' new where "setup_all rs as s2 = Done (ok, s')" "tracks s' ((ts @ [(c, c + 1, r)]) @ new)"
        "map tr_req new = take (length new) rs" "ok \<longleftrightarrow> length new = length rs" "cu_reqs s' = cu_reqs s2"
        "form_pending s' \<longleftrightarrow> form_pending s2 \<or> any_bad (map tr_req new) s2"
      using 3(1)[OF a[symmetric] _ refl _ s2(2)] by fastforce
    then show ?thesis
    proof cases
      case 1
      then show ?thesis unfolding step by simp
    next
      case 2
      then show ?thesis unfolding step using multi s2(3) form req
        by (intro disjI2 exI[of _ ok] exI[of _ s'] exI[of _ "(c, c + 1, r) # new"]) (auto simp: any_bad_def)
    qed
  next
    case False
    obtain s2 n where s2: "conn_setup c r True a s1 = Some (- 1, s2)" "delete_conn c s2 = Some (s\<lparr>cu_next := n\<rparr>)" "cu_next s \<le> n"
      using setup_fails[OF tracks_fresh[OF 3(2)] req a False] by blast
    have "setup_all (r # rs) (a # as) s = Done (False, s\<lparr>cu_next := n\<rparr>)"
      using a s2(1,2) by (simp add: run_option_def)
    then show ?thesis using tracks_next[OF 3(2) s2(3)]
      by (intro disjI2 exI[of _ False] exI[of _ "s\<lparr>cu_next := n\<rparr>"] exI[of _ "[]"]) (simp add: any_bad_def)
  qed
qed simp

subsection \<open>The messages\<close>

text \<open>The transfers the messages report, in their order; and the requests filled for them.\<close>

definition of_easy :: "transfer list \<Rightarrow> nat \<Rightarrow> nat option" where
  "of_easy ts e = map_of (map (\<lambda>t. (tr_easy t, tr_req t)) ts) e"

fun reported :: "(bool \<times> nat) list \<Rightarrow> transfer list \<Rightarrow> (nat \<times> nat) list" where
  "reported [] ts = []"
| "reported ((is_done, e) # ms) ts =
     (case (if is_done then of_easy ts e else None) of None \<Rightarrow> reported ms ts | Some r \<Rightarrow> (r, e) # reported ms ts)"

fun fill_all :: "(nat \<Rightarrow> easy_info) \<Rightarrow> (nat \<times> nat) list \<Rightarrow> (nat \<rightharpoonup> request) \<Rightarrow> (nat \<rightharpoonup> request) option" where
  "fill_all info [] m = Some m"
| "fill_all info ((r, e) # l) m = (case m r of None \<Rightarrow> None | Some req \<Rightarrow> fill_all info l (m(r \<mapsto> filled (info e) req)))"

lemma find_conn_tracked:
  assumes "\<forall>t \<in> set us. transfer_ok s t"
  shows "find_conn s e (map tr_conn us) = Some (map_of (map (\<lambda>t. (tr_easy t, tr_conn t)) us) e)"
  using assms by (induction us) (auto simp: transfer_ok_def bind_eq_Some_conv)

lemma map_of_found:
  assumes "distinct (map tr_easy ts)" "t \<in> set ts"
  shows "map_of (map (\<lambda>t. (tr_easy t, f t)) ts) (tr_easy t) = Some (f t)"
  using assms by (intro map_of_is_SomeI) (auto simp: comp_def)

lemma read_msgs_tracked:
  assumes "tracks s ts"
  shows "read_msgs ms info n s =
    map_option (\<lambda>m. (n - int (length (reported ms ts)), s\<lparr>cu_reqs := m\<rparr>)) (fill_all info (reported ms ts) (cu_reqs s))"
  using assms
proof (induction ms info n s rule: read_msgs.induct)
  case (2 is_done e ms info n s)
  note T = 2(4)[unfolded tracks_def]
  show ?case
  proof (cases "is_done \<and> e \<in> tr_easy ` set ts")
    case True
    then obtain t where t: "t \<in> set ts" "e = tr_easy t" by auto
    have f: "find_conn s e (cu_connvec s) = Some (Some (tr_conn t))"
      using find_conn_tracked[of ts s e] map_of_found[of ts t tr_conn] T t by simp
    have r: "of_easy ts e = Some (tr_req t)" using map_of_found[of ts t tr_req] T t by (simp add: of_easy_def)
    obtain asc where ci: "cu_conns s (tr_conn t) =
        Some \<lparr>ci_easy = Some (tr_easy t), ci_req = Some (tr_req t), ci_glob = True, ci_trace_ascii = asc\<rparr>"
      using T t(1) by (auto simp: transfer_ok_def)
    show ?thesis
    proof (cases "cu_reqs s (tr_req t)")
      case None
      then show ?thesis using True f ci r by (simp add: store_info_def)
    next
      case (Some req)
      let ?s = "s\<lparr>cu_reqs := (cu_reqs s)(tr_req t \<mapsto> filled (info e) req)\<rparr>"
      have st: "store_info (Some (tr_req t)) (info e) s = Some ?s" using Some by (simp add: store_info_def)
      have "tracks ?s ts" using 2(4) by (simp add: tracks_reqs)
      then have IH: "read_msgs ms info (n - 1) ?s = map_option (\<lambda>m. (n - 1 - int (length (reported ms ts)), ?s\<lparr>cu_reqs := m\<rparr>))
          (fill_all info (reported ms ts) (cu_reqs ?s))"
        using 2(3)[OF _ f refl ci, of ?s] st True unfolding conn_info.select_convs by blast
      have step: "read_msgs ((is_done, e) # ms) info n s = read_msgs ms info (n - 1) ?s" using True f ci st by simp
      have spec: "reported ((is_done, e) # ms) ts = (tr_req t, e) # reported ms ts" using True r by simp
      show ?thesis unfolding step spec IH using Some by (simp add: algebra_simps)
    qed
  next
    case False
    have "map_of (map (\<lambda>t. (tr_easy t, f t)) ts) e = None" if "is_done" for f :: "transfer \<Rightarrow> nat"
      using False that by (simp add: map_of_eq_None_iff image_comp comp_def)
    from this[of tr_req] have "of_easy ts e = None" if "is_done" using that by (simp add: of_easy_def)
    moreover note \<open>\<And>f. is_done \<Longrightarrow> map_of (map (\<lambda>t. (tr_easy t, f t)) ts) e = None\<close>
    ultimately show ?thesis using False 2(1)[OF _ 2(4)] 2(2) 2(4) find_conn_tracked[of ts s e] T
      by (cases is_done) simp_all
  qed
qed simp

lemma fill_all_total:
  "fst ` set l \<subseteq> dom m \<Longrightarrow> \<exists>m'. fill_all info l m = Some m' \<and> dom m' = dom m"
proof (induction info l m rule: fill_all.induct)
  case (2 info r e l m)
  then obtain req where req: "m r = Some req" by auto
  then have d: "dom (m(r \<mapsto> filled (info e) req)) = dom m" by auto
  show ?case using 2(1)[OF req] 2(2) req unfolding d by (simp add: fun_upd_def)
qed simp

lemma reported_reqs: "fst ` set (reported ms ts) \<subseteq> tr_req ` set ts"
proof (induction ms ts rule: reported.induct)
  case (2 is_done e ms ts)
  have "r \<in> tr_req ` set ts" if "of_easy ts e = Some r" for r
    using that by (force simp: of_easy_def dest: map_of_SomeD)
  then show ?case using 2 by (auto split: option.splits if_splits)
qed simp

lemma multi_perform_safe: "multi_perform as = Waits \<or> (\<exists>x. multi_perform as = Done x)"
  by (induction as rule: multi_perform.induct) auto

lemma rounds_safe: "rounds as = Waits \<or> rounds as = Done True \<or> rounds as = Done False"
proof (induction as)
  case (Cons a as)
  consider "multi_perform (ra_perform a) = Waits" | mc k where "multi_perform (ra_perform a) = Done (mc, k)"
    using multi_perform_safe[of "ra_perform a"] by force
  then show ?case by cases (use Cons in \<open>simp_all add: Let_def\<close>)
qed simp

lemma glob_perform_tracked:
  assumes T: "tracks s ts" and reqs: "tr_req ` set ts \<subseteq> dom (cu_reqs s)" and form: "\<not> form_pending s"
  shows "glob_perform a s = Waits \<or> (\<exists>rc s' m. glob_perform a s = Done (rc, s') \<and> tracks s' [] \<and>
    dom (cu_reqs s') = dom (cu_reqs s) \<and>
    (rc = 0 \<and> length (reported (ma_msgs a) ts) = length ts \<and>
       fill_all (ma_info a) (reported (ma_msgs a) ts) (cu_reqs s) = Some (cu_reqs s') \<and> (cu_multi s' = None \<longleftrightarrow> cu_multi s = None) \<or>
     rc = - 1 \<and> cu_multi s' = None))"
proof -
  obtain b where b: "bail s = Done (- 1, b)" "tracks b []" "cu_reqs b = cu_reqs s" "cu_multi b = None"
    using bail_tracked[OF T] by blast
  consider (wait) "multi_perform (ma_first a) = Waits" | (first) mc k where "multi_perform (ma_first a) = Done (mc, k)"
    using multi_perform_safe[of "ma_first a"] by force
  then show ?thesis
  proof cases
    case wait
    then show ?thesis by (simp add: glob_perform_def form)
  next
    case first
    let ?l = "reported (ma_msgs a) ts"
    obtain m where m: "fill_all (ma_info a) ?l (cu_reqs s) = Some m" "dom m = dom (cu_reqs s)"
      using fill_all_total[OF subset_trans[OF reported_reqs reqs]] by blast
    let ?s = "s\<lparr>cu_reqs := m\<rparr>" and ?n = "int (length (cu_connvec s)) - int (length ?l)"
    have msgs: "read_msgs (ma_msgs a) (ma_info a) (int (length (cu_connvec s))) s = Some (?n, ?s)"
      using read_msgs_tracked[OF T] m(1) by simp
    have T': "tracks ?s ts" using T by (simp add: tracks_reqs)
    obtain b' where b': "bail ?s = Done (- 1, b')" "tracks b' []" "cu_reqs b' = m" "cu_multi b' = None"
      using bail_tracked[OF T'] by auto
    obtain d where d: "delete_all ?s = Some d" "tracks d []" "cu_reqs d = m" "cu_multi d = None \<longleftrightarrow> cu_multi s = None"
      using delete_all_tracked[OF T'] by auto
    have len: "length (cu_connvec s) = length ts" using T by (simp add: tracks_def)
    show ?thesis
    proof (cases "mc = CURLM_OK")
      case False
      then show ?thesis using first b by (simp add: glob_perform_def form)
    next
      case True
      have step: "glob_perform a s = andthen (rounds (ma_rounds a)) (\<lambda>ok. if \<not> ok then bail s
          else if ?n = 0 then andthen (run_option (delete_all ?s)) (\<lambda>s. Done (0, s)) else bail ?s)"
        using first True msgs by (simp add: glob_perform_def form run_option_def cong: if_cong)
      consider "rounds (ma_rounds a) = Waits" | "rounds (ma_rounds a) = Done False" |
        "rounds (ma_rounds a) = Done True" "?n = 0" | "rounds (ma_rounds a) = Done True" "?n \<noteq> 0"
        using rounds_safe[of "ma_rounds a"] by blast
      then show ?thesis
        unfolding step by cases (use b b' d m len in \<open>simp_all add: run_option_def\<close>)
    qed
  qed
qed

lemma perform_one_safe:
  assumes fresh: "fresh_from (cu_next s) s" and req: "cu_reqs s r = Some req"
  shows "\<exists>n. cu_next s \<le> n \<and> perform_one r a p s = (if sa_easy a \<and> bad_form req then None else Some (if sa_easy a \<and> setopts (cu_next s) req \<noteq> None \<and> fst p
    then (0, s\<lparr>cu_next := n, cu_reqs := (cu_reqs s)(r \<mapsto> filled (snd p) req)\<rparr>) else (- 1, s\<lparr>cu_next := n\<rparr>)))"
proof -
  have f: "cu_conns s (cu_next s) = None" "cu_easies s (cu_next s + 1) = None"
    "\<And>l. cu_multi s = Some l \<Longrightarrow> cu_next s + 1 \<notin> set l"
    using fresh by (auto simp: fresh_from_def)
  have bad: "setopts c req = None \<Longrightarrow> \<not> bad_form req" for c by (auto simp: setopts_def bad_form_def)
  show ?thesis
  proof (cases "sa_easy a")
    case False
    then show ?thesis using req f
      by (intro exI[of _ "cu_next s + 1"]) (simp add: perform_one_def alloc_conn_def conn_setup_def failed_setup_def
          conn_cleanup_def delete_conn_def new_conn_def Let_def)
  next
    case True
    then show ?thesis using req f
      by (intro exI[of _ "cu_next s + 2"]) (auto simp: bad follows_setopts perform_one_def alloc_conn_def conn_setup_def failed_setup_def
          conn_cleanup_def delete_conn_def new_conn_def Let_def curl_easy_cleanup_def conn_perform_def store_info_def
          split: option.splits)
  qed
qed

subsection \<open>What was reported\<close>

lemma reported_sound: "(r, e) \<in> set (reported ms ts) \<Longrightarrow> of_easy ts e = Some r \<and> (True, e) \<in> set ms"
  by (induction ms ts rule: reported.induct) (auto split: option.splits if_splits)

lemma reported_complete: "(True, e) \<in> set ms \<Longrightarrow> of_easy ts e = Some r \<Longrightarrow> (r, e) \<in> set (reported ms ts)"
  by (induction ms ts rule: reported.induct) (auto split: option.splits)

lemma reported_distinct:
  "distinct (map snd (filter fst ms)) \<Longrightarrow> distinct (map snd (reported ms ts))"
proof (induction ms ts rule: reported.induct)
  case (2 is_done e ms ts)
  have "e \<notin> snd ` set (reported ms ts)" if is_done
    using 2(3) that reported_sound[of _ e ms ts] by force
  then show ?case using 2 by (cases is_done) (auto split: option.splits)
qed simp

lemma of_easy_transfer: "of_easy ts e = Some r \<Longrightarrow> \<exists>t \<in> set ts. tr_easy t = e \<and> tr_req t = r"
  by (force simp: of_easy_def dest: map_of_SomeD)

lemma reported_all:
  assumes "length (reported ms ts) = length ts" "distinct (map snd (filter fst ms))" "distinct (map tr_easy ts)"
  shows "set (map fst (reported ms ts)) = set (map tr_req ts)"
proof -
  let ?l = "reported ms ts"
  have "set (map snd ?l) \<subseteq> set (map tr_easy ts)"
    using reported_sound of_easy_transfer by (fastforce simp: image_iff)
  moreover have "card (set (map snd ?l)) = card (set (map tr_easy ts))"
    using assms reported_distinct[OF assms(2), of ts] by (simp only: distinct_card length_map)
  ultimately have easies: "set (map snd ?l) = set (map tr_easy ts)" by (meson List.finite_set card_subset_eq)
  have "tr_req t \<in> set (map fst ?l)" if t: "t \<in> set ts" for t
  proof -
    obtain r where r: "(r, tr_easy t) \<in> set ?l" using easies t by (force simp: image_iff)
    have "of_easy ts (tr_easy t) = Some (tr_req t)" using map_of_found[OF assms(3) t, of tr_req] by (simp add: of_easy_def)
    then show ?thesis using reported_sound[OF r] r by (force simp: image_iff)
  qed
  then show ?thesis using reported_reqs[of ms ts] by auto
qed

lemma fill_all_other: "fill_all info l m = Some m' \<Longrightarrow> r \<notin> fst ` set l \<Longrightarrow> m' r = m r"
  by (induction info l m rule: fill_all.induct) (auto split: option.splits)

lemma fill_all_at:
  "fill_all info l m = Some m' \<Longrightarrow> distinct (map fst l) \<Longrightarrow> (r, e) \<in> set l \<Longrightarrow>
   m' r = Some (filled (info e) (the (m r)))"
proof (induction info l m rule: fill_all.induct)
  case (2 info r' e' l m)
  then obtain req where req: "m r' = Some req" "fill_all info l (m(r' \<mapsto> filled (info e') req)) = Some m'"
    by (auto split: option.splits)
  show ?case
  proof (cases "r = r'")
    case True
    then have "e = e'" "r \<notin> fst ` set l" using 2(3,4) by (auto simp: image_iff)
    then show ?thesis using fill_all_other[OF req(2)] req(1) True by simp
  next
    case False
    then show ?thesis using 2(1)[OF req] 2(3,4) by simp
  qed
qed simp

lemma fill_all_dead: "r \<in> fst ` set l \<Longrightarrow> m r = None \<Longrightarrow> fill_all info l m = None"
proof (induction info l m rule: fill_all.induct)
  case (2 info r' e l m)
  then show ?case
  proof (cases "m r'")
    case (Some req)
    then have "r \<noteq> r'" using 2(3) by auto
    then have "r \<in> fst ` set l" "(m(r' \<mapsto> filled (info e) req)) r = None" using 2(2,3) by auto
    then show ?thesis using 2(1)[OF Some] Some by (simp add: fun_upd_def)
  qed simp
qed simp

section \<open>Properties\<close>

lemma perform_several:
  "2 \<le> length rs \<Longrightarrow> perform rs sas p a s = andthen (setup_all rs sas s) (\<lambda>(ok, s).
     if \<not> ok then Done (- 1, s) else andthen (glob_perform a s) (\<lambda>(rc, s). if rc < 0 then Done (- 1, s) else Done (0, s)))"
  by (auto simp: perform_def)

text \<open>The call gets as far as a transfer that follows the address 1.\<close>

fun sends_form :: "nat list \<Rightarrow> setup_answer list \<Rightarrow> curl \<Rightarrow> bool" where
  "sends_form [r] sas s = (sas \<noteq> [] \<and> sa_easy (hd sas) \<and> any_bad [r] s)"
| "sends_form rs sas s = (rs \<noteq> [] \<and> (\<exists>s1. setup_all rs sas s = Done (True, s1)) \<and> (form_pending s \<or> any_bad rs s))"

lemma sends_form_several:
  "2 \<le> length rs \<Longrightarrow> sends_form rs sas s \<longleftrightarrow>
   (\<exists>s1. setup_all rs sas s = Done (True, s1)) \<and> (form_pending s \<or> any_bad rs s)"
  by (cases rs; cases "tl rs") auto

lemma perform_set_up:
  assumes T: "tracks s1 (ts @ new)" and up: "setup_all rs sas s = Done (True, s1)" and new: "map tr_req new = rs"
    and same: "cu_reqs s1 = cu_reqs s" and reqs: "set rs \<union> tr_req ` set ts \<subseteq> dom (cu_reqs s)" and n: "2 \<le> length rs"
    and form: "form_pending s1 \<longleftrightarrow> form_pending s \<or> any_bad rs s"
  obtains "perform rs sas p a s = Waits" "\<not> sends_form rs sas s"
  | "perform rs sas p a s = Undefined" "sends_form rs sas s"
  | rc s' where "perform rs sas p a s = Done (rc, s')" "glob_perform a s1 = Done (rc, s')" "tracks s' []"
      "dom (cu_reqs s') = dom (cu_reqs s)"
      "rc = 0 \<and> length (reported (ma_msgs a) (ts @ new)) = length (ts @ new) \<and> cu_multi s' \<noteq> None \<and>
        fill_all (ma_info a) (reported (ma_msgs a) (ts @ new)) (cu_reqs s) = Some (cu_reqs s') \<or> rc = - 1 \<and> cu_multi s' = None"
      "\<not> sends_form rs sas s"
proof -
  have several: "perform rs sas p a s = andthen (glob_perform a s1) (\<lambda>(rc, s). if rc < 0 then Done (- 1, s) else Done (0, s))"
    "sends_form rs sas s \<longleftrightarrow> form_pending s1"
    using up form by (simp_all add: perform_several[OF n] sends_form_several[OF n])
  have live: "tr_req ` set (ts @ new) \<subseteq> dom (cu_reqs s1)"
    using reqs same unfolding new[symmetric] by (simp only: set_append set_map image_Un Un_subset_iff)
  have "new \<noteq> []" using new n by auto
  then have multi: "cu_multi s1 \<noteq> None" using T by (auto simp: tracks_def split: option.splits)
  show thesis
  proof (cases "form_pending s1")
    case True
    then show thesis using that(2) several by (simp add: glob_perform_def)
  next
    case False
    note G = glob_perform_tracked[OF T live False, of a]
    show thesis
    proof (cases "glob_perform a s1 = Waits")
      case True
      then show thesis using that(1) several False by simp
    next
      case waits: False
      then obtain rc s' where "glob_perform a s1 = Done (rc, s')" "tracks s' []" "dom (cu_reqs s') = dom (cu_reqs s)"
        "rc = 0 \<and> length (reported (ma_msgs a) (ts @ new)) = length (ts @ new) \<and> cu_multi s' \<noteq> None \<and>
          fill_all (ma_info a) (reported (ma_msgs a) (ts @ new)) (cu_reqs s) = Some (cu_reqs s') \<or> rc = - 1 \<and> cu_multi s' = None"
        using G multi same by auto
      then show thesis using that(3)[of rc s'] several False by auto
    qed
  qed
qed

lemma perform_several_tracked:
  assumes T: "tracks s ts" and reqs: "set rs \<union> tr_req ` set ts \<subseteq> dom (cu_reqs s)" and n: "2 \<le> length rs"
  obtains "perform rs sas p a s = Waits" "\<not> sends_form rs sas s"
  | "perform rs sas p a s = Undefined" "sends_form rs sas s"
  | s' new where "perform rs sas p a s = Done (- 1, s')" "setup_all rs sas s = Done (False, s')" "tracks s' (ts @ new)"
      "map tr_req new = take (length new) rs" "length new < length rs" "cu_reqs s' = cu_reqs s"
      "cu_multi s = None \<Longrightarrow> cu_multi s' = None \<and> new = []" "\<not> sends_form rs sas s"
      "form_pending s' \<Longrightarrow> form_pending s \<or> any_bad rs s"
  | s1 rc s' new where "perform rs sas p a s = Done (rc, s')" "setup_all rs sas s = Done (True, s1)" "tracks s1 (ts @ new)"
      "map tr_req new = rs" "glob_perform a s1 = Done (rc, s')" "tracks s' []" "dom (cu_reqs s') = dom (cu_reqs s)"
      "rc = 0 \<and> length (reported (ma_msgs a) (ts @ new)) = length (ts @ new) \<and> cu_multi s' \<noteq> None \<and>
        fill_all (ma_info a) (reported (ma_msgs a) (ts @ new)) (cu_reqs s) = Some (cu_reqs s') \<or> rc = - 1 \<and> cu_multi s' = None"
      "\<not> sends_form rs sas s"
proof -
  have dom: "set rs \<subseteq> dom (cu_reqs s)" using reqs by simp
  consider (waits) "setup_all rs sas s = Waits" |
    (set_up) ok s1 new where "setup_all rs sas s = Done (ok, s1)" "tracks s1 (ts @ new)"
      "map tr_req new = take (length new) rs" "ok \<longleftrightarrow> length new = length rs" "cu_reqs s1 = cu_reqs s"
      "cu_multi s = None \<longrightarrow> cu_multi s1 = None \<and> new = []"
      "form_pending s1 \<longleftrightarrow> form_pending s \<or> any_bad (map tr_req new) s"
    using setup_all_tracks[OF T dom, of sas] by (elim disjE exE conjE) assumption+
  then show thesis
  proof cases
    case waits
    then show thesis using that(1) n by (simp add: perform_several sends_form_several)
  next
    case set_up
    note several = perform_several[OF n] sends_form_several[OF n]
    show thesis
    proof (cases ok)
      case False
      have "length new \<le> length rs" using arg_cong[OF set_up(3), of length] by simp
      moreover have "form_pending s1 \<Longrightarrow> form_pending s \<or> any_bad rs s"
        using set_up(3,7) any_bad_take by metis
      ultimately show thesis using that(3)[of s1 new] False set_up by (simp add: several)
    next
      case True
      then have new: "map tr_req new = rs" using set_up(3,4) by simp
      have up: "setup_all rs sas s = Done (True, s1)" "form_pending s1 \<longleftrightarrow> form_pending s \<or> any_bad rs s"
        using set_up(1,7) True new by simp_all
      show thesis
        by (rule perform_set_up[OF set_up(2) up(1) new set_up(5) reqs n up(2), of p a])
          (rule that(1) that(2) that(4)[OF _ up(1) set_up(2) new]; assumption)+
    qed
  qed
qed

lemma perform_few_tracked:
  assumes "tracks s ts" "set rs \<subseteq> dom (cu_reqs s)" "length rs < 2"
  shows "if sends_form rs sas s then perform rs sas p a s = Undefined else perform rs sas p a s = Waits \<or> (\<exists>rc s'. perform rs sas p a s = Done (rc, s') \<and> (rc = 0 \<or> rc = - 1) \<and>
    dom (cu_reqs s') = dom (cu_reqs s) \<and> tracks s' ts \<and>
    form_pending s' = form_pending s)"
proof -
  consider "rs = []" | r where "rs = [r]" "sas = []" | r sa as where "rs = [r]" "sas = sa # as"
    using assms(3) by (cases rs; cases "tl rs"; cases sas) auto
  then show ?thesis
  proof cases
    case 3
    then obtain req where req: "cu_reqs s r = Some req" using assms(2) by auto
    obtain n where n: "cu_next s \<le> n" "perform_one r sa p s = (if sa_easy sa \<and> bad_form req then None else Some (if sa_easy sa \<and> setopts (cu_next s) req \<noteq> None \<and> fst p
        then (0, s\<lparr>cu_next := n, cu_reqs := (cu_reqs s)(r \<mapsto> filled (snd p) req)\<rparr>) else (- 1, s\<lparr>cu_next := n\<rparr>)))"
      using perform_one_safe[OF tracks_fresh[OF assms(1)] req] by blast
    then show ?thesis using 3 req tracks_next[OF assms(1) n(1)] tracks_next_reqs[OF assms(1) n(1)]
      by (auto simp: perform_def run_option_def any_bad_def insert_absorb domI)
  qed (use assms(1) in \<open>simp_all add: perform_def\<close>)
qed

text \<open>
  C15: curl_keeps_books. Whatever libcurl answers, \<open>perform\<close> on requests that are alive
  does something undefined in one case, and then always: all its set-ups succeed and a POST without
  fields, whose easy handle libcurl was given the address 1 as the form of, is among the transfers then
  performed. Else it waits or returns 0 or -1, no easy handle is freed twice or while it is added to the
  multi handle, and what is alive afterwards is exactly what the multi handle tracks: nothing, or (a
  single request, or none) what it tracked before, or (a set-up that failed, with -1) that and the
  requests before the failing one, and no new form is pending unless a request of the call was such a
  POST. The destructor then frees everything.
\<close>

theorem curl_keeps_books:
  assumes "tracks s ts" "set rs \<union> tr_req ` set ts \<subseteq> dom (cu_reqs s)"
  shows "if sends_form rs sas s then perform rs sas p a s = Undefined
    else perform rs sas p a s = Waits \<or> (\<exists>rc s' ts' s''. perform rs sas p a s = Done (rc, s') \<and> (rc = 0 \<or> rc = - 1) \<and>
      dom (cu_reqs s') = dom (cu_reqs s) \<and> tracks s' ts' \<and>
      (ts' = [] \<or> length rs < 2 \<and> ts' = ts \<or>
       rc = - 1 \<and> (\<exists>k < length rs. map tr_req ts' = map tr_req ts @ take k rs)) \<and>
      (form_pending s' \<longrightarrow> form_pending s \<or> any_bad rs s) \<and>
      delete_curl s' = Some s'' \<and> cu_conns s'' = Map.empty \<and> cu_easies s'' = Map.empty \<and> cu_multi s'' = None)"
proof -
  have del: "\<exists>s''. delete_curl s' = Some s'' \<and> cu_conns s'' = Map.empty \<and> cu_easies s'' = Map.empty \<and> cu_multi s'' = None"
    if "tracks s' ts'" for s' ts'
    using glob_cleanup_tracked[OF that] by (auto simp: delete_curl_def tracks_def)
  show ?thesis
  proof (cases "2 \<le> length rs")
    case True
    show ?thesis
    proof (rule perform_several_tracked[OF assms True, of sas p a])
      fix s' new
      assume s': "perform rs sas p a s = Done (- 1, s')" "tracks s' (ts @ new)" "map tr_req new = take (length new) rs"
        "length new < length rs" "cu_reqs s' = cu_reqs s" "\<not> sends_form rs sas s"
        "form_pending s' \<Longrightarrow> form_pending s \<or> any_bad rs s"
      then have "map tr_req (ts @ new) = map tr_req ts @ take (length new) rs" by simp
      then show ?thesis using s' del[OF s'(2)] by metis
    next
      fix s1 rc s' new
      assume "perform rs sas p a s = Done (rc, s')" "tracks s' []" "dom (cu_reqs s') = dom (cu_reqs s)"
        "rc = 0 \<and> length (reported (ma_msgs a) (ts @ new)) = length (ts @ new) \<and> cu_multi s' \<noteq> None \<and>
         fill_all (ma_info a) (reported (ma_msgs a) (ts @ new)) (cu_reqs s) = Some (cu_reqs s') \<or> rc = - 1 \<and> cu_multi s' = None"
        "\<not> sends_form rs sas s"
      then show ?thesis using del[of s' "[]"] pending_tracked[of s'] by auto
    qed simp_all
  next
    case False
    then show ?thesis using perform_few_tracked[OF assms(1), of rs sas p a] assms(2) del
      by (auto split: if_splits)
  qed
qed

definition sample_reqs :: "nat \<rightharpoonup> request" where
  "sample_reqs = [1 \<mapsto> build_default GET (Some ''http://a''), 2 \<mapsto> build_default OPTIONS (Some ''http://b''),
     3 \<mapsto> (build_default POST (Some ''http://d''))\<lparr>rq_post_fields := Some ''x=1''\<rparr>,
     4 \<mapsto> build_default POST (Some ''http://d'')]"

definition sample_curl :: curl where
  "sample_curl = the (new_glob True sample_reqs 10)"

definition sample_info :: "nat \<Rightarrow> easy_info" where
  "sample_info e = \<lparr>ei_effective_url = Some ''http://c'', ei_response_code = 200 + int e, ei_speed_download = 0, ei_total_time = 0\<rparr>"

definition sample_answer :: "(bool \<times> nat) list \<Rightarrow> multi_answer" where
  "sample_answer msgs = \<lparr>ma_first = [(CALL_MULTI_PERFORM, 2), (CURLM_OK, 2)],
     ma_rounds = [\<lparr>ra_timeout = (CURLM_OK, 1500), ra_fdset = (CURLM_OK, 5), ra_select = (\<lambda>_. 1), ra_perform = [(CURLM_OK, 0)]\<rparr>],
     ma_msgs = msgs, ma_info = sample_info\<rparr>"

definition sample_setup :: setup_answer where
  "sample_setup = \<lparr>sa_easy = True, sa_add = CURLM_OK\<rparr>"

lemma sample_tracks: "tracks sample_curl [] \<and> cu_reqs sample_curl = sample_reqs \<and> dom sample_reqs = {1, 2, 3, 4} \<and>
    cu_multi sample_curl = Some []"
  using tracks_new_glob[of sample_reqs 10 sample_curl] by (auto simp: sample_curl_def new_glob_def sample_reqs_def)

lemma sample_request: "sample_reqs r = Some req \<Longrightarrow> setopts c req \<noteq> None"
  by (auto simp: sample_reqs_def setopts_def build_default_def build_def split: if_splits)

text \<open>A set-up whose answers are all good.\<close>

lemma setup_all_good:
  assumes "tracks s ts" "cu_multi s \<noteq> None" "length rs \<le> length sas" "\<forall>a \<in> set sas. sa_easy a \<and> sa_add a = CURLM_OK"
    "\<forall>r \<in> set rs. \<exists>req. cu_reqs s r = Some req \<and> rq_type req \<noteq> Unnamed"
  shows "\<exists>s'. setup_all rs sas s = Done (True, s') \<and> cu_reqs s' = cu_reqs s \<and>
    (form_pending s' \<longleftrightarrow> form_pending s \<or> any_bad rs s) \<and>
    tracks s' (ts @ map (\<lambda>i. (cu_next s + 2 * i, cu_next s + 2 * i + 1, rs ! i)) [0..<length rs])"
  using assms
proof (induction rs sas s arbitrary: ts rule: setup_all.induct)
  case (3 r rs a as s)
  obtain req where req: "cu_reqs s r = Some req" "rq_type req \<noteq> Unnamed" using 3(6) by auto
  obtain c s1 where a: "alloc_conn s = (c, s1)" by (cases "alloc_conn s")
  have c: "c = cu_next s" using a by (simp add: alloc_conn_def)
  have "type_opts req (rq_type req) \<noteq> None" using req(2) by (cases "rq_type req") auto
  then have ok: "setup_succeeds c req a s" using 3(3,5) by (auto simp: setup_succeeds_def setopts_def)
  obtain s2 where s2: "conn_setup c r True a s1 = Some (0, s2)" "tracks s2 (ts @ [(c, c + 1, r)])" "cu_reqs s2 = cu_reqs s"
      "cu_multi s2 \<noteq> None" and n: "cu_next s2 = cu_next s + 2"
      and form: "form_pending s2 \<longleftrightarrow> form_pending s \<or> bad_form req"
    using setup_adds[OF 3(2) req(1) a ok] c by blast
  have step: "setup_all (r # rs) (a # as) s = setup_all rs as s2" using a s2(1) by (simp add: run_option_def)
  have "run_option (conn_setup c r True a s1) = Done (0, s2)" using s2(1) by (simp add: run_option_def)
  moreover have "length rs \<le> length as" "\<forall>a \<in> set as. sa_easy a \<and> sa_add a = CURLM_OK"
    "\<forall>r \<in> set rs. \<exists>req. cu_reqs s2 r = Some req \<and> rq_type req \<noteq> Unnamed"
    using 3(4,5,6) s2(3) by simp_all
  ultimately obtain s' where s': "setup_all rs as s2 = Done (True, s')" "cu_reqs s' = cu_reqs s2"
      "form_pending s' \<longleftrightarrow> form_pending s2 \<or> any_bad rs s2"
      "tracks s' ((ts @ [(c, c + 1, r)]) @ map (\<lambda>i. (cu_next s2 + 2 * i, cu_next s2 + 2 * i + 1, rs ! i)) [0..<length rs])"
    using 3(1)[OF a[symmetric] _ refl _ s2(2,4)] by force
  have upt: "[0..<length (r # rs)] = 0 # map Suc [0..<length rs]" by (simp add: upt_conv_Cons map_Suc_upt del: upt_Suc)
  have "map (\<lambda>i. (cu_next s + 2 * i, cu_next s + 2 * i + 1, (r # rs) ! i)) [0..<length (r # rs)] =
      (c, c + 1, r) # map (\<lambda>i. (cu_next s2 + 2 * i, cu_next s2 + 2 * i + 1, rs ! i)) [0..<length rs]"
    unfolding upt by (simp add: c n del: upt_Suc)
  then have "tracks s' (ts @ map (\<lambda>i. (cu_next s + 2 * i, cu_next s + 2 * i + 1, (r # rs) ! i)) [0..<length (r # rs)])"
    using s'(4) by simp
  then show ?case using s'(1,2,3) s2(3) form req(1) step by (simp add: any_bad_def)
qed (auto simp: any_bad_def)

lemma setup_second_fails:
  assumes T: "tracks s []" "cu_multi s \<noteq> None" and req: "cu_reqs s r = Some req" "rq_type req \<noteq> Unnamed"
    and req': "r' \<in> dom (cu_reqs s)" and a: "sa_easy a" "sa_add a = CURLM_OK" "\<not> sa_easy a'"
  shows "\<exists>s'. setup_all (r # r' # rs) (a # a' # as) s = Done (False, s') \<and> tracks s' [(cu_next s, cu_next s + 1, r)] \<and>
    cu_reqs s' = cu_reqs s"
proof -
  obtain c s1 where c: "alloc_conn s = (c, s1)" "c = cu_next s" by (simp add: alloc_conn_def)
  have "type_opts req (rq_type req) \<noteq> None" using req(2) by (cases "rq_type req") auto
  then have ok: "setup_succeeds c req a s" using T(2) a by (auto simp: setup_succeeds_def setopts_def)
  obtain s2 where s2: "conn_setup c r True a s1 = Some (0, s2)" "tracks s2 [(c, c + 1, r)]" "cu_reqs s2 = cu_reqs s"
    using setup_adds[OF T(1) req(1) c(1) ok] by auto
  obtain req2 where req2: "cu_reqs s2 r' = Some req2" using req' s2(3) by auto
  obtain c' s3 where c': "alloc_conn s2 = (c', s3)" by (cases "alloc_conn s2")
  have "\<not> setup_succeeds c' req2 a' s2" using a(3) by (simp add: setup_succeeds_def)
  then obtain s4 n where s4: "conn_setup c' r' True a' s3 = Some (- 1, s4)" "delete_conn c' s4 = Some (s2\<lparr>cu_next := n\<rparr>)" "cu_next s2 \<le> n"
    using setup_fails[OF tracks_fresh[OF s2(2)] req2 c'] by blast
  then show ?thesis using c c' s2 tracks_next[OF s2(2) s4(3)] by (simp add: run_option_def)
qed

abbreviation (input) bad_setup :: setup_answer where "bad_setup \<equiv> \<lparr>sa_easy = False, sa_add = CURLM_OK\<rparr>"

lemma sample_second_fails:
  "\<exists>s'. setup_all [1, 2] [sample_setup, bad_setup] sample_curl = Done (False, s') \<and> tracks s' [(10, 11, 1)] \<and> cu_reqs s' = sample_reqs"
proof -
  have "cu_next sample_curl = 10" by (simp add: sample_curl_def new_glob_def)
  then show ?thesis
    using setup_second_fails[of sample_curl 1 "build_default GET (Some ''http://a'')" 2 sample_setup bad_setup "[]" "[]"] sample_tracks
    by (simp add: sample_reqs_def sample_setup_def build_default_def build_def)
qed

theorem curl_keeps_books_witness:
  "\<exists>rc s' ts' s''. perform [1, 2] [sample_setup, bad_setup] (True, sample_info 0) (sample_answer []) sample_curl = Done (rc, s') \<and>
    tracks s' ts' \<and> (ts' = [] \<or> rc = - 1 \<and> map tr_req ts' = [1]) \<and> delete_curl s' = Some s'' \<and> cu_conns s'' = Map.empty \<and>
    perform [4] [sample_setup] (True, sample_info 0) (sample_answer []) sample_curl = Undefined"
proof -
  let ?p = "(True, sample_info 0)" and ?a = "sample_answer []"
  have hyps: "tracks sample_curl []" "set [1, 2] \<union> tr_req ` set [] \<subseteq> dom (cu_reqs sample_curl)"
    "set [4] \<union> tr_req ` set [] \<subseteq> dom (cu_reqs sample_curl)" using sample_tracks by simp_all
  obtain s1 where up: "setup_all [1, 2] [sample_setup, bad_setup] sample_curl = Done (False, s1)" and s1: "tracks s1 [(10, 11, 1)]"
    using sample_second_fails by blast
  then have p1: "perform [1, 2] [sample_setup, bad_setup] ?p ?a sample_curl = Done (- 1, s1)"
    by (simp add: perform_several del: setup_all.simps)
  have "\<not> sends_form [1, 2] [sample_setup, bad_setup] sample_curl" using up by (simp add: sends_form_several del: setup_all.simps)
  note B = curl_keeps_books[OF hyps(1,2), of "[sample_setup, bad_setup]" ?p ?a, unfolded if_not_P[OF this] p1]
  obtain ts' s'' k where s': "tracks s1 ts'" "ts' = [] \<or> map tr_req ts' = take k [1, 2]" "delete_curl s1 = Some s''" "cu_conns s'' = Map.empty"
    using B by auto
  have "map tr_req ts' = [1]" using s'(1) s1 by (auto simp: tracks_def transfer_ok_def)
  moreover have "perform [4] [sample_setup] ?p ?a sample_curl = Undefined"
    using curl_keeps_books[OF hyps(1,3), of "[sample_setup]" ?p ?a] sample_tracks
    by (simp add: any_bad_def bad_form_def sample_setup_def sample_reqs_def build_default_def build_def strdup'_def)
  ultimately show ?thesis using p1 s' by (intro exI[of _ "- 1"] exI[of _ s1] exI[of _ ts'] exI[of _ s'']) simp
qed

text \<open>
  C33: curl_failed_setup_dangles. Where the set-up of a later request fails, \<open>perform\<close>
  returns -1 but the earlier ones stay added, still pointing to their requests: once the caller recycles
  such a request, as it may after a failed call, the next call of several requests that sees the
  transfer reported writes into freed memory.
\<close>

theorem curl_failed_setup_dangles:
  assumes T: "tracks s []" "cu_multi s \<noteq> None" and req: "cu_reqs s r = Some req" "rq_type req \<noteq> Unnamed"
    and req': "r' \<in> dom (cu_reqs s)" and a: "sa_easy a" "sa_add a = CURLM_OK" "\<not> sa_easy a'"
  shows "\<exists>s1. perform (r # r' # rs) (a # a' # as) p m s = Done (- 1, s1) \<and> tracks s1 [(cu_next s, cu_next s + 1, r)] \<and>
    (\<forall>rs' sas p' m' s2 k. setup_all rs' sas (recycle_request (Some r) s1) = Done (True, s2) \<and> 2 \<le> length rs' \<and>
       set rs' \<subseteq> dom (cu_reqs s1) - {r} \<and> multi_perform (ma_first m') = Done (CURLM_OK, k) \<and>
       rounds (ma_rounds m') = Done True \<and> (True, cu_next s + 1) \<in> set (ma_msgs m') \<longrightarrow>
       perform rs' sas p' m' (recycle_request (Some r) s1) = Undefined)"
proof -
  let ?t = "(cu_next s, cu_next s + 1, r)"
  obtain s1 where s1: "setup_all (r # r' # rs) (a # a' # as) s = Done (False, s1)" "tracks s1 [?t]" "cu_reqs s1 = cu_reqs s"
    using setup_second_fails[OF assms] by blast
  let ?s = "recycle_request (Some r) s1"
  have T': "tracks ?s [?t]" using s1(2) by simp
  have "perform rs' sas p' m' ?s = Undefined"
    if up: "setup_all rs' sas ?s = Done (True, s2)" and n: "2 \<le> length rs'" and live: "set rs' \<subseteq> dom (cu_reqs s1) - {r}"
      and first: "multi_perform (ma_first m') = Done (CURLM_OK, k)" and rounds: "rounds (ma_rounds m') = Done True"
      and msg: "(True, cu_next s + 1) \<in> set (ma_msgs m')" for rs' sas p' m' s2 k
  proof -
    have "set rs' \<subseteq> dom (cu_reqs ?s)" using live by (auto simp: recycle_request_def)
    then obtain new where s2: "tracks s2 (?t # new)" "cu_reqs s2 = cu_reqs ?s"
      using setup_all_tracks[OF T', of rs' sas] up by auto
    have "of_easy (?t # new) (cu_next s + 1) = Some r" by (simp add: of_easy_def)
    then have "r \<in> fst ` set (reported (ma_msgs m') (?t # new))" using reported_complete[OF msg] by force
    then have "fill_all (ma_info m') (reported (ma_msgs m') (?t # new)) (cu_reqs s2) = None"
      using s2(2) by (intro fill_all_dead) (auto simp: recycle_request_def)
    then have "read_msgs (ma_msgs m') (ma_info m') (int (length (cu_connvec s2))) s2 = None"
      using read_msgs_tracked[OF s2(1)] by simp
    then show ?thesis using up n first rounds by (simp add: perform_several glob_perform_def run_option_def)
  qed
  moreover have "perform (r # r' # rs) (a # a' # as) p m s = Done (- 1, s1)" using s1(1) by (simp add: perform_several)
  ultimately show ?thesis using s1(2) by blast
qed

theorem curl_failed_setup_dangles_witness:
  "\<exists>s1. perform [1, 2] [sample_setup, bad_setup] (True, sample_info 0) (sample_answer []) sample_curl = Done (- 1, s1) \<and>
    perform [2, 3] [sample_setup, sample_setup] (True, sample_info 0) (sample_answer [(True, 11)])
      (recycle_request (Some 1) s1) = Undefined"
proof -
  let ?m = "sample_answer [(True, 11)]" and ?as = "[sample_setup, sample_setup]"
  have nx: "cu_next sample_curl = 10" by (simp add: sample_curl_def new_glob_def)
  have hyps: "cu_multi sample_curl \<noteq> None" "cu_reqs sample_curl 1 = Some (build_default GET (Some ''http://a''))"
    "rq_type (build_default GET (Some ''http://a'')) \<noteq> Unnamed" "2 \<in> dom (cu_reqs sample_curl)"
    "sa_easy sample_setup" "sa_add sample_setup = CURLM_OK" "\<not> sa_easy bad_setup"
    using sample_tracks by (simp_all add: sample_reqs_def sample_setup_def build_default_def build_def)
  obtain s1 where s1: "perform [1, 2] [sample_setup, bad_setup] (True, sample_info 0) (sample_answer []) sample_curl = Done (- 1, s1)"
      "tracks s1 [(10, 11, 1)]"
    and dangles: "setup_all [2, 3] ?as (recycle_request (Some 1) s1) = Done (True, s2) \<Longrightarrow> set [2, 3] \<subseteq> dom (cu_reqs s1) - {1} \<Longrightarrow>
      perform [2, 3] ?as (True, sample_info 0) ?m (recycle_request (Some 1) s1) = Undefined" for s2
    using curl_failed_setup_dangles[OF sample_tracks[THEN conjunct1] hyps, of "[]" "[]" "(True, sample_info 0)" "sample_answer []"]
    unfolding nx by (auto simp: sample_answer_def)
  have r1: "cu_reqs s1 = sample_reqs" "tracks (recycle_request (Some 1) s1) [(10, 11, 1)]" "cu_multi (recycle_request (Some 1) s1) \<noteq> None"
    subgoal using sample_second_fails s1(1) by (auto simp: perform_several simp del: setup_all.simps)
    subgoal using s1(2) by simp
    subgoal using s1(2) by (auto simp: tracks_def recycle_request_def split: option.splits)
    done
  have "\<forall>r \<in> set [2, 3]. \<exists>req. cu_reqs (recycle_request (Some 1) s1) r = Some req \<and> rq_type req \<noteq> Unnamed"
    by (simp add: recycle_request_def r1(1) sample_reqs_def build_default_def build_def)
  then obtain s2 where "setup_all [2, 3] ?as (recycle_request (Some 1) s1) = Done (True, s2)"
    using setup_all_good[OF r1(2,3), of "[2, 3]" ?as] by (auto simp: sample_setup_def)
  then show ?thesis using s1(1) dangles r1(1) sample_tracks by auto
qed

text \<open>
  Curl dead after failure: Any failure of the loop over the multi handle (of libcurl, of
  \<open>select\<close> even for an interrupting signal, or a transfer that was not reported) frees the
  multi handle for good: every later call of several requests fails, whatever libcurl answers.
\<close>

theorem curl_dead_after_failure:
  assumes T: "tracks s ts" "set rs \<union> tr_req ` set ts \<subseteq> dom (cu_reqs s)" "2 \<le> length rs"
    and up: "setup_all rs sas s = Done (True, s1)" and failed: "perform rs sas p a s = Done (- 1, s')"
  shows "cu_multi s' = None \<and> (\<forall>rs' sas' p' a'. 2 \<le> length rs' \<and> set rs' \<subseteq> dom (cu_reqs s) \<longrightarrow>
    perform rs' sas' p' a' s' = Waits \<or>
    (\<exists>s''. perform rs' sas' p' a' s' = Done (- 1, s'') \<and> cu_multi s'' = None \<and> cu_reqs s'' = cu_reqs s'))"
proof -
  have dead: "cu_multi s' = None" "tracks s' []" "dom (cu_reqs s') = dom (cu_reqs s)"
    by (rule perform_several_tracked[OF T, of sas p a]; use up failed in auto)+
  have "perform rs' sas' p' a' s' = Waits \<or>
      (\<exists>s''. perform rs' sas' p' a' s' = Done (- 1, s'') \<and> cu_multi s'' = None \<and> cu_reqs s'' = cu_reqs s')"
    if "2 \<le> length rs'" "set rs' \<subseteq> dom (cu_reqs s)" for rs' sas' p' a'
  proof -
    have live: "set rs' \<subseteq> dom (cu_reqs s')" using that(2) dead(3) by simp
    have "rs' \<noteq> []" using that(1) by auto
    then show ?thesis
      using setup_all_tracks[OF dead(2) live, of sas'] dead(1) that(1) by (auto simp: perform_several)
  qed
  then show ?thesis using dead(1) by blast
qed

theorem curl_dead_after_failure_witness:
  "\<exists>s'. perform [1, 2] [sample_setup, sample_setup] (True, sample_info 0) (sample_answer []) sample_curl = Done (- 1, s') \<and>
    cu_multi s' = None \<and> (\<forall>sas' p' a'. perform [2, 3] sas' p' a' s' = Waits \<or> (\<exists>s''. perform [2, 3] sas' p' a' s' = Done (- 1, s'')))"
proof -
  let ?a = "sample_answer []" and ?as = "[sample_setup, sample_setup]"
  have hyps: "tracks sample_curl []" "set [1, 2] \<union> tr_req ` set [] \<subseteq> dom (cu_reqs sample_curl)" "2 \<le> length [1, 2 :: nat]"
    using sample_tracks by simp_all
  obtain s1 ts where s1: "setup_all [1, 2] ?as sample_curl = Done (True, s1)" "tracks s1 ts" "length ts = 2"
      "\<not> form_pending s1"
    using setup_all_good[of sample_curl "[]" "[1, 2]" ?as] sample_tracks pending_tracked[of sample_curl]
    by (auto simp: any_bad_def bad_form_def sample_setup_def sample_reqs_def build_default_def build_def simp del: setup_all.simps)
  obtain s' where s': "bail s1 = Done (- 1, s')" using bail_tracked[OF s1(2)] by blast
  have "glob_perform ?a s1 = Done (- 1, s')"
    using s' s1(2,3,4) by (simp add: glob_perform_def sample_answer_def run_option_def tracks_def)
  then have failed: "perform [1, 2] ?as (True, sample_info 0) ?a sample_curl = Done (- 1, s')"
    using s1(1) by (simp add: perform_several del: setup_all.simps)
  note D = curl_dead_after_failure[OF hyps s1(1) failed]
  have "2 \<le> length [2, 3 :: nat] \<and> set [2, 3] \<subseteq> dom (cu_reqs sample_curl)" using sample_tracks by simp
  from D[THEN conjunct2, rule_format, OF this] D[THEN conjunct1] show ?thesis using failed by blast
qed

lemma glob_perform_completes:
  assumes T: "tracks s ts" and reqs: "tr_req ` set ts \<subseteq> dom (cu_reqs s)" and form: "\<not> form_pending s"
    and first: "multi_perform (ma_first a) = Done (CURLM_OK, k)" and rounds: "rounds (ma_rounds a) = Done True"
    and all: "length (reported (ma_msgs a) ts) = length ts"
  shows "\<exists>s'. glob_perform a s = Done (0, s')"
proof -
  obtain m where m: "fill_all (ma_info a) (reported (ma_msgs a) ts) (cu_reqs s) = Some m"
    using fill_all_total[OF subset_trans[OF reported_reqs reqs]] by blast
  have "read_msgs (ma_msgs a) (ma_info a) (int (length (cu_connvec s))) s = Some (0, s\<lparr>cu_reqs := m\<rparr>)"
    using read_msgs_tracked[OF T] m T all by (simp add: tracks_def)
  moreover obtain d where "delete_all (s\<lparr>cu_reqs := m\<rparr>) = Some d"
    using delete_all_tracked[of "s\<lparr>cu_reqs := m\<rparr>" ts] T by (auto simp: tracks_reqs)
  ultimately show ?thesis using first rounds form by (simp add: glob_perform_def run_option_def)
qed

lemma reported_length:
  assumes "distinct (map snd (filter fst ms))" "distinct (map tr_easy ts)" "\<forall>t \<in> set ts. (True, tr_easy t) \<in> set ms"
  shows "length (reported ms ts) = length ts"
proof -
  have "snd ` set (reported ms ts) = tr_easy ` set ts"
  proof (intro equalityI subsetI)
    fix e assume "e \<in> snd ` set (reported ms ts)"
    then show "e \<in> tr_easy ` set ts" using reported_sound of_easy_transfer by fastforce
  next
    fix e assume "e \<in> tr_easy ` set ts"
    then obtain t where t: "t \<in> set ts" "e = tr_easy t" by auto
    have "of_easy ts e = Some (tr_req t)" using map_of_found[OF assms(2) t(1), of tr_req] t(2) by (simp add: of_easy_def)
    then have "(tr_req t, e) \<in> set (reported ms ts)" using reported_complete assms(3) t by blast
    then show "e \<in> snd ` set (reported ms ts)" by force
  qed
  then show ?thesis
    using distinct_card[OF reported_distinct[OF assms(1)], of ts] distinct_card[OF assms(2)] by simp
qed

lemma perform_completes:
  assumes T: "tracks s []" "cu_multi s \<noteq> None" and n: "2 \<le> length rs" "length rs \<le> length sas"
    and good: "\<forall>a \<in> set sas. sa_easy a \<and> sa_add a = CURLM_OK"
    and reqs: "\<forall>r \<in> set rs. \<exists>req. cu_reqs s r = Some req \<and> rq_type req \<noteq> Unnamed" "\<not> any_bad rs s"
    and first: "multi_perform (ma_first a) = Done (CURLM_OK, k)" and rounds: "rounds (ma_rounds a) = Done True"
    and msgs: "distinct (map snd (filter fst (ma_msgs a)))" "\<forall>i < length rs. (True, cu_next s + 2 * i + 1) \<in> set (ma_msgs a)"
  shows "\<exists>s'. perform rs sas p a s = Done (0, s')"
proof -
  let ?ts = "map (\<lambda>i. (cu_next s + 2 * i, cu_next s + 2 * i + 1, rs ! i)) [0..<length rs]"
  obtain s1 where s1: "setup_all rs sas s = Done (True, s1)" "cu_reqs s1 = cu_reqs s" "tracks s1 ?ts"
    "\<not> form_pending s1"
    using setup_all_good[OF T n(2) good reqs(1)] reqs(2) pending_tracked[OF T(1)] by auto
  have "tr_req ` set ?ts \<subseteq> dom (cu_reqs s1)" using reqs(1) s1(2) by fastforce
  moreover have "length (reported (ma_msgs a) ?ts) = length ?ts"
    using msgs s1(3) by (intro reported_length) (auto simp: tracks_def)
  ultimately obtain s' where "glob_perform a s1 = Done (0, s')"
    using glob_perform_completes[OF s1(3) _ s1(4) first rounds] by blast
  then show ?thesis using s1(1) n(1) by (simp add: perform_several)
qed

text \<open>
  Curl all transferred: Where \<open>perform\<close> of several requests returns 0 (libcurl reporting a
  transfer at most once), every request got the URL, code, speed and time of an easy handle of its own
  which libcurl reported as done, no other request changed, and nothing is left alive. And it does
  return 0 if no request is a POST without fields, the set-ups succeed, the loop ends and every handle
  is reported.
\<close>

theorem curl_all_transferred:
  assumes T: "tracks s []" "set rs \<subseteq> dom (cu_reqs s)" "distinct rs" "2 \<le> length rs"
    and msgs: "distinct (map snd (filter fst (ma_msgs a)))"
  shows "(perform rs sas p a s = Done (0, s') \<longrightarrow>
      (\<exists>f. inj_on f (set rs) \<and> (\<forall>r \<in> set rs. (True, f r) \<in> set (ma_msgs a) \<and>
        cu_reqs s' r = Some (filled (ma_info a (f r)) (the (cu_reqs s r))))) \<and>
      (\<forall>r. r \<notin> set rs \<longrightarrow> cu_reqs s' r = cu_reqs s r) \<and> tracks s' [] \<and> cu_multi s' \<noteq> None) \<and>
    (cu_multi s \<noteq> None \<and> length rs \<le> length sas \<and> (\<forall>a \<in> set sas. sa_easy a \<and> sa_add a = CURLM_OK) \<and>
      (\<forall>r \<in> set rs. \<exists>req. cu_reqs s r = Some req \<and> rq_type req \<noteq> Unnamed) \<and> \<not> any_bad rs s \<and>
      multi_perform (ma_first a) = Done (CURLM_OK, k) \<and> rounds (ma_rounds a) = Done True \<and>
      (\<forall>i < length rs. (True, cu_next s + 2 * i + 1) \<in> set (ma_msgs a)) \<longrightarrow>
      (\<exists>s''. perform rs sas p a s = Done (0, s'')))"
proof (intro conjI[OF impI impI])
  assume zero: "perform rs sas p a s = Done (0, s')"
  have dom: "set rs \<union> tr_req ` set [] \<subseteq> dom (cu_reqs s)" using T(2) by simp
  obtain s1 new where new: "tracks s1 new" "map tr_req new = rs" "tracks s' []"
    "length (reported (ma_msgs a) new) = length new" "cu_multi s' \<noteq> None"
    "fill_all (ma_info a) (reported (ma_msgs a) new) (cu_reqs s) = Some (cu_reqs s')"
    by (rule perform_several_tracked[OF T(1) dom T(4), of sas p a]) (use zero in auto)
  let ?l = "reported (ma_msgs a) new"
  have set: "fst ` set ?l = set rs"
    using reported_all[OF new(4) msgs] new(1,2) by (auto simp: tracks_def)
  have "length rs = length ?l" using new(2,4) by auto
  then have dist: "distinct (map fst ?l)" using set T(3) by (metis card_distinct distinct_card length_map list.set_map)
  define f where "f r = the (map_of ?l r)" for r
  have f: "(r, f r) \<in> set ?l" if "r \<in> set rs" for r
    using that set dist unfolding f_def by (force simp: map_of_eq_Some_iff dest: map_of_SomeD)
  have "inj_on f (set rs)"
    using reported_sound[OF f] by (intro inj_onI) (metis option.inject)
  moreover have "(True, f r) \<in> set (ma_msgs a) \<and> cu_reqs s' r = Some (filled (ma_info a (f r)) (the (cu_reqs s r)))"
    if "r \<in> set rs" for r
    using reported_sound[OF f[OF that]] fill_all_at[OF new(6) dist f[OF that]] by simp
  moreover have "cu_reqs s' r = cu_reqs s r" if "r \<notin> set rs" for r
    using fill_all_other[OF new(6)] that set by blast
  ultimately show "(\<exists>f. inj_on f (set rs) \<and> (\<forall>r \<in> set rs. (True, f r) \<in> set (ma_msgs a) \<and>
        cu_reqs s' r = Some (filled (ma_info a (f r)) (the (cu_reqs s r))))) \<and>
      (\<forall>r. r \<notin> set rs \<longrightarrow> cu_reqs s' r = cu_reqs s r) \<and> tracks s' [] \<and> cu_multi s' \<noteq> None"
    using new(3,5) by blast
qed (use perform_completes[OF T(1)] T(4) msgs in blast)

theorem curl_all_transferred_witness:
  "\<exists>s' f. perform [1, 2] [sample_setup, sample_setup] (True, sample_info 0) (sample_answer [(True, 13), (False, 11), (True, 11)]) sample_curl =
      Done (0, s') \<and> inj_on f {1, 2} \<and> (\<forall>r \<in> {1, 2}. \<exists>req. cu_reqs s' r = Some req \<and> rq_response_code req = 200 + int (f r))"
proof -
  let ?a = "sample_answer [(True, 13), (False, 11), (True, 11)]"
  note S = sample_tracks
  have T: "tracks sample_curl []" "set [1, 2] \<subseteq> dom (cu_reqs sample_curl)" "distinct [1, 2 :: nat]" "2 \<le> length [1, 2 :: nat]"
      "distinct (map snd (filter fst (ma_msgs ?a)))"
    using S by (simp_all add: sample_answer_def)
  note apl = curl_all_transferred[OF T, of "[sample_setup, sample_setup]" "(True, sample_info 0)"]
  have nx: "cu_next sample_curl = 10" by (simp add: sample_curl_def new_glob_def)
  have "\<exists>s''. perform [1, 2] [sample_setup, sample_setup] (True, sample_info 0) ?a sample_curl = Done (0, s'')"
  proof (rule apl[THEN conjunct2, rule_format, of 2], intro conjI)
    show "\<forall>i < length [1, 2 :: nat]. (True, cu_next sample_curl + 2 * i + 1) \<in> set (ma_msgs ?a)"
      by (simp add: nx sample_answer_def less_Suc_eq)
    show "\<forall>r \<in> set [1, 2]. \<exists>req. cu_reqs sample_curl r = Some req \<and> rq_type req \<noteq> Unnamed"
      using S by (simp add: sample_reqs_def build_default_def build_def)
    show "\<not> any_bad [1, 2] sample_curl"
      using S by (simp add: any_bad_def bad_form_def sample_reqs_def build_default_def build_def)
  qed (use S in \<open>simp_all add: sample_setup_def sample_answer_def\<close>)
  then obtain s' where s': "perform [1, 2] [sample_setup, sample_setup] (True, sample_info 0) ?a sample_curl = Done (0, s')" by blast
  then obtain f where "inj_on f (set [1, 2])" "\<forall>r \<in> set [1, 2]. cu_reqs s' r = Some (filled (ma_info ?a (f r)) (the (cu_reqs sample_curl r)))"
    using apl[THEN conjunct1, rule_format, OF s'] by blast
  moreover have "rq_response_code (filled (ma_info ?a e) req) = 200 + int e" for e req
    by (simp add: filled_def sample_answer_def sample_info_def)
  ultimately show ?thesis using s' by auto
qed

end
