(* ===== verification/Sys.thy ===== *)
theory Sys
  imports Prelude
begin

text \<open>
  The rest of \<open>xutil\<close> around the system: eight-byte tags and their kinds, \<open>Signaler\<close>, \<open>Thread\<close> with the
  macros that declare and join one, \<open>Condition\<close> and \<open>AutoFileLock\<close>. What a system call answers is an
  argument. A thread object is a step relation: its creator and the thread itself take turns in
  any order.
\<close>

section \<open>Tags\<close>

definition MAKE_TAG8 :: "u8 \<Rightarrow> u8 \<Rightarrow> u8 \<Rightarrow> u8 \<Rightarrow> u8 \<Rightarrow> u8 \<Rightarrow> u8 \<Rightarrow> u8 \<Rightarrow> u64" where
  "MAKE_TAG8 a b c d e f g h =
     push_bit 56 (ucast a) OR push_bit 48 (ucast b) OR push_bit 40 (ucast c) OR push_bit 32 (ucast d) OR
     push_bit 24 (ucast e) OR push_bit 16 (ucast f) OR push_bit 8 (ucast g) OR ucast h"

text \<open>\<open>MAKE_TAG1\<close> to \<open>MAKE_TAG7\<close>: the bytes that are not given are zero.\<close>

definition MAKE_TAG :: "u8 list \<Rightarrow> u64" where
  "MAKE_TAG bs = (let b = (\<lambda>i. if i < length bs then bs ! i else 0)
     in MAKE_TAG8 (b 0) (b 1) (b 2) (b 3) (b 4) (b 5) (b 6) (b 7))"

text \<open>The loop, from bit \<open>8 * k\<close> down to bit 0.\<close>

fun mask_loop :: "u64 \<Rightarrow> nat \<Rightarrow> u64 \<Rightarrow> u64" where
  "mask_loop tag 0 result = result"
| "mask_loop tag (Suc k) result =
     (if drop_bit (8 * k) tag AND 0xff = 0 then result else mask_loop tag k (drop_bit 8 result))"

definition get_tag_mask :: "u64 \<Rightarrow> u64" where
  "get_tag_mask tag = NOT (mask_loop tag 8 (- 1))"

definition TAG_KIND_OF :: "u64 \<Rightarrow> u64 \<Rightarrow> bool" where
  "TAG_KIND_OF tag kind \<longleftrightarrow> tag AND get_tag_mask kind = kind"

section \<open>Signals\<close>

text \<open>
  The dispositions of the process, by signal number; \<open>signal\<close> fails for a number that is not in
  \<open>valid\<close>. The \<open>Signaler\<close> keeps the handler each \<open>signal\<close> returned, in a map.
\<close>

type_synonym handlers = "nat \<Rightarrow> nat"

fun install_loop :: "nat set \<Rightarrow> nat \<Rightarrow> int list \<Rightarrow> (nat \<rightharpoonup> nat) \<Rightarrow> handlers \<Rightarrow> (int \<times> (nat \<rightharpoonup> nat) \<times> handlers) option" where
  "install_loop valid hdl [] saved disp = None"
| "install_loop valid hdl (signo # ap) saved disp =
     (if signo \<le> 0 then Some (0, saved, disp)
      else if nat signo \<notin> valid then Some (- 1, saved, disp)
      else install_loop valid hdl ap (saved(nat signo \<mapsto> disp (nat signo))) (disp(nat signo := hdl)))"

text \<open>\<open>SIGLIST_END\<close> is \<open>-1\<close>, so the first test ends the list, too; without an end the arguments are overrun.\<close>

definition install :: "nat set \<Rightarrow> nat \<Rightarrow> int list \<Rightarrow> (nat \<rightharpoonup> nat) \<Rightarrow> handlers \<Rightarrow> (int \<times> (nat \<rightharpoonup> nat) \<times> handlers) option" where
  "install valid hdl ap saved disp = install_loop valid hdl ap saved disp"

text \<open>The destructor sets every saved handler again; the order of the map does not matter.\<close>

definition restore_signals :: "(nat \<rightharpoonup> nat) \<Rightarrow> handlers \<Rightarrow> handlers" where
  "restore_signals saved disp = (\<lambda>n. case saved n of None \<Rightarrow> disp n | Some h \<Rightarrow> h)"

section \<open>Threads\<close>

text \<open>
  What \<open>Thread::join\<close> returns, \<open>ret\<close> being the answer of \<open>pthread_join\<close>, which is not asked for a
  detached object.
\<close>

definition thread_join :: "bool \<Rightarrow> int \<Rightarrow> int" where
  "thread_join detach ret = (if detach then - 1 else if ret \<noteq> 0 then - 1 else 0)"

text \<open>
  The life of a thread object. \<open>t_create\<close> is the answer of \<open>pthread_create\<close>, once there is one, which
  the constructor ignores; \<open>t_tid\<close> that it has stored the identifier, \<open>t_started\<close> that the thread runs
  (POSIX does not say which comes first), \<open>t_built\<close> that the constructor has returned. \<open>t_join\<close> is
  what \<open>join\<close> returned, once the creator called it; \<open>t_object\<close> that the object exists, and \<open>t_bad\<close>
  that something undefined happened: the object was used after it was deleted, or \<open>pthread_join\<close> was
  given an identifier that was never stored.
\<close>

record thread =
  t_detach :: bool
  t_object :: bool
  t_create :: "bool option"
  t_tid :: bool
  t_built :: bool
  t_started :: bool
  t_done :: bool
  t_join :: "int option"
  t_bad :: bool

definition new_thread :: "bool \<Rightarrow> thread" where
  "new_thread detach = \<lparr>t_detach = detach, t_object = True, t_create = None, t_tid = False, t_built = False,
     t_started = False, t_done = False, t_join = None, t_bad = False\<rparr>"

text \<open>The macro ignores what \<open>join\<close> returned.\<close>

definition JOIN_DELETE_THREAD :: "int \<Rightarrow> thread \<Rightarrow> thread" where
  "JOIN_DELETE_THREAD ret t = t\<lparr>t_join := Some (thread_join (t_detach t) ret),
     t_bad := t_bad t \<or> \<not> t_object t \<or> \<not> t_detach t \<and> \<not> t_tid t, t_object := False\<rparr>"

text \<open>The end of \<open>thread_router\<close>, which reads the object and deletes a detached one.\<close>

definition thread_router :: "thread \<Rightarrow> thread" where
  "thread_router t = t\<lparr>t_done := True, t_bad := t_bad t \<or> \<not> t_object t, t_object := t_object t \<and> \<not> t_detach t\<rparr>"

text \<open>
  The steps of creator and thread: the call of \<open>pthread_create\<close> and its answer, its store and the start
  of the thread, the return of the constructor, the thread's end, and \<open>JOIN_DELETE_THREAD\<close> on the
  pointer \<open>new\<close> gave (once, since it clears the pointer). \<open>pthread_join\<close> answers 0 only when the thread has ended;
  it may answer an error at any time, as where the thread asks to join itself.
\<close>

datatype thread_act = Create_thread bool | Store_tid | Start_thread | Return_new | End_thread | Join_delete int

fun thread_may :: "thread_act \<Rightarrow> thread \<Rightarrow> bool" where
  "thread_may (Create_thread ok) t = (t_create t = None)"
| "thread_may Store_tid t = (t_create t = Some True \<and> \<not> t_tid t)"
| "thread_may Start_thread t = (t_create t = Some True \<and> \<not> t_started t)"
| "thread_may Return_new t = ((t_create t = Some False \<or> t_tid t) \<and> \<not> t_built t)"
| "thread_may End_thread t = (t_started t \<and> \<not> t_done t)"
| "thread_may (Join_delete ret) t =
     (t_built t \<and> t_join t = None \<and> (thread_join (t_detach t) ret = 0 \<longrightarrow> t_done t))"

fun thread_do :: "thread_act \<Rightarrow> thread \<Rightarrow> thread" where
  "thread_do (Create_thread ok) t = t\<lparr>t_create := Some ok\<rparr>"
| "thread_do Store_tid t = t\<lparr>t_tid := True, t_bad := t_bad t \<or> \<not> t_object t\<rparr>"
| "thread_do Start_thread t = t\<lparr>t_started := True, t_bad := t_bad t \<or> \<not> t_object t\<rparr>"
| "thread_do Return_new t = t\<lparr>t_built := True\<rparr>"
| "thread_do End_thread t = thread_router t"
| "thread_do (Join_delete ret) t = JOIN_DELETE_THREAD ret t"

inductive thread_step :: "thread \<Rightarrow> thread \<Rightarrow> bool" where
  act: "thread_may a t \<Longrightarrow> thread_step t (thread_do a t)"

inductive thread_reachable :: "bool \<Rightarrow> thread \<Rightarrow> bool" for detach where
  new: "thread_reachable detach (new_thread detach)"
| step: "thread_reachable detach t \<Longrightarrow> thread_step t t' \<Longrightarrow> thread_reachable detach t'"

text \<open>A run given by its actions.\<close>

fun thread_run :: "thread_act list \<Rightarrow> thread \<Rightarrow> thread option" where
  "thread_run [] t = Some t"
| "thread_run (a # as) t = (if thread_may a t then thread_run as (thread_do a t) else None)"

text \<open>\<open>is_alive\<close>: \<open>m_tid\<close> is unsigned, so it is never below zero.\<close>

abbreviation (input) ESRCH :: int where "ESRCH \<equiv> 3"
abbreviation (input) EINVAL :: int where "EINVAL \<equiv> 22"

definition is_alive :: "u64 \<Rightarrow> (u64 \<Rightarrow> int) \<Rightarrow> bool" where
  "is_alive m_tid kill0 = (if m_tid < 0 then False else \<not> (kill0 m_tid = ESRCH \<or> kill0 m_tid = EINVAL))"

text \<open>\<open>Condition::wait\<close>, \<open>signal\<close> and \<open>broadcast\<close>.\<close>

definition condition_call :: "int \<Rightarrow> int" where
  "condition_call errcode = (if errcode \<noteq> 0 then - 1 else 0)"

section \<open>File locks\<close>

datatype lock_call = Open_lock | Set_lock int | Close_lock int

abbreviation (input) F_UNLCK :: int where "F_UNLCK \<equiv> 2"

text \<open>The descriptor kept and the calls made; \<open>None\<close> for the failing assertion.\<close>

definition AutoFileLock :: "int \<Rightarrow> int \<Rightarrow> bool \<Rightarrow> (int \<times> lock_call list) option" where
  "AutoFileLock l_type fd locked =
     (if l_type \<noteq> 1 \<and> l_type \<noteq> 0 then None
      else if fd < 0 then Some (fd, [Open_lock])
      else if \<not> locked then Some (- 1, [Open_lock, Set_lock l_type, Close_lock fd])
      else Some (fd, [Open_lock, Set_lock l_type]))"

definition delete_AutoFileLock :: "int \<Rightarrow> lock_call list" where
  "delete_AutoFileLock m_fd = (if m_fd \<ge> 0 then [Set_lock F_UNLCK, Close_lock m_fd] else [])"

section \<open>Kinds\<close>

text \<open>The bytes of a tag, highest first.\<close>

definition tag_bytes :: "u64 \<Rightarrow> u8 list" where
  "tag_bytes tag = map (\<lambda>i. ucast (drop_bit (56 - 8 * i) tag)) [0..<8]"

definition leading :: "u64 \<Rightarrow> u8 list" where
  "leading tag = takeWhile (\<lambda>b. b \<noteq> 0) (tag_bytes tag)"

lemma tag_bytes_nth: "i < 8 \<Longrightarrow> tag_bytes tag ! i = ucast (drop_bit (56 - 8 * i) tag)"
  by (simp add: tag_bytes_def)

lemma tag_bytes_eq: "tag_bytes a = tag_bytes b \<longleftrightarrow> a = b"
proof
  assume eq: "tag_bytes a = tag_bytes b"
  show "a = b"
  proof (rule bit_word_eqI)
    fix n assume "n < LENGTH(64)"
    then have n: "n div 8 < 8" "n mod 8 < 8" by auto
    have b: "56 - 8 * (7 - n div 8) + n mod 8 = n" using \<open>n < LENGTH(64)\<close> by (simp add: diff_mult_distrib2)
    have "tag_bytes a ! (7 - n div 8) = tag_bytes b ! (7 - n div 8)" using eq by simp
    then have "bit (ucast (drop_bit (56 - 8 * (7 - n div 8)) a) :: u8) (n mod 8) =
        bit (ucast (drop_bit (56 - 8 * (7 - n div 8)) b) :: u8) (n mod 8)"
      using tag_bytes_nth[of "7 - n div 8"] by simp
    then show "bit a n = bit b n" using n(2) b by (simp add: bit_simps)
  qed
qed simp

text \<open>How far the loop gets: \<open>j\<close> bytes are not zero.\<close>

lemma mask_loop_eq:
  "j \<le> k \<Longrightarrow> (\<forall>i < j. drop_bit (8 * (k - 1 - i)) tag AND 0xff \<noteq> 0) \<Longrightarrow>
   j = k \<or> drop_bit (8 * (k - 1 - j)) tag AND 0xff = 0 \<Longrightarrow> mask_loop tag k r = drop_bit (8 * j) r"
proof (induction k arbitrary: j r)
  case (Suc k)
  show ?case
  proof (cases j)
    case 0
    then show ?thesis using Suc.prems(3) by simp
  next
    case (Suc i)
    have first: "drop_bit (8 * k) tag AND 0xff \<noteq> 0" using Suc.prems(2) Suc by auto
    have "mask_loop tag k (drop_bit 8 r) = drop_bit (8 * i) (drop_bit 8 r)"
    proof (rule Suc.IH)
      show "i \<le> k" using Suc.prems(1) Suc by simp
      show "\<forall>m < i. drop_bit (8 * (k - 1 - m)) tag AND 0xff \<noteq> 0"
      proof (intro allI impI)
        fix m assume "m < i"
        then show "drop_bit (8 * (k - 1 - m)) tag AND 0xff \<noteq> 0"
          using Suc.prems(2)[rule_format, of "Suc m"] Suc by simp
      qed
      show "i = k \<or> drop_bit (8 * (k - 1 - i)) tag AND 0xff = 0" using Suc.prems(3) Suc by simp
    qed
    then show ?thesis using first Suc by (simp add: algebra_simps)
  qed
qed simp

lemma byte_zero_iff: "(x :: u64) AND 0xff = 0 \<longleftrightarrow> (ucast x :: u8) = 0"
  unfolding mask_8_const take_bit_eq_mask[symmetric] unat_eq_zero[symmetric]
  by (simp only: unsigned_ucast_eq unsigned_take_bit_eq) simp

lemma length_tag_bytes [simp]: "length (tag_bytes tag) = 8"
  by (simp add: tag_bytes_def)

lemma length_leading: "length (leading tag) \<le> 8"
  using length_takeWhile_le[of "\<lambda>b. b \<noteq> 0" "tag_bytes tag"] by (simp add: leading_def)

lemma get_tag_mask_eq: "get_tag_mask kind = NOT (drop_bit (8 * length (leading kind)) (- 1))"
proof -
  let ?j = "length (leading kind)"
  have byte: "drop_bit (8 * (8 - 1 - i)) kind AND 0xff = 0 \<longleftrightarrow> tag_bytes kind ! i = 0" if "i < 8" for i
    using that byte_zero_iff tag_bytes_nth[OF that] by (simp add: diff_mult_distrib2)
  have "mask_loop kind 8 (- 1) = drop_bit (8 * ?j) (- 1)"
  proof (rule mask_loop_eq)
    show "?j \<le> 8" by (rule length_leading)
    show "\<forall>i < ?j. drop_bit (8 * (8 - 1 - i)) kind AND 0xff \<noteq> 0"
    proof (intro allI impI)
      fix i assume i: "i < ?j"
      then have "tag_bytes kind ! i \<noteq> 0"
        using nth_mem[OF i] takeWhile_nth[of i "\<lambda>b. b \<noteq> 0" "tag_bytes kind"] set_takeWhileD
        unfolding leading_def by metis
      then show "drop_bit (8 * (8 - 1 - i)) kind AND 0xff \<noteq> 0" using byte[of i] i length_leading[of kind] by simp
    qed
    show "?j = 8 \<or> drop_bit (8 * (8 - 1 - ?j)) kind AND 0xff = 0"
    proof (cases "?j = 8")
      case False
      then have j: "?j < length (tag_bytes kind)" using length_leading[of kind] by simp
      then have "tag_bytes kind ! ?j = 0"
        using nth_length_takeWhile[of "\<lambda>b. b \<noteq> 0" "tag_bytes kind"] by (simp add: leading_def)
      then show ?thesis using byte[of ?j] j by simp
    qed simp
  qed
  then show ?thesis by (simp add: get_tag_mask_def)
qed

lemma masked_bytes:
  assumes "j \<le> 8"
  shows "tag_bytes (tag AND NOT (drop_bit (8 * j) (- 1))) = take j (tag_bytes tag) @ replicate (8 - j) 0"
proof (rule nth_equalityI)
  fix i assume "i < length (tag_bytes (tag AND NOT (drop_bit (8 * j) (- 1))))"
  then have i: "i < 8" by simp
  let ?b = "ucast (drop_bit (56 - 8 * i) (tag AND NOT (drop_bit (8 * j) (- 1)))) :: u8"
  have b: "bit ?b m \<longleftrightarrow> m < 8 \<and> bit tag (56 - 8 * i + m) \<and> i < j" for m
  proof -
    have "56 - 8 * i + m < 64 - 8 * j" if "m < 8" "\<not> i < j" using that i by arith
    moreover have "\<not> 56 - 8 * i + m < 64 - 8 * j" "56 - 8 * i + m < 64" if "m < 8" "i < j" using that i assms by arith+
    ultimately show ?thesis
      by (cases "i < j"; cases "m < 8") (simp_all add: bit_ucast_iff bit_drop_bit_eq bit_and_iff bit_not_iff bit_mask_iff possible_bit_def)
  qed
  have "?b = (if i < j then ucast (drop_bit (56 - 8 * i) tag) else 0)"
  proof (rule bit_eqI)
    fix m
    show "bit ?b m = bit (if i < j then ucast (drop_bit (56 - 8 * i) tag) else 0 :: u8) m"
      unfolding b by (auto simp: bit_simps)
  qed
  then show "tag_bytes (tag AND NOT (drop_bit (8 * j) (- 1))) ! i = (take j (tag_bytes tag) @ replicate (8 - j) 0) ! i"
    using i assms by (simp add: tag_bytes_nth nth_append)
qed (use assms in simp)

lemma kind_iff:
  "TAG_KIND_OF tag kind \<longleftrightarrow> take (length (leading kind)) (tag_bytes tag) = leading kind \<and>
     tag_bytes kind = leading kind @ replicate (8 - length (leading kind)) 0"
proof -
  let ?j = "length (leading kind)"
  have "TAG_KIND_OF tag kind \<longleftrightarrow> take ?j (tag_bytes tag) @ replicate (8 - ?j) 0 = tag_bytes kind"
    unfolding TAG_KIND_OF_def get_tag_mask_eq using masked_bytes[OF length_leading] tag_bytes_eq by metis
  moreover have "take ?j (tag_bytes kind) = leading kind"
    unfolding leading_def by (metis takeWhile_eq_take)
  moreover have "take ?j (take ?j (tag_bytes tag) @ replicate (8 - ?j) 0) = take ?j (tag_bytes tag)"
    using length_leading[of kind] by simp
  ultimately show ?thesis by metis
qed

lemma tag_bytes_MAKE_TAG8: "tag_bytes (MAKE_TAG8 a b c d e f g h) = [a, b, c, d, e, f, g, h]"
  unfolding tag_bytes_def MAKE_TAG8_def
  by (simp add: upt_rec) (intro conjI bit_eqI; auto simp: bit_simps dest: bit_imp_le_length)

lemma tag_bytes_MAKE_TAG:
  assumes "length bs \<le> 8"
  shows "tag_bytes (MAKE_TAG bs) = bs @ replicate (8 - length bs) 0"
  unfolding MAKE_TAG_def Let_def tag_bytes_MAKE_TAG8
proof (rule nth_equalityI)
  fix i assume "i < length [if 0 < length bs then bs ! 0 else 0, if 1 < length bs then bs ! 1 else 0,
    if 2 < length bs then bs ! 2 else 0, if 3 < length bs then bs ! 3 else 0, if 4 < length bs then bs ! 4 else 0,
    if 5 < length bs then bs ! 5 else 0, if 6 < length bs then bs ! 6 else 0, if 7 < length bs then bs ! 7 else 0]"
  then consider "i = 0" | "i = 1" | "i = 2" | "i = 3" | "i = 4" | "i = 5" | "i = 6" | "i = 7" by fastforce
  then show "[if 0 < length bs then bs ! 0 else 0, if 1 < length bs then bs ! 1 else 0,
    if 2 < length bs then bs ! 2 else 0, if 3 < length bs then bs ! 3 else 0, if 4 < length bs then bs ! 4 else 0,
    if 5 < length bs then bs ! 5 else 0, if 6 < length bs then bs ! 6 else 0, if 7 < length bs then bs ! 7 else 0] ! i =
    (bs @ replicate (8 - length bs) 0) ! i"
    by cases (auto simp: nth_append)
qed (use assms in simp)

text \<open>
  Tag kinds: A tag built of bytes is of a kind exactly if the kind's bytes are the first bytes of the
  tag (for kinds without zero bytes; the tags are padded with zeros, and a kind with a byte after a zero
  one has no members at all).
\<close>

theorem tag_kinds:
  assumes "length bs \<le> 8" "length ks \<le> 8" "0 \<notin> set ks"
  shows "(TAG_KIND_OF (MAKE_TAG bs) (MAKE_TAG ks) \<longleftrightarrow> take (length ks) bs = ks) \<and>
    (k \<noteq> 0 \<and> length ks < 7 \<longrightarrow> \<not> TAG_KIND_OF tag (MAKE_TAG (ks @ [0, k])))"
proof (intro conjI impI notI)
  have tw: "takeWhile (\<lambda>b. b \<noteq> 0) (ks @ 0 # r) = ks" "takeWhile (\<lambda>b. b \<noteq> 0) ks = ks" for r
    using assms(3) by (auto simp: takeWhile_append takeWhile_eq_all_conv)
  have kb: "tag_bytes (MAKE_TAG ks) = ks @ replicate (8 - length ks) 0" by (rule tag_bytes_MAKE_TAG[OF assms(2)])
  have lead: "leading (MAKE_TAG ks) = ks"
    unfolding leading_def kb using tw by (cases "8 - length ks") simp_all
  have "take (length ks) (bs @ replicate (8 - length bs) 0) = ks \<longleftrightarrow> take (length ks) bs = ks"
  proof (cases "length ks \<le> length bs")
    case False
    then have "0 \<in> set (take (length ks) (bs @ replicate (8 - length bs) 0))" using assms(2) by (simp add: not_le)
    moreover have "take (length ks) bs \<noteq> ks" using False by (metis length_take min.cobounded1)
    ultimately show ?thesis using assms(3) by metis
  qed simp
  then show "TAG_KIND_OF (MAKE_TAG bs) (MAKE_TAG ks) \<longleftrightarrow> take (length ks) bs = ks"
    unfolding kind_iff lead kb tag_bytes_MAKE_TAG[OF assms(1)] by simp
  assume k: "k \<noteq> 0 \<and> length ks < 7" and kind: "TAG_KIND_OF tag (MAKE_TAG (ks @ [0, k]))"
  have kb': "tag_bytes (MAKE_TAG (ks @ [0, k])) = ks @ [0, k] @ replicate (6 - length ks) 0"
    using tag_bytes_MAKE_TAG[of "ks @ [0, k]"] k by simp
  then have "leading (MAKE_TAG (ks @ [0, k])) = ks" unfolding leading_def using tw by simp
  then have "ks @ [0, k] @ replicate (6 - length ks) 0 = ks @ replicate (8 - length ks) 0"
    using kind kb' unfolding kind_iff by simp
  then have "0 # k # replicate (6 - length ks) 0 = replicate (8 - length ks) (0 :: u8)" by simp
  then have "k \<in> set (replicate (8 - length ks) (0 :: u8))" by (metis list.set_intros)
  then show False using k by simp
qed

theorem tag_kinds_witness:
  "TAG_KIND_OF (MAKE_TAG [0x56, 0x41]) (MAKE_TAG [0x56]) \<and> \<not> TAG_KIND_OF (MAKE_TAG [0x41]) (MAKE_TAG [0x56]) \<and>
   \<not> TAG_KIND_OF (MAKE_TAG [0x56, 0, 0x41]) (MAKE_TAG [0x56, 0, 0x41])"
  using tag_kinds[of "[0x56, 0x41]" "[0x56]"] tag_kinds[of "[0x41]" "[0x56]" "0x41" "MAKE_TAG [0x56, 0, 0x41]"] by simp

section \<open>Signals and threads\<close>

text \<open>An argument list of valid signals, each once.\<close>

lemma install_loop_ok:
  assumes "\<forall>n \<in> set ns. 0 < n \<and> n \<in> valid" "distinct ns" "e \<le> 0"
  shows "install_loop valid hdl (map int ns @ e # r) saved disp =
    Some (0, \<lambda>n. if n \<in> set ns then Some (disp n) else saved n, \<lambda>n. if n \<in> set ns then hdl else disp n)"
  using assms
proof (induction ns arbitrary: saved disp)
  case (Cons n ns)
  have "install_loop valid hdl (map int (n # ns) @ e # r) saved disp =
      install_loop valid hdl (map int ns @ e # r) (saved(n \<mapsto> disp n)) (disp(n := hdl))"
    using Cons.prems(1) by simp
  moreover have "(\<lambda>m. if m \<in> set ns then Some ((disp(n := hdl)) m) else (saved(n \<mapsto> disp n)) m) =
      (\<lambda>m. if m \<in> set (n # ns) then Some (disp m) else saved m)"
    "(\<lambda>m. if m \<in> set ns then hdl else (disp(n := hdl)) m) = (\<lambda>m. if m \<in> set (n # ns) then hdl else disp m)"
    using Cons.prems(2) by (auto simp: fun_eq_iff)
  ultimately show ?case using Cons.IH[of "saved(n \<mapsto> disp n)" "disp(n := hdl)"] Cons.prems by (simp only: distinct.simps list.set insert_iff) blast
qed simp

text \<open>
  Signals restored: Deleting the \<open>Signaler\<close> gives every signal it installed the handler
  from before, and touches no other; but after a second \<open>install\<close> of the same signals it
  gives them the handler of the first.
\<close>

theorem signals_restored:
  assumes "\<forall>n \<in> set ns. 0 < n \<and> n \<in> valid" "distinct ns"
  shows "\<exists>saved disp'. install valid hdl (map int ns @ [- 1]) Map.empty disp = Some (0, saved, disp') \<and>
    (\<forall>n \<in> set ns. disp' n = hdl) \<and> restore_signals saved disp' = disp \<and>
    (\<exists>saved2 disp2. install valid hdl2 (map int ns @ [- 1]) saved disp' = Some (0, saved2, disp2) \<and>
      (\<forall>n. restore_signals saved2 disp2 n = (if n \<in> set ns then hdl else disp n)))"
proof -
  let ?saved = "\<lambda>n. if n \<in> set ns then Some (disp n) else None" and ?disp = "\<lambda>n. if n \<in> set ns then hdl else disp n"
  have one: "install valid hdl (map int ns @ [- 1]) Map.empty disp = Some (0, ?saved, ?disp)"
    unfolding install_def using install_loop_ok[OF assms, of "- 1" hdl "[]" Map.empty disp] by simp
  have two: "install valid hdl2 (map int ns @ [- 1]) ?saved ?disp =
      Some (0, \<lambda>n. if n \<in> set ns then Some (?disp n) else ?saved n, \<lambda>n. if n \<in> set ns then hdl2 else ?disp n)"
    unfolding install_def using install_loop_ok[OF assms, of "- 1" hdl2 "[]" ?saved ?disp] by simp
  show ?thesis
    by (rule exI[of _ ?saved], rule exI[of _ ?disp], intro conjI, rule one, simp, simp add: restore_signals_def fun_eq_iff,
        intro exI conjI, rule two) (simp add: restore_signals_def)
qed

theorem signals_restored_witness:
  "\<exists>saved disp'. install {1..31} 7 [2, 15, - 1] Map.empty (\<lambda>_. 0) = Some (0, saved, disp') \<and> restore_signals saved disp' = (\<lambda>_. 0)"
  using signals_restored[of "[2, 15]" "{1..31}" 7 "\<lambda>_. 0"] by fastforce

text \<open>Who may have deleted the object, and what is undefined by then.\<close>

definition thread_ok :: "thread \<Rightarrow> bool" where
  "thread_ok t \<longleftrightarrow> (t_done t \<longrightarrow> t_started t) \<and> (t_started t \<or> t_tid t \<longrightarrow> t_create t = Some True) \<and>
     (t_join t \<noteq> None \<longrightarrow> t_built t) \<and> (t_built t \<longrightarrow> t_create t = Some False \<or> t_tid t)"

definition joinable_ok :: "thread \<Rightarrow> bool" where
  "joinable_ok t \<longleftrightarrow> \<not> t_detach t \<and> (t_object t \<longleftrightarrow> t_join t = None) \<and> (t_join t = Some 0 \<longrightarrow> t_done t) \<and>
     (t_create t \<noteq> Some False \<and> t_join t \<in> {None, Some 0} \<longrightarrow> \<not> t_bad t) \<and>
     (t_create t = Some False \<longrightarrow> (t_bad t \<longleftrightarrow> t_join t \<noteq> None))"

definition detached_ok :: "thread \<Rightarrow> bool" where
  "detached_ok t \<longleftrightarrow> t_detach t \<and> (t_join t = None \<longrightarrow> (t_object t \<longleftrightarrow> \<not> t_done t)) \<and>
     (t_join t \<noteq> None \<longrightarrow> t_join t = Some (- 1) \<and> \<not> t_object t \<and> (t_done t \<longrightarrow> t_bad t)) \<and>
     (t_create t \<noteq> Some True \<longrightarrow> \<not> t_bad t)"

lemmas life_simps = new_thread_def thread_router_def JOIN_DELETE_THREAD_def thread_join_def

lemma thread_ok_step: "thread_may a t \<Longrightarrow> thread_ok t \<Longrightarrow> thread_ok (thread_do a t)"
  by (cases a) (auto simp: thread_ok_def life_simps)

lemma joinable_ok_step: "thread_may a t \<Longrightarrow> thread_ok t \<Longrightarrow> joinable_ok t \<Longrightarrow> joinable_ok (thread_do a t)"
  by (cases a) (auto simp: thread_ok_def joinable_ok_def life_simps split: if_splits)

lemma detached_ok_step: "thread_may a t \<Longrightarrow> thread_ok t \<Longrightarrow> detached_ok t \<Longrightarrow> detached_ok (thread_do a t)"
  by (cases a) (auto simp: thread_ok_def detached_ok_def life_simps)

lemma thread_reachable_ok:
  "thread_reachable detach t \<Longrightarrow> thread_ok t \<and> (if detach then detached_ok t else joinable_ok t)"
proof (induction rule: thread_reachable.induct)
  case new
  then show ?case by (simp add: thread_ok_def joinable_ok_def detached_ok_def new_thread_def)
next
  case (step t t')
  from step(2) obtain a where "thread_may a t" "t' = thread_do a t" by cases
  then show ?case using step(3) thread_ok_step joinable_ok_step detached_ok_step by (cases detach) auto
qed

lemma run_reachable: "thread_run as t = Some t' \<Longrightarrow> thread_reachable detach t \<Longrightarrow> thread_reachable detach t'"
  by (induction as arbitrary: t) (auto split: if_splits intro: thread_reachable.step thread_step.act)

lemmas new_run_reachable = run_reachable[OF _ thread_reachable.new]

text \<open>
  C34: threads_safe. While \<open>pthread_create\<close> and \<open>pthread_join\<close> do not fail,
  the object of a joinable thread is never used after its deletion, and is gone only when the creator
  has joined the thread, which has ended. But neither failure stops the macros: where
  \<open>pthread_create\<close> fails, joining the object is undefined, always; where
  \<open>pthread_join\<close> fails, the object may be deleted under the running thread. The object of a
  detached thread that is left alone is gone exactly once the thread has ended, which may be before
  \<open>pthread_create\<close> stores the identifier in it; \<open>JOIN_DELETE_THREAD\<close> on it
  deletes it all the same, and by the thread's end it was used after a deletion, whichever came first.
\<close>

theorem threads_safe:
  "(thread_reachable False t \<longrightarrow>
      (t_create t \<noteq> Some False \<and> t_join t \<in> {None, Some 0} \<longrightarrow>
        \<not> t_bad t \<and> (t_object t \<longleftrightarrow> t_join t = None) \<and> (\<not> t_object t \<longrightarrow> t_done t)) \<and>
      (t_create t = Some False \<longrightarrow> (t_bad t \<longleftrightarrow> t_join t \<noteq> None))) \<and>
   (\<exists>u. thread_reachable False u \<and> t_create u = Some True \<and> t_join u = Some (- 1) \<and> t_bad u) \<and>
   (thread_reachable True t \<longrightarrow>
      (t_join t = None \<longrightarrow> (t_object t \<longleftrightarrow> \<not> t_done t)) \<and>
      (t_join t \<noteq> None \<longrightarrow> t_join t = Some (- 1) \<and> \<not> t_object t \<and> (t_done t \<longrightarrow> t_bad t))) \<and>
   (\<exists>u. thread_reachable True u \<and> t_join u = None \<and> t_bad u)"
  (is "?joinable \<and> ?fails \<and> ?detached \<and> ?early")
proof (intro conjI)
  show ?joinable using thread_reachable_ok[of False t] by (auto simp: joinable_ok_def)
  show ?detached using thread_reachable_ok[of True t] by (auto simp: detached_ok_def)
  obtain u where "thread_run [Create_thread True, Store_tid, Return_new, Start_thread, Join_delete 35, End_thread] (new_thread False) = Some u"
      "t_create u = Some True" "t_join u = Some (- 1)" "t_bad u"
    by (simp add: life_simps)
  then show ?fails using new_run_reachable by blast
  obtain u where "thread_run [Create_thread True, Start_thread, End_thread, Store_tid] (new_thread True) = Some u" "t_join u = None" "t_bad u"
    by (simp add: life_simps)
  then show ?early using new_run_reachable by blast
qed

theorem threads_safe_witness:
  "\<exists>t. thread_run [Create_thread True, Store_tid, Start_thread, Return_new, End_thread, Join_delete 0] (new_thread False) = Some t \<and> \<not> t_bad t \<and> \<not> t_object t \<and> t_done t"
proof -
  obtain t where t: "thread_run [Create_thread True, Store_tid, Start_thread, Return_new, End_thread, Join_delete 0] (new_thread False) = Some t"
      "t_create t = Some True" "t_join t = Some 0"
    by (simp add: life_simps)
  then show ?thesis using threads_safe[of t] new_run_reachable[OF t(1)] by auto
qed

end
