(* ===== verification/Mutex.thy ===== *)
theory Mutex
  imports Prelude
begin

text \<open>
  \<open>Mutex\<close>, \<open>RecursiveMutex\<close> and \<open>AutoLock\<close> (\<open>xutil.h\<close>) among threads that run one action at a time
  in any order, and \<open>Signaler::get_instance\<close>. A thread's program is the list of the actions it still
  runs: it locks, unlocks, or changes what the mutex protects. The other components describe calls
  under an \<open>AutoLock\<close> as if they ran one after the other; here any interleaving is shown to be such
  an order.
\<close>

section \<open>The mutex\<close>

datatype MutexType = NORMAL | RECURSIVE

record mutex =
  m_type :: MutexType
  m_owner :: "nat option"
  m_depth :: nat

definition new_mutex :: "MutexType \<Rightarrow> mutex" where
  "new_mutex typ = \<lparr>m_type = typ, m_owner = None, m_depth = 0\<rparr>"

text \<open>\<open>None\<close>: the thread waits, a \<open>NORMAL\<close> mutex also for itself.\<close>

definition lock :: "nat \<Rightarrow> mutex \<Rightarrow> mutex option" where
  "lock t m =
     (case m_owner m of
        None \<Rightarrow> Some (m\<lparr>m_owner := Some t, m_depth := 1\<rparr>)
      | Some u \<Rightarrow>
          if u = t \<and> m_type m = RECURSIVE then Some (m\<lparr>m_depth := Suc (m_depth m)\<rparr>) else None)"

text \<open>
  Unlocking what another thread holds is refused by a recursive mutex (the code ignores the answer)
  and undefined, \<open>None\<close>, for the normal one.
\<close>

definition unlock :: "nat \<Rightarrow> mutex \<Rightarrow> mutex option" where
  "unlock t m =
     (if m_owner m = Some t then
        Some (if m_depth m \<le> 1 then m\<lparr>m_owner := None, m_depth := 0\<rparr> else m\<lparr>m_depth := m_depth m - 1\<rparr>)
      else if m_type m = RECURSIVE then Some m
      else None)"

section \<open>Threads\<close>

datatype 's action = Lock | Unlock | Act "'s \<Rightarrow> 's"

text \<open>The scope of an \<open>AutoLock\<close>: its constructor, the rest of the block, its destructor.\<close>

definition AutoLock :: "'s action list \<Rightarrow> 's action list" where
  "AutoLock body = Lock # body @ [Unlock]"

record 's world =
  w_mutex :: mutex
  w_shared :: 's
  w_prog :: "nat \<Rightarrow> 's action list"

definition advance :: "nat \<Rightarrow> 's world \<Rightarrow> 's world" where
  "advance t w = w\<lparr>w_prog := (w_prog w)(t := tl (w_prog w t))\<rparr>"

text \<open>Thread \<open>t\<close> runs its next action; one that waits or has ended changes nothing.\<close>

definition turn :: "nat \<Rightarrow> 's world \<Rightarrow> 's world option" where
  "turn t w =
     (case w_prog w t of
        [] \<Rightarrow> Some w
      | Lock # _ \<Rightarrow>
          (case lock t (w_mutex w) of None \<Rightarrow> Some w | Some m \<Rightarrow> Some (advance t (w\<lparr>w_mutex := m\<rparr>)))
      | Unlock # _ \<Rightarrow> map_option (\<lambda>m. advance t (w\<lparr>w_mutex := m\<rparr>)) (unlock t (w_mutex w))
      | Act f # _ \<Rightarrow> Some (advance t (w\<lparr>w_shared := f (w_shared w)\<rparr>)))"

fun run :: "nat list \<Rightarrow> 's world \<Rightarrow> 's world option" where
  "run [] w = Some w"
| "run (t # ts) w = Option.bind (turn t w) (run ts)"

section \<open>One after the other\<close>

text \<open>
  The reference: a thread that comes to the front of the mutex runs its whole outermost scope at
  once. \<open>rest d as s\<close> runs the actions \<open>as\<close> from depth \<open>d\<close> until the mutex is free.
\<close>

fun rest :: "nat \<Rightarrow> 's action list \<Rightarrow> 's \<Rightarrow> 's action list \<times> 's" where
  "rest d [] s = ([], s)"
| "rest d (Lock # as) s = rest (Suc d) as s"
| "rest d (Unlock # as) s = (if d \<le> 1 then (as, s) else rest (d - 1) as s)"
| "rest d (Act f # as) s = rest d as (f s)"

fun serial :: "nat list \<Rightarrow> (nat \<Rightarrow> 's action list) \<times> 's \<Rightarrow> (nat \<Rightarrow> 's action list) \<times> 's" where
  "serial [] c = c"
| "serial (t # ts) (prog, s) =
     (let (as, s') = rest 0 (prog t) s in serial ts (prog(t := as), s'))"

text \<open>The threads in the order in which they take the free mutex.\<close>

fun entries :: "nat list \<Rightarrow> 's world \<Rightarrow> nat list" where
  "entries [] w = []"
| "entries (t # ts) w =
     (case turn t w of
        None \<Rightarrow> []
      | Some w' \<Rightarrow> (if m_owner (w_mutex w) = None \<and> m_owner (w_mutex w') \<noteq> None then [t] else []) @ entries ts w')"

text \<open>
  A program is scoped if its locks match its unlocks, as those of \<open>AutoLock\<close> do, changes what is
  shared only under the lock, and locks again what it holds only if the mutex is recursive.
\<close>

fun scoped :: "bool \<Rightarrow> nat \<Rightarrow> 's action list \<Rightarrow> bool" where
  "scoped r d [] \<longleftrightarrow> d = 0"
| "scoped r d (Lock # as) \<longleftrightarrow> (d = 0 \<or> r) \<and> scoped r (Suc d) as"
| "scoped r d (Unlock # as) \<longleftrightarrow> d > 0 \<and> scoped r (d - 1) as"
| "scoped r d (Act f # as) \<longleftrightarrow> d > 0 \<and> scoped r d as"

text \<open>What may stand inside a scope.\<close>

definition inner :: "bool \<Rightarrow> 's action list \<Rightarrow> bool" where
  "inner r body \<longleftrightarrow> (\<forall>d as. d > 0 \<longrightarrow> scoped r d as \<longrightarrow> scoped r d (body @ as))"

lemma inner_Nil [simp, intro]: "inner r []" by (simp add: inner_def)
lemma inner_Act [simp, intro]: "inner r as \<Longrightarrow> inner r (Act f # as)" by (simp add: inner_def)
lemma inner_append [intro]: "inner r as \<Longrightarrow> inner r bs \<Longrightarrow> inner r (as @ bs)" by (simp add: inner_def)

lemma inner_AutoLock [intro]: "inner True body \<Longrightarrow> inner True (AutoLock body)"
  by (simp add: inner_def AutoLock_def)

lemma scoped_AutoLock: "inner r body \<Longrightarrow> scoped r 0 as \<Longrightarrow> scoped r 0 (AutoLock body @ as)"
  by (simp add: inner_def AutoLock_def)

section \<open>The invariant\<close>

definition held :: "nat \<Rightarrow> mutex \<Rightarrow> nat" where
  "held t m = (if m_owner m = Some t then m_depth m else 0)"

definition world_ok :: "'s world \<Rightarrow> bool" where
  "world_ok w \<longleftrightarrow> (m_owner (w_mutex w) = None \<or> m_depth (w_mutex w) > 0) \<and>
     (\<forall>t. scoped (m_type (w_mutex w) = RECURSIVE) (held t (w_mutex w)) (w_prog w t))"

text \<open>What is shared, and what is left to run, once the thread inside has left.\<close>

definition settled :: "'s world \<Rightarrow> (nat \<Rightarrow> 's action list) \<times> 's" where
  "settled w =
     (case m_owner (w_mutex w) of
        None \<Rightarrow> (w_prog w, w_shared w)
      | Some t \<Rightarrow> (let (as, s) = rest (m_depth (w_mutex w)) (w_prog w t) (w_shared w) in ((w_prog w)(t := as), s)))"

lemma world_ok_scoped: "world_ok w \<Longrightarrow> scoped (m_type (w_mutex w) = RECURSIVE) (held t (w_mutex w)) (w_prog w t)"
  by (simp add: world_ok_def)

text \<open>What a turn does to a world that is in order, and to what is left once it has settled.\<close>

definition moves :: "nat \<Rightarrow> 's world \<Rightarrow> 's world \<Rightarrow> bool" where
  "moves t w w' \<longleftrightarrow> turn t w = Some w' \<and> world_ok w' \<and> m_type (w_mutex w') = m_type (w_mutex w) \<and>
     settled w' = serial (if m_owner (w_mutex w) = None \<and> m_owner (w_mutex w') \<noteq> None then [t] else []) (settled w)"

lemma moves_same: "world_ok w \<Longrightarrow> turn t w = Some w \<Longrightarrow> moves t w w"
  by (auto simp: moves_def)

lemma owner_scoped:
  "world_ok w \<Longrightarrow> m_owner (w_mutex w) = Some t \<Longrightarrow>
     scoped (m_type (w_mutex w) = RECURSIVE) (m_depth (w_mutex w)) (w_prog w t)"
  using world_ok_scoped[of w t] by (simp add: held_def)

lemma others_scoped:
  "world_ok w \<Longrightarrow> m_owner (w_mutex w) \<noteq> Some t \<Longrightarrow> scoped (m_type (w_mutex w) = RECURSIVE) 0 (w_prog w t)"
  using world_ok_scoped[of w t] by (simp add: held_def)

lemma advance_simps [simp]:
  "w_mutex (advance t w) = w_mutex w" "w_shared (advance t w) = w_shared w"
  "w_prog (advance t w) = (w_prog w)(t := tl (w_prog w t))"
  by (simp_all add: advance_def)

lemma advance_ok:
  assumes ok: "world_ok w" and own: "m_owner (w_mutex w) = None \<or> m_owner (w_mutex w) = Some t"
    and m: "m_owner m = None \<or> m_owner m = Some t" "m_owner m = None \<or> m_depth m > 0" "m_type m = m_type (w_mutex w)"
    and sc: "scoped (m_type m = RECURSIVE) (held t m) (tl (w_prog w t))"
  shows "world_ok (advance t (w\<lparr>w_mutex := m, w_shared := s\<rparr>))"
  unfolding world_ok_def
proof (intro conjI allI)
  fix u
  show "scoped (m_type (w_mutex (advance t (w\<lparr>w_mutex := m, w_shared := s\<rparr>))) = RECURSIVE)
    (held u (w_mutex (advance t (w\<lparr>w_mutex := m, w_shared := s\<rparr>)))) (w_prog (advance t (w\<lparr>w_mutex := m, w_shared := s\<rparr>)) u)"
  proof (cases "u = t")
    case False
    then have "held u m = 0" "m_owner (w_mutex w) \<noteq> Some u" using m(1) own by (auto simp: held_def)
    then show ?thesis using others_scoped[OF ok, of u] m(3) False by simp
  qed (use sc in simp)
qed (use m in simp)

lemma turn_lock:
  assumes ok: "world_ok w" and p: "w_prog w t = Lock # as"
  shows "\<exists>w'. moves t w w'"
proof (cases "lock t (w_mutex w)")
  case None
  then show ?thesis using moves_same[OF ok, of t] p by (auto simp: turn_def)
next
  case (Some m)
  let ?w = "advance t (w\<lparr>w_mutex := m, w_shared := w_shared w\<rparr>)"
  have tn: "turn t w = Some ?w" using p Some by (simp add: turn_def)
  consider (free) "m_owner (w_mutex w) = None" "m = (w_mutex w)\<lparr>m_owner := Some t, m_depth := 1\<rparr>"
    | (again) "m_owner (w_mutex w) = Some t" "m_type (w_mutex w) = RECURSIVE"
      "m = (w_mutex w)\<lparr>m_depth := Suc (m_depth (w_mutex w))\<rparr>"
    using Some by (auto simp: lock_def split: option.splits if_splits)
  then show ?thesis
  proof cases
    case free
    have "world_ok ?w" using others_scoped[OF ok, of t] p free by (intro advance_ok[OF ok]) (simp_all add: held_def)
    then have "moves t w ?w" using tn free p by (simp add: moves_def settled_def)
    then show ?thesis ..
  next
    case again
    have "world_ok ?w" using owner_scoped[OF ok, of t] p again by (intro advance_ok[OF ok]) (simp_all add: held_def)
    then have "moves t w ?w" using tn again p by (simp add: moves_def settled_def)
    then show ?thesis ..
  qed
qed

lemma turn_unlock:
  assumes ok: "world_ok w" and p: "w_prog w t = Unlock # as"
  shows "\<exists>w'. moves t w w'"
proof -
  have own: "m_owner (w_mutex w) = Some t" using others_scoped[OF ok, of t] p by force
  have sc: "scoped (m_type (w_mutex w) = RECURSIVE) (m_depth (w_mutex w) - 1) as" "m_depth (w_mutex w) > 0"
    using owner_scoped[OF ok own] p by simp_all
  obtain m where m: "unlock t (w_mutex w) = Some m" using own by (simp add: unlock_def)
  let ?w = "advance t (w\<lparr>w_mutex := m, w_shared := w_shared w\<rparr>)"
  have tn: "turn t w = Some ?w" using p m by (simp add: turn_def)
  have "world_ok ?w"
    using sc p m own by (intro advance_ok[OF ok]) (auto simp: held_def unlock_def split: if_splits)
  moreover have "settled ?w = settled w" using p m own by (auto simp: settled_def unlock_def split: if_splits)
  ultimately have "moves t w ?w" using tn m own by (auto simp: moves_def unlock_def split: if_splits)
  then show ?thesis ..
qed

lemma turn_act:
  assumes ok: "world_ok w" and p: "w_prog w t = Act f # as"
  shows "\<exists>w'. moves t w w'"
proof -
  have own: "m_owner (w_mutex w) = Some t" using others_scoped[OF ok, of t] p by force
  let ?w = "advance t (w\<lparr>w_mutex := w_mutex w, w_shared := f (w_shared w)\<rparr>)"
  have tn: "turn t w = Some ?w" using p by (simp add: turn_def)
  have "world_ok ?w"
    using owner_scoped[OF ok own] ok p own by (intro advance_ok[OF ok]) (auto simp: held_def world_ok_def)
  moreover have "settled ?w = settled w" using p own by (simp add: settled_def)
  ultimately have "moves t w ?w" using tn by (auto simp: moves_def)
  then show ?thesis ..
qed

lemma turn_ok: "world_ok w \<Longrightarrow> \<exists>w'. moves t w w'"
proof (cases "w_prog w t")
  case Nil
  assume "world_ok w"
  then have "moves t w w" by (rule moves_same) (simp add: turn_def Nil)
  then show ?thesis ..
next
  case (Cons a as)
  assume "world_ok w"
  then show ?thesis using Cons turn_lock turn_unlock turn_act by (cases a) blast+
qed

lemma serial_append: "serial (xs @ ys) c = serial ys (serial xs c)"
  by (induction xs c rule: serial.induct) (auto split: prod.splits)

lemma run_ok:
  "world_ok w \<Longrightarrow> \<exists>w'. run sched w = Some w' \<and> world_ok w' \<and>
     settled w' = serial (entries sched w) (settled w) \<and> m_type (w_mutex w') = m_type (w_mutex w)"
proof (induction sched arbitrary: w)
  case (Cons t ts)
  obtain v where "moves t w v" using turn_ok[OF Cons.prems] ..
  then have v: "turn t w = Some v" "world_ok v" "m_type (w_mutex v) = m_type (w_mutex w)"
    "settled v = serial (if m_owner (w_mutex w) = None \<and> m_owner (w_mutex v) \<noteq> None then [t] else []) (settled w)"
    by (simp_all only: moves_def)
  from Cons.IH[OF v(2)] show ?case by (simp only: run.simps entries.simps v option.simps bind.simps serial_append)
qed simp

text \<open>A world in which nobody is inside yet.\<close>

definition fresh :: "MutexType \<Rightarrow> 's world \<Rightarrow> bool" where
  "fresh typ w \<longleftrightarrow> w_mutex w = new_mutex typ"

lemma fresh_ok:
  "fresh typ w \<Longrightarrow> (\<And>t. scoped (typ = RECURSIVE) 0 (w_prog w t)) \<Longrightarrow> world_ok w \<and> settled w = (w_prog w, w_shared w)"
  by (simp add: fresh_def new_mutex_def world_ok_def held_def settled_def)

text \<open>A thread that is inside can always go on, and anyone can if nobody is.\<close>

lemma inside_moves:
  assumes "world_ok w" "scoped (m_type (w_mutex w) = RECURSIVE) (held t (w_mutex w)) (w_prog w t)"
    "w_prog w t \<noteq> []" "m_owner (w_mutex w) = None \<or> m_owner (w_mutex w) = Some t"
  shows "\<exists>w'. turn t w = Some w' \<and> w_prog w' t = tl (w_prog w t)"
proof (cases "w_prog w t")
  case (Cons a as)
  then show ?thesis using assms
    by (cases a) (auto simp: turn_def lock_def unlock_def advance_def held_def world_ok_def split: option.splits)
qed (use assms in simp)

lemma owner_unfinished: "world_ok w \<Longrightarrow> m_owner (w_mutex w) = Some t \<Longrightarrow> w_prog w t \<noteq> []"
  using world_ok_scoped[of w t] by (auto simp: held_def world_ok_def)

lemma blocked_stays: "(\<And>t. turn t w = Some w) \<Longrightarrow> run sched w = Some w"
  by (induction sched) simp_all

lemma outside_waits:
  "scoped r 0 (w_prog w u) \<Longrightarrow> m_owner (w_mutex w) = Some t \<Longrightarrow> u \<noteq> t \<Longrightarrow> turn u w = Some w"
  by (rule scoped.cases[of "(r, 0, w_prog w u)"]) (auto simp: turn_def lock_def)

text \<open>Why every mutex of the code that protects a class is recursive: a scope in a scope.\<close>

lemma nested_on_normal:
  assumes "m_type (w_mutex w) = NORMAL" "m_owner (w_mutex w) = Some t" "w_prog w t = AutoLock body @ as"
    "\<And>u. u \<noteq> t \<Longrightarrow> scoped False 0 (w_prog w u)"
  shows "run sched w = Some w"
proof (rule blocked_stays)
  fix u
  show "turn u w = Some w"
  proof (cases "u = t")
    case True
    then show ?thesis using assms(1-3) by (simp add: turn_def lock_def AutoLock_def)
  qed (use outside_waits[OF assms(4) assms(2)] in simp)
qed

section \<open>Signaler::get_instance\<close>

text \<open>
  The double check: the pointer is looked at without the lock, and again under it. A thread is at one
  of these places; \<open>Got\<close> holds what was returned. Objects are numbered as they are created, and
  \<open>signaler\<close> is \<open>None\<close> for \<open>NULL\<close>; every read and write of it is one step, in the order of the code.
\<close>

datatype place = Enter | Acquire | Recheck | Create | Leave | Load | Got "nat option"

record signalers =
  sg_mutex :: mutex
  sg_signaler :: "nat option"
  sg_created :: nat
  sg_place :: "nat \<Rightarrow> place"

inductive get_instance :: "signalers \<Rightarrow> signalers \<Rightarrow> bool" where
  check: "sg_place s t = Enter \<Longrightarrow>
    get_instance s (s\<lparr>sg_place := (sg_place s)(t := if sg_signaler s = None then Acquire else Load)\<rparr>)"
| acquire: "sg_place s t = Acquire \<Longrightarrow> lock t (sg_mutex s) = Some m \<Longrightarrow>
    get_instance s (s\<lparr>sg_mutex := m, sg_place := (sg_place s)(t := Recheck)\<rparr>)"
| recheck: "sg_place s t = Recheck \<Longrightarrow>
    get_instance s (s\<lparr>sg_place := (sg_place s)(t := if sg_signaler s = None then Create else Leave)\<rparr>)"
| create: "sg_place s t = Create \<Longrightarrow>
    get_instance s (s\<lparr>sg_signaler := Some (sg_created s), sg_created := Suc (sg_created s),
      sg_place := (sg_place s)(t := Leave)\<rparr>)"
| leave: "sg_place s t = Leave \<Longrightarrow> unlock t (sg_mutex s) = Some m \<Longrightarrow>
    get_instance s (s\<lparr>sg_mutex := m, sg_place := (sg_place s)(t := Load)\<rparr>)"
| load: "sg_place s t = Load \<Longrightarrow>
    get_instance s (s\<lparr>sg_place := (sg_place s)(t := Got (sg_signaler s))\<rparr>)"

definition no_signaler :: signalers where
  "no_signaler = \<lparr>sg_mutex = new_mutex RECURSIVE, sg_signaler = None, sg_created = 0, sg_place = (\<lambda>_. Enter)\<rparr>"

fun place_ok :: "bool \<Rightarrow> bool \<Rightarrow> place \<Rightarrow> bool" where
  "place_ok inside exist Enter \<longleftrightarrow> \<not> inside"
| "place_ok inside exist Acquire \<longleftrightarrow> \<not> inside"
| "place_ok inside exist Recheck \<longleftrightarrow> inside"
| "place_ok inside exist Create \<longleftrightarrow> inside \<and> \<not> exist"
| "place_ok inside exist Leave \<longleftrightarrow> inside \<and> exist"
| "place_ok inside exist Load \<longleftrightarrow> \<not> inside \<and> exist"
| "place_ok inside exist (Got r) \<longleftrightarrow> \<not> inside \<and> exist \<and> r = Some 0"

definition single :: "signalers \<Rightarrow> bool" where
  "single s \<longleftrightarrow>
     (sg_signaler s = None \<and> sg_created s = 0 \<or> sg_signaler s = Some 0 \<and> sg_created s = 1) \<and>
     (m_owner (sg_mutex s) \<noteq> None \<longrightarrow> m_depth (sg_mutex s) = 1) \<and>
     (\<forall>t. place_ok (m_owner (sg_mutex s) = Some t) (sg_signaler s \<noteq> None) (sg_place s t))"

lemma single_start: "single no_signaler"
  by (simp add: single_def no_signaler_def new_mutex_def)

lemma single_place: "single s \<Longrightarrow> place_ok (m_owner (sg_mutex s) = Some t) (sg_signaler s \<noteq> None) (sg_place s t)"
  by (simp add: single_def)

lemma place_ok_outside: "place_ok False exist p \<Longrightarrow> place_ok False True p"
  by (cases p) simp_all

lemma single_step: "get_instance s s' \<Longrightarrow> single s \<Longrightarrow> single s'"
proof (induction rule: get_instance.induct)
  case (check s t)
  then show ?case using single_place[of s t] by (auto simp: single_def)
next
  case (acquire s t m)
  have "m_owner (sg_mutex s) = None \<and> m = (sg_mutex s)\<lparr>m_owner := Some t, m_depth := 1\<rparr>"
    using acquire single_place[of s t] by (auto simp: lock_def split: option.splits if_splits)
  then show ?case using acquire(1,3) by (fastforce simp: single_def)
next
  case (recheck s t)
  have "m_owner (sg_mutex s) = Some t" using recheck single_place[of s t] by auto
  then have "place_ok (m_owner (sg_mutex s) = Some u) (sg_signaler s \<noteq> None)
      (if u = t then if sg_signaler s = None then Create else Leave else sg_place s u)" for u
    using single_place[OF recheck(2), of u] by auto
  then show ?case using recheck by (simp add: single_def fun_upd_def)
next
  case (create s t)
  have own: "m_owner (sg_mutex s) = Some t" "sg_signaler s = None" using create single_place[of s t] by auto
  then have "place_ok (Some t = Some u) True (if u = t then Leave else sg_place s u)" for u
    using single_place[OF create(2), of u] place_ok_outside[of False] by auto
  then show ?case using create own by (simp add: single_def fun_upd_def)
next
  case (leave s t m)
  have own: "m_owner (sg_mutex s) = Some t" "sg_signaler s \<noteq> None" using leave single_place[of s t] by auto
  then have m: "m = (sg_mutex s)\<lparr>m_owner := None, m_depth := 0\<rparr>" using leave by (auto simp: unlock_def single_def)
  have "place_ok False True (if u = t then Load else sg_place s u)" for u
    using single_place[OF leave(3), of u] own by auto
  then show ?case using leave own m by (simp add: single_def fun_upd_def)
next
  case (load s t)
  then show ?case using single_place[of s t] by (auto simp: single_def)
qed

lemma single_reach: "get_instance\<^sup>*\<^sup>* no_signaler s \<Longrightarrow> single s"
  by (induction rule: rtranclp_induct) (auto intro: single_start single_step)

section \<open>Properties\<close>

text \<open>
  C11: locks_serialise. Whatever the order in which the scheduler runs them, threads that use the mutex
  through \<open>AutoLock\<close> do nothing undefined, and what they share is, once the thread inside
  has left, what the outermost scopes give run one after the other, in the order in which the threads
  got the mutex.
\<close>

theorem locks_serialise:
  assumes "fresh typ w" "\<And>t. scoped (typ = RECURSIVE) 0 (w_prog w t)"
  shows "\<exists>w'. run sched w = Some w' \<and> settled w' = serial (entries sched w) (w_prog w, w_shared w)"
  using run_ok[of w sched] fresh_ok[OF assms] by auto

text \<open>Two threads that each take the mutex twice, as a callback that asks the configuration does.\<close>

definition sample_prog :: "nat \<Rightarrow> nat action list" where
  "sample_prog t = (if t < 2 then AutoLock ([Act ((*) 2)] @ AutoLock [Act ((+) t)] @ [Act ((+) 5)]) else [])"

definition sample_world :: "nat world" where
  "sample_world = \<lparr>w_mutex = new_mutex RECURSIVE, w_shared = 1, w_prog = sample_prog\<rparr>"

lemma sample_scoped: "scoped True 0 (sample_prog t)"
  by (simp add: sample_prog_def AutoLock_def)

theorem locks_serialise_witness:
  "\<exists>w'. run [1, 0, 1, 1, 0, 1, 1, 1, 1, 0, 0] sample_world = Some w' \<and>
     settled w' = serial [1, 0] (sample_prog, 1) \<and> snd (settled w') = 21"
  using locks_serialise[of RECURSIVE sample_world "[1, 0, 1, 1, 0, 1, 1, 1, 1, 0, 0]"] sample_scoped
  by (simp add: fresh_def sample_world_def sample_prog_def AutoLock_def turn_def lock_def unlock_def new_mutex_def advance_def)

text \<open>
  C12: lock_progress. Nobody waits for ever. In every state such threads reach, while one of them has
  not ended there is a thread whose next action runs.
\<close>

theorem lock_progress:
  assumes "fresh typ w" "\<And>t. scoped (typ = RECURSIVE) 0 (w_prog w t)" "run sched w = Some w'" "w_prog w' u \<noteq> []"
  shows "\<exists>t w''. turn t w' = Some w'' \<and> w_prog w' t \<noteq> [] \<and> w_prog w'' t = tl (w_prog w' t)"
proof -
  have ok: "world_ok w'" using run_ok[of w sched] fresh_ok[OF assms(1,2)] assms(3) by auto
  define t where "t = (case m_owner (w_mutex w') of None \<Rightarrow> u | Some t \<Rightarrow> t)"
  have "w_prog w' t \<noteq> []" "m_owner (w_mutex w') = None \<or> m_owner (w_mutex w') = Some t"
    using assms(4) owner_unfinished[OF ok] by (auto simp: t_def split: option.splits)
  then show ?thesis using inside_moves[OF ok world_ok_scoped[OF ok]] by blast
qed

theorem lock_progress_witness:
  "\<exists>w' t w''. run [1, 0, 0] sample_world = Some w' \<and> turn t w' = Some w'' \<and> w_prog w'' t = tl (w_prog w' t)"
proof -
  obtain w' where w: "run [1, 0, 0] sample_world = Some w'" "w_prog w' 0 \<noteq> []"
    by (simp add: sample_world_def sample_prog_def AutoLock_def turn_def lock_def unlock_def new_mutex_def advance_def)
  then show ?thesis
    using lock_progress[of RECURSIVE sample_world "[1, 0, 0]" w' 0] sample_scoped
    by (auto simp: fresh_def sample_world_def)
qed

text \<open>
  C35: one_signaler. However threads that ask for the instance of \<open>Signaler\<close> interleave, at
  most one object is made, and every one of them that has returned holds it.
\<close>

theorem one_signaler:
  assumes "get_instance\<^sup>*\<^sup>* no_signaler s"
  shows "sg_created s \<le> 1 \<and> (\<forall>t r. sg_place s t = Got r \<longrightarrow> r = Some 0 \<and> sg_signaler s = r)"
proof (intro conjI allI impI)
  have ok: "single s" by (rule single_reach[OF assms])
  then show "sg_created s \<le> 1" by (auto simp: single_def)
  fix t r
  assume "sg_place s t = Got r"
  with single_place[OF ok, of t] show "r = Some 0" "sg_signaler s = r" using ok by (auto simp: single_def)
qed

definition sample_signalers :: "mutex \<Rightarrow> nat option \<Rightarrow> nat \<Rightarrow> place \<Rightarrow> signalers" where
  "sample_signalers m p n a = \<lparr>sg_mutex = m, sg_signaler = p, sg_created = n, sg_place = (\<lambda>_. Enter)(0 := a)\<rparr>"

lemma sample_steps:
  "get_instance (sample_signalers m None n Enter) (sample_signalers m None n Acquire)"
  "lock 0 m = Some m' \<Longrightarrow> get_instance (sample_signalers m None n Acquire) (sample_signalers m' None n Recheck)"
  "get_instance (sample_signalers m None n Recheck) (sample_signalers m None n Create)"
  "get_instance (sample_signalers m None n Create) (sample_signalers m (Some n) (Suc n) Leave)"
  "unlock 0 m = Some m' \<Longrightarrow> get_instance (sample_signalers m p n Leave) (sample_signalers m' p n Load)"
  "get_instance (sample_signalers m p n Load) (sample_signalers m p n (Got p))"
  using get_instance.check[of "sample_signalers m None n Enter" 0] get_instance.acquire[of "sample_signalers m None n Acquire" 0 m']
    get_instance.recheck[of "sample_signalers m None n Recheck" 0] get_instance.create[of "sample_signalers m None n Create" 0]
    get_instance.leave[of "sample_signalers m p n Leave" 0 m'] get_instance.load[of "sample_signalers m p n Load" 0]
  by (simp_all add: sample_signalers_def)

lemma sample_signaler_run:
  "get_instance\<^sup>*\<^sup>* no_signaler (sample_signalers (new_mutex RECURSIVE) (Some 0) 1 (Got (Some 0)))"
proof -
  let ?m = "new_mutex RECURSIVE"
  have l: "lock 0 ?m = Some (?m\<lparr>m_owner := Some 0, m_depth := 1\<rparr>)"
    and u: "unlock 0 (?m\<lparr>m_owner := Some 0, m_depth := 1\<rparr>) = Some ?m"
    by (simp_all add: lock_def unlock_def new_mutex_def)
  have "no_signaler = sample_signalers ?m None 0 Enter" by (simp add: no_signaler_def sample_signalers_def fun_eq_iff)
  then show ?thesis
    using sample_steps(1)[of ?m 0] sample_steps(2)[OF l, of 0] sample_steps(3)[of _ 0] sample_steps(4)[of _ 0]
      sample_steps(5)[OF u, of "Some 0" 1] sample_steps(6)[of ?m "Some 0" 1]
    by (metis One_nat_def converse_rtranclp_into_rtranclp rtranclp.rtrancl_refl)
qed

theorem one_signaler_witness:
  "\<exists>s. get_instance\<^sup>*\<^sup>* no_signaler s \<and> sg_created s \<le> 1 \<and> sg_place s 0 = Got (Some 0)"
  using one_signaler[OF sample_signaler_run] sample_signaler_run
  by (intro exI[of _ "sample_signalers (new_mutex RECURSIVE) (Some 0) 1 (Got (Some 0))"]) (simp add: sample_signalers_def)

end
