(* ===== verification/Bits.thy ===== *)
theory Bits
  imports Prelude
begin

text \<open>
  The bit string of a byte memory, most significant bit first: the reference both bit readers
  are checked against. \<open>bit_at\<close> is one bit, \<open>bval\<close> the number spelled by a run of them,
  \<open>code_at\<close> says how many zeros an Exp-Golomb code starts with. The locale \<open>bit_source\<close> is
  what a parser may assume of a reader.
\<close>

definition bit_at :: "mem \<Rightarrow> nat \<Rightarrow> bool" where
  "bit_at m i = bit (m ! (i div 8)) (7 - i mod 8)"

fun bval :: "mem \<Rightarrow> nat \<Rightarrow> nat \<Rightarrow> nat" where
  "bval m i 0 = 0"
| "bval m i (Suc n) = 2 * bval m i n + of_bool (bit_at m (i + n))"

definition code_at :: "mem \<Rightarrow> nat \<Rightarrow> nat \<Rightarrow> bool" where
  "code_at m i z \<longleftrightarrow> (\<forall>j < z. \<not> bit_at m (i + j)) \<and> bit_at m (i + z)"

text \<open>Consecutive fields of the given widths.\<close>

fun bit_fields :: "mem \<Rightarrow> nat \<Rightarrow> nat list \<Rightarrow> nat list" where
  "bit_fields m i [] = []"
| "bit_fields m i (n # ns) = bval m i n # bit_fields m (i + n) ns"

text \<open>The number whose Exp-Golomb code is the one at \<open>i\<close>, and its signed reading.\<close>

definition ue_at :: "mem \<Rightarrow> nat \<Rightarrow> nat \<Rightarrow> nat" where
  "ue_at m i z = bval m (i + z) (z + 1) - 1"

definition se_of :: "nat \<Rightarrow> int" where
  "se_of c = (if odd c then - int (c div 2) else int (c div 2))"

lemma bval_add: "bval m i (a + n) = bval m i a * 2 ^ n + bval m (i + a) n"
  by (induction n) (simp_all add: algebra_simps)

lemma bval_less: "bval m i n < 2 ^ n"
  by (induction n) (auto simp: of_bool_def)

lemma bval_zeros: "\<forall>j < n. \<not> bit_at m (i + j) \<Longrightarrow> bval m i n = 0"
  by (induction n) auto

lemma bval_code: "code_at m i z \<Longrightarrow> bval m i (z + n) = bval m (i + z) n"
  by (simp add: bval_add bval_zeros code_at_def)

lemma bval_first: "bit_at m i \<Longrightarrow> 2 ^ n \<le> bval m i (Suc n)"
  by (induction n) auto

lemma code_at_bounds:
  assumes "code_at m i z"
  shows "2 ^ n \<le> bval m i (z + Suc n)" "bval m i (z + Suc n) < 2 ^ Suc n"
  using assms bval_first[of m "i + z" n] bval_less[of m "i + z" "Suc n"]
  unfolding bval_code[OF assms] by (simp_all add: code_at_def)

lemma code_at_unique: "code_at m i z \<Longrightarrow> code_at m i y \<Longrightarrow> y = z"
  unfolding code_at_def by (metis linorder_neqE_nat)

lemma ue_at_Suc: "code_at m i z \<Longrightarrow> Suc (ue_at m i z) = bval m (i + z) (z + 1)"
proof -
  assume "code_at m i z"
  then have "0 < bval m (i + z) (Suc z)"
    using bval_first[of m "i + z" z] unfolding code_at_def
    by (metis gr_zeroI le_zero_eq power_eq_0_iff zero_neq_numeral)
  then show ?thesis by (simp add: ue_at_def del: bval.simps)
qed

lemma unat_drop_bit_1: "unat (drop_bit 1 w) = unat w div 2"
  using unat_drop_bit_eq[of 1 w] by (simp add: drop_bit_eq_div)

lemma odd_unat: "odd (unat w) \<longleftrightarrow> odd w"
  by transfer (simp add: even_take_bit_eq even_nat_iff)

text \<open>A word whose bits are a run of the bit string is its number.\<close>

lemma unat_bits_bval:
  assumes "\<And>j. j < n \<Longrightarrow> bit w (n - 1 - j) = bit_at m (i + j)"
    and "\<And>k. n \<le> k \<Longrightarrow> \<not> bit (w :: 'a::len word) k"
  shows "unat w = bval m i n"
  using assms
proof (induction n arbitrary: w)
  case 0
  then have "w = 0" by (auto intro: bit_word_eqI)
  then show ?case by simp
next
  case (Suc n)
  have "unat (drop_bit 1 w) = bval m i n"
  proof (rule Suc.IH)
    show "bit (drop_bit 1 w) (n - 1 - j) = bit_at m (i + j)" if "j < n" for j
      using Suc.prems(1)[of j] that by (simp add: bit_drop_bit_eq Suc_diff_Suc)
    show "\<not> bit (drop_bit 1 w) k" if "n \<le> k" for k
      using Suc.prems(2)[of "Suc k"] that by (simp add: bit_drop_bit_eq)
  qed
  moreover have "odd (unat w) = bit_at m (i + n)"
    using Suc.prems(1)[of n] by (simp add: bit_0 odd_unat)
  ultimately show ?case
    using unat_drop_bit_1[of w] by (auto simp: of_bool_def)
qed

text \<open>A field inside one byte.\<close>

lemma byte_of: "j < 8 \<Longrightarrow> (8 * q + (8 * k + j)) div 8 = q + k \<and> (8 * q + (8 * k + j)) mod 8 = (j :: nat)"
  for k j q :: nat
  by presburger

lemma bval_in_byte:
  assumes "a + n \<le> 8"
  shows "bval m (8 * q + a) n = unat (m ! q) div 2 ^ (8 - a - n) mod 2 ^ n"
proof -
  let ?w = "take_bit n (drop_bit (8 - a - n) (m ! q))"
  have "unat ?w = bval m (8 * q + a) n"
  proof (rule unat_bits_bval)
    fix j assume j: "j < n"
    have "8 - a - n + (n - 1 - j) = 7 - (a + j)" using j assms by arith
    moreover have "(8 * q + a + j) div 8 = q" "(8 * q + a + j) mod 8 = a + j"
      using j assms byte_of[of "a + j" q 0] by (simp_all add: add.assoc)
    ultimately show "bit ?w (n - 1 - j) = bit_at m (8 * q + a + j)"
      using j by (simp add: bit_take_bit_iff bit_drop_bit_eq bit_at_def)
  qed (simp add: bit_take_bit_iff)
  then show ?thesis
    by (simp only: unsigned_take_bit_eq unat_drop_bit_eq) (simp add: take_bit_eq_mod drop_bit_eq_div)
qed

text \<open>
  A reader of bits: \<open>pos\<close> its position, \<open>room s n\<close> that there are \<open>n\<close> bits to read, \<open>data\<close> the
  memory it reads from; one call reads at most \<open>width\<close> bits.
\<close>

locale bit_source =
  fixes data :: "'s \<Rightarrow> mem"
    and pos :: "'s \<Rightarrow> nat"
    and room :: "'s \<Rightarrow> nat \<Rightarrow> bool"
    and width :: nat
    and read :: "'s \<Rightarrow> nat \<Rightarrow> (nat \<times> 's) option"
  assumes read_law: "0 < n \<Longrightarrow> n \<le> width \<Longrightarrow> room s n \<Longrightarrow>
      \<exists>s'. read s n = Some (bval (data s) (pos s) n, s') \<and>
        pos s' = pos s + n \<and> data s' = data s \<and> (\<forall>k. room s (n + k) \<longrightarrow> room s' k)"
    and room_less: "room s (n + k) \<Longrightarrow> room s n"
begin

text \<open>Two fields read in a row are the two parts of one wider field.\<close>

lemma read_twice:
  assumes "room s (a + b)" "a \<in> {0<..width}" "b \<in> {0<..width}"
  shows "\<exists>x y s' s''. read s a = Some (x, s') \<and> read s' b = Some (y, s'') \<and>
    x * 2 ^ b + y = bval (data s) (pos s) (a + b) \<and> pos s'' = pos s + (a + b)"
proof -
  obtain s' where s': "read s a = Some (bval (data s) (pos s) a, s')" "pos s' = pos s + a"
    "data s' = data s" "room s' b"
    using read_law[of a s] room_less[OF assms(1)] assms by auto
  then show ?thesis
    using read_law[of b s'] assms(3) by (auto simp: bval_add)
qed

text \<open>A list of fields is read as the slices of the bit string.\<close>

lemma read_fields:
  assumes "room s (sum_list ns)" "set ns \<subseteq> {0<..width}"
  shows "\<exists>s'. foldo (\<lambda>(xs, s) n. do { (x, s) \<leftarrow> read s n; Some (xs @ [x], s) }) (xs, s) ns =
      Some (xs @ bit_fields (data s) (pos s) ns, s') \<and> pos s' = pos s + sum_list ns"
  using assms
proof (induction ns arbitrary: s xs)
  case (Cons n ns)
  have "room s n" using Cons.prems(1) room_less by simp
  then obtain s1 where s1: "read s n = Some (bval (data s) (pos s) n, s1)" "pos s1 = pos s + n"
    "data s1 = data s" "room s1 (sum_list ns)"
    using read_law[of n s] Cons.prems by auto
  with Cons.IH[of s1 "xs @ [bval (data s) (pos s) n]"] Cons.prems(2) show ?case
    by (auto simp: add.assoc)
qed simp

end

end
