(* ===== verification/BitBuffer.thy ===== *)
theory BitBuffer
  imports Bits
begin

text \<open>
  \<open>rtc::BitBuffer\<close> (\<open>contrib/webrtc/src/webrtc/base/bitbuffer.cc\<close>), the reader the RTMP source
  takes the headers of packets apart with. A \<open>bool\<close> result and its out parameter are an
  \<open>option\<close>; the outer \<open>None\<close> is a read outside the bytes. Against the bit string of Bits a read
  is the number the next bits spell, and ReadBits a \<open>bit_source\<close>.
\<close>

definition LowestBits :: "u8 \<Rightarrow> nat \<Rightarrow> u8" where
  "LowestBits byte bit_count = byte AND (push_bit bit_count 1 - 1)"

definition HighestBits :: "u8 \<Rightarrow> nat \<Rightarrow> u8" where
  "HighestBits byte bit_count =
     (let shift = 8 - bit_count; msk = push_bit shift 0xFF in drop_bit shift (byte AND msk))"

record BitBuffer =
  bb_bytes :: mem
  byte_count :: nat
  byte_offset :: nat
  bit_offset :: nat

definition new_BitBuffer :: "mem \<Rightarrow> nat \<Rightarrow> BitBuffer" where
  "new_BitBuffer bytes n = \<lparr>bb_bytes = bytes, byte_count = n, byte_offset = 0, bit_offset = 0\<rparr>"

definition RemainingBitCount :: "BitBuffer \<Rightarrow> nat" where
  "RemainingBitCount b = (byte_count b - byte_offset b) * 8 - bit_offset b"

text \<open>The loop over the full bytes, and the rest of the last one.\<close>

fun peek_bytes :: "mem \<Rightarrow> nat \<Rightarrow> nat \<Rightarrow> u32 \<Rightarrow> u32 option" where
  "peek_bytes m p n bits =
     (if n \<ge> 8 then do { c \<leftarrow> rd8 m p; peek_bytes m (p + 1) (n - 8) (push_bit 8 bits OR ucast c) }
      else if n > 0 then do { c \<leftarrow> rd8 m p; Some (push_bit n bits OR ucast (HighestBits c n)) }
      else Some bits)"

declare peek_bytes.simps [simp del]

definition PeekBits :: "BitBuffer \<Rightarrow> nat \<Rightarrow> u32 option option" where
  "PeekBits b bit_count =
     (if bit_count > RemainingBitCount b \<or> bit_count > 32 then Some None
      else do {
        c \<leftarrow> rd8 (bb_bytes b) (byte_offset b);
        let left = 8 - bit_offset b;
        let bits = LowestBits c left;
        if bit_count < left then Some (Some (ucast (HighestBits bits (bit_offset b + bit_count))))
        else map_option Some (peek_bytes (bb_bytes b) (byte_offset b + 1) (bit_count - left) (ucast bits)) })"

definition ConsumeBits :: "BitBuffer \<Rightarrow> nat \<Rightarrow> bool \<times> BitBuffer" where
  "ConsumeBits b bit_count =
     (if bit_count > RemainingBitCount b then (False, b)
      else (True, b\<lparr>byte_offset := byte_offset b + (bit_offset b + bit_count) div 8,
                    bit_offset := (bit_offset b + bit_count) mod 8\<rparr>))"

definition ConsumeBytes :: "BitBuffer \<Rightarrow> nat \<Rightarrow> bool \<times> BitBuffer" where
  "ConsumeBytes b n = ConsumeBits b (n * 8)"

definition ReadBits :: "BitBuffer \<Rightarrow> nat \<Rightarrow> (u32 option \<times> BitBuffer) option" where
  "ReadBits b bit_count = do {
     v \<leftarrow> PeekBits b bit_count;
     case v of None \<Rightarrow> Some (None, b) | Some v \<Rightarrow> Some (Some v, snd (ConsumeBits b bit_count)) }"

definition ReadUInt8 :: "BitBuffer \<Rightarrow> (u8 option \<times> BitBuffer) option" where
  "ReadUInt8 b = map_option (\<lambda>(v, b). (map_option ucast v, b)) (ReadBits b 8)"

definition ReadUInt16 :: "BitBuffer \<Rightarrow> (u16 option \<times> BitBuffer) option" where
  "ReadUInt16 b = map_option (\<lambda>(v, b). (map_option ucast v, b)) (ReadBits b 16)"

definition ReadUInt32 :: "BitBuffer \<Rightarrow> (u32 option \<times> BitBuffer) option" where
  "ReadUInt32 b = ReadBits b 32"

definition GetCurrentOffset :: "BitBuffer \<Rightarrow> nat \<times> nat" where
  "GetCurrentOffset b = (byte_offset b, bit_offset b)"

definition Seek :: "BitBuffer \<Rightarrow> nat \<Rightarrow> nat \<Rightarrow> bool \<times> BitBuffer" where
  "Seek b byte_off bit_off =
     (if byte_off > byte_count b \<or> bit_off > 7 \<or> (byte_off = byte_count b \<and> bit_off > 0) then (False, b)
      else (True, b\<lparr>byte_offset := byte_off, bit_offset := bit_off\<rparr>))"

text \<open>The zeros of an Exp-Golomb code, at most as many as there are bits left.\<close>

fun golomb_zeros :: "nat \<Rightarrow> BitBuffer \<Rightarrow> nat \<Rightarrow> (nat \<times> BitBuffer) option" where
  "golomb_zeros 0 b z = Some (z, b)"
| "golomb_zeros (Suc n) b z = do {
     v \<leftarrow> PeekBits b 1;
     if v = Some 0 then golomb_zeros n (snd (ConsumeBits b 1)) (z + 1) else Some (z, b) }"

definition ReadExponentialGolomb :: "BitBuffer \<Rightarrow> (u32 option \<times> BitBuffer) option" where
  "ReadExponentialGolomb b = do {
     (z, b') \<leftarrow> golomb_zeros (Suc (RemainingBitCount b)) b 0;
     if z + 1 > 32 then Some (None, b)
     else do {
       (v, b'') \<leftarrow> ReadBits b' (z + 1);
       case v of None \<Rightarrow> Some (None, b) | Some v \<Rightarrow> Some (Some (v - 1), b'') } }"

section \<open>The bits of a read\<close>

lemma unat_LowestBits: "n \<le> 8 \<Longrightarrow> unat (LowestBits c n) = unat c mod 2 ^ n"
proof -
  have "push_bit n 1 - 1 = (mask n :: u8)" by (simp add: mask_eq_exp_minus_1 push_bit_eq_mult)
  then have "LowestBits c n = take_bit n c" by (simp add: LowestBits_def take_bit_eq_mask)
  then show ?thesis by (simp only: unsigned_take_bit_eq) (simp add: take_bit_eq_mod)
qed

lemma unat_HighestBits: "n \<le> 8 \<Longrightarrow> unat (HighestBits c n) = unat c div 2 ^ (8 - n)"
proof -
  assume n: "n \<le> 8"
  have "drop_bit (8 - n) (c AND push_bit (8 - n) 0xFF) = drop_bit (8 - n) c"
    unfolding mask_8_const
    by (rule bit_word_eqI) (use n in \<open>auto simp: bit_simps dest: bit_imp_le_length\<close>)
  then have "HighestBits c n = drop_bit (8 - n) c" by (simp add: HighestBits_def Let_def)
  then show ?thesis by (simp only: unat_drop_bit_eq) (simp add: drop_bit_eq_div)
qed

lemma unat_u8_u32: "unat (ucast (x :: u8) :: u32) = unat x"
  using unsigned_less[of x, where 'a = nat] by (simp add: unsigned_ucast_eq take_bit_nat_eq_self)

lemma unat_or_append:
  assumes "unat (bits :: u32) < 2 ^ (32 - n)" "n \<le> 32" "unat (x :: u8) < 2 ^ n"
  shows "unat (push_bit n bits OR ucast x) = unat bits * 2 ^ n + unat x"
proof -
  have "push_bit n bits OR ucast x = push_bit n bits + ucast x"
  proof (rule disjunctive_add[symmetric])
    show "\<not> bit (push_bit n bits) k \<or> \<not> bit (ucast x :: u32) k" for k
    proof (cases "k < n")
      case False
      then have "\<not> bit x k" using not_bit_unat_less[OF assms(3)] by simp
      then show ?thesis by (simp add: bit_ucast_iff)
    qed (simp add: bit_simps)
  qed
  moreover have "unat (push_bit n bits) = unat bits * 2 ^ n"
  proof -
    have "unat bits * 2 ^ n < 2 ^ (32 - n) * 2 ^ n" using assms(1) by simp
    also have "(2::nat) ^ (32 - n) * 2 ^ n = 2 ^ 32" using assms(2) by (metis le_add_diff_inverse2 power_add)
    finally show ?thesis
      by (simp only: unsigned_push_bit_eq) (simp add: push_bit_eq_mult take_bit_eq_mod)
  qed
  moreover have "unat bits * 2 ^ n + unat x < 2 ^ 32"
  proof -
    have "unat bits * 2 ^ n + unat x < (unat bits + 1) * 2 ^ n" using assms(3) by (simp add: algebra_simps)
    also have "\<dots> \<le> 2 ^ (32 - n) * 2 ^ n" using assms(1) by (intro mult_le_mono1) simp
    also have "(2::nat) ^ (32 - n) * 2 ^ n = 2 ^ 32" using assms(2) by (metis le_add_diff_inverse2 power_add)
    finally show ?thesis .
  qed
  ultimately show ?thesis by (simp add: unat_word_ariths unat_u8_u32)
qed

lemma peek_bytes_bval:
  assumes "8 * p + n \<le> 8 * length m" "unat bits = bval m i k" "i + k = 8 * p" "k + n \<le> 32"
  shows "\<exists>v. peek_bytes m p n bits = Some v \<and> unat v = bval m i (k + n)"
  using assms
proof (induction m p n bits arbitrary: k rule: peek_bytes.induct)
  case (1 m p n bits)
  have small: "unat bits < 2 ^ k" using 1(3) bval_less[of m i k] by simp
  show ?case
  proof (cases "n \<ge> 8")
    case True
    then have p: "p < length m" using 1(2) by simp
    have "unat bits < 2 ^ (32 - 8)"
      using small power_increasing[of k 24 "2::nat"] 1(5) True by simp
    then have "unat (push_bit 8 bits OR ucast (m ! p)) = unat bits * 2 ^ 8 + unat (m ! p)"
      using unsigned_less[of "m ! p", where 'a = nat] by (intro unat_or_append) simp_all
    also have "\<dots> = bval m i (k + 8)"
      using bval_add[of m i k 8] bval_in_byte[of 0 8 m p] 1(3,4) unsigned_less[of "m ! p", where 'a = nat] by simp
    finally have "\<exists>v. peek_bytes m (p + 1) (n - 8) (push_bit 8 bits OR ucast (m ! p)) = Some v \<and>
        unat v = bval m i (k + 8 + (n - 8))"
      using 1(2,4,5) True p by (intro 1(1)) (auto simp: rd8_def)
    then show ?thesis using True p by (simp add: peek_bytes.simps[of m p n] rd8_def)
  next
    case n: False
    show ?thesis
    proof (cases "n = 0")
      case True
      then show ?thesis using 1(3) by (simp add: peek_bytes.simps)
    next
      case False
      then have p: "p < length m" using 1(2) by simp
      have h: "unat (HighestBits (m ! p) n) = bval m (8 * p) n"
      proof -
        have "(2::nat) ^ n * 2 ^ (8 - n) = 2 ^ 8" using n by (simp flip: power_add)
        then have "unat (m ! p) div 2 ^ (8 - n) < 2 ^ n"
          using unsigned_less[of "m ! p", where 'a = nat] by (intro less_mult_imp_div_less) simp
        then show ?thesis using unat_HighestBits[of n "m ! p"] bval_in_byte[of 0 n m p] n by simp
      qed
      have "unat bits < 2 ^ (32 - n)"
        using small 1(5) by (intro less_le_trans[OF small] power_increasing) auto
      then have "unat (push_bit n bits OR ucast (HighestBits (m ! p) n)) = bval m i (k + n)"
        using unat_or_append[of bits n "HighestBits (m ! p) n"] h bval_less[of m "8 * p" n]
          bval_add[of m i k n] 1(3,4) n by simp
      then show ?thesis using n False p by (simp add: peek_bytes.simps[of m p n] rd8_def)
    qed
  qed
qed

definition bb_ok :: "BitBuffer \<Rightarrow> bool" where
  "bb_ok b \<longleftrightarrow> byte_count b \<le> length (bb_bytes b) \<and> bit_offset b < 8 \<and>
     8 * byte_offset b + bit_offset b \<le> 8 * byte_count b"

definition bb_pos :: "BitBuffer \<Rightarrow> nat" where
  "bb_pos b = 8 * byte_offset b + bit_offset b"

lemma remaining_pos: "bb_ok b \<Longrightarrow> RemainingBitCount b = 8 * byte_count b - bb_pos b"
  by (auto simp: RemainingBitCount_def bb_pos_def bb_ok_def)

lemma peek_in_byte:
  "byte_offset b < length (bb_bytes b) \<Longrightarrow> n \<le> RemainingBitCount b \<Longrightarrow> n \<le> 32 \<Longrightarrow> n < 8 - bit_offset b \<Longrightarrow>
   PeekBits b n = Some (Some (ucast (HighestBits (LowestBits (bb_bytes b ! byte_offset b) (8 - bit_offset b)) (bit_offset b + n))))"
  by (simp add: PeekBits_def rd8_def Let_def)

lemma peek_over:
  "byte_offset b < length (bb_bytes b) \<Longrightarrow> n \<le> RemainingBitCount b \<Longrightarrow> n \<le> 32 \<Longrightarrow> \<not> n < 8 - bit_offset b \<Longrightarrow>
   PeekBits b n = map_option Some (peek_bytes (bb_bytes b) (byte_offset b + 1) (n - (8 - bit_offset b))
     (ucast (LowestBits (bb_bytes b ! byte_offset b) (8 - bit_offset b))))"
  by (simp add: PeekBits_def rd8_def Let_def)

lemma peek_bits_bval:
  assumes "bb_ok b" "n \<le> RemainingBitCount b" "n \<le> 32" "0 < n"
  shows "\<exists>v. PeekBits b n = Some (Some v) \<and> unat v = bval (bb_bytes b) (bb_pos b) n"
proof -
  let ?m = "bb_bytes b" and ?p = "byte_offset b" and ?o = "bit_offset b"
  have o: "?o < 8" "8 * ?p + ?o + n \<le> 8 * length ?m"
    using assms by (auto simp: bb_ok_def RemainingBitCount_def)
  then have p: "?p < length ?m" using assms(4) by linarith
  have low: "unat (LowestBits (?m ! ?p) (8 - ?o)) = bval ?m (8 * ?p + ?o) (8 - ?o)"
    using unat_LowestBits[of "8 - ?o" "?m ! ?p"] bval_in_byte[of ?o "8 - ?o" ?m ?p] o(1) by simp
  show ?thesis
  proof (cases "n < 8 - ?o")
    case True
    have hb: "unat (HighestBits (LowestBits (?m ! ?p) (8 - ?o)) (?o + n)) = bval ?m (8 * ?p + ?o) n"
    proof -
      have "bval ?m (8 * ?p + ?o) (8 - ?o) = bval ?m (8 * ?p + ?o) n * 2 ^ (8 - ?o - n) + bval ?m (8 * ?p + ?o + n) (8 - ?o - n)"
        using bval_add[of ?m "8 * ?p + ?o" n "8 - ?o - n"] True by simp
      then have "bval ?m (8 * ?p + ?o) (8 - ?o) div 2 ^ (8 - ?o - n) = bval ?m (8 * ?p + ?o) n"
        using bval_less[of ?m "8 * ?p + ?o + n" "8 - ?o - n"] by simp
      moreover have "8 - (?o + n) = 8 - ?o - n" by simp
      moreover have "unat (HighestBits (LowestBits (?m ! ?p) (8 - ?o)) (?o + n)) =
          unat (LowestBits (?m ! ?p) (8 - ?o)) div 2 ^ (8 - (?o + n))"
        using True by (intro unat_HighestBits) simp
      ultimately show ?thesis using low by (simp only:)
    qed
    show ?thesis
      by (intro exI conjI, rule peek_in_byte[OF p assms(2,3) True]) (simp only: bb_pos_def unat_u8_u32 hb)
  next
    case False
    have "unat (ucast (LowestBits (?m ! ?p) (8 - ?o)) :: u32) = bval ?m (8 * ?p + ?o) (8 - ?o)"
      using low by (simp add: unat_u8_u32)
    then have "\<exists>v. peek_bytes ?m (?p + 1) (n - (8 - ?o)) (ucast (LowestBits (?m ! ?p) (8 - ?o))) = Some v \<and>
        unat v = bval ?m (8 * ?p + ?o) (8 - ?o + (n - (8 - ?o)))"
      using o False assms(3) by (intro peek_bytes_bval) auto
    then show ?thesis
      unfolding peek_over[OF p assms(2,3) False] bb_pos_def using False by auto
  qed
qed

lemma consume_bits:
  assumes "bb_ok b" "n \<le> RemainingBitCount b"
  defines "b' \<equiv> snd (ConsumeBits b n)"
  shows "bb_ok b'" "bb_pos b' = bb_pos b + n" "bb_bytes b' = bb_bytes b"
    "RemainingBitCount b' = RemainingBitCount b - n" "byte_count b' = byte_count b"
proof -
  have b': "b' = b\<lparr>byte_offset := byte_offset b + (bit_offset b + n) div 8, bit_offset := (bit_offset b + n) mod 8\<rparr>"
    using assms(2) by (simp add: b'_def ConsumeBits_def)
  show pos: "bb_pos b' = bb_pos b + n" by (simp add: b' bb_pos_def)
  show c: "byte_count b' = byte_count b" and d: "bb_bytes b' = bb_bytes b" by (simp_all add: b')
  have "bb_pos b' \<le> 8 * byte_count b" using assms(1,2) pos remaining_pos[OF assms(1)]
    by (auto simp: bb_ok_def bb_pos_def)
  then show ok: "bb_ok b'" using assms(1) b' by (simp add: bb_ok_def bb_pos_def)
  show "RemainingBitCount b' = RemainingBitCount b - n"
    using remaining_pos[OF ok] remaining_pos[OF assms(1)] pos c by simp
qed

lemma read_bits_bval:
  assumes "bb_ok b" "n \<le> RemainingBitCount b" "n \<le> 32" "0 < n"
  shows "\<exists>v b'. ReadBits b n = Some (Some v, b') \<and> unat v = bval (bb_bytes b) (bb_pos b) n \<and>
    bb_ok b' \<and> bb_pos b' = bb_pos b + n \<and> bb_bytes b' = bb_bytes b \<and>
    RemainingBitCount b' = RemainingBitCount b - n \<and> byte_count b' = byte_count b"
  using peek_bits_bval[OF assms] consume_bits[OF assms(1,2)] by (auto simp: ReadBits_def)

definition bb_read :: "BitBuffer \<Rightarrow> nat \<Rightarrow> (nat \<times> BitBuffer) option" where
  "bb_read b n = (case ReadBits b n of Some (Some v, b) \<Rightarrow> Some (unat v, b) | _ \<Rightarrow> None)"

definition bb_room :: "BitBuffer \<Rightarrow> nat \<Rightarrow> bool" where
  "bb_room b n \<longleftrightarrow> bb_ok b \<and> n \<le> RemainingBitCount b"

interpretation rtc: bit_source bb_bytes bb_pos bb_room 32 bb_read
proof unfold_locales
  fix n b
  assume n: "0 < n" "n \<le> 32" and room: "bb_room b n"
  obtain v b' where r: "ReadBits b n = Some (Some v, b')" "unat v = bval (bb_bytes b) (bb_pos b) n" "bb_ok b'"
    "bb_pos b' = bb_pos b + n" "bb_bytes b' = bb_bytes b" "RemainingBitCount b' = RemainingBitCount b - n"
    using read_bits_bval[of b n] n room by (auto simp: bb_room_def)
  then have "\<forall>k. bb_room b (n + k) \<longrightarrow> bb_room b' k" by (auto simp: bb_room_def)
  with r show "\<exists>b'. bb_read b n = Some (bval (bb_bytes b) (bb_pos b) n, b') \<and> bb_pos b' = bb_pos b + n \<and>
      bb_bytes b' = bb_bytes b \<and> (\<forall>k. bb_room b (n + k) \<longrightarrow> bb_room b' k)"
    by (auto simp: bb_read_def)
qed (simp add: bb_room_def)

text \<open>What does not fit is refused and moves nothing.\<close>

lemma read_bits_refused:
  "n > RemainingBitCount b \<or> n > 32 \<Longrightarrow> ReadBits b n = Some (None, b)"
  by (auto simp: ReadBits_def PeekBits_def)

lemma new_bb_ok: "n \<le> length m \<Longrightarrow> bb_ok (new_BitBuffer m n) \<and> bb_pos (new_BitBuffer m n) = 0 \<and>
    RemainingBitCount (new_BitBuffer m n) = 8 * n"
  by (auto simp: new_BitBuffer_def bb_ok_def bb_pos_def RemainingBitCount_def)

section \<open>Exp-Golomb codes\<close>

lemma golomb_zeros_code:
  assumes "bb_ok b" "code_at (bb_bytes b) (bb_pos b) z" "z < RemainingBitCount b" "z < n"
  shows "\<exists>b'. golomb_zeros n b k = Some (k + z, b') \<and> bb_ok b' \<and> bb_pos b' = bb_pos b + z \<and>
    bb_bytes b' = bb_bytes b \<and> RemainingBitCount b' = RemainingBitCount b - z"
  using assms
proof (induction n b k arbitrary: z rule: golomb_zeros.induct)
  case (2 n b k)
  obtain v where v: "PeekBits b 1 = Some (Some v)" "unat v = bval (bb_bytes b) (bb_pos b) 1"
    using peek_bits_bval[of b 1] 2 by auto
  show ?case
  proof (cases z)
    case 0
    then have "v \<noteq> 0" using v(2) 2(3) by (auto simp: code_at_def)
    then show ?thesis using v(1) 0 2(2) by simp
  next
    case (Suc y)
    then have "\<not> bit_at (bb_bytes b) (bb_pos b)"
      using 2(3) unfolding code_at_def by (metis add.right_neutral zero_less_Suc)
    then have "v = 0" using v(2) by (simp add: unat_eq_zero[symmetric])
    let ?b = "snd (ConsumeBits b 1)"
    have c: "bb_ok ?b" "bb_pos ?b = bb_pos b + 1" "bb_bytes ?b = bb_bytes b"
      "RemainingBitCount ?b = RemainingBitCount b - 1"
      using consume_bits[of b 1] 2(2,4) by auto
    have "code_at (bb_bytes ?b) (bb_pos ?b) y"
      using 2(3) Suc unfolding c code_at_def by (metis Suc_less_eq add.assoc plus_1_eq_Suc)
    then show ?thesis
      using 2(1)[OF v(1) _ c(1), of y] \<open>v = 0\<close> v(1) Suc 2(4,5) c by simp
  qed
qed simp

lemma read_golomb_code:
  assumes "bb_ok b" "code_at (bb_bytes b) (bb_pos b) z" "z < 32" "2 * z + 1 \<le> RemainingBitCount b"
  shows "\<exists>v b'. ReadExponentialGolomb b = Some (Some v, b') \<and> unat v = ue_at (bb_bytes b) (bb_pos b) z \<and>
    bb_pos b' = bb_pos b + (2 * z + 1)"
proof -
  obtain b1 where b1: "golomb_zeros (Suc (RemainingBitCount b)) b 0 = Some (z, b1)" "bb_ok b1"
    "bb_pos b1 = bb_pos b + z" "bb_bytes b1 = bb_bytes b" "RemainingBitCount b1 = RemainingBitCount b - z"
    using golomb_zeros_code[OF assms(1,2), of "Suc (RemainingBitCount b)" 0] assms(4) by auto
  have "z + 1 \<le> RemainingBitCount b1" "z + 1 \<le> 32" "0 < z + 1" using assms(3,4) b1(5) by auto
  from read_bits_bval[OF b1(2) this] obtain v b2 where v: "ReadBits b1 (z + 1) = Some (Some v, b2)"
    "unat v = bval (bb_bytes b) (bb_pos b + z) (z + 1)" "bb_pos b2 = bb_pos b1 + (z + 1)"
    unfolding b1(3,4) by blast
  have "unat v = Suc (ue_at (bb_bytes b) (bb_pos b) z)" using v(2) ue_at_Suc assms(2) by metis
  then have "unat (v - 1) = ue_at (bb_bytes b) (bb_pos b) z"
    by (metis diff_Suc_1 unat_0 nat.distinct(1) unat_minus_one)
  then show ?thesis
    using b1 v assms(3) by (simp add: ReadExponentialGolomb_def)
qed

text \<open>
  Bitbuffer reads: \<open>rtc::BitBuffer\<close> reads the big-endian number that the next
  \<open>n\<close> bits of its bytes spell, wherever in a byte they start, and moves past exactly these;
  what does not fit the bytes or 32 bits is refused without moving; and an Exp-Golomb code reads as its
  number.
\<close>

theorem bitbuffer_reads:
  assumes "bb_ok b"
  shows "(0 < n \<and> n \<le> 32 \<and> n \<le> RemainingBitCount b \<longrightarrow>
      (\<exists>v b'. ReadBits b n = Some (Some v, b') \<and> unat v = bval (bb_bytes b) (bb_pos b) n \<and> bb_ok b' \<and>
        bb_pos b' = bb_pos b + n \<and> PeekBits b n = Some (Some v))) \<and>
    (n > RemainingBitCount b \<or> n > 32 \<longrightarrow> ReadBits b n = Some (None, b)) \<and>
    (code_at (bb_bytes b) (bb_pos b) z \<and> z < 32 \<and> 2 * z + 1 \<le> RemainingBitCount b \<longrightarrow>
      (\<exists>v b'. ReadExponentialGolomb b = Some (Some v, b') \<and> unat v = ue_at (bb_bytes b) (bb_pos b) z \<and>
        bb_pos b' = bb_pos b + (2 * z + 1)))"
proof (intro conjI impI)
  assume n: "0 < n \<and> n \<le> 32 \<and> n \<le> RemainingBitCount b"
  then obtain v where "PeekBits b n = Some (Some v)" "unat v = bval (bb_bytes b) (bb_pos b) n"
    using peek_bits_bval[OF assms] by blast
  then show "\<exists>v b'. ReadBits b n = Some (Some v, b') \<and> unat v = bval (bb_bytes b) (bb_pos b) n \<and> bb_ok b' \<and>
        bb_pos b' = bb_pos b + n \<and> PeekBits b n = Some (Some v)"
    using consume_bits[OF assms, of n] n by (simp add: ReadBits_def)
qed (use read_bits_refused read_golomb_code[OF assms] in blast)+

theorem bitbuffer_reads_witness:
  "\<exists>v b'. ReadBits (new_BitBuffer [0x17, 0x01, 0xA5] 3) 4 = Some (Some v, b') \<and> unat v = 1"
proof -
  let ?b = "new_BitBuffer [0x17, 0x01, 0xA5] 3"
  have "bb_ok ?b" "RemainingBitCount ?b = 24" by (simp_all add: new_BitBuffer_def bb_ok_def RemainingBitCount_def)
  moreover have "bval (bb_bytes ?b) (bb_pos ?b) 4 = 1"
    using bval_in_byte[of 0 4 "[0x17, 0x01, 0xA5]" 0] by (simp add: new_BitBuffer_def bb_pos_def del: bval.simps)
  ultimately show ?thesis using bitbuffer_reads[of ?b 4] by force
qed

end
