(* ===== verification/BitWriter.thy ===== *)
theory BitWriter
  imports BitBuffer
begin

text \<open>
  \<open>rtc::BitBufferWriter\<close> (\<open>contrib/webrtc/src/webrtc/base/bitbuffer.cc\<close>), the writing half of
  BitBuffer: the writable bytes are the bytes it reads, the position is shared. The outer \<open>None\<close>
  is what C++ leaves undefined (a shift by the width of its operand, a write outside the bytes).
  \<open>wrote\<close> says which bits of the bytes a write sets, and to what; writes one after the other are
  one write of the bits together (\<open>wrote_trans\<close>), which is all the loop's proof needs.
\<close>

definition HighestByte :: "u64 \<Rightarrow> u8" where
  "HighestByte val = ucast (drop_bit 56 val)"

definition WritePartialByte :: "u8 \<Rightarrow> nat \<Rightarrow> u8 \<Rightarrow> nat \<Rightarrow> u8" where
  "WritePartialByte source source_bit_count target target_bit_offset =
     (let msk = drop_bit target_bit_offset (push_bit (8 - source_bit_count) 0xFF)
      in (target AND NOT msk) OR drop_bit target_bit_offset source)"

function CountBits :: "u64 \<Rightarrow> nat" where
  "CountBits val = (if val \<noteq> 0 then Suc (CountBits (drop_bit 1 val)) else 0)"
  by pat_completeness auto

termination
proof (relation "measure unat")
  fix val :: u64
  assume "val \<noteq> 0"
  then have "0 < unat val" by (simp add: unat_gt_0)
  then show "(drop_bit 1 val, val) \<in> measure unat" using unat_drop_bit_1[of val] by simp
qed simp

declare CountBits.simps [simp del]

definition new_BitBufferWriter :: "mem \<Rightarrow> nat \<Rightarrow> BitBuffer" where
  "new_BitBufferWriter bytes n = new_BitBuffer bytes n"

text \<open>The loop over the full bytes: the bytes, the place of the next one, what is left to write.\<close>

fun write_bytes :: "mem \<Rightarrow> nat \<Rightarrow> u64 \<Rightarrow> nat \<Rightarrow> (mem \<times> nat \<times> u64 \<times> nat) option" where
  "write_bytes m p val n =
     (if n \<ge> 8 then do { m \<leftarrow> wr8 m p (HighestByte val); write_bytes m (p + 1) (push_bit 8 val) (n - 8) }
      else Some (m, p, val, n))"

declare write_bytes.simps [simp del]

definition WriteBits :: "BitBuffer \<Rightarrow> u64 \<Rightarrow> nat \<Rightarrow> (bool \<times> BitBuffer) option" where
  "WriteBits b val bit_count =
     (if bit_count > RemainingBitCount b then Some (False, b)
      else if bit_count = 0 \<or> bit_count > 64 then None
      else do {
        let val = push_bit (64 - bit_count) val;
        let remaining_bits_in_current_byte = 8 - bit_offset b;
        let bits_in_first_byte = min bit_count remaining_bits_in_current_byte;
        c \<leftarrow> rd8 (bb_bytes b) (byte_offset b);
        m \<leftarrow> wr8 (bb_bytes b) (byte_offset b)
          (WritePartialByte (HighestByte val) bits_in_first_byte c (bit_offset b));
        if bit_count \<le> remaining_bits_in_current_byte then Some (ConsumeBits (b\<lparr>bb_bytes := m\<rparr>) bit_count)
        else do {
          (m, p, val, n) \<leftarrow> write_bytes m (byte_offset b + 1) (push_bit bits_in_first_byte val)
            (bit_count - bits_in_first_byte);
          m \<leftarrow> (if n > 0 then do { c \<leftarrow> rd8 m p; wr8 m p (WritePartialByte (HighestByte val) n c 0) }
            else Some m);
          Some (ConsumeBits (b\<lparr>bb_bytes := m\<rparr>) bit_count) } })"

definition WriteUInt8 :: "BitBuffer \<Rightarrow> u8 \<Rightarrow> (bool \<times> BitBuffer) option" where
  "WriteUInt8 b val = WriteBits b (ucast val) 8"

definition WriteUInt16 :: "BitBuffer \<Rightarrow> u16 \<Rightarrow> (bool \<times> BitBuffer) option" where
  "WriteUInt16 b val = WriteBits b (ucast val) 16"

definition WriteUInt32 :: "BitBuffer \<Rightarrow> u32 \<Rightarrow> (bool \<times> BitBuffer) option" where
  "WriteUInt32 b val = WriteBits b (ucast val) 32"

definition WriteExponentialGolomb :: "BitBuffer \<Rightarrow> u32 \<Rightarrow> (bool \<times> BitBuffer) option" where
  "WriteExponentialGolomb b val =
     (if val = - 1 then Some (False, b)
      else let val_to_encode = ucast val + 1
        in WriteBits b val_to_encode (CountBits val_to_encode * 2 - 1))"

section \<open>The bits of a write\<close>

text \<open>\<open>m'\<close> is \<open>m\<close> with the \<open>n\<close> bits from \<open>i\<close> on set to the highest \<open>n\<close> bits of \<open>val\<close>.\<close>

definition wrote :: "mem \<Rightarrow> mem \<Rightarrow> nat \<Rightarrow> nat \<Rightarrow> u64 \<Rightarrow> bool" where
  "wrote m m' i n val \<longleftrightarrow> length m' = length m \<and>
     (\<forall>j. bit_at m' j = (if i \<le> j \<and> j < i + n then bit val (63 - (j - i)) else bit_at m j))"

lemma wrote_0 [simp]: "wrote m m i 0 val"
  by (auto simp: wrote_def)

lemma wrote_trans:
  assumes "wrote m m' i a val" "wrote m' m'' (i + a) n (push_bit a val)" "a + n \<le> 64"
  shows "wrote m m'' i (a + n) val"
  unfolding wrote_def
proof (intro conjI allI)
  show "length m'' = length m" using assms by (simp add: wrote_def)
  fix j
  have m'': "bit_at m'' j = (if i + a \<le> j \<and> j < i + a + n then bit (push_bit a val) (63 - (j - (i + a))) else bit_at m' j)"
    using assms(2) by (simp add: wrote_def)
  have m': "bit_at m' j = (if i \<le> j \<and> j < i + a then bit val (63 - (j - i)) else bit_at m j)"
    using assms(1) by (simp add: wrote_def)
  show "bit_at m'' j = (if i \<le> j \<and> j < i + (a + n) then bit val (63 - (j - i)) else bit_at m j)"
  proof (cases "i + a \<le> j \<and> j < i + a + n")
    case True
    then have "63 - (j - (i + a)) - a = 63 - (j - i)" "a \<le> 63 - (j - (i + a))" "63 - (j - (i + a)) < 64"
      using assms(3) by arith+
    then show ?thesis using True m'' by (auto simp: bit_push_bit_iff possible_bit_def)
  next
    case False
    then show ?thesis using m'' m' by auto
  qed
qed

lemma bit_HighestByte: "bit (HighestByte val) k = (k < 8 \<and> bit val (56 + k))"
  by (auto simp: HighestByte_def bit_simps)

lemma bit_WritePartialByte:
  assumes "off + n \<le> 8" "k < 8"
  shows "bit (WritePartialByte source n target off) k =
    ((bit target k \<and> \<not> (8 - off - n \<le> k \<and> k < 8 - off)) \<or> bit source (off + k))"
  unfolding WritePartialByte_def Let_def mask_8_const
  using assms by (auto simp: bit_simps dest: bit_imp_le_length)

text \<open>A byte of which bits are set, the source with nothing below them or filling it to its end.\<close>

lemma wrote_partial:
  assumes p: "p < length m" and off: "off + n \<le> 8"
    and low: "off + n = 8 \<or> (\<forall>k < 64 - n. \<not> bit val k)"
  shows "wrote m (m[p := WritePartialByte (HighestByte val) n (m ! p) off]) (8 * p + off) n val"
  unfolding wrote_def
proof (intro conjI allI)
  fix j
  let ?m = "m[p := WritePartialByte (HighestByte val) n (m ! p) off]"
  show "bit_at ?m j = (if 8 * p + off \<le> j \<and> j < 8 * p + off + n then bit val (63 - (j - (8 * p + off))) else bit_at m j)"
  proof (cases "j div 8 = p")
    case False
    then have "\<not> (8 * p + off \<le> j \<and> j < 8 * p + off + n)" using off by linarith
    then show ?thesis using False by (auto simp: bit_at_def)
  next
    case True
    define r where "r = j mod 8"
    then have j: "j = 8 * p + r" "r < 8" using True by auto
    have b: "bit_at ?m j = ((bit (m ! p) (7 - r) \<and> \<not> (8 - off - n \<le> 7 - r \<and> 7 - r < 8 - off)) \<or>
        bit (HighestByte val) (off + (7 - r)))"
      using p True bit_WritePartialByte[OF off, of "7 - r" "HighestByte val" "m ! p"]
      by (simp add: bit_at_def r_def)
    have old: "bit_at m j = bit (m ! p) (7 - r)" using True by (simp add: bit_at_def r_def)
    consider (below) "r < off" | (field) "off \<le> r" "r < off + n" | (above) "off + n \<le> r" by linarith
    then show ?thesis
    proof cases
      case below
      then have "\<not> off + (7 - r) < 8" using j(2) by arith
      then show ?thesis using below j b old by (auto simp: bit_HighestByte)
    next
      case field
      then have "off + (7 - r) < 8" "56 + (off + (7 - r)) = 63 - (r - off)" using j(2) off by arith+
      moreover have "8 - off - n \<le> 7 - r \<and> 7 - r < 8 - off" using field off j(2) by arith
      ultimately show ?thesis using field j b unfolding bit_HighestByte by simp
    next
      case above
      then have "off + n \<noteq> 8" using j(2) by simp
      then have "\<not> bit val (56 + (off + (7 - r)))" using low above j(2) by auto
      moreover have "\<not> 8 - off - n \<le> 7 - r" using above j(2) off by arith
      ultimately show ?thesis using above j b old by (simp add: bit_HighestByte)
    qed
  qed
qed simp

lemma wrote_byte:
  assumes "p < length m"
  shows "wrote m (m[p := HighestByte val]) (8 * p) 8 val"
proof -
  have "WritePartialByte (HighestByte val) 8 (m ! p) 0 = HighestByte val"
  proof (rule bit_word_eqI)
    fix k assume "k < LENGTH(8)"
    then show "bit (WritePartialByte (HighestByte val) 8 (m ! p) 0) k = bit (HighestByte val) k"
      using bit_WritePartialByte[of 0 8 k "HighestByte val" "m ! p"] by simp
  qed
  then show ?thesis using wrote_partial[OF assms, of 0 8 val] by simp
qed

lemma write_bytes_wrote:
  assumes "8 * p + n \<le> 8 * length m" "n \<le> 64"
  shows "\<exists>m'. write_bytes m p val n = Some (m', p + n div 8, push_bit (n div 8 * 8) val, n mod 8) \<and>
    wrote m m' (8 * p) (n div 8 * 8) val"
  using assms
proof (induction m p val n rule: write_bytes.induct)
  case (1 m p val n)
  show ?case
  proof (cases "n \<ge> 8")
    case True
    let ?m = "m[p := HighestByte val]"
    have p: "p < length m" using 1(2) True by simp
    then have w: "wr8 m p (HighestByte val) = Some ?m" by (simp add: wr8_def)
    have n: "n div 8 = Suc ((n - 8) div 8)" "n mod 8 = (n - 8) mod 8" using True by (simp_all add: le_div_geq le_mod_geq)
    have room: "8 * (p + 1) + (n - 8) \<le> 8 * length ?m" "n - 8 \<le> 64" using 1(2,3) True by simp_all
    obtain m' where m': "write_bytes ?m (p + 1) (push_bit 8 val) (n - 8) =
        Some (m', p + 1 + (n - 8) div 8, push_bit ((n - 8) div 8 * 8) (push_bit 8 val), (n - 8) mod 8)"
      "wrote ?m m' (8 * (p + 1)) ((n - 8) div 8 * 8) (push_bit 8 val)"
      using 1(1)[OF True w room] by blast
    have "8 + (n - 8) div 8 * 8 \<le> 64" using 1(3) True by simp
    then have "wrote m m' (8 * p) (8 + (n - 8) div 8 * 8) val"
      using m'(2) by (intro wrote_trans[OF wrote_byte[OF p]]) (simp_all add: algebra_simps)
    then show ?thesis using m'(1) w True n
      by (simp add: write_bytes.simps[of m p] add.commute)
  qed (simp add: write_bytes.simps[of m p val n])
qed

lemma low_bits_push: "k < a \<Longrightarrow> \<not> bit (push_bit a val :: u64) k"
  by (simp add: bit_push_bit_iff)

lemma write_bits_over:
  assumes "byte_offset b < length (bb_bytes b)" "n \<le> RemainingBitCount b" "0 < n" "n \<le> 64" "\<not> n \<le> 8 - bit_offset b"
    and "v = push_bit (64 - n) val" "a = 8 - bit_offset b" "m = (bb_bytes b)[byte_offset b :=
      WritePartialByte (HighestByte v) a (bb_bytes b ! byte_offset b) (bit_offset b)]"
  shows "WriteBits b val n = do {
    (m, p, v, k) \<leftarrow> write_bytes m (byte_offset b + 1) (push_bit a v) (n - a);
    m \<leftarrow> (if k > 0 then do { c \<leftarrow> rd8 m p; wr8 m p (WritePartialByte (HighestByte v) k c 0) } else Some m);
    Some (ConsumeBits (b\<lparr>bb_bytes := m\<rparr>) n) }"
proof -
  have "min n (8 - bit_offset b) = 8 - bit_offset b" using assms(5) by simp
  then show ?thesis
    unfolding WriteBits_def assms(6-8) Let_def using assms(1-5) by (simp add: rd8_def wr8_def del: push_bit_push_bit)
qed

text \<open>The whole write, its value moved to the top of the word.\<close>

lemma write_bits_wrote:
  assumes ok: "bb_ok b" and n: "0 < n" "n \<le> 64" "n \<le> RemainingBitCount b"
  shows "\<exists>m'. WriteBits b val n = Some (ConsumeBits (b\<lparr>bb_bytes := m'\<rparr>) n) \<and>
    wrote (bb_bytes b) m' (bb_pos b) n (push_bit (64 - n) val)"
proof -
  let ?m = "bb_bytes b" and ?p = "byte_offset b" and ?o = "bit_offset b" and ?v = "push_bit (64 - n) val"
  have o: "?o < 8" "8 * ?p + ?o + n \<le> 8 * length ?m"
    using ok n(3) n(1) by (auto simp: bb_ok_def RemainingBitCount_def)
  then have p: "?p < length ?m" using n(1) by linarith
  define a where "a = min n (8 - ?o)"
  define m1 where "m1 = ?m[?p := WritePartialByte (HighestByte ?v) a (?m ! ?p) ?o]"
  have "?o + a = 8 \<or> a = n" using o by (auto simp: a_def)
  then have w1: "wrote ?m m1 (8 * ?p + ?o) a ?v"
    unfolding m1_def using o p by (intro wrote_partial) (auto simp: a_def low_bits_push)
  show ?thesis
  proof (cases "n \<le> 8 - ?o")
    case True
    then have "a = n" by (simp add: a_def)
    then show ?thesis using w1 p n True
      by (intro exI[of _ m1]) (simp add: WriteBits_def Let_def rd8_def wr8_def m1_def a_def bb_pos_def)
  next
    case False
    then have a: "a = 8 - ?o" "?o + a = 8" "a < n" using o by (auto simp: a_def)
    define r where "r = n - a"
    have r8: "r div 8 * 8 + r mod 8 = r" and ar: "a + r = n" using a(3) by (simp_all add: r_def)
    define d e where "d = r div 8" and "e = r mod 8"
    have m1: "length m1 = length ?m" by (simp add: m1_def)
    have room: "8 * (?p + 1) + r \<le> 8 * length m1" "r \<le> 64" using o a n(2) m1 ar by simp_all
    obtain m2 where m2: "write_bytes m1 (?p + 1) (push_bit a ?v) r =
        Some (m2, ?p + 1 + r div 8, push_bit (r div 8 * 8) (push_bit a ?v), r mod 8)"
      "wrote m1 m2 (8 * (?p + 1)) (r div 8 * 8) (push_bit a ?v)"
      using write_bytes_wrote[OF room] by blast
    have len2: "length m2 = length ?m" using m2(2) m1 by (simp add: wrote_def)
    have w2: "wrote ?m m2 (8 * ?p + ?o) (a + r div 8 * 8) ?v"
      using m2(2) a ar r8 n(2) by (intro wrote_trans[OF w1]) (simp_all add: algebra_simps)
    let ?t = "push_bit (r div 8 * 8) (push_bit a ?v)" and ?q = "?p + 1 + r div 8"
    have t: "?t = push_bit (a + r div 8 * 8) ?v"
      unfolding push_bit_push_bit by (rule arg_cong[where f = "\<lambda>k. push_bit k val"]) simp
    obtain m3 where m3: "(if r mod 8 > 0 then do { c \<leftarrow> rd8 m2 ?q; wr8 m2 ?q (WritePartialByte (HighestByte ?t) (r mod 8) c 0) }
          else Some m2) = Some m3" "wrote m2 m3 (8 * ?q) (r mod 8) ?t"
    proof (cases "r mod 8 > 0")
      case True
      then have q: "?q < length m2" using room(1) m1 len2 r8 unfolding d_def[symmetric] e_def[symmetric] by presburger
      have "\<not> bit ?t k" if "k < 64 - r mod 8" for k
      proof -
        have "?t = push_bit (a + r div 8 * 8 + (64 - n)) val" 
          unfolding push_bit_push_bit by (rule arg_cong[where f = "\<lambda>k. push_bit k val"]) simp
        moreover have "64 - r mod 8 = a + r div 8 * 8 + (64 - n)" using ar n(2) r8 unfolding d_def[symmetric] e_def[symmetric] by linarith
        ultimately show ?thesis using that low_bits_push by metis
      qed
      then have "wrote m2 (m2[?q := WritePartialByte (HighestByte ?t) (r mod 8) (m2 ! ?q) 0]) (8 * ?q + 0) (r mod 8) ?t"
        using q by (intro wrote_partial) auto
      then show ?thesis using that True q by (simp add: rd8_def wr8_def)
    next
      case False
      then show ?thesis using that[of m2] by simp
    qed
    have "wrote ?m m3 (8 * ?p + ?o) (a + r div 8 * 8 + r mod 8) ?v"
      using m3(2) a ar r8 n(2) unfolding t by (intro wrote_trans[OF w2]) (simp_all add: algebra_simps)
    then have w3: "wrote ?m m3 (bb_pos b) n ?v" using ar r8 unfolding add.assoc r8 by (simp add: bb_pos_def)
    have "WriteBits b val n = Some (ConsumeBits (b\<lparr>bb_bytes := m3\<rparr>) n)"
      unfolding write_bits_over[OF p n(3,1,2) False refl a(1), folded a(1), OF m1_def] r_def[symmetric] m2(1)
      by (simp only: bind.bind_lunit prod.case m3(1))
    then show ?thesis using w3 by blast
  qed
qed

text \<open>Read back: the bits written spell the value, so the reader of the same bytes gets it.\<close>

lemma wrote_bval:
  assumes "wrote m m' i n (push_bit (64 - n) val)" "n \<le> 64"
  shows "bval m' i n = unat val mod 2 ^ n"
proof -
  have "unat (take_bit n val) = bval m' i n"
  proof (rule unat_bits_bval)
    fix j assume j: "j < n"
    then have "63 - j - (64 - n) = n - 1 - j" "64 - n \<le> 63 - j" "63 - j < 64" using assms(2) by arith+
    then show "bit (take_bit n val) (n - 1 - j) = bit_at m' (i + j)"
      using assms(1) j by (auto simp: wrote_def bit_simps)
  qed (simp add: bit_take_bit_iff)
  then show ?thesis by (simp only: unsigned_take_bit_eq) (simp add: take_bit_eq_mod)
qed

lemma CountBits_bounds: "unat val < 2 ^ CountBits val \<and> (val \<noteq> 0 \<longrightarrow> 2 ^ (CountBits val - 1) \<le> unat val)"
proof (induction val rule: CountBits.induct)
  case (1 val)
  let ?h = "drop_bit 1 val"
  show ?case
  proof (cases "val = 0")
    case False
    have h: "unat ?h = unat val div 2" by (rule unat_drop_bit_1)
    have IH: "unat ?h < 2 ^ CountBits ?h" "?h \<noteq> 0 \<longrightarrow> 2 ^ (CountBits ?h - 1) \<le> unat ?h"
      using 1[OF False] by auto
    have c: "CountBits val = Suc (CountBits ?h)" using False CountBits.simps[of val] by simp
    have "unat val < 2 * 2 ^ CountBits ?h" using IH(1) h by linarith
    moreover have "2 ^ CountBits ?h \<le> unat val"
    proof (cases "?h = 0")
      case True
      then show ?thesis using False CountBits.simps[of 0] by (simp add: unat_gt_0 Suc_le_eq)
    next
      case h0: False
      then have "2 ^ CountBits ?h = 2 * (2::nat) ^ (CountBits ?h - 1)"
        using CountBits.simps[of ?h] by simp
      then show ?thesis using IH(2) h h0 by linarith
    qed
    ultimately show ?thesis by (simp add: c)
  qed (simp add: CountBits.simps)
qed

lemma CountBits_le: "unat val < 2 ^ n \<Longrightarrow> CountBits val \<le> n"
proof (rule ccontr)
  assume a: "unat val < 2 ^ n" "\<not> CountBits val \<le> n"
  then have "val \<noteq> 0" using CountBits.simps[of 0] by auto
  then have "2 ^ (CountBits val - 1) \<le> unat val" using CountBits_bounds by blast
  moreover have "(2::nat) ^ n \<le> 2 ^ (CountBits val - 1)" using a(2) by (intro power_increasing) auto
  ultimately show False using a(1) by linarith
qed

lemma wrote_code:
  assumes "wrote m m' i (2 * z + 1) (push_bit (64 - (2 * z + 1)) val)" "2 * z + 1 \<le> 64"
    and "2 ^ z \<le> unat val" "unat val < 2 ^ (z + 1)"
  shows "code_at m' i z \<and> ue_at m' i z = unat val - 1"
proof -
  have v: "bval m' i (z + (z + 1)) = unat val"
  proof -
    have "(2::nat) ^ (z + 1) \<le> 2 ^ (2 * z + 1)" by (intro power_increasing) auto
    then show ?thesis using wrote_bval[OF assms(1,2)] assms(4) by (simp add: mult_2 del: bval.simps)
  qed
  have zeros: "\<not> bit_at m' (i + j)" if "j < z" for j
  proof -
    have "63 - j - (64 - (2 * z + 1)) = 2 * z - j" "63 - j < 64" "z + 1 \<le> 2 * z - j"
      using that assms(2) by arith+
    moreover have "\<not> bit val (2 * z - j)"
      using not_bit_unat_less[OF assms(4)] \<open>z + 1 \<le> 2 * z - j\<close> by blast
    ultimately show ?thesis using assms(1) that by (auto simp: wrote_def bit_simps)
  qed
  then have rest: "bval m' (i + z) (z + 1) = unat val"
    using v bval_add[of m' i z "z + 1"] bval_zeros[of z m' i] by simp
  have "bit_at m' (i + z)"
  proof (rule ccontr)
    assume "\<not> bit_at m' (i + z)"
    then have "bval m' (i + z) (1 + z) = bval m' (i + z + 1) z" unfolding bval_add by simp
    then show False using rest bval_less[of m' "i + z + 1" z] assms(3) by simp
  qed
  then show ?thesis using zeros rest by (simp add: code_at_def ue_at_def del: bval.simps)
qed

lemma golomb_value:
  assumes "val \<noteq> - 1"
  defines "v \<equiv> ucast (val :: u32) + 1 :: u64"
  shows "unat v = unat val + 1" "CountBits v \<noteq> 0" "CountBits v \<le> 32"
proof -
  have "unat val \<noteq> unat (- 1 :: u32)" using assms(1) by (metis word_unat_eq_iff)
  moreover have "unat (- 1 :: u32) = 2 ^ 32 - 1" by (simp add: unsigned_minus_1_eq_mask mask_eq_exp_minus_1)
  moreover have "unat val < 2 ^ 32" using unsigned_less[of val, where 'a = nat] by simp
  ultimately have less: "unat val + 1 < 2 ^ 32" by linarith
  then show v: "unat v = unat val + 1"
    by (simp add: v_def unat_word_ariths unsigned_ucast_eq take_bit_nat_eq_self)
  then have "v \<noteq> 0" by auto
  then show "CountBits v \<noteq> 0" by (simp add: CountBits.simps[of v])
  show "CountBits v \<le> 32" using v less by (intro CountBits_le) simp
qed

text \<open>Back to the place the write started from.\<close>

definition rewound :: "BitBuffer \<Rightarrow> BitBuffer \<Rightarrow> BitBuffer" where
  "rewound b' b = snd (Seek b' (byte_offset b) (bit_offset b))"

lemma written:
  assumes ok: "bb_ok b" and n: "0 < n" "n \<le> 64" "n \<le> RemainingBitCount b"
  obtains b' where "WriteBits b val n = Some (True, b')" "bb_ok b'" "bb_pos b' = bb_pos b + n"
    "wrote (bb_bytes b) (bb_bytes b') (bb_pos b) n (push_bit (64 - n) val)"
    "bb_ok (rewound b' b)" "bb_pos (rewound b' b) = bb_pos b" "bb_bytes (rewound b' b) = bb_bytes b'"
    "RemainingBitCount (rewound b' b) = RemainingBitCount b"
proof -
  obtain m' where w: "WriteBits b val n = Some (ConsumeBits (b\<lparr>bb_bytes := m'\<rparr>) n)"
    "wrote (bb_bytes b) m' (bb_pos b) n (push_bit (64 - n) val)"
    using write_bits_wrote[OF assms] by blast
  let ?c = "b\<lparr>bb_bytes := m'\<rparr>"
  let ?b = "snd (ConsumeBits ?c n)"
  have rem: "n \<le> RemainingBitCount ?c" using n(3) by (simp add: RemainingBitCount_def)
  have ok': "bb_ok ?c" using ok w(2) by (simp add: bb_ok_def wrote_def)
  note c = consume_bits[OF ok' rem]
  have t: "ConsumeBits ?c n = (True, ?b)" using rem by (simp add: ConsumeBits_def)
  have "byte_offset b < byte_count b" using n(1,3) by (auto simp: RemainingBitCount_def)
  then have r: "rewound ?b b = ?b\<lparr>byte_offset := byte_offset b, bit_offset := bit_offset b\<rparr>"
    using ok c(5) by (simp add: rewound_def Seek_def bb_ok_def)
  show ?thesis
  proof (rule that)
    show "WriteBits b val n = Some (True, ?b)" using w(1) t by simp
    show "bb_ok ?b" "bb_pos ?b = bb_pos b + n" using c(1,2) by (simp_all add: bb_pos_def)
    show "wrote (bb_bytes b) (bb_bytes ?b) (bb_pos b) n (push_bit (64 - n) val)" using w(2) c(3) by simp
    show "bb_ok (rewound ?b b)" "bb_pos (rewound ?b b) = bb_pos b" "bb_bytes (rewound ?b b) = bb_bytes ?b"
      "RemainingBitCount (rewound ?b b) = RemainingBitCount b"
      using r ok ok' c(3,5) by (simp_all add: bb_ok_def bb_pos_def RemainingBitCount_def)
  qed
qed

lemma write_bits_refused: "n > RemainingBitCount b \<Longrightarrow> WriteBits b val n = Some (False, b)"
  by (simp add: WriteBits_def)

lemma write_read_golomb:
  assumes ok: "bb_ok b" and val: "val \<noteq> - 1"
    and room: "2 * CountBits (ucast val + 1) - 1 \<le> RemainingBitCount b"
  shows "\<exists>b' b''. WriteExponentialGolomb b val = Some (True, b') \<and>
    ReadExponentialGolomb (rewound b' b) = Some (Some val, b'') \<and> bb_pos b'' = bb_pos b'"
proof -
  let ?v = "ucast val + 1 :: u64"
  define z where "z = CountBits ?v - 1"
  note g = golomb_value[OF val]
  have z: "CountBits ?v = Suc z" "z < 32" "2 * CountBits ?v - 1 = 2 * z + 1" using g(2,3) by (auto simp: z_def)
  then have n: "0 < 2 * z + 1" "2 * z + 1 \<le> 64" "2 * z + 1 \<le> RemainingBitCount b" using room by auto
  obtain b' where b': "WriteBits b ?v (2 * z + 1) = Some (True, b')" "bb_pos b' = bb_pos b + (2 * z + 1)"
    "wrote (bb_bytes b) (bb_bytes b') (bb_pos b) (2 * z + 1) (push_bit (64 - (2 * z + 1)) ?v)"
    "bb_ok (rewound b' b)" "bb_pos (rewound b' b) = bb_pos b" "bb_bytes (rewound b' b) = bb_bytes b'"
    "RemainingBitCount (rewound b' b) = RemainingBitCount b"
    using written[OF ok n, of ?v] by blast
  have "?v \<noteq> 0" using g(1) by auto
  then have "2 ^ z \<le> unat ?v" "unat ?v < 2 ^ (z + 1)" using CountBits_bounds[of ?v] z(1) by simp_all
  then have code: "code_at (bb_bytes b') (bb_pos b) z" "ue_at (bb_bytes b') (bb_pos b) z = unat val"
    using wrote_code[OF b'(3) n(2)] g(1) by simp_all
  obtain v b'' where r: "ReadExponentialGolomb (rewound b' b) = Some (Some v, b'')" "unat v = unat val"
    "bb_pos b'' = bb_pos b'"
    using read_golomb_code[OF b'(4), of z] code z(2) n(3) unfolding b'(2,5,6,7) by auto
  have "v = val" using r(2) by (simp add: word_unat_eq_iff)
  then show ?thesis using b'(1) r val z(3) by (simp add: WriteExponentialGolomb_def mult.commute)
qed

text \<open>
  C26: bitbuffer_write_read. \<open>rtc::BitBufferWriter\<close> sets exactly the next \<open>n\<close>
  bits, wherever in a byte they start, to the lowest \<open>n\<close> bits of the value, leaves every
  other bit as it was and moves past them, so that reading from the place the write started gives the
  value back; an Exp-Golomb code it writes reads as its number and ends where it ends; and a value that
  does not fit is refused without a change.
\<close>

theorem bitbuffer_write_read:
  assumes "bb_ok b"
  shows "(0 < n \<and> n \<le> 64 \<and> n \<le> RemainingBitCount b \<longrightarrow>
      (\<exists>b'. WriteBits b val n = Some (True, b') \<and> bb_ok b' \<and> bb_pos b' = bb_pos b + n \<and>
        bval (bb_bytes b') (bb_pos b) n = unat val mod 2 ^ n \<and>
        (\<forall>j. j < bb_pos b \<or> bb_pos b + n \<le> j \<longrightarrow> bit_at (bb_bytes b') j = bit_at (bb_bytes b) j) \<and>
        (n \<le> 32 \<longrightarrow> (\<exists>v b''. ReadBits (rewound b' b) n = Some (Some v, b'') \<and> unat v = unat val mod 2 ^ n)))) \<and>
    (w \<noteq> - 1 \<and> 2 * CountBits (ucast w + 1) - 1 \<le> RemainingBitCount b \<longrightarrow>
      (\<exists>b' b''. WriteExponentialGolomb b w = Some (True, b') \<and>
        ReadExponentialGolomb (rewound b' b) = Some (Some w, b'') \<and> bb_pos b'' = bb_pos b')) \<and>
    (n > RemainingBitCount b \<longrightarrow> WriteBits b val n = Some (False, b)) \<and>
    WriteExponentialGolomb b (- 1) = Some (False, b)"
proof (intro conjI impI)
  assume n: "0 < n \<and> n \<le> 64 \<and> n \<le> RemainingBitCount b"
  then obtain b' where b': "WriteBits b val n = Some (True, b')" "bb_ok b'" "bb_pos b' = bb_pos b + n"
    "wrote (bb_bytes b) (bb_bytes b') (bb_pos b) n (push_bit (64 - n) val)"
    "bb_ok (rewound b' b)" "bb_pos (rewound b' b) = bb_pos b" "bb_bytes (rewound b' b) = bb_bytes b'"
    "RemainingBitCount (rewound b' b) = RemainingBitCount b"
    using written[OF assms, of n val] by blast
  have v: "bval (bb_bytes b') (bb_pos b) n = unat val mod 2 ^ n" using wrote_bval[OF b'(4)] n by blast
  have "n \<le> 32 \<longrightarrow> (\<exists>v b''. ReadBits (rewound b' b) n = Some (Some v, b'') \<and> unat v = unat val mod 2 ^ n)"
    using read_bits_bval[OF b'(5), of n] n unfolding b'(6,7,8) v by blast
  moreover have "\<forall>j. j < bb_pos b \<or> bb_pos b + n \<le> j \<longrightarrow> bit_at (bb_bytes b') j = bit_at (bb_bytes b) j"
    using b'(4) by (simp add: wrote_def)
  ultimately show "\<exists>b'. WriteBits b val n = Some (True, b') \<and> bb_ok b' \<and> bb_pos b' = bb_pos b + n \<and>
      bval (bb_bytes b') (bb_pos b) n = unat val mod 2 ^ n \<and>
      (\<forall>j. j < bb_pos b \<or> bb_pos b + n \<le> j \<longrightarrow> bit_at (bb_bytes b') j = bit_at (bb_bytes b) j) \<and>
      (n \<le> 32 \<longrightarrow> (\<exists>v b''. ReadBits (rewound b' b) n = Some (Some v, b'') \<and> unat v = unat val mod 2 ^ n))"
    using b'(1,2,3) v by blast
qed (use write_read_golomb[OF assms] write_bits_refused in \<open>auto simp: WriteExponentialGolomb_def\<close>)

theorem bitbuffer_write_read_witness:
  "\<exists>b' b''. WriteExponentialGolomb (new_BitBufferWriter [0, 0, 0] 3) 5 = Some (True, b') \<and>
    ReadExponentialGolomb (rewound b' (new_BitBufferWriter [0, 0, 0] 3)) = Some (Some 5, b'') \<and> bb_pos b'' = bb_pos b'"
proof -
  let ?b = "new_BitBufferWriter [0, 0, 0] 3"
  have ok: "bb_ok ?b" "RemainingBitCount ?b = 24"
    by (simp_all add: new_BitBufferWriter_def new_BitBuffer_def bb_ok_def RemainingBitCount_def)
  have "CountBits (ucast (5 :: u32) + 1) \<le> 3" by (rule CountBits_le) simp
  then show ?thesis using bitbuffer_write_read[OF ok(1), of 8 0 5] ok(2) by simp
qed

end
