(* ===== verification/GetBits.thy ===== *)
theory GetBits
  imports ByteOrder Bits
begin

text \<open>
  The bit reader of \<open>src/src/xutil/get_bits.h\<close> (big endian: the build defines no
  \<open>BITSTREAM_READER_LE\<close>). A reader gives its value and the moved context, or \<open>None\<close> when it
  loads outside the buffer, fails an \<open>assert\<close> or shifts by a negative count. The values are
  the 32 bits the code returns, whether it calls them \<open>int\<close> or \<open>unsigned\<close>. The reference is
  the bit string of the buffer: \<open>bit_at\<close> its bits, \<open>bval\<close> the number a run of them spells,
  \<open>code_at\<close> an Exp-Golomb code; the table and the arithmetic paths are shown to read it.
\<close>

section \<open>The context\<close>

record GetBitContext =
  gb_buffer :: mem
  gb_buffer_end :: nat
  gb_index :: u32
  gb_size_in_bits :: u32
  gb_size_in_bits_plus8 :: u32

text \<open>The null pointer is the empty memory: no byte can be read through either.\<close>

definition init_get_bits :: "mem option \<Rightarrow> int \<Rightarrow> bool \<times> GetBitContext" where
  "init_get_bits buffer bit_size =
     (let bad = bit_size \<ge> INT_MAX - 7 \<or> bit_size < 0 \<or> buffer = None;
          bit_size = (if bad then 0 else bit_size);
          buf = (if bad then [] else the buffer)
      in (\<not> bad, \<lparr> gb_buffer = buf, gb_buffer_end = nat ((bit_size + 7) div 8), gb_index = 0,
           gb_size_in_bits = of_int bit_size, gb_size_in_bits_plus8 = of_int (bit_size + 8) \<rparr>))"

text \<open>\<open>LAST_SKIP_BITS\<close> and \<open>CLOSE_READER\<close>; \<open>UPDATE_CACHE\<close>; \<open>SHOW_UBITS\<close>.\<close>

definition LAST_SKIP_BITS :: "GetBitContext \<Rightarrow> u32 \<Rightarrow> u32 \<Rightarrow> u32" where
  "LAST_SKIP_BITS gb index num = min (gb_size_in_bits_plus8 gb) (index + num)"

definition UPDATE_CACHE :: "GetBitContext \<Rightarrow> u32 \<Rightarrow> u32 option" where
  "UPDATE_CACHE gb index = do {
     x \<leftarrow> ld32 (gb_buffer gb) (unat (drop_bit 3 index));
     Some (push_bit (unat (index AND 7)) (htonl x)) }"

definition NEG_USR32 :: "u32 \<Rightarrow> nat \<Rightarrow> u32" where
  "NEG_USR32 a s = drop_bit (32 - s) a"

definition skip_bits :: "GetBitContext \<Rightarrow> u32 \<Rightarrow> GetBitContext" where
  "skip_bits gb n = gb\<lparr>gb_index := LAST_SKIP_BITS gb (gb_index gb) n\<rparr>"

definition skip_bits1 :: "GetBitContext \<Rightarrow> GetBitContext" where
  "skip_bits1 gb = skip_bits gb 1"

definition get_bits1 :: "GetBitContext \<Rightarrow> (u32 \<times> GetBitContext) option" where
  "get_bits1 gb = do {
     result \<leftarrow> rd8 (gb_buffer gb) (unat (drop_bit 3 (gb_index gb)));
     let result = drop_bit 7 (push_bit (unat (gb_index gb AND 7)) result);
     let index = (if gb_index gb <s gb_size_in_bits_plus8 gb then gb_index gb + 1 else gb_index gb);
     Some (ucast result, gb\<lparr>gb_index := index\<rparr>) }"

definition get_bits :: "GetBitContext \<Rightarrow> nat \<Rightarrow> (u32 \<times> GetBitContext) option" where
  "get_bits gb n =
     (if 0 < n \<and> n \<le> 25 then do {
        cache \<leftarrow> UPDATE_CACHE gb (gb_index gb);
        Some (NEG_USR32 cache n, skip_bits gb (of_nat n)) }
      else None)"

function av_log2 :: "u32 \<Rightarrow> nat" where
  "av_log2 v = (if drop_bit 1 v = 0 then 0 else Suc (av_log2 (drop_bit 1 v)))"
  by auto
termination
  by (relation "measure unat")
    (auto simp: drop_bit_eq_div unat_div word_greater_zero_iff unat_gt_0 simp flip: unat_gt_0)

declare av_log2.simps [simp del]

section \<open>The Golomb tables\<close>

definition ff_golomb_vlc_len :: "nat list" where
  "ff_golomb_vlc_len = [19,17,15,15,13,13,13,13,11,11,11,11,11,11,11,11,9,9,9,9,9,9,9,9,9,9,9,9,9,9,9,9] @
     [7,7,7,7,7,7,7,7,7,7,7,7,7,7,7,7,7,7,7,7,7,7,7,7,7,7,7,7,7,7,7,7] @
     [5,5,5,5,5,5,5,5,5,5,5,5,5,5,5,5,5,5,5,5,5,5,5,5,5,5,5,5,5,5,5,5] @
     [5,5,5,5,5,5,5,5,5,5,5,5,5,5,5,5,5,5,5,5,5,5,5,5,5,5,5,5,5,5,5,5] @
     [3,3,3,3,3,3,3,3,3,3,3,3,3,3,3,3,3,3,3,3,3,3,3,3,3,3,3,3,3,3,3,3] @
     [3,3,3,3,3,3,3,3,3,3,3,3,3,3,3,3,3,3,3,3,3,3,3,3,3,3,3,3,3,3,3,3] @
     [3,3,3,3,3,3,3,3,3,3,3,3,3,3,3,3,3,3,3,3,3,3,3,3,3,3,3,3,3,3,3,3] @
     [3,3,3,3,3,3,3,3,3,3,3,3,3,3,3,3,3,3,3,3,3,3,3,3,3,3,3,3,3,3,3,3] @
     [1,1,1,1,1,1,1,1,1,1,1,1,1,1,1,1,1,1,1,1,1,1,1,1,1,1,1,1,1,1,1,1] @
     [1,1,1,1,1,1,1,1,1,1,1,1,1,1,1,1,1,1,1,1,1,1,1,1,1,1,1,1,1,1,1,1] @
     [1,1,1,1,1,1,1,1,1,1,1,1,1,1,1,1,1,1,1,1,1,1,1,1,1,1,1,1,1,1,1,1] @
     [1,1,1,1,1,1,1,1,1,1,1,1,1,1,1,1,1,1,1,1,1,1,1,1,1,1,1,1,1,1,1,1] @
     [1,1,1,1,1,1,1,1,1,1,1,1,1,1,1,1,1,1,1,1,1,1,1,1,1,1,1,1,1,1,1,1] @
     [1,1,1,1,1,1,1,1,1,1,1,1,1,1,1,1,1,1,1,1,1,1,1,1,1,1,1,1,1,1,1,1] @
     [1,1,1,1,1,1,1,1,1,1,1,1,1,1,1,1,1,1,1,1,1,1,1,1,1,1,1,1,1,1,1,1] @
     [1,1,1,1,1,1,1,1,1,1,1,1,1,1,1,1,1,1,1,1,1,1,1,1,1,1,1,1,1,1,1,1]"

definition ff_ue_golomb_vlc_code :: "nat list" where
  "ff_ue_golomb_vlc_code = [32,32,32,32,32,32,32,32,31,32,32,32,32,32,32,32,15,16,17,18,19,20,21,22,23,24,25,26,27,28,29,30] @
     [7,7,7,7,8,8,8,8,9,9,9,9,10,10,10,10,11,11,11,11,12,12,12,12,13,13,13,13,14,14,14,14] @
     [3,3,3,3,3,3,3,3,3,3,3,3,3,3,3,3,4,4,4,4,4,4,4,4,4,4,4,4,4,4,4,4] @
     [5,5,5,5,5,5,5,5,5,5,5,5,5,5,5,5,6,6,6,6,6,6,6,6,6,6,6,6,6,6,6,6] @
     [1,1,1,1,1,1,1,1,1,1,1,1,1,1,1,1,1,1,1,1,1,1,1,1,1,1,1,1,1,1,1,1] @
     [1,1,1,1,1,1,1,1,1,1,1,1,1,1,1,1,1,1,1,1,1,1,1,1,1,1,1,1,1,1,1,1] @
     [2,2,2,2,2,2,2,2,2,2,2,2,2,2,2,2,2,2,2,2,2,2,2,2,2,2,2,2,2,2,2,2] @
     [2,2,2,2,2,2,2,2,2,2,2,2,2,2,2,2,2,2,2,2,2,2,2,2,2,2,2,2,2,2,2,2] @
     [0,0,0,0,0,0,0,0,0,0,0,0,0,0,0,0,0,0,0,0,0,0,0,0,0,0,0,0,0,0,0,0] @
     [0,0,0,0,0,0,0,0,0,0,0,0,0,0,0,0,0,0,0,0,0,0,0,0,0,0,0,0,0,0,0,0] @
     [0,0,0,0,0,0,0,0,0,0,0,0,0,0,0,0,0,0,0,0,0,0,0,0,0,0,0,0,0,0,0,0] @
     [0,0,0,0,0,0,0,0,0,0,0,0,0,0,0,0,0,0,0,0,0,0,0,0,0,0,0,0,0,0,0,0] @
     [0,0,0,0,0,0,0,0,0,0,0,0,0,0,0,0,0,0,0,0,0,0,0,0,0,0,0,0,0,0,0,0] @
     [0,0,0,0,0,0,0,0,0,0,0,0,0,0,0,0,0,0,0,0,0,0,0,0,0,0,0,0,0,0,0,0] @
     [0,0,0,0,0,0,0,0,0,0,0,0,0,0,0,0,0,0,0,0,0,0,0,0,0,0,0,0,0,0,0,0] @
     [0,0,0,0,0,0,0,0,0,0,0,0,0,0,0,0,0,0,0,0,0,0,0,0,0,0,0,0,0,0,0,0]"

definition ff_se_golomb_vlc_code :: "int list" where
  "ff_se_golomb_vlc_code = [17,17,17,17,17,17,17,17,16,17,17,17,17,17,17,17,8,-8,9,-9,10,-10,11,-11,12,-12,13,-13,14,-14,15,-15] @
     [4,4,4,4,-4,-4,-4,-4,5,5,5,5,-5,-5,-5,-5,6,6,6,6,-6,-6,-6,-6,7,7,7,7,-7,-7,-7,-7] @
     [2,2,2,2,2,2,2,2,2,2,2,2,2,2,2,2,-2,-2,-2,-2,-2,-2,-2,-2,-2,-2,-2,-2,-2,-2,-2,-2] @
     [3,3,3,3,3,3,3,3,3,3,3,3,3,3,3,3,-3,-3,-3,-3,-3,-3,-3,-3,-3,-3,-3,-3,-3,-3,-3,-3] @
     [1,1,1,1,1,1,1,1,1,1,1,1,1,1,1,1,1,1,1,1,1,1,1,1,1,1,1,1,1,1,1,1] @
     [1,1,1,1,1,1,1,1,1,1,1,1,1,1,1,1,1,1,1,1,1,1,1,1,1,1,1,1,1,1,1,1] @
     [-1,-1,-1,-1,-1,-1,-1,-1,-1,-1,-1,-1,-1,-1,-1,-1,-1,-1,-1,-1,-1,-1,-1,-1,-1,-1,-1,-1,-1,-1,-1,-1] @
     [-1,-1,-1,-1,-1,-1,-1,-1,-1,-1,-1,-1,-1,-1,-1,-1,-1,-1,-1,-1,-1,-1,-1,-1,-1,-1,-1,-1,-1,-1,-1,-1] @
     [0,0,0,0,0,0,0,0,0,0,0,0,0,0,0,0,0,0,0,0,0,0,0,0,0,0,0,0,0,0,0,0] @
     [0,0,0,0,0,0,0,0,0,0,0,0,0,0,0,0,0,0,0,0,0,0,0,0,0,0,0,0,0,0,0,0] @
     [0,0,0,0,0,0,0,0,0,0,0,0,0,0,0,0,0,0,0,0,0,0,0,0,0,0,0,0,0,0,0,0] @
     [0,0,0,0,0,0,0,0,0,0,0,0,0,0,0,0,0,0,0,0,0,0,0,0,0,0,0,0,0,0,0,0] @
     [0,0,0,0,0,0,0,0,0,0,0,0,0,0,0,0,0,0,0,0,0,0,0,0,0,0,0,0,0,0,0,0] @
     [0,0,0,0,0,0,0,0,0,0,0,0,0,0,0,0,0,0,0,0,0,0,0,0,0,0,0,0,0,0,0,0] @
     [0,0,0,0,0,0,0,0,0,0,0,0,0,0,0,0,0,0,0,0,0,0,0,0,0,0,0,0,0,0,0,0] @
     [0,0,0,0,0,0,0,0,0,0,0,0,0,0,0,0,0,0,0,0,0,0,0,0,0,0,0,0,0,0,0,0]"

definition get_ue_golomb_31 :: "GetBitContext \<Rightarrow> (u32 \<times> GetBitContext) option" where
  "get_ue_golomb_31 gb = do {
     cache \<leftarrow> UPDATE_CACHE gb (gb_index gb);
     let buf = unat (drop_bit (32 - 9) cache);
     Some (of_nat (ff_ue_golomb_vlc_code ! buf), skip_bits gb (of_nat (ff_golomb_vlc_len ! buf))) }"

text \<open>
  In the long path of \<open>get_ue_golomb\<close> the shift count \<open>log\<close> is negative when the cache is
  below \<open>2 ^ 16\<close>: undefined.
\<close>

definition get_ue_golomb :: "GetBitContext \<Rightarrow> (u32 \<times> GetBitContext) option" where
  "get_ue_golomb gb = do {
     buf \<leftarrow> UPDATE_CACHE gb (gb_index gb);
     if buf \<ge> 2 ^ 27 then
       (let i = unat (drop_bit (32 - 9) buf) in
        Some (of_nat (ff_ue_golomb_vlc_code ! i), skip_bits gb (of_nat (ff_golomb_vlc_len ! i))))
     else
       (let log = 2 * int (av_log2 buf) - 31 in
        if log < 0 then None
        else Some (drop_bit (nat log) buf - 1, skip_bits gb (of_int (32 - log)))) }"

definition get_se_golomb :: "GetBitContext \<Rightarrow> (u32 \<times> GetBitContext) option" where
  "get_se_golomb gb = do {
     buf \<leftarrow> UPDATE_CACHE gb (gb_index gb);
     if buf \<ge> 2 ^ 27 then
       (let i = unat (drop_bit (32 - 9) buf) in
        Some (of_int (ff_se_golomb_vlc_code ! i), skip_bits gb (of_nat (ff_golomb_vlc_len ! i))))
     else do {
       let log = av_log2 buf;
       let gb1 = skip_bits gb (of_nat (31 - log));
       buf \<leftarrow> UPDATE_CACHE gb1 (gb_index gb1);
       let buf = drop_bit log buf;
       Some (if buf AND 1 \<noteq> 0 then - drop_bit 1 buf else drop_bit 1 buf,
             skip_bits gb1 (of_nat (32 - log))) } }"

section \<open>The cache\<close>

definition gpos :: "GetBitContext \<Rightarrow> nat" where
  "gpos gb = unat (gb_index gb)"

text \<open>Four bytes can be loaded at the index.\<close>

definition loadable :: "GetBitContext \<Rightarrow> bool" where
  "loadable gb \<longleftrightarrow> gpos gb div 8 + 4 \<le> length (gb_buffer gb)"

lemma unat_index:
  "unat (drop_bit 3 (x :: u32)) = unat x div 8" "unat (x AND 7) = unat x mod 8"
proof -
  show "unat (drop_bit 3 x) = unat x div 8"
    using unat_drop_bit_eq[of 3 x] by (simp add: drop_bit_eq_div)
  have "(7 :: u32) = mask 3" by (simp add: mask_eq_exp_minus_1)
  then have "x AND 7 = take_bit 3 x" by (simp only: take_bit_eq_mask)
  then show "unat (x AND 7) = unat x mod 8"
    by (simp only: unsigned_take_bit_eq) (simp add: take_bit_eq_mod)
qed

lemma monus:
  "j < 8 \<Longrightarrow> 31 - j < 32 \<and> \<not> 31 - j < 24 \<and> \<not> 31 - j < 16 \<and> \<not> 31 - j < 8 \<and> 31 - j - 24 = 7 - j \<and>
    23 - j < 24 \<and> \<not> 23 - j < 16 \<and> \<not> 23 - j < 8 \<and> 23 - j - 8 = 15 - j \<and> 15 - j < 16 \<and> \<not> 15 - j < 8 \<and>
    15 - j - 8 = 7 - j \<and> 7 - j < 8" for j :: nat
  by auto

lemma ld32_bits:
  assumes "q + 4 \<le> length m"
  obtains x where "ld32 m q = Some x" "\<And>n. n < 32 \<Longrightarrow> bit (htonl x) (31 - n) = bit_at m (8 * q + n)"
proof
  let ?x = "le32 (m ! q) (m ! (q + 1)) (m ! (q + 2)) (m ! (q + 3))"
  show "ld32 m q = Some ?x"
    using assms by (simp add: ld32_def rd8_def)
  show "bit (htonl ?x) (31 - n) = bit_at m (8 * q + n)" if n: "n < 32" for n
  proof -
    define j where "j = n mod 8"
    have j: "j < 8" "n = 8 * (n div 8) + j" by (simp_all add: j_def)
    have "n div 8 < 4" using n by presburger
    then consider "n div 8 = 0" | "n div 8 = 1" | "n div 8 = 2" | "n div 8 = 3" by arith
    then show ?thesis
    proof cases
      case 1
      with j have "n = j" by simp
      with j(1) monus[of j] byte_of[of j q 0] show ?thesis by (simp add: bits_simps bit_at_def)
    next
      case 2
      with j have "n = 8 + j" by simp
      with j(1) monus[of j] byte_of[of j q 1] show ?thesis by (simp add: bits_simps bit_at_def)
    next
      case 3
      with j have "n = 16 + j" by simp
      with j(1) monus[of j] byte_of[of j q 2] show ?thesis by (simp add: bits_simps bit_at_def)
    next
      case 4
      with j have "n = 24 + j" by simp
      with j(1) monus[of j] byte_of[of j q 3] show ?thesis by (simp add: bits_simps bit_at_def)
    qed
  qed
qed

text \<open>
  The cache holds the bits from the index on, most significant first: at least 25 of them,
  because the load starts at a byte boundary.
\<close>

lemma cache_bits:
  assumes "unat idx div 8 + 4 \<le> length (gb_buffer gb)"
  obtains c where "UPDATE_CACHE gb idx = Some c"
    "\<And>t. t < 25 \<Longrightarrow> bit c (31 - t) = bit_at (gb_buffer gb) (unat idx + t)"
proof -
  obtain x where x: "ld32 (gb_buffer gb) (unat idx div 8) = Some x"
    "\<And>n. n < 32 \<Longrightarrow> bit (htonl x) (31 - n) = bit_at (gb_buffer gb) (8 * (unat idx div 8) + n)"
    using ld32_bits[OF assms] by blast
  let ?k = "unat idx mod 8"
  show thesis
  proof
    show "UPDATE_CACHE gb idx = Some (push_bit ?k (htonl x))"
      by (simp add: UPDATE_CACHE_def unat_index x(1))
    show "bit (push_bit ?k (htonl x)) (31 - t) = bit_at (gb_buffer gb) (unat idx + t)" if "t < 25" for t
    proof -
      have k: "?k + t < 32" "8 * (unat idx div 8) + (?k + t) = unat idx + t"
        using that by presburger+
      have "31 - t - ?k = 31 - (?k + t)" "?k \<le> 31 - t" "31 - t < 32" using k(1) by arith+
      then show ?thesis
        using x(2)[OF k(1)] k by (simp add: bit_simps)
    qed
  qed
qed

text \<open>The top \<open>n\<close> bits of the cache.\<close>

lemma cache_top:
  assumes "\<And>t. t < 25 \<Longrightarrow> bit (c :: u32) (31 - t) = bit_at m (i + t)" "n \<le> 25"
  shows "unat (drop_bit (32 - n) c) = bval m i n"
proof (rule unat_bits_bval)
  show "bit (drop_bit (32 - n) c) (n - 1 - j) = bit_at m (i + j)" if "j < n" for j
  proof -
    have "32 - n + (n - 1 - j) = 31 - j" using that assms(2) by arith
    with assms(1)[of j] that assms(2) show ?thesis by (simp add: bit_drop_bit_eq)
  qed
  show "\<not> bit (drop_bit (32 - n) c) k" if "n \<le> k" for k
    using that bit_imp_le_length[of c "32 - n + k"] by (auto simp: bit_drop_bit_eq)
qed

lemma gpos_skip:
  assumes "gpos gb + n \<le> unat (gb_size_in_bits_plus8 gb)"
  shows "gpos (skip_bits gb (of_nat n)) = gpos gb + n"
proof -
  have b: "gpos gb + n < 2 ^ 32"
    using assms unat_less_32[of "gb_size_in_bits_plus8 gb"] by simp
  then have "unat (gb_index gb + of_nat n) = gpos gb + n"
    by (simp add: unat_word_ariths gpos_def take_bit_eq_mod unsigned_of_nat)
  moreover have "unat (min a b) = min (unat a) (unat b)" for a b :: u32
    by (simp add: min_def word_le_nat_alt)
  ultimately show ?thesis
    using assms by (simp add: skip_bits_def LAST_SKIP_BITS_def gpos_def)
qed

lemma skip_bits_simps [simp]:
  "gb_buffer (skip_bits gb n) = gb_buffer gb"
  "gb_size_in_bits_plus8 (skip_bits gb n) = gb_size_in_bits_plus8 gb"
  "gb_size_in_bits (skip_bits gb n) = gb_size_in_bits gb"
  by (simp_all add: skip_bits_def)

lemma get_bits_value:
  assumes "loadable gb" "0 < n" "n \<le> 25"
  obtains v where "get_bits gb n = Some (v, skip_bits gb (of_nat n))"
    "unat v = bval (gb_buffer gb) (gpos gb) n"
proof -
  obtain c where c: "UPDATE_CACHE gb (gb_index gb) = Some c"
    "\<And>t. t < 25 \<Longrightarrow> bit c (31 - t) = bit_at (gb_buffer gb) (gpos gb + t)"
    using assms(1) cache_bits unfolding gpos_def loadable_def by metis
  show thesis
  proof (rule that[of "NEG_USR32 c n"])
    show "get_bits gb n = Some (NEG_USR32 c n, skip_bits gb (of_nat n))"
      using assms by (simp add: get_bits_def c(1))
    show "unat (NEG_USR32 c n) = bval (gb_buffer gb) (gpos gb) n"
      unfolding NEG_USR32_def by (rule cache_top[OF c(2) assms(3)])
  qed
qed

lemma get_bits1_value:
  assumes "gpos gb div 8 < length (gb_buffer gb)"
    and "gpos gb < unat (gb_size_in_bits_plus8 gb)" "unat (gb_size_in_bits_plus8 gb) < 2 ^ 31"
  shows "get_bits1 gb = Some (of_bool (bit_at (gb_buffer gb) (gpos gb)), skip_bits gb 1)"
proof -
  let ?b = "gb_buffer gb ! (gpos gb div 8)" and ?k = "gpos gb mod 8"
  have "bit (drop_bit 7 (push_bit ?k ?b)) n \<longleftrightarrow> n = 0 \<and> bit ?b (7 - ?k)" for n
    by (cases n) (auto simp: bit_simps dest: bit_imp_le_length)
  then have "ucast (drop_bit 7 (push_bit ?k ?b)) = (of_bool (bit ?b (7 - ?k)) :: u32)"
    by (intro bit_word_eqI) (auto simp: bit_simps bit_of_bool_iff)
  moreover have "sint (gb_index gb) < sint (gb_size_in_bits_plus8 gb)"
    using assms(2,3) sint_small[of "gb_index gb"] sint_small[of "gb_size_in_bits_plus8 gb"]
    unfolding gpos_def by (metis of_nat_less_iff order_less_trans)
  moreover have "gb_index (skip_bits gb 1) = gb_index gb + 1"
    using inc_le[of "gb_index gb" "gb_size_in_bits_plus8 gb"] assms(2)
    by (simp add: skip_bits_def LAST_SKIP_BITS_def gpos_def word_less_nat_alt min_def)
  ultimately show ?thesis
    using assms(1) unfolding get_bits1_def gpos_def
    by (simp add: rd8_def unat_index bit_at_def word_sless_alt skip_bits_def)
qed

section \<open>The binary logarithm\<close>

lemma av_log2_eq:
  assumes "bit v b" "\<And>n. b < n \<Longrightarrow> \<not> bit v n"
  shows "av_log2 v = b"
  using assms
proof (induction b arbitrary: v)
  case 0
  have "drop_bit 1 v = 0"
    by (rule bit_word_eqI) (simp add: bit_drop_bit_eq 0)
  then show ?case by (simp add: av_log2.simps)
next
  case (Suc b)
  have "bit (drop_bit 1 v) b"
    using Suc.prems(1) by (simp add: bit_drop_bit_eq)
  moreover from this have "drop_bit 1 v \<noteq> 0" by auto
  moreover have "\<not> bit (drop_bit 1 v) n" if "b < n" for n
    using Suc.prems(2)[of "Suc n"] that by (simp add: bit_drop_bit_eq)
  ultimately show ?case
    using Suc.IH[of "drop_bit 1 v"] by (simp add: av_log2.simps[of v])
qed

lemma cache_log2:
  assumes "\<And>t. t < 25 \<Longrightarrow> bit (c :: u32) (31 - t) = bit_at m (i + t)" "code_at m i z" "z < 25"
  shows "av_log2 c = 31 - z"
proof (rule av_log2_eq)
  show "bit c (31 - z)"
    using assms(1)[of z] assms(2,3) by (simp add: code_at_def)
  show "\<not> bit c n" if "31 - z < n" for n
  proof (cases "n < 32")
    case True
    define t where "t = 31 - n"
    have "t < z" "31 - t = n" using True that assms(3) unfolding t_def by arith+
    with assms(1)[of t] assms(2,3) show ?thesis by (simp add: code_at_def)
  qed (use bit_imp_le_length[of c n] in auto)
qed

section \<open>Exp-Golomb codes\<close>

text \<open>The tables agree with the code they abbreviate, for every prefix of at most four zeros.\<close>

definition prefix_zeros :: "nat \<Rightarrow> nat" where
  "prefix_zeros b = (if b < 32 then 4 else if b < 64 then 3 else if b < 128 then 2
     else if b < 256 then 1 else 0)"

definition entry_ok :: "nat \<Rightarrow> nat \<Rightarrow> nat \<Rightarrow> int \<Rightarrow> bool" where
  "entry_ok b l u s = (b < 16 \<or> (let z = prefix_zeros b; c = b div 2 ^ (8 - 2 * z) in
     l = 2 * z + 1 \<and> Suc u = c \<and> s = se_of c))"

fun entries_ok :: "nat \<Rightarrow> nat list \<Rightarrow> nat list \<Rightarrow> int list \<Rightarrow> bool" where
  "entries_ok b (l # ls) (u # us) (s # ss) \<longleftrightarrow> entry_ok b l u s \<and> entries_ok (b + 1) ls us ss"
| "entries_ok b [] [] [] \<longleftrightarrow> True"
| "entries_ok b _ _ _ \<longleftrightarrow> False"

lemma entries_ok_append:
  assumes "entries_ok b ls us ss" "length ls = 32" "entries_ok (b + 32) ls' us' ss'"
  shows "entries_ok b (ls @ ls') (us @ us') (ss @ ss')"
proof -
  have "entries_ok b ls us ss \<Longrightarrow> entries_ok (b + length ls) ls' us' ss' \<Longrightarrow>
      entries_ok b (ls @ ls') (us @ us') (ss @ ss')"
    by (induction b ls us ss rule: entries_ok.induct) (simp_all add: add.commute)
  with assms show ?thesis by simp
qed

lemma tables_ok: "entries_ok 0 ff_golomb_vlc_len ff_ue_golomb_vlc_code ff_se_golomb_vlc_code"
  unfolding ff_golomb_vlc_len_def ff_ue_golomb_vlc_code_def ff_se_golomb_vlc_code_def
  by (intro entries_ok_append) (simp_all add: entry_ok_def prefix_zeros_def se_of_def)

lemma entries_ok_nth:
  "entries_ok b ls us ss \<Longrightarrow> i < length ls \<Longrightarrow> entry_ok (b + i) (ls ! i) (us ! i) (ss ! i)"
proof (induction b ls us ss arbitrary: i rule: entries_ok.induct)
  case (1 b l ls u us s ss)
  then show ?case by (cases i) auto
qed simp_all

lemma length_table: "length ff_golomb_vlc_len = 512"
  by (simp add: ff_golomb_vlc_len_def)

lemma prefix_zeros_eq: "z \<le> 4 \<Longrightarrow> 2 ^ (8 - z) \<le> b \<Longrightarrow> b < 2 ^ (9 - z) \<Longrightarrow> prefix_zeros b = z \<and> 16 \<le> b \<and> b < 512"
proof -
  assume z: "z \<le> 4" and b: "2 ^ (8 - z) \<le> b" "b < 2 ^ (9 - z)"
  consider "z = 0" | "z = 1" | "z = 2" | "z = 3" | "z = 4" using z by linarith
  then show ?thesis by cases (use b in \<open>simp_all add: prefix_zeros_def\<close>)
qed

lemma tables:
  assumes "z \<le> 4" "2 ^ (8 - z) \<le> b" "b < 2 ^ (9 - z)"
  shows "ff_golomb_vlc_len ! b = 2 * z + 1 \<and>
    Suc (ff_ue_golomb_vlc_code ! b) = b div 2 ^ (8 - 2 * z) \<and>
    ff_se_golomb_vlc_code ! b = se_of (b div 2 ^ (8 - 2 * z))"
  using entries_ok_nth[OF tables_ok, of b] prefix_zeros_eq[OF assms]
  by (simp add: length_table entry_ok_def Let_def)

lemma cache_value:
  assumes "loadable gb"
  obtains c where "UPDATE_CACHE gb (gb_index gb) = Some c"
    "\<And>t. t < 25 \<Longrightarrow> bit c (31 - t) = bit_at (gb_buffer gb) (gpos gb + t)"
  using assms cache_bits[of "gb_index gb" gb] unfolding gpos_def loadable_def by metis

text \<open>Which path is taken: the cache is at least \<open>2 ^ 27\<close> when the code has at most four zeros.\<close>

lemma cache_large:
  assumes c: "\<And>t. t < 25 \<Longrightarrow> bit (c :: u32) (31 - t) = bit_at m (i + t)" and "code_at m i z" "z < 25"
  shows "2 ^ 27 \<le> c \<longleftrightarrow> z \<le> 4"
proof -
  have "unat c div 2 ^ 27 = bval m i 5"
    using cache_top[OF c, of 5] unat_drop_bit_eq[of 27 c] by (simp add: drop_bit_eq_div)
  moreover have "bval m i 5 = 0 \<longleftrightarrow> \<not> z \<le> 4"
  proof (cases "z \<le> 4")
    case True
    then have "2 ^ (4 - z) \<le> bval m i 5"
      using code_at_bounds(1)[OF assms(2), of "4 - z"] by simp
    then show ?thesis using True
      by (metis le_zero_eq power_eq_0_iff zero_neq_numeral)
  next
    case False
    then show ?thesis using assms(2) by (simp add: code_at_def bval_zeros)
  qed
  moreover have "unat c div 2 ^ 27 = 0 \<longleftrightarrow> unat c < 2 ^ 27" by (rule div_eq_0_iff[THEN trans]) simp
  ultimately show ?thesis by (simp add: word_le_nat_alt not_less[symmetric])
qed

lemma div_of_low: "r < k \<Longrightarrow> (q * k + r) div k = q" for q k r :: nat
  by simp

lemma golomb_entry:
  assumes c: "\<And>t. t < 25 \<Longrightarrow> bit (c :: u32) (31 - t) = bit_at m (i + t)" and code: "code_at m i z"
    and z: "z \<le> 4"
  shows "ff_golomb_vlc_len ! unat (drop_bit 23 c) = 2 * z + 1"
    "ff_ue_golomb_vlc_code ! unat (drop_bit 23 c) = ue_at m i z"
    "ff_se_golomb_vlc_code ! unat (drop_bit 23 c) = se_of (Suc (ue_at m i z))"
proof -
  let ?b = "unat (drop_bit 23 c)"
  have b: "?b = bval m i 9"
    using cache_top[OF c, of 9] by simp
  have "9 = z + Suc (8 - z)" "9 - z = Suc (8 - z)" using z by simp_all
  with code_at_bounds[OF code, of "8 - z"] have "2 ^ (8 - z) \<le> ?b" "?b < 2 ^ (9 - z)"
    unfolding b by metis+
  note t = tables[OF z this]
  have "bval m i 9 = bval m i (z + (z + 1)) * 2 ^ (8 - 2 * z) + bval m (i + (z + (z + 1))) (8 - 2 * z)"
    using bval_add[of m i "z + (z + 1)" "8 - 2 * z"] z by simp
  then have "bval m i 9 = Suc (ue_at m i z) * 2 ^ (8 - 2 * z) + bval m (i + (z + (z + 1))) (8 - 2 * z)"
    unfolding bval_code[OF code] ue_at_Suc[OF code] .
  then have "?b div 2 ^ (8 - 2 * z) = Suc (ue_at m i z)"
    unfolding b by (simp only: div_of_low bval_less)
  with t show "ff_golomb_vlc_len ! ?b = 2 * z + 1" "ff_ue_golomb_vlc_code ! ?b = ue_at m i z"
    "ff_se_golomb_vlc_code ! ?b = se_of (Suc (ue_at m i z))"
    by simp_all
qed

text \<open>The long path of \<open>get_ue_golomb\<close>: the code, prefix and all, is in the cache.\<close>

lemma get_ue_golomb_value:
  assumes "loadable gb" "code_at (gb_buffer gb) (gpos gb) z" "z \<le> 12"
  shows "get_ue_golomb gb =
    Some (of_nat (ue_at (gb_buffer gb) (gpos gb) z), skip_bits gb (of_nat (2 * z + 1)))"
proof -
  let ?m = "gb_buffer gb" and ?i = "gpos gb"
  obtain c where cache: "UPDATE_CACHE gb (gb_index gb) = Some c"
    and c: "\<And>t. t < 25 \<Longrightarrow> bit c (31 - t) = bit_at ?m (?i + t)"
    by (rule cache_value[OF assms(1)]) blast
  have large: "2 ^ 27 \<le> c \<longleftrightarrow> z \<le> 4"
    by (rule cache_large[OF c assms(2)]) (use assms(3) in auto)
  show ?thesis
  proof (cases "z \<le> 4")
    case True
    with golomb_entry[OF c assms(2) True] large show ?thesis
      by (simp add: get_ue_golomb_def cache Let_def)
  next
    case False
    have log: "av_log2 c = 31 - z"
      by (rule cache_log2[OF c assms(2)]) (use assms(3) in auto)
    have k: "nat (2 * int (31 - z) - 31) = 32 - (2 * z + 1)"
      "32 - (2 * int (31 - z) - 31) = int (2 * z + 1)"
      using assms(3) by (simp_all add: of_nat_diff)
    have "unat (drop_bit (32 - (2 * z + 1)) c) = bval ?m ?i (z + (z + 1))"
      using cache_top[OF c, of "2 * z + 1"] assms(3) by (simp add: mult_2)
    then have "drop_bit (32 - (2 * z + 1)) c = of_nat (Suc (ue_at ?m ?i z))"
      unfolding bval_code[OF assms(2)] ue_at_Suc[OF assms(2), symmetric] by (metis of_nat_unat ucast_id)
    with False large k assms(3) show ?thesis
      by (simp add: get_ue_golomb_def cache log Let_def del: of_nat_Suc) simp
  qed
qed

lemma get_ue_golomb_31_value:
  assumes "loadable gb" "code_at (gb_buffer gb) (gpos gb) z" "z \<le> 4"
  shows "get_ue_golomb_31 gb =
    Some (of_nat (ue_at (gb_buffer gb) (gpos gb) z), skip_bits gb (of_nat (2 * z + 1)))"
proof -
  obtain c where "UPDATE_CACHE gb (gb_index gb) = Some c"
    and c: "\<And>t. t < 25 \<Longrightarrow> bit c (31 - t) = bit_at (gb_buffer gb) (gpos gb + t)"
    by (rule cache_value[OF assms(1)]) blast
  with golomb_entry[OF c assms(2,3)] show ?thesis
    by (simp add: get_ue_golomb_31_def Let_def)
qed

text \<open>
  \<open>get_se_golomb\<close> skips the zeros and loads again, so its codes may be twice as long: what is
  needed is four bytes at the code and at its first one.
\<close>

lemma se_of_word:
  assumes "unat w = k"
  shows "(if w AND 1 \<noteq> 0 then - drop_bit 1 w else drop_bit 1 w) = (of_int (se_of k) :: u32)"
proof -
  have "drop_bit 1 w = of_nat (k div 2)"
    using unat_drop_bit_1[of w] assms by (metis of_nat_unat ucast_id)
  moreover have "w AND 1 \<noteq> 0 \<longleftrightarrow> odd k"
    using odd_unat[of w] assms by (simp add: and_one_eq odd_iff_mod_2_eq_one)
  ultimately show ?thesis by (simp add: se_of_def)
qed

lemma get_se_golomb_value:
  assumes l: "loadable gb" and code: "code_at (gb_buffer gb) (gpos gb) z" and z: "z \<le> 24"
    and room: "gpos gb + (2 * z + 1) \<le> unat (gb_size_in_bits_plus8 gb)"
      "(gpos gb + z) div 8 + 4 \<le> length (gb_buffer gb)"
  obtains gb' where
    "get_se_golomb gb = Some (of_int (se_of (Suc (ue_at (gb_buffer gb) (gpos gb) z))), gb')"
    "gpos gb' = gpos gb + (2 * z + 1)"
proof -
  let ?m = "gb_buffer gb" and ?i = "gpos gb"
  obtain c where cache: "UPDATE_CACHE gb (gb_index gb) = Some c"
    and c: "\<And>t. t < 25 \<Longrightarrow> bit c (31 - t) = bit_at ?m (?i + t)"
    by (rule cache_value[OF l]) blast
  have large: "2 ^ 27 \<le> c \<longleftrightarrow> z \<le> 4"
    by (rule cache_large[OF c code]) (use z in auto)
  show thesis
  proof (cases "z \<le> 4")
    case True
    with golomb_entry[OF c code True] large gpos_skip[OF room(1)] show ?thesis
      by (intro that) (simp_all add: get_se_golomb_def cache Let_def)
  next
    case False
    have log: "av_log2 c = 31 - z"
      by (rule cache_log2[OF c code]) (use z in auto)
    let ?gb1 = "skip_bits gb (of_nat z)"
    have p1: "gpos ?gb1 = ?i + z"
      using gpos_skip[of gb z] room(1) by simp
    have l1: "loadable ?gb1"
      using room(2) by (simp add: loadable_def p1)
    obtain d where cache1: "UPDATE_CACHE ?gb1 (gb_index ?gb1) = Some d"
      and d: "\<And>t. t < 25 \<Longrightarrow> bit d (31 - t) = bit_at ?m (?i + z + t)"
      using cache_value[OF l1] unfolding p1 skip_bits_simps by metis
    have "unat (drop_bit (32 - (z + 1)) d) = bval ?m (?i + z) (z + 1)"
      using cache_top[OF d, of "z + 1"] z by simp
    then have val: "(if drop_bit (31 - z) d AND 1 \<noteq> 0 then - drop_bit 1 (drop_bit (31 - z) d)
        else drop_bit 1 (drop_bit (31 - z) d)) = of_int (se_of (Suc (ue_at ?m ?i z)))"
      by (intro se_of_word) (simp add: ue_at_Suc[OF code] del: bval.simps)
    have k: "31 - (31 - z) = z" "32 - (31 - z) = z + 1" using z by simp_all
    have "get_se_golomb gb = Some (of_int (se_of (Suc (ue_at ?m ?i z))), skip_bits ?gb1 (of_nat (z + 1)))"
      unfolding get_se_golomb_def cache bind.simps
      using False large cache1 val unfolding log k Let_def by simp
    moreover have "gpos (skip_bits ?gb1 (of_nat (z + 1))) = ?i + (2 * z + 1)"
      using gpos_skip[of ?gb1 "z + 1"] room(1) p1 by simp
    ultimately show ?thesis by (rule that)
  qed
qed

section \<open>The reader as a bit source\<close>

definition groom :: "GetBitContext \<Rightarrow> nat \<Rightarrow> bool" where
  "groom gb n \<longleftrightarrow> gpos gb + n \<le> unat (gb_size_in_bits_plus8 gb) \<and>
     (gpos gb + n) div 8 + 4 \<le> length (gb_buffer gb)"

definition gread :: "GetBitContext \<Rightarrow> nat \<Rightarrow> (nat \<times> GetBitContext) option" where
  "gread gb n = map_option (\<lambda>(v, gb). (unat v, gb)) (get_bits gb n)"

lemma groom_loadable: "groom gb n \<Longrightarrow> loadable gb"
  unfolding groom_def loadable_def
  by (meson add_le_mono1 div_le_mono le_add1 le_trans)

interpretation gb: bit_source gb_buffer gpos groom 25 gread
proof
  fix gb n
  assume n: "0 < n" "n \<le> (25 :: nat)" and room: "groom gb n"
  obtain v where v: "get_bits gb n = Some (v, skip_bits gb (of_nat n))"
    "unat v = bval (gb_buffer gb) (gpos gb) n"
    by (rule get_bits_value[OF groom_loadable[OF room] n])
  have p: "gpos (skip_bits gb (of_nat n)) = gpos gb + n"
    using room by (intro gpos_skip) (simp add: groom_def)
  then have "\<forall>k. groom gb (n + k) \<longrightarrow> groom (skip_bits gb (of_nat n)) k"
    by (simp add: groom_def add.assoc)
  with v p show "\<exists>gb'. gread gb n = Some (bval (gb_buffer gb) (gpos gb) n, gb') \<and>
      gpos gb' = gpos gb + n \<and> gb_buffer gb' = gb_buffer gb \<and>
      (\<forall>k. groom gb (n + k) \<longrightarrow> groom gb' k)"
    by (simp add: gread_def)
next
  fix gb n k
  assume "groom gb (n + k)"
  then show "groom gb n"
    unfolding groom_def by (meson add_le_mono1 add_left_mono div_le_mono le_add1 le_trans)
qed

section \<open>Safety of the readers\<close>

text \<open>
  The reader's invariant over a buffer with room for one more word: the index never passes
  \<open>size_in_bits_plus8\<close>.
\<close>

definition gb_ok :: "GetBitContext \<Rightarrow> bool" where
  "gb_ok gb \<longleftrightarrow> gpos gb \<le> unat (gb_size_in_bits_plus8 gb) \<and> unat (gb_size_in_bits_plus8 gb) < 2 ^ 31 \<and>
     unat (gb_size_in_bits_plus8 gb) div 8 + 4 \<le> length (gb_buffer gb)"

lemma gb_ok_loadable: "gb_ok gb \<Longrightarrow> loadable gb"
  unfolding gb_ok_def loadable_def by (meson add_le_mono1 div_le_mono le_trans)

lemma gb_ok_skip: "gb_ok gb \<Longrightarrow> gb_ok (skip_bits gb n)"
  by (auto simp: gb_ok_def gpos_def skip_bits_def LAST_SKIP_BITS_def min_def word_le_nat_alt)

lemma init_get_bits_ok:
  assumes "0 \<le> bit_size" "bit_size < INT_MAX - 7" "nat bit_size div 8 + 5 \<le> length m"
  obtains gb where "init_get_bits (Some m) bit_size = (True, gb)" "gb_ok gb" "gb_buffer gb = m"
    "gpos gb = 0" "unat (gb_size_in_bits_plus8 gb) = nat bit_size + 8"
proof -
  let ?gb = "snd (init_get_bits (Some m) bit_size)"
  define k where "k = nat (bit_size + 8)"
  have k: "bit_size + 8 = int k" "k < 2 ^ 32"
    using assms(1,2) by (auto simp: k_def)
  have "unat (of_int (bit_size + 8) :: u32) = nat (bit_size + 8)"
    unfolding k(1) of_int_of_nat_eq using k(2) by (simp add: unsigned_of_nat take_bit_nat_eq_self_iff)
  then have p8: "unat (gb_size_in_bits_plus8 ?gb) = nat bit_size + 8"
    using assms(1,2) by (simp add: init_get_bits_def Let_def nat_add_distrib)
  moreover have "gb_buffer ?gb = m" "gpos ?gb = 0" "fst (init_get_bits (Some m) bit_size)"
    using assms(1,2) by (simp_all add: init_get_bits_def Let_def gpos_def)
  moreover have "nat bit_size < 2 ^ 31 - 8" "(nat bit_size + 8) div 8 + 4 \<le> length m"
    using assms by auto
  then have "gb_ok ?gb"
    using p8 calculation(2,3) by (simp add: gb_ok_def)
  ultimately show thesis
    using that[of ?gb] by (metis eq_fst_iff prod.collapse)
qed

lemma readers_defined:
  assumes "gb_ok gb"
  shows "\<exists>v gb'. get_bits1 gb = Some (v, gb') \<and> gb_ok gb'"
    "0 < n \<Longrightarrow> n \<le> 25 \<Longrightarrow> \<exists>v gb'. get_bits gb n = Some (v, gb') \<and> gb_ok gb'"
    "\<exists>v gb'. get_ue_golomb_31 gb = Some (v, gb') \<and> gb_ok gb'"
    "\<exists>v gb'. get_se_golomb gb = Some (v, gb') \<and> gb_ok gb'"
proof -
  note l = gb_ok_loadable[OF assms]
  obtain c where c: "UPDATE_CACHE gb (gb_index gb) = Some c"
    using cache_value[OF l] by blast
  show "\<exists>v gb'. get_ue_golomb_31 gb = Some (v, gb') \<and> gb_ok gb'"
    using assms by (simp add: get_ue_golomb_31_def c Let_def gb_ok_skip)
  show "\<exists>v gb'. get_bits gb n = Some (v, gb') \<and> gb_ok gb'" if "0 < n" "n \<le> 25"
    using that assms by (simp add: get_bits_def c gb_ok_skip)
  have "gpos gb div 8 < length (gb_buffer gb)" using l by (simp add: loadable_def)
  then obtain b where b: "rd8 (gb_buffer gb) (unat (drop_bit 3 (gb_index gb))) = Some b"
    by (simp add: rd8_def unat_index gpos_def)
  have "gb_ok (gb\<lparr>gb_index := if gb_index gb <s gb_size_in_bits_plus8 gb then gb_index gb + 1 else gb_index gb\<rparr>)"
  proof (cases "gb_index gb <s gb_size_in_bits_plus8 gb")
    case True
    then have "sint (gb_index gb) < sint (gb_size_in_bits_plus8 gb)" by (simp add: word_sless_alt)
    then have "unat (gb_index gb) < unat (gb_size_in_bits_plus8 gb)"
      using assms sint_small[of "gb_index gb"] sint_small[of "gb_size_in_bits_plus8 gb"]
      unfolding gb_ok_def gpos_def by (metis le_less_trans of_nat_less_iff)
    then show ?thesis
      using True assms inc_le[of "gb_index gb" "gb_size_in_bits_plus8 gb"]
      by (simp add: gb_ok_def gpos_def word_less_nat_alt word_le_nat_alt)
  qed (use assms in \<open>simp add: gb_ok_def gpos_def\<close>)
  then show "\<exists>v gb'. get_bits1 gb = Some (v, gb') \<and> gb_ok gb'"
    by (simp add: get_bits1_def b Let_def)
  obtain d where "UPDATE_CACHE (skip_bits gb (of_nat (31 - av_log2 c)))
      (gb_index (skip_bits gb (of_nat (31 - av_log2 c)))) = Some d"
    using cache_value[OF gb_ok_loadable[OF gb_ok_skip[OF assms]]] by blast
  then show "\<exists>v gb'. get_se_golomb gb = Some (v, gb') \<and> gb_ok gb'"
    using assms by (simp add: get_se_golomb_def c Let_def gb_ok_skip)
qed

section \<open>Properties\<close>

text \<open>
  Get bits fields: Reading a list of fields of 1 to 25 bits with \<open>get_bits\<close> gives the
  successive slices of the buffer's bit string, most significant bit first, and moves the position by
  their total width.
\<close>

theorem get_bits_fields:
  assumes "groom gb (sum_list ns)" "set ns \<subseteq> {0<..25}"
  shows "\<exists>gb'. foldo (\<lambda>(xs, gb) n. do { (x, gb) \<leftarrow> gread gb n; Some (xs @ [x], gb) }) ([], gb) ns =
      Some (bit_fields (gb_buffer gb) (gpos gb) ns, gb') \<and> gpos gb' = gpos gb + sum_list ns"
  using gb.read_fields[OF assms, of "[]"] by simp

definition sample_gb :: GetBitContext where
  "sample_gb = snd (init_get_bits (Some [0x29, 0x80, 0, 0, 0, 0, 0, 0]) 24)"

lemma sample_gb: "gb_buffer sample_gb = [0x29, 0x80, 0, 0, 0, 0, 0, 0]" "gpos sample_gb = 0"
  "gb_size_in_bits_plus8 sample_gb = 32"
  by (simp_all add: sample_gb_def init_get_bits_def gpos_def)

theorem get_bits_fields_witness:
  "\<exists>gb'. foldo (\<lambda>(xs, gb) n. do { (x, gb) \<leftarrow> gread gb n; Some (xs @ [x], gb) }) ([], sample_gb) [3, 6] =
      Some ([1, 19], gb') \<and> gpos gb' = 9"
proof -
  have "groom sample_gb (sum_list [3, 6])" by code_simp
  moreover have "bit_fields (gb_buffer sample_gb) (gpos sample_gb) [3, 6] = [1, 19]" by code_simp
  ultimately show ?thesis
    using get_bits_fields[of sample_gb "[3, 6]"] by (simp add: sample_gb(2))
qed

text \<open>
  C17: golomb_decodes. \<open>get_ue_golomb_31\<close>, \<open>get_ue_golomb\<close> and
  \<open>get_se_golomb\<close> decode an Exp-Golomb code of at most 4, 12 and 24 leading zeros, through
  the tables or by arithmetic, to the number the code spells, and move past exactly its bits.
\<close>

theorem golomb_decodes:
  assumes "code_at (gb_buffer gb) (gpos gb) z" "groom gb (2 * z + 1)"
  shows "(z \<le> 4 \<longrightarrow> (\<exists>gb'. get_ue_golomb_31 gb = Some (of_nat (ue_at (gb_buffer gb) (gpos gb) z), gb') \<and>
      gpos gb' = gpos gb + (2 * z + 1))) \<and>
    (z \<le> 12 \<longrightarrow> (\<exists>gb'. get_ue_golomb gb = Some (of_nat (ue_at (gb_buffer gb) (gpos gb) z), gb') \<and>
      gpos gb' = gpos gb + (2 * z + 1))) \<and>
    (z \<le> 24 \<longrightarrow> (\<exists>gb'. get_se_golomb gb =
        Some (of_int (se_of (Suc (ue_at (gb_buffer gb) (gpos gb) z))), gb') \<and>
      gpos gb' = gpos gb + (2 * z + 1)))"
proof -
  note l = groom_loadable[OF assms(2)]
  have room: "gpos gb + (2 * z + 1) \<le> unat (gb_size_in_bits_plus8 gb)"
    "(gpos gb + z) div 8 + 4 \<le> length (gb_buffer gb)"
    using assms(2) div_le_mono[of "gpos gb + z" "gpos gb + (2 * z + 1)" 8] by (auto simp: groom_def)
  show ?thesis
    using get_ue_golomb_31_value[OF l assms(1)] get_ue_golomb_value[OF l assms(1)]
      get_se_golomb_value[OF l assms(1) _ room] gpos_skip[OF room(1)] by metis
qed

theorem golomb_decodes_witness:
  "(\<exists>gb'. get_ue_golomb_31 sample_gb = Some (4, gb') \<and> gpos gb' = 5) \<and>
   (\<exists>gb'. get_ue_golomb sample_gb = Some (4, gb') \<and> gpos gb' = 5) \<and>
   (\<exists>gb'. get_se_golomb sample_gb = Some (- 2, gb') \<and> gpos gb' = 5)"
proof -
  have code: "code_at (gb_buffer sample_gb) (gpos sample_gb) 2" by code_simp
  have room: "groom sample_gb (2 * 2 + 1)" by code_simp
  have "ue_at (gb_buffer sample_gb) (gpos sample_gb) 2 = 4" by code_simp
  then show ?thesis
    using golomb_decodes[OF code room] by (simp add: sample_gb(2) se_of_def)
qed

text \<open>Bit reader safe:
  Over a buffer with four bytes past the last one the index can reach, \<open>get_bits1\<close>, \<open>get_bits\<close>
  of 1 to 25 bits, \<open>get_ue_golomb_31\<close> and \<open>get_se_golomb\<close> are defined in every state reached
  from \<open>init_get_bits\<close>, whatever the bits, and keep the index within \<open>size_in_bits + 8\<close>.\<close>

inductive reads_to :: "GetBitContext \<Rightarrow> GetBitContext \<Rightarrow> bool" where
  start: "reads_to gb gb"
| bits1: "reads_to gb g \<Longrightarrow> get_bits1 g = Some (v, g') \<Longrightarrow> reads_to gb g'"
| bits: "reads_to gb g \<Longrightarrow> get_bits g n = Some (v, g') \<Longrightarrow> reads_to gb g'"
| ue31: "reads_to gb g \<Longrightarrow> get_ue_golomb_31 g = Some (v, g') \<Longrightarrow> reads_to gb g'"
| se: "reads_to gb g \<Longrightarrow> get_se_golomb g = Some (v, g') \<Longrightarrow> reads_to gb g'"
| skip: "reads_to gb g \<Longrightarrow> reads_to gb (skip_bits g n)"

lemma gb_update_size: "gb_size_in_bits_plus8 (g\<lparr>gb_index := i\<rparr>) = gb_size_in_bits_plus8 g"
  by simp

lemma readers_size:
  "get_bits1 g = Some (v, g') \<Longrightarrow> gb_size_in_bits_plus8 g' = gb_size_in_bits_plus8 g"
  "get_bits g n = Some (v, g') \<Longrightarrow> gb_size_in_bits_plus8 g' = gb_size_in_bits_plus8 g"
  "get_ue_golomb_31 g = Some (v, g') \<Longrightarrow> gb_size_in_bits_plus8 g' = gb_size_in_bits_plus8 g"
  "get_se_golomb g = Some (v, g') \<Longrightarrow> gb_size_in_bits_plus8 g' = gb_size_in_bits_plus8 g"
proof -
  show "get_bits1 g = Some (v, g') \<Longrightarrow> gb_size_in_bits_plus8 g' = gb_size_in_bits_plus8 g"
    unfolding get_bits1_def Let_def bind_eq_Some
    by (elim exE conjE) (simp only: option.inject prod.inject, elim conjE, erule subst, simp only: gb_update_size)
  show "get_bits g n = Some (v, g') \<Longrightarrow> gb_size_in_bits_plus8 g' = gb_size_in_bits_plus8 g"
    unfolding get_bits_def by (cases "0 < n \<and> n \<le> 25") (auto simp: bind_eq_Some)
  show "get_ue_golomb_31 g = Some (v, g') \<Longrightarrow> gb_size_in_bits_plus8 g' = gb_size_in_bits_plus8 g"
    unfolding get_ue_golomb_31_def Let_def bind_eq_Some by auto
  assume "get_se_golomb g = Some (v, g')"
  then obtain c where c: "(if c \<ge> 2 ^ 27 then Some (of_int (ff_se_golomb_vlc_code ! unat (drop_bit (32 - 9) c)),
        skip_bits g (of_nat (ff_golomb_vlc_len ! unat (drop_bit (32 - 9) c))))
     else do {
       buf \<leftarrow> UPDATE_CACHE (skip_bits g (of_nat (31 - av_log2 c))) (gb_index (skip_bits g (of_nat (31 - av_log2 c))));
       Some (if drop_bit (av_log2 c) buf AND 1 \<noteq> 0 then - drop_bit 1 (drop_bit (av_log2 c) buf)
             else drop_bit 1 (drop_bit (av_log2 c) buf),
             skip_bits (skip_bits g (of_nat (31 - av_log2 c))) (of_nat (32 - av_log2 c))) }) = Some (v, g')"
    unfolding get_se_golomb_def Let_def bind_eq_Some by blast
  show "gb_size_in_bits_plus8 g' = gb_size_in_bits_plus8 g"
  proof (cases "c \<ge> 2 ^ 27")
    case True
    with c show ?thesis by auto
  next
    case False
    then show ?thesis using c unfolding if_not_P[OF False] bind_eq_Some by auto
  qed
qed

lemma reads_to_ok:
  "reads_to gb g \<Longrightarrow> gb_ok gb \<Longrightarrow> gb_ok g \<and> gb_size_in_bits_plus8 g = gb_size_in_bits_plus8 gb"
proof (induction rule: reads_to.induct)
  case (bits1 gb g v g')
  then show ?case using readers_defined(1)[of g] readers_size(1)[of g v g'] by auto
next
  case (bits gb g n v g')
  then have "0 < n" "n \<le> 25" by (auto simp: get_bits_def split: if_splits)
  with bits readers_defined(2)[of g n] readers_size(2)[of g n v g'] show ?case by auto
next
  case (ue31 gb g v g')
  then show ?case using readers_defined(3)[of g] readers_size(3)[of g v g'] by auto
next
  case (se gb g v g')
  then show ?case using readers_defined(4)[of g] readers_size(4)[of g v g'] by auto
qed (simp_all add: gb_ok_skip)

theorem bit_reader_safe:
  assumes "0 \<le> bit_size" "bit_size < INT_MAX - 7" "nat bit_size div 8 + 5 \<le> length m"
    and "reads_to (snd (init_get_bits (Some m) bit_size)) gb" "n \<in> {0<..25}"
  shows "gpos gb \<le> nat bit_size + 8 \<and> get_bits1 gb \<noteq> None \<and> get_bits gb n \<noteq> None \<and>
    get_ue_golomb_31 gb \<noteq> None \<and> get_se_golomb gb \<noteq> None"
proof -
  obtain g0 where g0: "init_get_bits (Some m) bit_size = (True, g0)" "gb_ok g0"
    "unat (gb_size_in_bits_plus8 g0) = nat bit_size + 8"
    by (rule init_get_bits_ok[OF assms(1-3)])
  have ok: "gb_ok gb" and size: "gb_size_in_bits_plus8 gb = gb_size_in_bits_plus8 g0"
    using reads_to_ok[of g0 gb] assms(4) g0 by simp_all
  have "gpos gb \<le> nat bit_size + 8"
    using ok size g0(3) by (simp add: gb_ok_def)
  moreover have "get_bits1 gb \<noteq> None" "get_ue_golomb_31 gb \<noteq> None" "get_se_golomb gb \<noteq> None"
    using readers_defined(1,3,4)[OF ok] by (metis option.distinct(1))+
  moreover have "get_bits gb n \<noteq> None"
    using readers_defined(2)[OF ok, of n] assms(5) by auto
  ultimately show ?thesis by simp
qed

theorem bit_reader_safe_witness:
  "gpos sample_gb \<le> 32 \<and> get_bits1 sample_gb \<noteq> None \<and> get_bits sample_gb 8 \<noteq> None \<and>
    get_ue_golomb_31 sample_gb \<noteq> None \<and> get_se_golomb sample_gb \<noteq> None"
  using bit_reader_safe[of 24 "[0x29, 0x80, 0, 0, 0, 0, 0, 0]" sample_gb 8]
  by (simp add: sample_gb_def reads_to.start)

text \<open>
  Get ue golomb undefined: \<open>get_ue_golomb\<close> has no such safety: where the cache holds
  seventeen leading zeros, as at a run of zero bits, it computes a negative shift count, which is
  undefined behaviour.
\<close>

theorem get_ue_golomb_undefined:
  assumes "UPDATE_CACHE gb (gb_index gb) = Some c" "c < 2 ^ 15"
  shows "get_ue_golomb gb = None"
proof -
  have "v \<noteq> 0 \<Longrightarrow> 2 ^ av_log2 v \<le> unat v" for v :: u32
  proof (induction v rule: av_log2.induct)
    case (1 v)
    show ?case
    proof (cases "drop_bit 1 v = 0")
      case True
      with "1.prems" show ?thesis
        by (simp add: av_log2.simps[of v] word_greater_zero_iff unat_gt_0 Suc_le_eq flip: unat_gt_0)
    next
      case False
      then have "2 ^ av_log2 (drop_bit 1 v) \<le> unat v div 2"
        using 1 unat_drop_bit_1[of v] by simp
      with False show ?thesis by (simp add: av_log2.simps[of v])
    qed
  qed
  moreover have "av_log2 0 = 0" by (simp add: av_log2.simps[of 0])
  moreover have "unat c < 2 ^ 15" using assms(2) by (simp add: word_less_nat_alt)
  ultimately have "2 ^ av_log2 c < (2 :: nat) ^ 15"
    by (cases "c = 0") (auto dest: le_less_trans)
  then have "av_log2 c < 15" by (rule power_less_imp_less_exp[rotated]) simp
  moreover have "c < 2 ^ 27" using assms(2) by (simp add: word_less_nat_alt)
  ultimately show ?thesis
    using assms(1) by (simp add: get_ue_golomb_def Let_def not_le)
qed

theorem get_ue_golomb_undefined_witness:
  "get_ue_golomb (skip_bits sample_gb 16) = None"
proof -
  have "UPDATE_CACHE (skip_bits sample_gb 16) (gb_index (skip_bits sample_gb 16)) = Some 0"
    by code_simp
  from get_ue_golomb_undefined[OF this] show ?thesis by simp
qed

end
