(* ===== verification/Sps.thy ===== *)
theory Sps
  imports GetBits
begin

text \<open>
  The H.264 sequence parameter set decoder of \<open>src/src/xutil/xmedia.cc\<close>: \<open>h264_decode_sps\<close>
  with its scaling lists, over the bit reader of GetBits. A step gives a flag (False for
  \<open>return -1\<close>), the \<open>SPS\<close> as it left it and the reader, or \<open>None\<close> where the reader is undefined.
  \<open>sps_bounds\<close> are the limits the code promises of an accepted set, and \<open>enc_baseline\<close> is the
  bit string of a baseline set, which the decoder is shown to invert.
\<close>

section \<open>The parameter sets\<close>

record SPS =
  sps_id :: u32
  profile_idc :: int
  level_idc :: int
  chroma_format_idc :: int
  residual_color_transform_flag :: int
  bit_depth_luma :: int
  bit_depth_chroma :: int
  transform_bypass :: int
  scaling_matrix4 :: "u8 list list"
  scaling_matrix8 :: "u8 list list"
  scaling_matrix_present :: bool
  colorspace :: int
  mb_width :: int
  mb_height :: int
  frame_mbs_only_flag :: int
  log2_max_frame_num :: int
  poc_type :: int
  log2_max_poc_lsb :: int
  delta_pic_order_always_zero_flag :: int
  offset_for_non_ref_pic :: int
  offset_for_top_to_bottom_field :: int
  poc_cycle_length :: int
  offset_for_ref_frame :: "16 word list"
  ref_frame_count :: int
  gaps_in_frame_num_allowed_flag :: int

record PPS =
  transform_8x8_mode :: int

section \<open>The scaling lists\<close>

definition ff_zigzag_direct :: "nat list" where
  "ff_zigzag_direct =
     [0,1,8,16,9,2,3,10,17,24,32,25,18,11,4,5,
      12,19,26,33,40,48,41,34,27,20,13,6,7,14,21,28,
      35,42,49,56,57,50,43,36,29,22,15,23,30,37,44,51,
      58,59,52,45,38,31,39,46,53,60,61,54,47,55,62,63]"

definition zigzag_scan :: "nat list" where
  "zigzag_scan = [0,1,4,8,5,2,3,6,9,12,13,10,7,11,14,15]"

definition default_scaling4 :: "u8 list list" where
  "default_scaling4 =
    [[6,13,20,28,13,20,28,32,20,28,32,37,28,32,37,42],
     [10,14,20,24,14,20,24,27,20,24,27,30,24,27,30,34]]"

definition default_scaling8 :: "u8 list list" where
  "default_scaling8 =
    [[6,10,13,16,18,23,25,27,10,11,16,18,23,25,27,29,
      13,16,18,23,25,27,29,31,16,18,23,25,27,29,31,33,
      18,23,25,27,29,31,33,36,23,25,27,29,31,33,36,38,
      25,27,29,31,33,36,38,40,27,29,31,33,36,38,40,42],
     [9,13,15,17,19,21,22,24,13,13,17,19,21,22,24,25,
      15,17,19,21,22,24,25,27,17,19,21,22,24,25,27,28,
      19,21,22,24,25,27,28,30,21,22,24,25,27,28,30,32,
      22,24,25,27,28,30,32,33,24,25,27,28,30,32,33,35]]"

text \<open>
  \<open>scaling_loop\<close> is the loop of \<open>decode_scaling_list\<close> from \<open>i\<close> on; \<open>next\<close> is masked to a byte
  each time it is read, so \<open>last\<close> and \<open>next\<close> are bytes.
\<close>

function scaling_loop ::
  "nat list \<Rightarrow> u8 list \<Rightarrow> nat \<Rightarrow> nat \<Rightarrow> u8 \<Rightarrow> u8 \<Rightarrow> u8 list \<Rightarrow> GetBitContext \<Rightarrow> (u8 list \<times> GetBitContext) option" where
  "scaling_loop scan jvt sz i las nex factors gb =
     (if sz \<le> i then Some (factors, gb)
      else do {
        (nex, gb) \<leftarrow> (if nex \<noteq> 0 then do { (d, gb) \<leftarrow> get_se_golomb gb; Some (las + ucast d, gb) }
                     else Some (nex, gb));
        if i = 0 \<and> nex = 0 then Some (take sz jvt @ drop sz factors, gb)
        else (let las = (if nex \<noteq> 0 then nex else las) in
          scaling_loop scan jvt sz (i + 1) las nex (factors[scan ! i := las]) gb) })"
  by auto
termination
  by (relation "measure (\<lambda>(_, _, sz, i, _). sz - i)") auto

declare scaling_loop.simps [simp del]

definition decode_scaling_list ::
  "GetBitContext \<Rightarrow> u8 list \<Rightarrow> nat \<Rightarrow> u8 list \<Rightarrow> u8 list \<Rightarrow> (u8 list \<times> GetBitContext) option" where
  "decode_scaling_list gb factors sz jvt_list fallback_list = do {
     (b, gb) \<leftarrow> get_bits1 gb;
     if b = 0 then Some (take sz fallback_list @ drop sz factors, gb)
     else scaling_loop (if sz = 16 then zigzag_scan else ff_zigzag_direct) jvt_list sz 0 8 8 factors gb }"

text \<open>One row of a matrix decoded in place.\<close>

definition decode_row ::
  "GetBitContext \<Rightarrow> u8 list list \<Rightarrow> nat \<Rightarrow> nat \<Rightarrow> u8 list \<Rightarrow> u8 list \<Rightarrow> (u8 list list \<times> GetBitContext) option" where
  "decode_row gb mat k sz jvt fallback = do {
     (row, gb) \<leftarrow> decode_scaling_list gb (mat ! k) sz jvt fallback;
     Some (mat[k := row], gb) }"

text \<open>The 4x4 rows and, where they are coded, the 8x8 rows: Y, Cr, Cb, intra then inter.\<close>

definition decode_matrix4 ::
  "GetBitContext \<Rightarrow> u8 list list \<Rightarrow> u8 list \<Rightarrow> u8 list \<Rightarrow> (u8 list list \<times> GetBitContext) option" where
  "decode_matrix4 gb m4 fallback0 fallback1 = do {
     (m4, gb) \<leftarrow> decode_row gb m4 0 16 (default_scaling4 ! 0) fallback0;
     (m4, gb) \<leftarrow> decode_row gb m4 1 16 (default_scaling4 ! 0) (m4 ! 0);
     (m4, gb) \<leftarrow> decode_row gb m4 2 16 (default_scaling4 ! 0) (m4 ! 1);
     (m4, gb) \<leftarrow> decode_row gb m4 3 16 (default_scaling4 ! 1) fallback1;
     (m4, gb) \<leftarrow> decode_row gb m4 4 16 (default_scaling4 ! 1) (m4 ! 3);
     decode_row gb m4 5 16 (default_scaling4 ! 1) (m4 ! 4) }"

definition decode_matrix8 ::
  "GetBitContext \<Rightarrow> u8 list list \<Rightarrow> u8 list \<Rightarrow> u8 list \<Rightarrow> bool \<Rightarrow> (u8 list list \<times> GetBitContext) option" where
  "decode_matrix8 gb m8 fallback2 fallback3 chroma444 = do {
     (m8, gb) \<leftarrow> decode_row gb m8 0 64 (default_scaling8 ! 0) fallback2;
     (m8, gb) \<leftarrow> decode_row gb m8 3 64 (default_scaling8 ! 1) fallback3;
     if chroma444 then do {
       (m8, gb) \<leftarrow> decode_row gb m8 1 64 (default_scaling8 ! 0) (m8 ! 0);
       (m8, gb) \<leftarrow> decode_row gb m8 4 64 (default_scaling8 ! 1) (m8 ! 3);
       (m8, gb) \<leftarrow> decode_row gb m8 2 64 (default_scaling8 ! 0) (m8 ! 1);
       decode_row gb m8 5 64 (default_scaling8 ! 1) (m8 ! 4) }
     else Some (m8, gb) }"

definition decode_scaling_matrices ::
  "GetBitContext \<Rightarrow> SPS \<Rightarrow> PPS option \<Rightarrow> bool \<Rightarrow> u8 list list \<Rightarrow> u8 list list \<Rightarrow>
    (bool \<times> u8 list list \<times> u8 list list \<times> GetBitContext) option" where
  "decode_scaling_matrices gb sps pps is_sps m4 m8 = do {
     let fallback_sps = (\<not> is_sps \<and> scaling_matrix_present sps);
     let fallback0 = (if fallback_sps then scaling_matrix4 sps ! 0 else default_scaling4 ! 0);
     let fallback1 = (if fallback_sps then scaling_matrix4 sps ! 3 else default_scaling4 ! 1);
     let fallback2 = (if fallback_sps then scaling_matrix8 sps ! 0 else default_scaling8 ! 0);
     let fallback3 = (if fallback_sps then scaling_matrix8 sps ! 3 else default_scaling8 ! 1);
     (b, gb) \<leftarrow> get_bits1 gb;
     if b = 0 then Some (scaling_matrix_present sps, m4, m8, gb)
     else do {
       let present = (scaling_matrix_present sps \<or> is_sps);
       (m4, gb) \<leftarrow> decode_matrix4 gb m4 fallback0 fallback1;
       t8 \<leftarrow> (if is_sps then Some True else map_option (\<lambda>p. transform_8x8_mode p \<noteq> 0) pps);
       if \<not> t8 then Some (present, m4, m8, gb)
       else do {
         (m8, gb) \<leftarrow> decode_matrix8 gb m8 fallback2 fallback3 (chroma_format_idc sps = 3);
         Some (present, m4, m8, gb) } } }"

section \<open>The decoder\<close>

definition image_check_size :: "u32 \<Rightarrow> u32 \<Rightarrow> bool" where
  "image_check_size w h \<longleftrightarrow> 0 <s w \<and> 0 <s h \<and>
     (ucast (w + 128) :: u64) * ucast (h + 128) < of_int (INT_MAX div 8)"

definition high_profile :: "int \<Rightarrow> bool" where
  "high_profile p \<longleftrightarrow> p \<in> set [100, 110, 122, 244, 44, 83, 86, 118, 128, 138, 144]"

text \<open>The fields of the high profiles, and what the others are given instead.\<close>

definition sps_chroma :: "GetBitContext \<Rightarrow> SPS \<Rightarrow> (bool \<times> SPS \<times> GetBitContext) option" where
  "sps_chroma gb sps =
     (if high_profile (profile_idc sps) then do {
        (v, gb) \<leftarrow> get_ue_golomb_31 gb;
        let sps = sps\<lparr>chroma_format_idc := sint v\<rparr>;
        if chroma_format_idc sps > 3 then Some (False, sps, gb)
        else do {
          (bad, sps, gb) \<leftarrow> (if chroma_format_idc sps = 3 then do {
              (v, gb) \<leftarrow> get_bits1 gb;
              Some (v \<noteq> 0, sps\<lparr>residual_color_transform_flag := sint v\<rparr>, gb) }
            else Some (False, sps, gb));
          if bad then Some (False, sps, gb)
          else do {
            (v, gb) \<leftarrow> get_ue_golomb gb;
            let sps = sps\<lparr>bit_depth_luma := sint v + 8\<rparr>;
            (v, gb) \<leftarrow> get_ue_golomb gb;
            let sps = sps\<lparr>bit_depth_chroma := sint v + 8\<rparr>;
            if bit_depth_chroma sps \<noteq> bit_depth_luma sps then Some (False, sps, gb)
            else if bit_depth_luma sps > 14 \<or> bit_depth_chroma sps > 14 then Some (False, sps, gb)
            else do {
              (v, gb) \<leftarrow> get_bits1 gb;
              let sps = sps\<lparr>transform_bypass := sint v\<rparr>;
              (present, m4, m8, gb) \<leftarrow>
                decode_scaling_matrices gb sps None True (scaling_matrix4 sps) (scaling_matrix8 sps);
              Some (True, sps\<lparr>scaling_matrix_present := present, scaling_matrix4 := m4,
                  scaling_matrix8 := m8\<rparr>, gb) } } } }
      else Some (True, sps\<lparr>chroma_format_idc := 1, bit_depth_luma := 8, bit_depth_chroma := 8\<rparr>, gb))"

text \<open>The loop over \<open>offset_for_ref_frame\<close>: a \<open>short\<close> keeps the low 16 bits.\<close>

fun ref_frame_loop :: "nat \<Rightarrow> nat \<Rightarrow> SPS \<Rightarrow> GetBitContext \<Rightarrow> (SPS \<times> GetBitContext) option" where
  "ref_frame_loop i 0 sps gb = Some (sps, gb)"
| "ref_frame_loop i (Suc n) sps gb = do {
     (v, gb) \<leftarrow> get_se_golomb gb;
     ref_frame_loop (i + 1) n
       (sps\<lparr>offset_for_ref_frame := (offset_for_ref_frame sps)[i := ucast v]\<rparr>) gb }"

definition sps_poc_cycle :: "GetBitContext \<Rightarrow> SPS \<Rightarrow> (bool \<times> SPS \<times> GetBitContext) option" where
  "sps_poc_cycle gb sps = do {
     (v, gb) \<leftarrow> get_bits1 gb;
     let sps = sps\<lparr>delta_pic_order_always_zero_flag := sint v\<rparr>;
     (v, gb) \<leftarrow> get_se_golomb gb;
     let sps = sps\<lparr>offset_for_non_ref_pic := sint v\<rparr>;
     (v, gb) \<leftarrow> get_se_golomb gb;
     let sps = sps\<lparr>offset_for_top_to_bottom_field := sint v\<rparr>;
     (v, gb) \<leftarrow> get_ue_golomb gb;
     let sps = sps\<lparr>poc_cycle_length := sint v\<rparr>;
     if unat v \<ge> 256 then Some (False, sps, gb)
     else do {
       (sps, gb) \<leftarrow> ref_frame_loop 0 (unat v) sps gb;
       Some (True, sps, gb) } }"

definition sps_poc :: "GetBitContext \<Rightarrow> SPS \<Rightarrow> (bool \<times> SPS \<times> GetBitContext) option" where
  "sps_poc gb sps = do {
     (v, gb) \<leftarrow> get_ue_golomb_31 gb;
     let sps = sps\<lparr>poc_type := sint v\<rparr>;
     if poc_type sps = 0 then do {
       (t, gb) \<leftarrow> get_ue_golomb gb;
       if t > 12 then Some (False, sps, gb)
       else Some (True, sps\<lparr>log2_max_poc_lsb := uint t + 4\<rparr>, gb) }
     else if poc_type sps = 1 then sps_poc_cycle gb sps
     else if poc_type sps \<noteq> 2 then Some (False, sps, gb)
     else Some (True, sps, gb) }"

definition sps_tail :: "GetBitContext \<Rightarrow> SPS \<Rightarrow> (bool \<times> SPS \<times> GetBitContext) option" where
  "sps_tail gb sps = do {
     (v, gb) \<leftarrow> get_ue_golomb_31 gb;
     let sps = sps\<lparr>ref_frame_count := sint v\<rparr>;
     if ref_frame_count sps > 36 - 2 \<or> ref_frame_count sps > 16 then Some (False, sps, gb)
     else do {
       (v, gb) \<leftarrow> get_bits1 gb;
       let sps = sps\<lparr>gaps_in_frame_num_allowed_flag := sint v\<rparr>;
       (w, gb) \<leftarrow> get_ue_golomb gb;
       let sps = sps\<lparr>mb_width := sint w + 1\<rparr>;
       (h, gb) \<leftarrow> get_ue_golomb gb;
       let sps = sps\<lparr>mb_height := sint h + 1\<rparr>;
       if (of_int (mb_width sps) :: u32) \<ge> of_int (INT_MAX div 16) \<or>
          (of_int (mb_height sps) :: u32) \<ge> of_int (INT_MAX div 16) \<or>
          \<not> image_check_size (of_int (16 * mb_width sps)) (of_int (16 * mb_height sps))
       then Some (False, sps, gb)
       else do {
         (v, gb) \<leftarrow> get_bits1 gb;
         Some (True, sps\<lparr>frame_mbs_only_flag := sint v\<rparr>, gb) } } }"

text \<open>
  \<open>h264_decode_sps\<close>. The six constraint flags are read and dropped. A step that fails ends the
  decoding with the fields set so far.
\<close>

fun constraint_flags :: "nat \<Rightarrow> GetBitContext \<Rightarrow> GetBitContext option" where
  "constraint_flags 0 gb = Some gb"
| "constraint_flags (Suc n) gb = do { (v, gb) \<leftarrow> get_bits1 gb; constraint_flags n gb }"

definition h264_decode_sps :: "GetBitContext \<Rightarrow> SPS \<Rightarrow> (bool \<times> SPS \<times> GetBitContext) option" where
  "h264_decode_sps gb sps = do {
     (prof, gb) \<leftarrow> get_bits gb 8;
     gb \<leftarrow> constraint_flags 6 gb;
     let gb = skip_bits gb 2;
     (lev, gb) \<leftarrow> get_bits gb 8;
     (sid, gb) \<leftarrow> get_ue_golomb_31 gb;
     if sid \<ge> 32 then Some (False, sps, gb)
     else do {
       let sps = sps\<lparr>sps_id := sid, profile_idc := sint prof, level_idc := sint lev,
         scaling_matrix4 := replicate 6 (replicate 16 16),
         scaling_matrix8 := replicate 6 (replicate 64 16),
         scaling_matrix_present := False, colorspace := 2\<rparr>;
       (ok, sps, gb) \<leftarrow> sps_chroma gb sps;
       if \<not> ok then Some (False, sps, gb)
       else do {
         (v, gb) \<leftarrow> get_ue_golomb gb;
         if sint v < 4 - 4 \<or> sint v > 12 + 4 - 4 then Some (False, sps, gb)
         else do {
           let sps = sps\<lparr>log2_max_frame_num := sint v + 4\<rparr>;
           (ok, sps, gb) \<leftarrow> sps_poc gb sps;
           if \<not> ok then Some (False, sps, gb) else sps_tail gb sps } } } }"

section \<open>What the readers return\<close>

lemma ue_table_le: "i < 512 \<Longrightarrow> ff_ue_golomb_vlc_code ! i \<le> 32"
proof -
  have "list_all (\<lambda>v. v \<le> 32) ff_ue_golomb_vlc_code" "length ff_ue_golomb_vlc_code = 512"
    by (simp_all add: ff_ue_golomb_vlc_code_def)
  then show "i < 512 \<Longrightarrow> ff_ue_golomb_vlc_code ! i \<le> 32"
    by (simp add: list_all_length)
qed

lemma unat_drop_bit_23: "unat (drop_bit 23 (c :: u32)) < 512"
  using unat_less_32[of c] unat_drop_bit_eq[of 23 c] by (simp add: drop_bit_eq_div less_mult_imp_div_less)

lemma unat_of_small: "k < 2 ^ 16 \<Longrightarrow> unat (of_nat k :: u32) = k"
  by (simp add: unsigned_of_nat take_bit_nat_eq_self)

lemma unat_of_nat_le: "unat (of_nat k :: u32) \<le> k"
  by (simp add: unsigned_of_nat take_bit_eq_mod)

lemma ue_31_le: "get_ue_golomb_31 gb = Some (v, gb') \<Longrightarrow> unat v \<le> 32"
  using ue_table_le[OF unat_drop_bit_23]
  by (auto simp: get_ue_golomb_31_def Let_def bind_eq_Some intro: order_trans[OF unat_of_nat_le])

lemma av_log2_bounds: "v \<noteq> 0 \<Longrightarrow> 2 ^ av_log2 v \<le> unat v \<and> unat v < 2 ^ Suc (av_log2 v)"
proof (induction v rule: av_log2.induct)
  case (1 v)
  show ?case
  proof (cases "drop_bit 1 v = 0")
    case True
    then have "unat v div 2 = 0" using unat_drop_bit_1[of v] by simp
    then have "unat v < 2" by simp
    with "1.prems" True show ?thesis
      by (simp add: av_log2.simps[of v] Suc_le_eq unat_gt_0)
  next
    case False
    then have "2 ^ av_log2 (drop_bit 1 v) \<le> unat v div 2 \<and> unat v div 2 < 2 ^ Suc (av_log2 (drop_bit 1 v))"
      using 1 unat_drop_bit_1[of v] by simp
    then have "2 * 2 ^ av_log2 (drop_bit 1 v) \<le> unat v \<and> unat v < 2 * 2 ^ Suc (av_log2 (drop_bit 1 v))"
      by auto
    with False show ?thesis by (simp add: av_log2.simps[of v])
  qed
qed

lemma ue_less: "get_ue_golomb gb = Some (v, gb') \<Longrightarrow> unat v < 2 ^ 16"
proof -
  assume "get_ue_golomb gb = Some (v, gb')"
  then obtain c where c: "(if c \<ge> 2 ^ 27 then
       Some (of_nat (ff_ue_golomb_vlc_code ! unat (drop_bit (32 - 9) c)),
         skip_bits gb (of_nat (ff_golomb_vlc_len ! unat (drop_bit (32 - 9) c))))
     else if 2 * int (av_log2 c) - 31 < 0 then None
       else Some (drop_bit (nat (2 * int (av_log2 c) - 31)) c - 1, skip_bits gb (of_int (32 - (2 * int (av_log2 c) - 31))))) =
     Some (v, gb')"
    unfolding get_ue_golomb_def Let_def bind_eq_Some by blast
  show ?thesis
  proof (cases "c \<ge> 2 ^ 27")
    case True
    with c have "v = of_nat (ff_ue_golomb_vlc_code ! unat (drop_bit 23 c))" by auto
    then show ?thesis
      using ue_table_le[OF unat_drop_bit_23, of c] by (simp add: unat_of_small)
  next
    case False
    let ?L = "av_log2 c" and ?k = "nat (2 * int (av_log2 c) - 31)"
    have L: "16 \<le> ?L" and v: "v = drop_bit ?k c - 1"
      using c unfolding if_not_P[OF False] by (auto split: if_splits)
    then have "c \<noteq> 0" by (auto simp: av_log2.simps[of 0])
    then have b: "2 ^ ?L \<le> unat c" "unat c < 2 ^ Suc ?L" using av_log2_bounds by auto
    have "unat c < 2 ^ 32" by (rule unat_less_32)
    with b(1) have "(2 :: nat) ^ ?L < 2 ^ 32" by linarith
    then have L2: "?L < 32" by (rule power_less_imp_less_exp[rotated]) simp
    have k: "?k = 2 * ?L - 31" "Suc ?L = ?k + (32 - ?L)" using L L2 by arith+
    have "unat c < 2 ^ (32 - ?L) * 2 ^ ?k"
      using b(2) unfolding k(2) power_add by (simp add: mult.commute)
    then have "unat c div 2 ^ ?k < 2 ^ (32 - ?L)" by (rule less_mult_imp_div_less)
    also have "\<dots> \<le> (2 :: nat) ^ 16" using L by (intro power_increasing) auto
    finally have hi: "unat (drop_bit ?k c) < 2 ^ 16"
      by (simp only: unat_drop_bit_eq) (simp add: drop_bit_eq_div)
    have "2 ^ ?k \<le> (2 :: nat) ^ ?L" using L2 k(1) by (intro power_increasing) auto
    then have "2 ^ ?k \<le> unat c" using b(1) by (rule le_trans)
    then have "0 < unat c div 2 ^ ?k" by (simp add: div_greater_zero_iff)
    then have "1 \<le> drop_bit ?k c"
      by (simp only: word_le_nat_alt unat_drop_bit_eq) (simp add: drop_bit_eq_div Suc_le_eq)
    then have "unat (drop_bit ?k c - 1) = unat (drop_bit ?k c) - 1" by (simp add: unat_sub)
    with hi v show ?thesis by simp
  qed
qed

lemma sint_of_less: "unat (v :: u32) < 2 ^ 31 \<Longrightarrow> sint v = int (unat v)"
  by (rule sint_small)

lemma ue_sint: "get_ue_golomb gb = Some (v, gb') \<Longrightarrow> 0 \<le> sint v \<and> sint v < 2 ^ 16"
proof -
  assume "get_ue_golomb gb = Some (v, gb')"
  from ue_less[OF this] have "unat v < 2 ^ 16" .
  moreover from this have "sint v = int (unat v)" by (intro sint_small) simp
  moreover have "int (unat v) < int (2 ^ 16)" using calculation(1) by (simp only: of_nat_less_iff)
  ultimately show ?thesis by (metis of_nat_0_le_iff of_nat_numeral of_nat_power)
qed

lemma ue_31_sint: "get_ue_golomb_31 gb = Some (v, gb') \<Longrightarrow> 0 \<le> sint v \<and> sint v \<le> 32"
proof -
  assume "get_ue_golomb_31 gb = Some (v, gb')"
  from ue_31_le[OF this] have "unat v \<le> 32" .
  moreover from this have "sint v = int (unat v)" by (intro sint_small) simp
  moreover have "int (unat v) \<le> int 32" using calculation(1) by (simp only: of_nat_le_iff)
  ultimately show ?thesis by (metis of_nat_0_le_iff of_nat_numeral)
qed

section \<open>What an accepted set satisfies\<close>

definition mat_shape :: "nat \<Rightarrow> nat \<Rightarrow> u8 list list \<Rightarrow> bool" where
  "mat_shape r c m \<longleftrightarrow> length m = r \<and> (\<forall>row \<in> set m. length row = c)"

definition sps_bounds :: "SPS \<Rightarrow> bool" where
  "sps_bounds s \<longleftrightarrow> unat (sps_id s) < 32 \<and> chroma_format_idc s \<in> {0..3} \<and>
     bit_depth_luma s \<in> {8..14} \<and> bit_depth_chroma s = bit_depth_luma s \<and>
     log2_max_frame_num s \<in> {4..16} \<and> poc_type s \<in> {0..2} \<and>
     (poc_type s = 0 \<longrightarrow> log2_max_poc_lsb s \<in> {4..16}) \<and>
     (poc_type s = 1 \<longrightarrow> poc_cycle_length s \<in> {0..<256}) \<and>
     ref_frame_count s \<in> {0..16} \<and> 0 < mb_width s \<and> 0 < mb_height s \<and>
     (16 * mb_width s + 128) * (16 * mb_height s + 128) < INT_MAX div 8 \<and>
     mat_shape 6 16 (scaling_matrix4 s) \<and> mat_shape 6 64 (scaling_matrix8 s)"

lemma scaling_loop_length:
  "scaling_loop scan jvt sz i las nex factors gb = Some (row, gb') \<Longrightarrow>
    length factors = sz \<Longrightarrow> length jvt = sz \<Longrightarrow> length row = sz"
proof (induction scan jvt sz i las nex factors gb rule: scaling_loop.induct)
  case (1 scan jvt sz i las nex factors gb)
  show ?case
  proof (cases "sz \<le> i")
    case True
    with "1.prems" show ?thesis by (simp add: scaling_loop.simps[of _ _ sz])
  next
    case False
    then obtain nex' gb1 where s1: "(if nex \<noteq> 0 then do { (d, gb) \<leftarrow> get_se_golomb gb; Some (las + ucast d, gb) }
                     else Some (nex, gb)) = Some (nex', gb1)"
      and rest: "(if i = 0 \<and> nex' = 0 then Some (take sz jvt @ drop sz factors, gb1)
        else (let las = (if nex' \<noteq> 0 then nex' else las) in
          scaling_loop scan jvt sz (i + 1) las nex' (factors[scan ! i := las]) gb1)) = Some (row, gb')"
      using "1.prems"(1) unfolding scaling_loop.simps[of scan jvt sz i] by (auto simp: bind_eq_Some)
    show ?thesis
    proof (cases "i = 0 \<and> nex' = 0")
      case True
      with rest "1.prems" show ?thesis by auto
    next
      case brk: False
      with rest "1.IH"[OF False s1 refl brk refl] "1.prems" show ?thesis
        by (simp add: Let_def)
    qed
  qed
qed

lemma decode_row_shape:
  assumes "decode_row gb mat k sz jvt fb = Some (mat', gb')"
    and "mat_shape r sz mat" "k < r" "length jvt = sz" "length fb = sz"
  shows "mat_shape r sz mat'"
proof -
  obtain row where row: "decode_scaling_list gb (mat ! k) sz jvt fb = Some (row, gb')"
    and mat': "mat' = mat[k := row]"
    using assms(1) by (auto simp: decode_row_def bind_eq_Some)
  have "length (mat ! k) = sz" using assms(2,3) by (simp add: mat_shape_def)
  then have "length row = sz"
    using row assms(4,5)
    by (auto simp: decode_scaling_list_def bind_eq_Some split: if_split_asm dest: scaling_loop_length)
  then show ?thesis
    using assms(2) unfolding mat' mat_shape_def by (auto dest: set_update_subset_insert[THEN subsetD])
qed

lemma defaults_shape:
  "k < 2 \<Longrightarrow> length (default_scaling4 ! k) = 16" "k < 2 \<Longrightarrow> length (default_scaling8 ! k) = 64"
  by (cases k; simp add: default_scaling4_def default_scaling8_def)+

lemma mat_shape_nth: "mat_shape r c m \<Longrightarrow> k < r \<Longrightarrow> length (m ! k) = c"
  by (simp add: mat_shape_def)

text \<open>One row of a chain of them, as an elimination rule.\<close>

lemma bind_row:
  assumes "decode_row gb m k sz jvt fb \<bind> (\<lambda>(m, gb). f m gb) = Some x" "mat_shape r sz m" "k < r"
    "length jvt = sz" "length fb = sz"
    "\<And>m' gb'. mat_shape r sz m' \<Longrightarrow> f m' gb' = Some x \<Longrightarrow> P"
  shows P
  using assms decode_row_shape[of gb m k sz jvt fb _ _ r] by (auto simp: bind_eq_Some)

lemma decode_matrix4_shape:
  assumes "decode_matrix4 gb m4 fb0 fb1 = Some (m4', gb')" "mat_shape 6 16 m4"
    "length fb0 = 16" "length fb1 = 16"
  shows "mat_shape 6 16 m4'"
  using assms unfolding decode_matrix4_def
  by (elim bind_row[where r = 6]) (simp_all add: defaults_shape mat_shape_nth, erule decode_row_shape[where r = 6],
      simp_all add: defaults_shape mat_shape_nth)

lemma decode_matrix8_shape:
  assumes "decode_matrix8 gb m8 fb2 fb3 chroma = Some (m8', gb')" "mat_shape 6 64 m8"
    "length fb2 = 64" "length fb3 = 64"
  shows "mat_shape 6 64 m8'"
proof (cases chroma)
  case True
  from assms show ?thesis
    unfolding decode_matrix8_def if_P[OF True]
    by (elim bind_row[where r = 6]) (simp_all add: defaults_shape mat_shape_nth, erule decode_row_shape[where r = 6],
        simp_all add: defaults_shape mat_shape_nth)
next
  case False
  from assms show ?thesis
    unfolding decode_matrix8_def if_not_P[OF False]
    by (elim bind_row[where r = 6]) (simp_all add: defaults_shape mat_shape_nth)
qed

lemma decode_scaling_matrices_shape:
  assumes "decode_scaling_matrices gb sps pps True m4 m8 = Some (present, m4', m8', gb')"
    and "mat_shape 6 16 m4" "mat_shape 6 64 m8"
  shows "mat_shape 6 16 m4' \<and> mat_shape 6 64 m8'"
  using assms unfolding decode_scaling_matrices_def Let_def
  by (auto simp: bind_eq_Some defaults_shape dest: decode_matrix4_shape decode_matrix8_shape
      split: if_split_asm)

text \<open>The three stages, each with the part of \<open>sps_bounds\<close> it establishes and keeps.\<close>

lemma sps_chroma_bounds:
  assumes "sps_chroma gb sps = Some (True, sps', gb')"
    and "mat_shape 6 16 (scaling_matrix4 sps)" "mat_shape 6 64 (scaling_matrix8 sps)"
  shows "chroma_format_idc sps' \<in> {0..3}" "bit_depth_luma sps' \<in> {8..14}"
    "bit_depth_chroma sps' = bit_depth_luma sps'" "sps_id sps' = sps_id sps"
    "mat_shape 6 16 (scaling_matrix4 sps')" "mat_shape 6 64 (scaling_matrix8 sps')"
  using assms unfolding sps_chroma_def Let_def
  by (auto simp: bind_eq_Some split: if_split_asm
      dest!: ue_31_sint ue_sint decode_scaling_matrices_shape)

lemma ref_frame_loop_frame:
  "ref_frame_loop i n sps gb = Some (sps', gb') \<Longrightarrow>
    \<exists>offs. sps' = sps\<lparr>offset_for_ref_frame := offs\<rparr>"
proof (induction i n sps gb rule: ref_frame_loop.induct)
  case (1 i sps gb)
  then show ?case by (intro exI[of _ "offset_for_ref_frame sps"]) simp
next
  case (2 i n sps gb)
  then show ?case by (fastforce simp: bind_eq_Some)
qed

definition poc_bounds :: "SPS \<Rightarrow> bool" where
  "poc_bounds s \<longleftrightarrow> poc_type s \<in> {0..2} \<and> (poc_type s = 0 \<longrightarrow> log2_max_poc_lsb s \<in> {4..16}) \<and>
     (poc_type s = 1 \<longrightarrow> poc_cycle_length s \<in> {0..<256})"

text \<open>The fields no later stage writes.\<close>

definition chroma_fields where
  "chroma_fields s = (sps_id s, chroma_format_idc s, bit_depth_luma s, bit_depth_chroma s,
     scaling_matrix4 s, scaling_matrix8 s, log2_max_frame_num s)"

lemma sps_poc_cycle_bounds:
  assumes "sps_poc_cycle gb sps = Some (True, sps', gb')"
  shows "poc_cycle_length sps' \<in> {0..<256} \<and> poc_type sps' = poc_type sps \<and>
    chroma_fields sps' = chroma_fields sps"
proof -
  obtain b g2 where b: "get_bits1 gb = Some (b, g2)"
    using assms by (cases "get_bits1 gb") (auto simp: sps_poc_cycle_def)
  obtain d1 g3 where d1: "get_se_golomb g2 = Some (d1, g3)"
    using assms b by (cases "get_se_golomb g2") (auto simp: sps_poc_cycle_def)
  obtain d2 g4 where d2: "get_se_golomb g3 = Some (d2, g4)"
    using assms b d1 by (cases "get_se_golomb g3") (auto simp: sps_poc_cycle_def)
  obtain w g5 where w: "get_ue_golomb g4 = Some (w, g5)"
    using assms b d1 d2 by (cases "get_ue_golomb g4") (auto simp: sps_poc_cycle_def)
  let ?s = "sps\<lparr>delta_pic_order_always_zero_flag := sint b,
    offset_for_non_ref_pic := sint d1, offset_for_top_to_bottom_field := sint d2,
    poc_cycle_length := sint w\<rparr>"
  have r: "(if unat w \<ge> 256 then Some (False, ?s, g5)
      else do { (sps, gb) \<leftarrow> ref_frame_loop 0 (unat w) ?s g5; Some (True, sps, gb) }) = Some (True, sps', gb')"
    using assms by (simp add: sps_poc_cycle_def b d1 d2 w Let_def)
  then have small: "unat w < 256" by (auto split: if_split_asm)
  with r obtain g where "ref_frame_loop 0 (unat w) ?s g5 = Some (sps', g)"
    by (auto simp: bind_eq_Some)
  then obtain offs where s': "sps' = ?s\<lparr>offset_for_ref_frame := offs\<rparr>"
    using ref_frame_loop_frame by blast
  have i: "sint w = int (unat w)" using small by (intro sint_small) simp
  then have "sint w < 256" using small by (metis of_nat_less_iff of_nat_numeral)
  moreover have "0 \<le> sint w" unfolding i by (rule of_nat_0_le_iff)
  ultimately show ?thesis
    unfolding s' by (simp add: chroma_fields_def)
qed

lemma sps_poc_bounds:
  assumes "sps_poc gb sps = Some (True, sps', gb')"
  shows "poc_bounds sps' \<and> chroma_fields sps' = chroma_fields sps"
proof -
  obtain v g1 where v: "get_ue_golomb_31 gb = Some (v, g1)"
    using assms by (cases "get_ue_golomb_31 gb") (auto simp: sps_poc_def)
  let ?s = "sps\<lparr>poc_type := sint v\<rparr>"
  consider (zero) "sint v = 0" | (one) "sint v = 1" | (other) "sint v \<noteq> 0" "sint v \<noteq> 1" by blast
  then show ?thesis
  proof cases
    case zero
    obtain t g2 where t0: "get_ue_golomb g1 = Some (t, g2)"
      using assms zero by (cases "get_ue_golomb g1") (auto simp: sps_poc_def v Let_def)
    have t: "\<not> t > 12" "sps' = ?s\<lparr>log2_max_poc_lsb := uint t + 4\<rparr>"
      using assms zero by (auto simp: sps_poc_def v t0 Let_def split: if_split_asm)
    then have "uint t \<le> 12" by (simp add: not_less word_le_def)
    with t(2) zero show ?thesis by (simp add: poc_bounds_def chroma_fields_def)
  next
    case one
    then have "sps_poc_cycle g1 ?s = Some (True, sps', gb')"
      using assms by (simp add: sps_poc_def v Let_def)
    from sps_poc_cycle_bounds[OF this] one show ?thesis
      by (simp add: poc_bounds_def chroma_fields_def)
  next
    case other
    then have "sps' = ?s" "sint v = 2"
      using assms by (auto simp: sps_poc_def v Let_def split: if_split_asm)
    then show ?thesis by (simp add: poc_bounds_def chroma_fields_def)
  qed
qed

lemma image_check_size_nat:
  assumes "image_check_size (of_nat a) (of_nat b)" "a < 2 ^ 21" "b < 2 ^ 21"
  shows "0 < a \<and> 0 < b \<and> (int a + 128) * (int b + 128) < INT_MAX div 8"
proof -
  have u: "unat (of_nat k + 128 :: u32) = k + 128" if "k < 2 ^ 21" for k
    using that by (simp add: unat_word_ariths unsigned_of_nat take_bit_nat_eq_self)
  have w: "uint (ucast (of_nat k + 128 :: u32) :: u64) = int k + 128" if "k < 2 ^ 21" for k
  proof -
    have "uint (of_nat k + 128 :: u32) = int (k + 128)" unfolding u[OF that, symmetric] by simp
    then show ?thesis
      using that by (simp only: unsigned_ucast_eq) (simp add: take_bit_int_eq_self)
  qed
  have "int a + 128 < 2 ^ 22" "int b + 128 < 2 ^ 22" using assms(2,3) by auto
  then have "(int a + 128) * (int b + 128) < 2 ^ 22 * 2 ^ 22"
    by (intro mult_strict_mono) auto
  then have "uint (ucast (of_nat a + 128 :: u32) * ucast (of_nat b + 128 :: u32) :: u64) =
      (int a + 128) * (int b + 128)"
    unfolding uint_word_ariths w[OF assms(2)] w[OF assms(3)] by (intro mod_pos_pos_trivial) auto
  then have "(int a + 128) * (int b + 128) < INT_MAX div 8"
    using assms(1) unfolding image_check_size_def word_less_def by simp
  moreover have "0 < a" "0 < b"
    using assms(1) by (auto simp: image_check_size_def intro!: gr0I)
  ultimately show ?thesis by simp
qed

lemma image_check_size_intro:
  assumes "0 < a" "0 < b" "a < 2 ^ 21" "b < 2 ^ 21" "(a + 128) * (b + 128) < nat (INT_MAX div 8)"
  shows "image_check_size (of_nat a) (of_nat b)"
proof -
  have u: "unat (of_nat k :: u32) = k" "unat (of_nat k + 128 :: u32) = k + 128" if "k < 2 ^ 21" for k
    using that by (simp_all add: unat_word_ariths unsigned_of_nat take_bit_nat_eq_self)
  have pos: "0 <s (of_nat k :: u32)" if "0 < k" "k < 2 ^ 21" for k
    using that u(1)[OF that(2)] sint_small[of "of_nat k"] by (simp add: word_sless_alt)
  have w: "unat (ucast (of_nat k + 128 :: u32) :: u64) = k + 128" if "k < 2 ^ 21" for k
    using that u(2)[OF that] by (simp add: unsigned_ucast_eq take_bit_nat_eq_self)
  have "(a + 128) * (b + 128) < 2 ^ 64" using assms(5) by simp
  then have "unat (ucast (of_nat a + 128 :: u32) * ucast (of_nat b + 128 :: u32) :: u64) = (a + 128) * (b + 128)"
    unfolding unat_word_ariths w[OF assms(3)] w[OF assms(4)] by simp
  then have "ucast (of_nat a + 128 :: u32) * ucast (of_nat b + 128 :: u32) < (of_int (INT_MAX div 8) :: u64)"
    using assms(5) by (simp add: word_less_nat_alt)
  with pos[OF assms(1,3)] pos[OF assms(2,4)] show ?thesis
    by (simp add: image_check_size_def)
qed

lemma sps_tail_bounds:
  assumes "sps_tail gb sps = Some (True, sps', gb')"
  shows "ref_frame_count sps' \<in> {0..16} \<and> 0 < mb_width sps' \<and> 0 < mb_height sps' \<and>
     (16 * mb_width sps' + 128) * (16 * mb_height sps' + 128) < INT_MAX div 8 \<and>
     (poc_bounds sps \<longrightarrow> poc_bounds sps') \<and> chroma_fields sps' = chroma_fields sps"
proof -
  obtain v g1 where v: "get_ue_golomb_31 gb = Some (v, g1)"
    using assms by (cases "get_ue_golomb_31 gb") (auto simp: sps_tail_def)
  have r16: "\<not> sint v > 16"
    using assms by (auto simp: sps_tail_def v Let_def)
  obtain b g2 where b: "get_bits1 g1 = Some (b, g2)"
    using assms r16 by (cases "get_bits1 g1") (auto simp: sps_tail_def v Let_def)
  obtain w g3 where w: "get_ue_golomb g2 = Some (w, g3)"
    using assms r16 b by (cases "get_ue_golomb g2") (auto simp: sps_tail_def v Let_def)
  obtain h g4 where h: "get_ue_golomb g3 = Some (h, g4)"
    using assms r16 b w by (cases "get_ue_golomb g3") (auto simp: sps_tail_def v Let_def)
  have size: "image_check_size (of_int (16 * (sint w + 1))) (of_int (16 * (sint h + 1)))"
    using assms r16 by (auto simp: sps_tail_def v b w h Let_def split: if_split_asm)
  obtain f where f: "sps' = sps\<lparr>ref_frame_count := sint v, gaps_in_frame_num_allowed_flag := sint b,
      mb_width := sint w + 1, mb_height := sint h + 1, frame_mbs_only_flag := f\<rparr>"
    using assms r16 by (auto simp: sps_tail_def v b w h Let_def bind_eq_Some split: if_split_asm)
  define x y where "x = nat (16 * (sint w + 1))" and "y = nat (16 * (sint h + 1))"
  have xy: "16 * (sint w + 1) = int x" "16 * (sint h + 1) = int y" "x < 2 ^ 21" "y < 2 ^ 21"
    using ue_sint[OF w] ue_sint[OF h] by (auto simp: x_def y_def nat_less_iff)
  have "0 < x \<and> 0 < y \<and> (int x + 128) * (int y + 128) < INT_MAX div 8"
    using size xy(3,4) unfolding xy(1,2) of_int_of_nat_eq by (rule image_check_size_nat)
  then show ?thesis
    using ue_31_sint[OF v] r16 ue_sint[OF w] ue_sint[OF h]
    by (simp add: f poc_bounds_def chroma_fields_def flip: xy(1,2))
qed

lemma h264_decode_sps_bounds:
  assumes "h264_decode_sps gb sps = Some (True, sps', gb')"
  shows "sps_bounds sps'"
proof -
  obtain pr g1 where pr: "get_bits gb 8 = Some (pr, g1)"
    using assms by (cases "get_bits gb 8") (auto simp: h264_decode_sps_def)
  obtain g2 where g2: "constraint_flags 6 g1 = Some g2"
    using assms pr by (cases "constraint_flags 6 g1") (auto simp: h264_decode_sps_def)
  obtain lv g3 where lv: "get_bits (skip_bits g2 2) 8 = Some (lv, g3)"
    using assms pr g2 by (cases "get_bits (skip_bits g2 2) 8") (auto simp: h264_decode_sps_def)
  obtain sid g4 where sid: "get_ue_golomb_31 g3 = Some (sid, g4)"
    using assms pr g2 lv by (cases "get_ue_golomb_31 g3") (auto simp: h264_decode_sps_def)
  note a = assms[unfolded h264_decode_sps_def pr g2 lv sid Let_def bind.simps prod.case]
  have id: "\<not> sid \<ge> 32" using a by (auto split: if_split_asm)
  define s1 where "s1 = sps\<lparr>sps_id := sid, profile_idc := sint pr, level_idc := sint lv,
         scaling_matrix4 := replicate 6 (replicate 16 16), scaling_matrix8 := replicate 6 (replicate 64 16),
         scaling_matrix_present := False, colorspace := 2\<rparr>"
  note a1 = a[unfolded if_not_P[OF id], folded s1_def]
  obtain s2 g5 where s2: "sps_chroma g4 s1 = Some (True, s2, g5)"
    using a1 by (cases "sps_chroma g4 s1") (auto split: if_split_asm)
  note a2 = a1[unfolded s2 bind.simps prod.case not_True_eq_False if_False]
  obtain v g6 where v: "get_ue_golomb g5 = Some (v, g6)"
    using a2 by (cases "get_ue_golomb g5") auto
  have vr: "\<not> (sint v < 4 - 4 \<or> sint v > 12 + 4 - 4)"
    using a2 v by (auto split: if_split_asm)
  define s3 where "s3 = s2\<lparr>log2_max_frame_num := sint v + 4\<rparr>"
  note a3 = a2[unfolded v bind.simps prod.case if_not_P[OF vr], folded s3_def]
  obtain s4 g7 where s4: "sps_poc g6 s3 = Some (True, s4, g7)"
    using a3 by (cases "sps_poc g6 s3") (auto split: if_split_asm)
  have s5: "sps_tail g7 s4 = Some (True, sps', gb')"
    using a3 s4 by simp
  have shape: "mat_shape 6 16 (scaling_matrix4 s1)" "mat_shape 6 64 (scaling_matrix8 s1)"
    by (simp_all add: s1_def mat_shape_def)
  note b2 = sps_chroma_bounds[OF s2 shape]
  have "unat (sps_id s1) < 32"
    using id by (simp add: s1_def word_le_nat_alt)
  moreover have "chroma_fields sps' = chroma_fields s3"
    using sps_tail_bounds[OF s5] sps_poc_bounds[OF s4] by simp
  ultimately show ?thesis
    using b2 vr sps_tail_bounds[OF s5] sps_poc_bounds[OF s4]
    by (auto simp: sps_bounds_def chroma_fields_def s3_def poc_bounds_def)
qed

section \<open>The bits of a parameter set\<close>

definition spells :: "mem \<Rightarrow> nat \<Rightarrow> bool list \<Rightarrow> bool" where
  "spells m i bs \<longleftrightarrow> (\<forall>j < length bs. bit_at m (i + j) = bs ! j)"

fun nbits :: "nat \<Rightarrow> nat \<Rightarrow> bool list" where
  "nbits 0 k = []"
| "nbits (Suc n) k = nbits n (k div 2) @ [odd k]"

fun nlog :: "nat \<Rightarrow> nat" where
  "nlog n = (if n < 2 then 0 else Suc (nlog (n div 2)))"

declare nlog.simps [simp del]

definition ue_bits :: "nat \<Rightarrow> bool list" where
  "ue_bits v = replicate (nlog (v + 1)) False @ nbits (nlog (v + 1) + 1) (v + 1)"

lemma length_nbits [simp]: "length (nbits n k) = n"
  by (induction n arbitrary: k) auto

lemma spells_append: "spells m i (as @ bs) \<longleftrightarrow> spells m i as \<and> spells m (i + length as) bs"
proof
  assume *: "spells m i (as @ bs)"
  have "bit_at m (i + j) = as ! j" if "j < length as" for j
    using *[unfolded spells_def, rule_format, of j] that by (simp add: nth_append)
  moreover have "bit_at m (i + length as + j) = bs ! j" if "j < length bs" for j
    using *[unfolded spells_def, rule_format, of "length as + j"] that by (simp add: add.assoc)
  ultimately show "spells m i as \<and> spells m (i + length as) bs" by (simp add: spells_def)
next
  assume *: "spells m i as \<and> spells m (i + length as) bs"
  show "spells m i (as @ bs)"
    unfolding spells_def
  proof (intro allI impI)
    fix j assume "j < length (as @ bs)"
    then show "bit_at m (i + j) = (as @ bs) ! j"
      using * unfolding spells_def nth_append
      by (cases "j < length as") (auto simp: not_less le_iff_add add.assoc)
  qed
qed

lemma spells_Cons: "spells m i (b # bs) \<longleftrightarrow> bit_at m i = b \<and> spells m (i + 1) bs"
  using spells_append[of m i "[b]" bs] by (simp add: spells_def)

lemma bval_nbits: "spells m i (nbits n k) \<Longrightarrow> k < 2 ^ n \<Longrightarrow> bval m i n = k"
proof (induction n arbitrary: k)
  case (Suc n)
  then have "spells m i (nbits n (k div 2))" "bit_at m (i + n) = odd k"
    by (simp_all only: nbits.simps spells_append length_nbits) (simp add: spells_Cons)
  with Suc.IH[of "k div 2"] Suc.prems(2) show ?case by (simp add: of_bool_def)
qed simp

lemma nlog_bounds: "0 < n \<Longrightarrow> 2 ^ nlog n \<le> n \<and> n < 2 ^ Suc (nlog n)"
proof (induction n rule: nlog.induct)
  case (1 n)
  show ?case
  proof (cases "n < 2")
    case False
    with 1 have "2 ^ nlog (n div 2) \<le> n div 2 \<and> n div 2 < 2 ^ Suc (nlog (n div 2))" by simp
    with False show ?thesis by (simp add: nlog.simps[of n]) linarith
  qed (use 1 in \<open>simp add: nlog.simps[of n]\<close>)
qed

lemma nlog_le: "n < 2 ^ Suc k \<Longrightarrow> 0 < n \<Longrightarrow> nlog n \<le> k"
  using nlog_bounds[of n] by (meson le_less_trans less_Suc_eq_le power_less_imp_less_exp one_less_numeral_iff semiring_norm(76))

lemma length_ue_bits: "length (ue_bits v) = 2 * nlog (v + 1) + 1"
  by (simp add: ue_bits_def)

lemma nbits_top: "2 ^ n \<le> k \<Longrightarrow> k < 2 ^ Suc n \<Longrightarrow> nbits (Suc n) k ! 0"
proof (induction n arbitrary: k)
  case (Suc n)
  then have "2 ^ n \<le> k div 2" "k div 2 < 2 ^ Suc n" by auto
  from Suc.IH[OF this] have "nbits (Suc n) (k div 2) ! 0" .
  then show ?case
    unfolding nbits.simps(2)[of "Suc n" k] by (simp only: nth_append length_nbits zero_less_Suc if_True)
qed auto

lemma ue_bits_code:
  assumes "spells m i (ue_bits v)"
  shows "code_at m i (nlog (v + 1))" "ue_at m i (nlog (v + 1)) = v"
proof -
  let ?z = "nlog (v + 1)"
  have b: "2 ^ ?z \<le> v + 1" "v + 1 < 2 ^ Suc ?z" using nlog_bounds[of "v + 1"] by auto
  have z: "spells m i (replicate ?z False)" and k: "spells m (i + ?z) (nbits (Suc ?z) (v + 1))"
    using assms by (simp_all add: ue_bits_def spells_append)
  have "bit_at m (i + ?z)"
    using k nbits_top[OF b] unfolding spells_def by (metis add.right_neutral length_nbits zero_less_Suc)
  with z show "code_at m i ?z" by (simp add: code_at_def spells_def)
  show "ue_at m i ?z = v"
    using bval_nbits[OF k b(2)] by (simp add: ue_at_def del: bval.simps)
qed

text \<open>The reader stands before the bits \<open>bs\<close>.\<close>

definition before :: "GetBitContext \<Rightarrow> bool list \<Rightarrow> bool" where
  "before gb bs \<longleftrightarrow> gb_ok gb \<and> gpos gb + length bs \<le> unat (gb_size_in_bits_plus8 gb) \<and>
     spells (gb_buffer gb) (gpos gb) bs"

lemma before_skip:
  assumes "before gb (as @ bs)"
  shows "before (skip_bits gb (of_nat (length as))) bs"
  using assms gpos_skip[of gb "length as"]
  by (auto simp: before_def gb_ok_skip spells_append)

lemma before_bits:
  assumes "before gb (nbits n k @ bs)" "k < 2 ^ n" "0 < n" "n \<le> 25"
  obtains gb' where "get_bits gb n = Some (of_nat k, gb')" "before gb' bs"
proof -
  have l: "loadable gb" using assms(1) gb_ok_loadable by (simp add: before_def)
  obtain v where v: "get_bits gb n = Some (v, skip_bits gb (of_nat n))"
    "unat v = bval (gb_buffer gb) (gpos gb) n"
    by (rule get_bits_value[OF l assms(3,4)])
  have "unat v = k"
    using assms(1,2) v(2) bval_nbits by (simp add: before_def spells_append)
  then have "v = of_nat k" by (metis of_nat_unat ucast_id)
  with v(1) before_skip[OF assms(1)] that show thesis by simp
qed

lemma before_bit1:
  assumes "before gb (b # bs)"
  obtains gb' where "get_bits1 gb = Some (of_bool b, gb')" "before gb' bs"
proof (rule that)
  have "loadable gb" using assms gb_ok_loadable by (simp add: before_def)
  then show "get_bits1 gb = Some (of_bool b, skip_bits gb 1)"
    using assms get_bits1_value[of gb]
    by (auto simp: before_def gb_ok_def loadable_def spells_Cons)
  show "before (skip_bits gb 1) bs"
    using before_skip[of gb "[b]" bs] assms by simp
qed

lemma before_ue:
  assumes "before gb (ue_bits v @ bs)" "v < 2 ^ 13 - 1"
  obtains gb' where "get_ue_golomb gb = Some (of_nat v, gb')" "before gb' bs"
proof (rule that)
  have l: "loadable gb" using assms(1) gb_ok_loadable by (simp add: before_def)
  have "spells (gb_buffer gb) (gpos gb) (ue_bits v)"
    using assms(1) by (simp add: before_def spells_append)
  note c = ue_bits_code[OF this]
  have "nlog (v + 1) \<le> 12" using assms(2) by (intro nlog_le) auto
  from get_ue_golomb_value[OF l c(1) this]
  show "get_ue_golomb gb = Some (of_nat v, skip_bits gb (of_nat (length (ue_bits v))))"
    unfolding c(2) length_ue_bits .
  show "before (skip_bits gb (of_nat (length (ue_bits v)))) bs"
    by (rule before_skip[OF assms(1)])
qed

lemma before_ue31:
  assumes "before gb (ue_bits v @ bs)" "v < 31"
  obtains gb' where "get_ue_golomb_31 gb = Some (of_nat v, gb')" "before gb' bs"
proof (rule that)
  have l: "loadable gb" using assms(1) gb_ok_loadable by (simp add: before_def)
  have "spells (gb_buffer gb) (gpos gb) (ue_bits v)"
    using assms(1) by (simp add: before_def spells_append)
  note c = ue_bits_code[OF this]
  have "nlog (v + 1) \<le> 4" using assms(2) by (intro nlog_le) auto
  from get_ue_golomb_31_value[OF l c(1) this]
  show "get_ue_golomb_31 gb = Some (of_nat v, skip_bits gb (of_nat (length (ue_bits v))))"
    unfolding c(2) length_ue_bits .
  show "before (skip_bits gb (of_nat (length (ue_bits v)))) bs"
    by (rule before_skip[OF assms(1)])
qed

section \<open>A baseline set is decoded\<close>

record baseline =
  b_profile :: nat
  b_flags :: nat
  b_level :: nat
  b_id :: nat
  b_frame_num :: nat
  b_poc_lsb :: "nat option"
  b_refs :: nat
  b_gaps :: bool
  b_width :: nat
  b_height :: nat
  b_mbs_only :: bool

definition enc_poc :: "nat option \<Rightarrow> bool list" where
  "enc_poc t = (case t of Some t \<Rightarrow> ue_bits 0 @ ue_bits t | None \<Rightarrow> ue_bits 2)"

definition enc_baseline :: "baseline \<Rightarrow> bool list" where
  "enc_baseline b = nbits 8 (b_profile b) @ nbits 6 (b_flags b) @ nbits 2 0 @ nbits 8 (b_level b) @
     ue_bits (b_id b) @ ue_bits (b_frame_num b) @ enc_poc (b_poc_lsb b) @ ue_bits (b_refs b) @
     [b_gaps b] @ ue_bits (b_width b - 1) @ ue_bits (b_height b - 1) @ [b_mbs_only b]"

definition wf_baseline :: "baseline \<Rightarrow> bool" where
  "wf_baseline b \<longleftrightarrow> b_profile b < 256 \<and> \<not> high_profile (int (b_profile b)) \<and> b_flags b < 64 \<and>
     b_level b < 256 \<and> b_id b < 31 \<and> b_frame_num b \<le> 12 \<and>
     (case b_poc_lsb b of Some t \<Rightarrow> t \<le> 12 | None \<Rightarrow> True) \<and> b_refs b \<le> 16 \<and>
     b_width b \<in> {1..8191} \<and> b_height b \<in> {1..8191} \<and>
     (16 * b_width b + 128) * (16 * b_height b + 128) < nat (INT_MAX div 8)"

text \<open>
  What the coded set fills in: the fields it has, the values the code gives where the set is silent
  (flat scaling matrices, 4:2:0, eight bits), and every other field as it was.
\<close>

definition coded_sps :: "baseline \<Rightarrow> SPS \<Rightarrow> SPS" where
  "coded_sps b s = (let s = s\<lparr>sps_id := of_nat (b_id b), profile_idc := int (b_profile b), level_idc := int (b_level b),
       scaling_matrix4 := replicate 6 (replicate 16 16), scaling_matrix8 := replicate 6 (replicate 64 16),
       scaling_matrix_present := False, colorspace := 2, chroma_format_idc := 1, bit_depth_luma := 8,
       bit_depth_chroma := 8, log2_max_frame_num := int (b_frame_num b) + 4,
       ref_frame_count := int (b_refs b), gaps_in_frame_num_allowed_flag := of_bool (b_gaps b),
       mb_width := int (b_width b), mb_height := int (b_height b), frame_mbs_only_flag := of_bool (b_mbs_only b)\<rparr>
     in case b_poc_lsb b of Some t \<Rightarrow> s\<lparr>poc_type := 0, log2_max_poc_lsb := int t + 4\<rparr> | None \<Rightarrow> s\<lparr>poc_type := 2\<rparr>)"

lemma before_flags:
  "before gb (as @ bs) \<Longrightarrow> \<exists>gb'. constraint_flags (length as) gb = Some gb' \<and> before gb' bs"
proof (induction as arbitrary: gb)
  case (Cons a as)
  then have "before gb (a # as @ bs)" by simp
  then obtain g1 where "get_bits1 gb = Some (of_bool a, g1)" "before g1 (as @ bs)"
    by (rule before_bit1)
  with Cons.IH[of g1] show ?case by auto
qed simp

lemma sint_of_nat_small: "k < 2 ^ 31 \<Longrightarrow> sint (of_nat k :: u32) = int k"
  using sint_small[of "of_nat k"] by (simp add: unsigned_of_nat take_bit_nat_eq_self)

lemma before_poc:
  assumes "before gb (enc_poc t @ bs)" "case t of Some t \<Rightarrow> t \<le> 12 | None \<Rightarrow> True"
  obtains s' gb' where "sps_poc gb s = Some (True, s', gb')" "before gb' bs"
    "s' = (case t of Some t \<Rightarrow> s\<lparr>poc_type := 0, log2_max_poc_lsb := int t + 4\<rparr> | None \<Rightarrow> s\<lparr>poc_type := 2\<rparr>)"
proof (cases t)
  case None
  with assms(1) have "before gb (ue_bits 2 @ bs)" by (simp add: enc_poc_def)
  then obtain g1 where "get_ue_golomb_31 gb = Some (of_nat 2, g1)" "before g1 bs"
    by (rule before_ue31) auto
  moreover have "sint (of_nat 2 :: u32) = 2" using sint_of_nat_small[of 2] by simp
  ultimately have "sps_poc gb s = Some (True, s\<lparr>poc_type := 2\<rparr>, g1)"
    unfolding sps_poc_def Let_def by (simp only: bind.simps prod.case) simp
  with that None \<open>before g1 bs\<close> show thesis by simp
next
  case (Some k)
  with assms have b: "before gb (ue_bits 0 @ ue_bits k @ bs)" and k: "k \<le> 12"
    by (simp_all add: enc_poc_def)
  obtain g1 where g1: "get_ue_golomb_31 gb = Some (of_nat 0, g1)" "before g1 (ue_bits k @ bs)"
    by (rule before_ue31[OF b]) auto
  obtain g2 where g2: "get_ue_golomb g1 = Some (of_nat k, g2)" "before g2 bs"
    by (rule before_ue[OF g1(2)]) (use k in auto)
  have u: "unat (of_nat k :: u32) = k" using k by (intro unat_of_small) simp
  then have "uint (of_nat k :: u32) = int k" by (metis uint_nat)
  moreover have "\<not> (12 :: u32) < of_nat k" using k u by (simp add: word_less_nat_alt)
  moreover have "sint (of_nat 0 :: u32) = 0" by simp
  ultimately have "sps_poc gb s = Some (True, s\<lparr>poc_type := 0, log2_max_poc_lsb := int k + 4\<rparr>, g2)"
    unfolding sps_poc_def Let_def g1(1) bind.simps prod.case by (simp add: g2(1))
  with that g2(2) Some show thesis by simp
qed

lemma before_tail:
  assumes "before gb (ue_bits n @ [g] @ ue_bits w @ ue_bits h @ [f])" "n \<le> 16" "w < 8191" "h < 8191"
    and size: "(16 * (w + 1) + 128) * (16 * (h + 1) + 128) < nat (INT_MAX div 8)"
  obtains gb' where "sps_tail gb s = Some (True, s\<lparr>ref_frame_count := int n,
    gaps_in_frame_num_allowed_flag := of_bool g, mb_width := int w + 1, mb_height := int h + 1,
    frame_mbs_only_flag := of_bool f\<rparr>, gb')"
proof -
  obtain g1 where g1: "get_ue_golomb_31 gb = Some (of_nat n, g1)" "before g1 (g # ue_bits w @ ue_bits h @ [f])"
    by (rule before_ue31[OF assms(1)]) (use assms(2) in auto)
  obtain g2 where g2: "get_bits1 g1 = Some (of_bool g, g2)" "before g2 (ue_bits w @ ue_bits h @ [f])"
    by (rule before_bit1[OF g1(2)])
  obtain g3 where g3: "get_ue_golomb g2 = Some (of_nat w, g3)" "before g3 (ue_bits h @ [f])"
    by (rule before_ue[OF g2(2)]) (use assms(3) in auto)
  obtain g4 where g4: "get_ue_golomb g3 = Some (of_nat h, g4)" "before g4 [f]"
    by (rule before_ue[OF g3(2)]) (use assms(4) in auto)
  obtain g5 where g5: "get_bits1 g4 = Some (of_bool f, g5)"
    by (rule before_bit1[OF g4(2)]) blast
  have i: "sint (of_nat n :: u32) = int n" "sint (of_nat w :: u32) = int w" "sint (of_nat h :: u32) = int h"
    "sint (of_bool g :: u32) = of_bool g" "sint (of_bool f :: u32) = of_bool f"
    using assms(2-4) by (simp_all add: sint_of_nat_small)
  have b: "of_int (int k + 1) = (of_nat (k + 1) :: u32)"
    "of_int (16 * (int k + 1)) = (of_nat (16 * (k + 1)) :: u32)" for k
    by simp_all
  have big: "\<not> of_nat (k + 1) \<ge> (of_int (INT_MAX div 16) :: u32)" if "k < 8191" for k
    using that by (simp add: word_le_nat_alt unsigned_of_nat take_bit_nat_eq_self del: of_nat_add of_nat_Suc)
  have chk: "image_check_size (of_nat (16 * (w + 1))) (of_nat (16 * (h + 1)))"
    by (rule image_check_size_intro) (use assms(3,4) size in auto)
  have "sps_tail gb s = Some (True, s\<lparr>ref_frame_count := int n,
    gaps_in_frame_num_allowed_flag := of_bool g, mb_width := int w + 1, mb_height := int h + 1,
    frame_mbs_only_flag := of_bool f\<rparr>, g5)"
    using assms(2) big[OF assms(3)] big[OF assms(4)] chk
    unfolding sps_tail_def Let_def g1(1) g2(1) g3(1) g4(1) g5 bind.simps prod.case i
    by (simp add: g2(1) g3(1) g4(1) g5 i add.commute)
  then show thesis by (rule that)
qed

lemma decode_baseline:
  assumes gb: "before gb (enc_baseline b)" and wf: "wf_baseline b"
  obtains gb' where "h264_decode_sps gb s = Some (True, coded_sps b s, gb')"
proof -
  note w = wf[unfolded wf_baseline_def]
  note gb' = gb[unfolded enc_baseline_def]
  obtain g1 where g1: "get_bits gb 8 = Some (of_nat (b_profile b), g1)"
    and b1: "before g1 (nbits 6 (b_flags b) @ nbits 2 0 @ nbits 8 (b_level b) @
     ue_bits (b_id b) @ ue_bits (b_frame_num b) @ enc_poc (b_poc_lsb b) @ ue_bits (b_refs b) @
     [b_gaps b] @ ue_bits (b_width b - 1) @ ue_bits (b_height b - 1) @ [b_mbs_only b])"
    by (rule before_bits[OF gb']) (use w in auto)
  obtain g2 where g2: "constraint_flags 6 g1 = Some g2" and b2: "before g2 (nbits 2 0 @ nbits 8 (b_level b) @
     ue_bits (b_id b) @ ue_bits (b_frame_num b) @ enc_poc (b_poc_lsb b) @ ue_bits (b_refs b) @
     [b_gaps b] @ ue_bits (b_width b - 1) @ ue_bits (b_height b - 1) @ [b_mbs_only b])"
    using before_flags[OF b1] by auto
  note b3 = before_skip[OF b2, unfolded length_nbits of_nat_numeral]
  obtain g4 where g4: "get_bits (skip_bits g2 2) 8 = Some (of_nat (b_level b), g4)"
    and b4: "before g4 (ue_bits (b_id b) @ ue_bits (b_frame_num b) @ enc_poc (b_poc_lsb b) @ ue_bits (b_refs b) @
     [b_gaps b] @ ue_bits (b_width b - 1) @ ue_bits (b_height b - 1) @ [b_mbs_only b])"
    by (rule before_bits[OF b3]) (use w in auto)
  obtain g5 where g5: "get_ue_golomb_31 g4 = Some (of_nat (b_id b), g5)"
    and b5: "before g5 (ue_bits (b_frame_num b) @ enc_poc (b_poc_lsb b) @ ue_bits (b_refs b) @
     [b_gaps b] @ ue_bits (b_width b - 1) @ ue_bits (b_height b - 1) @ [b_mbs_only b])"
    by (rule before_ue31[OF b4]) (use w in auto)
  obtain g6 where g6: "get_ue_golomb g5 = Some (of_nat (b_frame_num b), g6)"
    and b6: "before g6 (enc_poc (b_poc_lsb b) @ ue_bits (b_refs b) @
     [b_gaps b] @ ue_bits (b_width b - 1) @ ue_bits (b_height b - 1) @ [b_mbs_only b])"
    by (rule before_ue[OF b5]) (use w in auto)
  let ?s1 = "s\<lparr>sps_id := of_nat (b_id b), profile_idc := int (b_profile b), level_idc := int (b_level b),
         scaling_matrix4 := replicate 6 (replicate 16 16), scaling_matrix8 := replicate 6 (replicate 64 16),
         scaling_matrix_present := False, colorspace := 2, chroma_format_idc := 1, bit_depth_luma := 8,
         bit_depth_chroma := 8, log2_max_frame_num := int (b_frame_num b) + 4\<rparr>"
  obtain s2 g7 where g7: "sps_poc g6 ?s1 = Some (True, s2, g7)"
    and b7: "before g7 (ue_bits (b_refs b) @ [b_gaps b] @ ue_bits (b_width b - 1) @ ue_bits (b_height b - 1) @ [b_mbs_only b])"
    and s2: "s2 = (case b_poc_lsb b of Some t \<Rightarrow> ?s1\<lparr>poc_type := 0, log2_max_poc_lsb := int t + 4\<rparr>
      | None \<Rightarrow> ?s1\<lparr>poc_type := 2\<rparr>)"
    by (rule before_poc[OF b6]) (use w in auto)
  have "b_width b - 1 + 1 = b_width b" "b_height b - 1 + 1 = b_height b" using w by auto
  then obtain g8 where g8: "sps_tail g7 s2 = Some (True, s2\<lparr>ref_frame_count := int (b_refs b),
    gaps_in_frame_num_allowed_flag := of_bool (b_gaps b), mb_width := int (b_width b - 1) + 1,
    mb_height := int (b_height b - 1) + 1, frame_mbs_only_flag := of_bool (b_mbs_only b)\<rparr>, g8)"
    using before_tail[OF b7] w by auto
  have i: "sint (of_nat (b_profile b) :: u32) = int (b_profile b)" "sint (of_nat (b_level b) :: u32) = int (b_level b)"
    "sint (of_nat (b_frame_num b) :: u32) = int (b_frame_num b)" "unat (of_nat (b_id b) :: u32) = b_id b"
    using w by (simp_all add: sint_of_nat_small unat_of_small)
  have id: "\<not> (32 :: u32) \<le> of_nat (b_id b)" using w i(4) by (simp add: word_le_nat_alt)
  have hp: "\<not> high_profile (int (b_profile b))" using w by blast
  have "h264_decode_sps gb s = Some (True, s2\<lparr>ref_frame_count := int (b_refs b),
    gaps_in_frame_num_allowed_flag := of_bool (b_gaps b), mb_width := int (b_width b - 1) + 1,
    mb_height := int (b_height b - 1) + 1, frame_mbs_only_flag := of_bool (b_mbs_only b)\<rparr>, g8)"
    unfolding h264_decode_sps_def g1 g2 Let_def bind.simps prod.case g4 g5 if_not_P[OF id] sps_chroma_def
    using w hp by (simp add: i g6 g7 g8)
  moreover have "s2\<lparr>ref_frame_count := int (b_refs b),
    gaps_in_frame_num_allowed_flag := of_bool (b_gaps b), mb_width := int (b_width b - 1) + 1,
    mb_height := int (b_height b - 1) + 1, frame_mbs_only_flag := of_bool (b_mbs_only b)\<rparr> = coded_sps b s"
    using w by (cases "b_poc_lsb b") (simp_all add: s2 coded_sps_def Let_def of_nat_diff)
  ultimately show thesis using that by simp
qed

section \<open>Properties\<close>

text \<open>
  C27: sps_accepted_bounds. When \<open>h264_decode_sps\<close> returns 0, its fields are within the
  limits the code checks for: the id, chroma format, bit depths, frame number and picture order sizes,
  reference count, and a picture whose padded area is below \<open>INT_MAX / 8\<close>; and no scaling
  list was written out of its array.
\<close>

theorem sps_accepted_bounds:
  assumes "h264_decode_sps gb sps = Some (True, sps', gb')"
  shows "sps_bounds sps'"
  by (rule h264_decode_sps_bounds[OF assms])

text \<open>
  C16: sps_baseline_decodes. Over a buffer that starts with the bits of a baseline parameter set (and is
  padded as the reader needs), \<open>h264_decode_sps\<close> returns 0 with exactly the set that was
  coded: its id, profile, level, frame number and picture order sizes, reference count, the flag for
  gaps, width, height and frame flag, the defaults for what a baseline set does not code, and nothing
  else changed.
\<close>

theorem sps_baseline_decodes:
  assumes "wf_baseline b" "spells m 0 (enc_baseline b)" "length (enc_baseline b) \<le> sz + 8"
    and "int sz < INT_MAX - 7" "sz div 8 + 5 \<le> length m"
  shows "\<exists>gb'. h264_decode_sps (snd (init_get_bits (Some m) (int sz))) s = Some (True, coded_sps b s, gb') \<and>
    (let s' = coded_sps b s in unat (sps_id s') = b_id b \<and> profile_idc s' = int (b_profile b) \<and>
      level_idc s' = int (b_level b) \<and> log2_max_frame_num s' = int (b_frame_num b) + 4 \<and>
      poc_type s' = (case b_poc_lsb b of Some _ \<Rightarrow> 0 | None \<Rightarrow> 2) \<and>
      log2_max_poc_lsb s' = (case b_poc_lsb b of Some t \<Rightarrow> int t + 4 | None \<Rightarrow> log2_max_poc_lsb s) \<and>
      ref_frame_count s' = int (b_refs b) \<and> gaps_in_frame_num_allowed_flag s' = of_bool (b_gaps b) \<and>
      mb_width s' = int (b_width b) \<and> mb_height s' = int (b_height b) \<and>
      frame_mbs_only_flag s' = of_bool (b_mbs_only b))"
proof -
  obtain gb where gb: "init_get_bits (Some m) (int sz) = (True, gb)" "gb_ok gb" "gb_buffer gb = m"
    "gpos gb = 0" "unat (gb_size_in_bits_plus8 gb) = nat (int sz) + 8"
    by (rule init_get_bits_ok[of "int sz" m]) (use assms(4,5) in auto)
  then have before: "before gb (enc_baseline b)"
    using assms(2,3) by (simp add: before_def)
  have id: "unat (of_nat (b_id b) :: u32) = b_id b" using assms(1) by (simp add: wf_baseline_def unat_of_small)
  obtain gb' where "h264_decode_sps gb s = Some (True, coded_sps b s, gb')"
    by (rule decode_baseline[OF before assms(1)])
  then have "h264_decode_sps (snd (init_get_bits (Some m) (int sz))) s = Some (True, coded_sps b s, gb')"
    by (simp add: gb(1))
  then show ?thesis
    by (intro exI[of _ gb'] conjI) (simp_all add: coded_sps_def Let_def id split: option.split)
qed

definition sample_sps :: baseline where
  "sample_sps = \<lparr>b_profile = 66, b_flags = 48, b_level = 30, b_id = 0, b_frame_num = 0,
     b_poc_lsb = Some 2, b_refs = 1, b_gaps = False, b_width = 40, b_height = 30, b_mbs_only = True\<rparr>"

definition zero_sps :: SPS where
  "zero_sps = \<lparr>sps_id = 0, profile_idc = 0, level_idc = 0, chroma_format_idc = 0,
     residual_color_transform_flag = 0, bit_depth_luma = 0, bit_depth_chroma = 0,
     transform_bypass = 0, scaling_matrix4 = [], scaling_matrix8 = [],
     scaling_matrix_present = False, colorspace = 0, mb_width = 0, mb_height = 0,
     frame_mbs_only_flag = 0, log2_max_frame_num = 0, poc_type = 0, log2_max_poc_lsb = 0,
     delta_pic_order_always_zero_flag = 0, offset_for_non_ref_pic = 0,
     offset_for_top_to_bottom_field = 0, poc_cycle_length = 0,
     offset_for_ref_frame = replicate 256 0, ref_frame_count = 0,
     gaps_in_frame_num_allowed_flag = 0\<rparr>"

definition sample_sps_bytes :: mem where
  "sample_sps_bytes = [0x42, 0xC0, 0x1E, 0xED, 0x01, 0x40, 0x7A, 0, 0, 0, 0, 0, 0]"

lemma sample_sps_spells: "spells sample_sps_bytes 0 (enc_baseline sample_sps)"
  "length (enc_baseline sample_sps) = 55"
  by code_simp+

lemma sample_sps_wf: "wf_baseline sample_sps"
  by (simp add: wf_baseline_def sample_sps_def high_profile_def)

theorem sps_baseline_decodes_witness:
  "\<exists>s' gb'. h264_decode_sps (snd (init_get_bits (Some sample_sps_bytes) 64)) zero_sps = Some (True, s', gb') \<and>
    mb_width s' = 40 \<and> mb_height s' = 30 \<and> log2_max_poc_lsb s' = 6 \<and> gaps_in_frame_num_allowed_flag s' = 0"
  using sps_baseline_decodes[OF sample_sps_wf sample_sps_spells(1), of 64 zero_sps] sample_sps_spells(2)
  by (auto simp: sample_sps_bytes_def sample_sps_def Let_def)

theorem sps_accepted_bounds_witness:
  "\<exists>s' gb'. h264_decode_sps (snd (init_get_bits (Some sample_sps_bytes) 64)) zero_sps = Some (True, s', gb') \<and>
    sps_bounds s'"
proof -
  obtain gb where gb: "init_get_bits (Some sample_sps_bytes) 64 = (True, gb)" "gb_ok gb"
    "gb_buffer gb = sample_sps_bytes" "gpos gb = 0" "unat (gb_size_in_bits_plus8 gb) = nat 64 + 8"
    by (rule init_get_bits_ok[of 64 sample_sps_bytes]) (auto simp: sample_sps_bytes_def)
  then have "before gb (enc_baseline sample_sps)"
    using sample_sps_spells by (simp add: before_def)
  then obtain s' gb' where d: "h264_decode_sps gb zero_sps = Some (True, s', gb')"
    by (rule decode_baseline[OF _ sample_sps_wf]) blast
  from sps_accepted_bounds[OF this] d gb(1) show ?thesis by auto
qed

end
