(* ===== verification/Media.thy ===== *)
theory Media
  imports Sps CString
begin

text \<open>
  The rest of \<open>src/src/xutil/xmedia.cc\<close>: the \<open>Frame\<close> buffer, the AVC decoder configuration
  record, the AudioSpecificConfig and the ADTS header made from it, the profile and sample
  rate tables, the tests for H.264 and AAC data, and the bit rate counter. Memory accesses out
  of a buffer are \<open>None\<close>, as in Prelude.
\<close>

section \<open>Frames\<close>

record Frame =
  m_dts :: int
  m_composition_time :: u32
  m_dat :: "mem option"
  m_dat_len :: u32
  m_capacity :: u32

definition new_Frame :: Frame where
  "new_Frame = \<lparr>m_dts = -1, m_composition_time = 0, m_dat = None, m_dat_len = 0, m_capacity = 0\<rparr>"

text \<open>\<open>realloc\<close> keeps what fits of the old buffer; the bytes it adds are taken to be 0.\<close>

definition realloc :: "mem option \<Rightarrow> nat \<Rightarrow> mem" where
  "realloc old n = (let m = (case old of None \<Rightarrow> [] | Some m \<Rightarrow> m) in take n m @ replicate (n - length m) 0)"

text \<open>A copy of no bytes touches no memory.\<close>

definition frame_copy :: "Frame \<Rightarrow> mem \<Rightarrow> u32 \<Rightarrow> Frame option" where
  "frame_copy f dat len =
     (if len = 0 then Some (f\<lparr>m_dat_len := len\<rparr>)
      else do {
        bs \<leftarrow> rdn dat 0 (unat len);
        dst \<leftarrow> m_dat f;
        dst \<leftarrow> wrn dst 0 bs;
        Some (f\<lparr>m_dat := Some dst, m_dat_len := len\<rparr>) })"

text \<open>\<open>alloc_ok\<close> says whether \<open>realloc\<close> finds memory; the flag is False for \<open>return -1\<close>.\<close>

definition make_frame ::
  "bool \<Rightarrow> Frame \<Rightarrow> int \<Rightarrow> mem \<Rightarrow> u32 \<Rightarrow> bool \<Rightarrow> u32 \<Rightarrow> (bool \<times> Frame) option" where
  "make_frame alloc_ok f ts dat dat_len reuse_dat composition_time =
     (let finish = (\<lambda>f. (True, f\<lparr>m_dts := ts, m_composition_time := composition_time\<rparr>)) in
      if \<not> reuse_dat then
        (if m_capacity f \<ge> dat_len then map_option finish (frame_copy f dat dat_len)
         else
           (let f = f\<lparr>m_capacity := dat_len + 256\<rparr> in
            if \<not> alloc_ok then Some (False, f)
            else
              (let f = f\<lparr>m_dat := Some (realloc (m_dat f) (unat (m_capacity f)))\<rparr> in
               map_option finish (frame_copy f dat dat_len))))
      else Some (finish (f\<lparr>m_dat := Some dat, m_capacity := dat_len, m_dat_len := dat_len\<rparr>)))"

definition frame_clear :: "Frame \<Rightarrow> Frame" where
  "frame_clear f = f\<lparr>m_dts := -1, m_composition_time := 0, m_capacity := 0, m_dat_len := 0, m_dat := None\<rparr>"

text \<open>The data of the frame: the bytes \<open>get_data\<close> and \<open>get_data_length\<close> show.\<close>

definition frame_data :: "Frame \<Rightarrow> u8 list" where
  "frame_data f = (case m_dat f of None \<Rightarrow> [] | Some m \<Rightarrow> take (unat (m_dat_len f)) m)"

definition frame_ok :: "Frame \<Rightarrow> bool" where
  "frame_ok f \<longleftrightarrow> m_dat_len f \<le> m_capacity f \<and>
     unat (m_capacity f) \<le> (case m_dat f of None \<Rightarrow> 0 | Some m \<Rightarrow> length m)"

section \<open>The decoder configuration record\<close>

text \<open>
  The two bit fields after \<open>level\<close> are the bytes \<open>parse_from\<close> stores there:
  \<open>length_size_minus_one\<close> and \<open>num_of_sps\<close> are their low two and five bits.
\<close>

record AVCDecorderConfigurationRecord =
  avc_version :: u8
  avc_profile :: u8
  avc_profile_compatibility :: u8
  avc_level :: u8
  len_byte :: u8
  sps_byte :: u8
  avc_sps_length :: u16
  avc_sps :: "mem option"
  avc_num_of_pps :: u8
  avc_pps_length :: u16
  avc_pps :: "mem option"

definition length_size_minus_one :: "AVCDecorderConfigurationRecord \<Rightarrow> u8" where
  "length_size_minus_one r = len_byte r AND 3"

definition num_of_sps :: "AVCDecorderConfigurationRecord \<Rightarrow> u8" where
  "num_of_sps r = sps_byte r AND 31"

definition new_avc_dcr :: AVCDecorderConfigurationRecord where
  "new_avc_dcr = \<lparr>avc_version = 0, avc_profile = 0, avc_profile_compatibility = 0, avc_level = 0, len_byte = 0,
     sps_byte = 0, avc_sps_length = 0, avc_sps = None, avc_num_of_pps = 0, avc_pps_length = 0, avc_pps = None\<rparr>"

definition parse_from ::
  "AVCDecorderConfigurationRecord \<Rightarrow> mem \<Rightarrow> u32 \<Rightarrow> (bool \<times> AVCDecorderConfigurationRecord) option" where
  "parse_from r data sz =
     (if sz < 11 then Some (False, r)
      else do {
        b0 \<leftarrow> rd8 data 0; b1 \<leftarrow> rd8 data 1; b2 \<leftarrow> rd8 data 2; b3 \<leftarrow> rd8 data 3;
        b4 \<leftarrow> rd8 data 4; b5 \<leftarrow> rd8 data 5;
        sl \<leftarrow> ld16 data 6;
        let sl = ENTOHS sl;
        let r = r\<lparr>avc_version := b0, avc_profile := b1, avc_profile_compatibility := b2, avc_level := b3,
          len_byte := b4, sps_byte := b5, avc_sps_length := sl\<rparr>;
        if sz < 11 + ucast sl then Some (False, r)
        else do {
          s \<leftarrow> rdn data 8 (unat sl);
          let r = r\<lparr>avc_sps := Some s\<rparr>;
          n \<leftarrow> rd8 data (8 + unat sl);
          pl \<leftarrow> ld16 data (9 + unat sl);
          let pl = ENTOHS pl;
          let r = r\<lparr>avc_num_of_pps := n, avc_pps_length := pl\<rparr>;
          if sz < 11 + ucast sl + ucast pl then Some (False, r)
          else do {
            q \<leftarrow> rdn data (11 + unat sl) (unat pl);
            Some (True, r\<lparr>avc_pps := Some q\<rparr>) } } })"

section \<open>Audio configuration\<close>

definition generate_asc :: "u8 \<Rightarrow> u8 \<Rightarrow> u8 \<Rightarrow> u8 list" where
  "generate_asc prof sample_rate_idx channel =
     [push_bit 3 prof OR drop_bit 1 (sample_rate_idx AND 0x0E),
      push_bit 7 (sample_rate_idx AND 0x01) OR push_bit 3 channel]"

definition parse_asc :: "mem \<Rightarrow> (u8 \<times> u8 \<times> u8) option" where
  "parse_asc buf = do {
     a \<leftarrow> rd8 buf 0; b \<leftarrow> rd8 buf 1;
     Some (drop_bit 3 (a AND 0xf8), push_bit 1 (a AND 0x07) + drop_bit 7 (b AND 0x80),
       drop_bit 3 (b AND 0x78)) }"

text \<open>The arithmetic of the header is on \<open>int\<close> and \<open>uint32_t\<close>; each byte is its low eight bits.\<close>

definition generate_adts_header :: "mem \<Rightarrow> u32 \<Rightarrow> u8 list option" where
  "generate_adts_header asc aac_len = do {
     (prof, sample_rate_idx, channel) \<leftarrow> parse_asc asc;
     let aac_frame_len = aac_len + 7;
     let p = (ucast prof :: u32);
     let s = (ucast sample_rate_idx :: u32);
     let c = (ucast channel :: u32);
     Some [0xFF, 0xF9,
       ucast (push_bit 6 (p - 1) + push_bit 2 s + drop_bit 2 c),
       ucast (push_bit 6 (c AND 3) + drop_bit 11 aac_frame_len),
       ucast (drop_bit 3 (aac_frame_len AND 0x7FF)),
       ucast (push_bit 5 (aac_frame_len AND 7) + 0x1F),
       0xFC] }"

section \<open>The tables\<close>

definition audio_profs :: "(string \<times> int) list" where
  "audio_profs = [(''MAIN'', 1), (''LC'', 2), (''SSR'', 3), (''LTP'', 4), (''HE_AAC'', 5),
     (''ER_LC'', 17), (''ER_LTP'', 19), (''LD'', 23), (''DRM_ER_LC'', 27)]"

definition str_to_audioprof :: "string \<Rightarrow> int" where
  "str_to_audioprof str = (case find (\<lambda>(s, p). strcaseeq str s) audio_profs of
     Some (s, p) \<Rightarrow> p | None \<Rightarrow> - 1)"

definition audioprof_to_str :: "int \<Rightarrow> string option" where
  "audioprof_to_str aprof = map_option fst (find (\<lambda>(s, p). p = aprof) audio_profs)"

definition samplerate :: "int list" where
  "samplerate = [96000, 88200, 64000, 48000, 44100, 32000, 24000,
     22050, 16000, 12000, 11025, 8000, 7350, 0, 0, 0]"

text \<open>The loop of \<open>str_to_samplerate_idx\<close>; \<open>None\<close> would be a read past the table.\<close>

function samplerate_loop :: "int \<Rightarrow> nat \<Rightarrow> int option" where
  "samplerate_loop v idx =
     (if length samplerate \<le> idx then None
      else if samplerate ! idx = v then Some (int idx)
      else if samplerate ! idx = 0 then Some (- 1)
      else samplerate_loop v (idx + 1))"
  by auto
termination
  by (relation "measure (\<lambda>(_, idx). length samplerate - idx)") auto

declare samplerate_loop.simps [simp del]

definition str_to_samplerate_idx :: "string \<Rightarrow> int option" where
  "str_to_samplerate_idx str = samplerate_loop (atoi str) 0"

definition samplerate_idx_to_str :: "nat \<Rightarrow> string option" where
  "samplerate_idx_to_str rate_idx =
     (if rate_idx < length samplerate then Some (dec (nat (samplerate ! rate_idx))) else None)"

section \<open>What kind of data\<close>

text \<open>The results are the \<open>int\<close> the code returns; \<open>data\<close> is \<open>None\<close> for the null pointer.\<close>

definition is_h264_video :: "mem option \<Rightarrow> int \<Rightarrow> int option" where
  "is_h264_video data sz = (case data of None \<Rightarrow> Some (- 1)
     | Some m \<Rightarrow> if sz < 6 then Some (- 1)
        else do {
          a \<leftarrow> rd8 m 0;
          if a \<noteq> 0 then Some 0
          else do {
            b \<leftarrow> rd8 m 1;
            if b \<noteq> 0 then Some 0
            else do {
              c \<leftarrow> rd8 m 2;
              if c = 1 then Some 1
              else if c \<noteq> 0 then Some 0
              else do { d \<leftarrow> rd8 m 3; Some (of_bool (d = 1)) } } } })"

definition is_h264_key :: "mem option \<Rightarrow> int \<Rightarrow> int option" where
  "is_h264_key data sz = do {
     v \<leftarrow> is_h264_video data sz;
     if v \<noteq> 0 then do {
       m \<leftarrow> data;
       b \<leftarrow> rd8 m 4;
       t \<leftarrow> (if b AND 0x1f = 9 then rd8 m 10 else Some b);
       Some (of_bool (t AND 0x1f = 5 \<or> t AND 0x1f = 7)) }
     else Some 0 }"

definition is_aac_audio :: "mem option \<Rightarrow> int \<Rightarrow> int option" where
  "is_aac_audio data sz = (case data of None \<Rightarrow> Some (- 1)
     | Some m \<Rightarrow> if sz < 7 then Some (- 1)
        else map_option (\<lambda>v. of_bool (v = 0xFFFFFF)) (VALUI24 m 0))"

section \<open>Bit rate\<close>

text \<open>
  \<open>BitrateCalc\<close>, with the time given by the caller. The quotient is computed in \<open>double\<close> and
  truncated: the same as the exact quotient while \<open>m_bits * 1000\<close> is below \<open>2 ^ 52\<close>. An
  interval of 0 is not used: the quotient of no elapsed time would not be a number.
\<close>

record BitrateCalc =
  m_bits :: u64
  m_bitrate :: u64
  m_tm_last :: u64

definition bitrate_check :: "BitrateCalc \<Rightarrow> u64 \<Rightarrow> u32 \<Rightarrow> u32 \<Rightarrow> BitrateCalc" where
  "bitrate_check c now bits interval =
     (let c = c\<lparr>m_bits := m_bits c + ucast bits\<rparr> in
      if m_tm_last c = 0 then c\<lparr>m_tm_last := now\<rparr>
      else if now - m_tm_last c \<ge> ucast interval then
        c\<lparr>m_bitrate := of_nat (unat (m_bits c) * 1000 div unat (now - m_tm_last c)),
          m_tm_last := now, m_bits := 0\<rparr>
      else c)"

definition get_bitrate :: "BitrateCalc \<Rightarrow> u64 \<Rightarrow> u32 \<times> BitrateCalc" where
  "get_bitrate c now = (let c = bitrate_check c now 0 1000 in (ucast (m_bitrate c div 1024), c))"

section \<open>Frames keep their buffer\<close>

lemma frame_ok_new: "frame_ok new_Frame" "frame_ok (frame_clear f)"
  by (simp_all add: frame_ok_def new_Frame_def frame_clear_def)

lemma length_realloc [simp]: "length (realloc old n) = n"
  by (simp add: realloc_def Let_def)

lemma frame_copy_ok:
  assumes "unat (m_capacity f) \<le> (case m_dat f of None \<Rightarrow> 0 | Some m \<Rightarrow> length m)"
    and "len \<le> m_capacity f" "unat len \<le> length dat"
  obtains f' where "frame_copy f dat len = Some f'" "frame_ok f'" "frame_data f' = take (unat len) dat"
    "m_capacity f' = m_capacity f"
proof (cases "len = 0")
  case True
  with assms that[of "f\<lparr>m_dat_len := len\<rparr>"] show thesis
    by (simp add: frame_copy_def frame_ok_def frame_data_def split: option.splits)
next
  case False
  have n: "unat len \<le> unat (m_capacity f)" "unat len \<noteq> 0"
    using assms(2) False by (simp_all add: word_le_nat_alt unat_eq_zero)
  with assms(1) obtain m where m: "m_dat f = Some m" "unat (m_capacity f) \<le> length m"
    by (cases "m_dat f") auto
  let ?f = "f\<lparr>m_dat := Some (splice m 0 (take (unat len) dat)), m_dat_len := len\<rparr>"
  have "frame_copy f dat len = Some ?f"
    using False m n assms(3) by (simp add: frame_copy_def rdn_def wrn_def)
  moreover have "frame_ok ?f" "frame_data ?f = take (unat len) dat"
    using m n assms(2,3) by (simp_all add: frame_ok_def frame_data_def splice_def)
  ultimately show thesis by (rule that) simp
qed

lemma frame_stamp:
  "frame_ok (f\<lparr>m_dts := ts, m_composition_time := ct\<rparr>) = frame_ok f"
  "frame_data (f\<lparr>m_dts := ts, m_composition_time := ct\<rparr>) = frame_data f"
  by (simp_all add: frame_ok_def frame_data_def split: option.split)

lemma make_frame_steps:
  "len \<le> m_capacity f \<Longrightarrow> frame_copy f dat len = Some f' \<Longrightarrow>
    make_frame alloc f ts dat len False ct = Some (True, f'\<lparr>m_dts := ts, m_composition_time := ct\<rparr>)"
  "\<not> len \<le> m_capacity f \<Longrightarrow>
    frame_copy (f\<lparr>m_capacity := len + 256, m_dat := Some (realloc (m_dat f) (unat (len + 256)))\<rparr>) dat len = Some f' \<Longrightarrow>
    make_frame True f ts dat len False ct = Some (True, f'\<lparr>m_dts := ts, m_composition_time := ct\<rparr>)"
  "\<not> len \<le> m_capacity f \<Longrightarrow> make_frame False f ts dat len False ct = Some (False, f\<lparr>m_capacity := len + 256\<rparr>)"
  by (simp_all add: make_frame_def)

lemma make_frame_ok:
  assumes "frame_ok f" "unat len \<le> length dat" "unat len + 256 < 2 ^ 32"
  obtains f' where "make_frame True f ts dat len False ct = Some (True, f')" "frame_ok f'"
    "frame_data f' = take (unat len) dat" "m_dts f' = ts" "m_composition_time f' = ct"
proof (cases "m_capacity f \<ge> len")
  case True
  then obtain f' where "frame_copy f dat len = Some f'" "frame_ok f'" "frame_data f' = take (unat len) dat"
    using frame_copy_ok[of f len dat] assms unfolding frame_ok_def by metis
  with make_frame_steps(1)[OF True] frame_stamp that[of "f'\<lparr>m_dts := ts, m_composition_time := ct\<rparr>"]
  show thesis by simp
next
  case False
  let ?f = "f\<lparr>m_capacity := len + 256, m_dat := Some (realloc (m_dat f) (unat (len + 256)))\<rparr>"
  have "unat (len + 256) = unat len + 256"
    using assms(3) by (simp add: unat_word_ariths)
  then have "len \<le> m_capacity ?f" "unat (m_capacity ?f) \<le> (case m_dat ?f of None \<Rightarrow> 0 | Some m \<Rightarrow> length m)"
    by (simp_all add: word_le_nat_alt)
  then obtain f' where "frame_copy ?f dat len = Some f'" "frame_ok f'" "frame_data f' = take (unat len) dat"
    using frame_copy_ok[of ?f len dat] assms(2) by metis
  with make_frame_steps(2)[OF False] frame_stamp that[of "f'\<lparr>m_dts := ts, m_composition_time := ct\<rparr>"]
  show thesis by simp
qed

definition AAC_ADTS_HEADER_SIZE :: nat where "AAC_ADTS_HEADER_SIZE = 7"

section \<open>The audio header\<close>

lemma u8_bits:
  assumes "unat (w :: u8) < 2 ^ k" "k \<le> n"
  shows "bit w n = False"
  using not_bit_unat_less[OF assms] by simp

lemma asc_bits:
  assumes "unat p < 32" "unat s < 16" "unat c < 16"
  shows "drop_bit 3 ((push_bit 3 p OR drop_bit 1 (s AND 0x0E)) AND 0xf8) = (p :: u8)"
    "push_bit 1 ((push_bit 3 p OR drop_bit 1 (s AND 0x0E)) AND 0x07) +
      drop_bit 7 ((push_bit 7 (s AND 0x01) OR push_bit 3 c) AND 0x80) = (s :: u8)"
    "drop_bit 3 ((push_bit 7 (s AND 0x01) OR push_bit 3 c) AND 0x78) = (c :: u8)"
proof -
  have P: "bit p 5 = False" "bit p 6 = False" "bit p 7 = False"
    using u8_bits[of p 5] assms(1) by simp_all
  have S: "bit s 4 = False" "bit s 5 = False" "bit s 6 = False" "bit s 7 = False"
    using u8_bits[of s 4] assms(2) by simp_all
  have C: "bit c 4 = False" "bit c 5 = False" "bit c 6 = False" "bit c 7 = False"
    using u8_bits[of c 4] assms(3) by simp_all
  show "drop_bit 3 ((push_bit 3 p OR drop_bit 1 (s AND 0x0E)) AND 0xf8) = p"
    by (rule u8_eqI) (simp_all add: bit_simps P S C)
  show "drop_bit 3 ((push_bit 7 (s AND 0x01) OR push_bit 3 c) AND 0x78) = c"
    by (rule u8_eqI) (simp_all add: bit_simps P S C)
  have "push_bit 1 ((push_bit 3 p OR drop_bit 1 (s AND 0x0E)) AND 0x07) +
      drop_bit 7 ((push_bit 7 (s AND 0x01) OR push_bit 3 c) AND 0x80) =
    push_bit 1 ((push_bit 3 p OR drop_bit 1 (s AND 0x0E)) AND 0x07) OR
      drop_bit 7 ((push_bit 7 (s AND 0x01) OR push_bit 3 c) AND (0x80 :: u8))"
    by (rule disjunctive_add) (auto simp: bit_simps dest: bit_imp_le_length)
  also have "\<dots> = s"
    by (rule u8_eqI; simp only: bit_or_iff bit_push_bit_iff bit_drop_bit_eq bit_and_iff comp_apply)
      (simp_all add: bit_simps P S C numeral_2_eq_2 numeral_3_eq_3)
  finally show "push_bit 1 ((push_bit 3 p OR drop_bit 1 (s AND 0x0E)) AND 0x07) +
      drop_bit 7 ((push_bit 7 (s AND 0x01) OR push_bit 3 c) AND 0x80) = s" .
qed

lemma parse_generate_asc:
  assumes "unat p < 32" "unat s < 16" "unat c < 16"
  shows "parse_asc (generate_asc p s c) = Some (p, s, c)"
proof -
  have "rd8 (generate_asc p s c) 0 = Some (push_bit 3 p OR drop_bit 1 (s AND 0x0E))"
    "rd8 (generate_asc p s c) 1 = Some (push_bit 7 (s AND 0x01) OR push_bit 3 c)"
    by (simp_all only: generate_asc_def rd8_def) simp_all
  then show ?thesis
    unfolding parse_asc_def by (simp only: bind.simps asc_bits[OF assms])
qed

text \<open>The fixed header as an ADTS decoder reads it.\<close>

definition adts_sync :: "mem \<Rightarrow> nat" where "adts_sync m = bval m 0 12"
definition adts_profile :: "mem \<Rightarrow> nat" where "adts_profile m = bval m 16 2"
definition adts_rate_idx :: "mem \<Rightarrow> nat" where "adts_rate_idx m = bval m 18 4"
definition adts_channel :: "mem \<Rightarrow> nat" where "adts_channel m = bval m 23 3"
definition adts_length :: "mem \<Rightarrow> nat" where "adts_length m = bval m 30 13"

lemma adts_fields:
  assumes "length h = 7"
  shows "adts_sync h = unat (h ! 0) * 16 + unat (h ! 1) div 16"
    "adts_profile h = unat (h ! 2) div 64"
    "adts_rate_idx h = unat (h ! 2) div 4 mod 16"
    "adts_channel h = unat (h ! 2) mod 2 * 4 + unat (h ! 3) div 64"
    "adts_length h = (unat (h ! 3) mod 4 * 256 + unat (h ! 4)) * 8 + unat (h ! 5) div 32"
proof -
  have b: "unat (h ! k) < 256" for k using unsigned_less[of "h ! k", where 'a = nat] by simp
  have d: "unat (h ! k) div 64 < 4" "unat (h ! k) div 16 < 16" "unat (h ! k) div 32 < 8" for k
    using b[of k] by (simp_all add: less_mult_imp_div_less)
  show "adts_sync h = unat (h ! 0) * 16 + unat (h ! 1) div 16"
    using bval_add[of h 0 8 4] bval_in_byte[of 0 8 h 0] bval_in_byte[of 0 4 h 1] b[of 0] d(2)[of 1]
    by (simp add: adts_sync_def del: bval.simps)
  show "adts_profile h = unat (h ! 2) div 64"
    using bval_in_byte[of 0 2 h 2] d(1)[of 2] by (simp add: adts_profile_def del: bval.simps)
  show "adts_rate_idx h = unat (h ! 2) div 4 mod 16"
    using bval_in_byte[of 2 4 h 2] by (simp add: adts_rate_idx_def del: bval.simps)
  show "adts_channel h = unat (h ! 2) mod 2 * 4 + unat (h ! 3) div 64"
    using bval_add[of h 23 1 2] bval_in_byte[of 7 1 h 2] bval_in_byte[of 0 2 h 3] d(1)[of 3]
    by (simp add: adts_channel_def numeral_3_eq_3 del: bval.simps)
  show "adts_length h = (unat (h ! 3) mod 4 * 256 + unat (h ! 4)) * 8 + unat (h ! 5) div 32"
    using bval_add[of h 30 2 11] bval_add[of h 32 8 3] bval_in_byte[of 6 2 h 3] bval_in_byte[of 0 8 h 4]
      bval_in_byte[of 0 3 h 5] b[of 4] d(3)[of 5]
    by (simp add: adts_length_def del: bval.simps)
qed

lemma unat_ucast_8: "unat (ucast (x :: u32) :: u8) = unat x mod 256"
  by (simp add: unsigned_ucast_eq take_bit_eq_mod)

lemma unat_ucast_32: "unat (ucast (x :: u8) :: u32) = unat x"
  using unsigned_less[of x, where 'a = nat] by (simp add: unsigned_ucast_eq take_bit_nat_eq_self)

lemma unat_and_3: "unat (x AND 3 :: u32) = unat x mod 4"
proof -
  have "x AND 3 = take_bit 2 x" by (simp add: take_bit_eq_mask mask_eq_exp_minus_1)
  then show ?thesis by (simp only: unsigned_take_bit_eq) (simp add: take_bit_eq_mod)
qed

lemma unat_and_2047: "unat (x AND 0x7FF :: u32) = unat x mod 2048"
proof -
  have "x AND 0x7FF = take_bit 11 x" by (simp add: take_bit_eq_mask mask_eq_exp_minus_1)
  then show ?thesis by (simp only: unsigned_take_bit_eq) (simp add: take_bit_eq_mod)
qed

lemma unat_push_32: "unat x * 2 ^ k < 2 ^ 32 \<Longrightarrow> unat (push_bit k x :: u32) = unat x * 2 ^ k"
  by (simp only: unsigned_push_bit_eq) (simp add: push_bit_eq_mult take_bit_eq_mod)

lemma unat_drop_32: "unat (drop_bit k x :: u32) = unat x div 2 ^ k"
  by (simp only: unat_drop_bit_eq) (simp add: drop_bit_eq_div)

lemma unat_add_32: "unat x + unat y < 2 ^ 32 \<Longrightarrow> unat (x + y :: u32) = unat x + unat y"
  by (simp add: unat_word_ariths)

lemma adts_byte2:
  assumes p: "1 \<le> unat p" "unat p \<le> 4" and s: "unat s < 16" and c: "unat c < 8"
  shows "unat (ucast (push_bit 6 (p - 1) + push_bit 2 s + drop_bit 2 c :: u32) :: u8) =
      (unat p - 1) * 64 + unat s * 4 + unat c div 4"
proof -
  have p1: "unat (p - 1) = unat p - 1"
    using p(1) by (subst unat_sub) (simp_all add: word_le_nat_alt)
  have "unat (push_bit 6 (p - 1)) = (unat p - 1) * 64"
    using p by (subst unat_push_32) (simp_all add: p1)
  moreover have "unat (push_bit 2 s) = unat s * 4"
    using s by (subst unat_push_32) simp_all
  moreover have "unat (drop_bit 2 c) = unat c div 4"
    by (subst unat_drop_32) simp
  moreover have "(unat p - 1) * 64 + unat s * 4 + unat c div 4 < 256" using p s c by linarith
  ultimately show ?thesis
    by (simp only: unat_ucast_8) (simp add: unat_add_32)
qed

lemma adts_byte3:
  assumes "unat x < 4" "unat l < 8192"
  shows "unat (ucast (push_bit 6 x + drop_bit 11 (l :: u32)) :: u8) = unat x * 64 + unat l div 2048"
proof -
  have "unat (push_bit 6 x) = unat x * 64"
    using assms(1) by (subst unat_push_32) simp_all
  moreover have "unat (drop_bit 11 l) = unat l div 2048"
    by (subst unat_drop_32) simp
  moreover have "unat l div 2048 < 4" using assms(2) by (simp add: less_mult_imp_div_less)
  ultimately show ?thesis
    using assms(1) by (simp only: unat_ucast_8) (simp add: unat_add_32)
qed

lemma adts_byte4: "unat (ucast (drop_bit 3 (l AND 0x7FF :: u32)) :: u8) = unat l mod 2048 div 8"
proof -
  have "unat (drop_bit 3 (l AND 0x7FF)) = unat l mod 2048 div 8"
    unfolding unat_drop_32 unat_and_2047 by simp
  moreover have "unat l mod 2048 div 8 < 256" by (simp add: less_mult_imp_div_less)
  ultimately show ?thesis by (simp only: unat_ucast_8) simp
qed

lemma adts_byte5:
  assumes "unat x < 8"
  shows "unat (ucast (push_bit 5 x + 0x1F :: u32) :: u8) = unat x * 32 + 31"
proof -
  have "unat (push_bit 5 x) = unat x * 32"
    using assms by (subst unat_push_32) simp_all
  then have "unat (push_bit 5 x + 0x1F) = unat x * 32 + 31"
    using assms by (subst unat_add_32) simp_all
  then show ?thesis using assms by (simp only: unat_ucast_8) simp
qed

text \<open>A record in its wire form, as a sender lays it out.\<close>

definition enc_dcr :: "u8 list \<Rightarrow> u8 list \<Rightarrow> u8 list \<Rightarrow> u8 \<Rightarrow> u8 list" where
  "enc_dcr head s q n = head @ be16 (of_nat (length s)) @ s @ [n] @ be16 (of_nat (length q)) @ q"

lemma parse_from_enc:
  assumes "length head = 6" "length s < 2 ^ 16" "length q < 2 ^ 16"
  shows "parse_from r (enc_dcr head s q n @ rest) (of_nat (length (enc_dcr head s q n))) =
    Some (True, r\<lparr>avc_version := head ! 0, avc_profile := head ! 1, avc_profile_compatibility := head ! 2,
      avc_level := head ! 3, len_byte := head ! 4, sps_byte := head ! 5,
      avc_sps_length := of_nat (length s), avc_sps := Some s, avc_num_of_pps := n,
      avc_pps_length := of_nat (length q), avc_pps := Some q\<rparr>)"
proof -
  let ?d = "enc_dcr head s q n @ rest"
  obtain h0 h1 h2 h3 h4 h5 where h: "head = [h0, h1, h2, h3, h4, h5]"
    using assms(1) by (auto simp: length_Suc_conv eval_nat_numeral)
  have len: "length (enc_dcr head s q n) = 11 + length s + length q"
    using assms(1) by (simp add: enc_dcr_def)
  have us: "unat (of_nat (length s) :: u16) = length s" "unat (of_nat (length q) :: u16) = length q"
    using assms(2,3) by (simp_all add: unsigned_of_nat take_bit_nat_eq_self)
  have ucs: "(ucast (of_nat (length s) :: u16) :: u32) = of_nat (length s)"
    "(ucast (of_nat (length q) :: u16) :: u32) = of_nat (length q)"
    using us by (metis of_nat_unat)+
  have uz: "unat (of_nat (11 + length s + length q) :: u32) = 11 + length s + length q"
    "unat (11 + of_nat (length s) + of_nat (length q) :: u32) = 11 + length s + length q"
    "unat (11 + of_nat (length s) :: u32) = 11 + length s"
    using assms(2,3) by (simp_all add: unat_word_ariths unsigned_of_nat take_bit_nat_eq_self)
  have c: "\<not> (of_nat (11 + length s + length q) :: u32) < 11"
    "\<not> (of_nat (11 + length s + length q) :: u32) < 11 + of_nat (length s)"
    "\<not> (of_nat (11 + length s + length q) :: u32) < 11 + of_nat (length s) + of_nat (length q)"
    unfolding word_less_nat_alt uz by simp_all
  have bytes: "rd8 ?d 0 = Some h0" "rd8 ?d 1 = Some h1" "rd8 ?d 2 = Some h2" "rd8 ?d 3 = Some h3"
    "rd8 ?d 4 = Some h4" "rd8 ?d 5 = Some h5"
    by (simp_all add: enc_dcr_def h rd8_def)
  have "holds ?d 0 (enc_dcr head s q n)" by (simp add: holds_def)
  then have hs: "holds ?d 6 (be16 (of_nat (length s)))" "holds ?d 8 s" "rd8 ?d (8 + length s) = Some n"
    "holds ?d (9 + length s) (be16 (of_nat (length q)))" "holds ?d (11 + length s) q"
    using assms(1) by (simp_all add: enc_dcr_def holds_append holds_Cons add.commute)
  have ld: "\<exists>x. ld16 ?d 6 = Some x \<and> ENTOHS x = of_nat (length s)"
    "\<exists>x. ld16 ?d (9 + length s) = Some x \<and> ENTOHS x = of_nat (length q)"
    using be16.get_holds[OF TrueI hs(1)] be16.get_holds[OF TrueI hs(4)]
    by (auto simp: get_be16_def bind_eq_Some)
  have sl: "rdn ?d 8 (length s) = Some s" "rdn ?d (11 + length s) (length q) = Some q"
    using hs(2,5) by (simp_all add: rdn_def holds_def)
  obtain x y where x: "ld16 ?d 6 = Some x" "ENTOHS x = of_nat (length s)"
    and y: "ld16 ?d (9 + length s) = Some y" "ENTOHS y = of_nat (length q)"
    using ld by blast
  show ?thesis
    unfolding parse_from_def len if_not_P[OF c(1)] bytes bind.simps x y Let_def us ucs
      if_not_P[OF c(2)] sl hs(3) if_not_P[OF c(3)]
    by (simp add: h)
qed

lemma length_samplerate: "length samplerate = 16"
  by (simp add: samplerate_def)

lemma samplerate_list: "distinct (take 14 samplerate)" "0 \<notin> set (take 13 samplerate)"
  "list_all (\<lambda>v. 0 < v \<and> v < 2 ^ 31) (take 13 samplerate)"
  by (simp_all add: samplerate_def)

lemma samplerate_prefix:
  assumes "i < 14" "j < i"
  shows "samplerate ! j \<noteq> samplerate ! i \<and> samplerate ! j \<noteq> 0"
proof
  have "take 14 samplerate ! j \<noteq> take 14 samplerate ! i"
    using assms by (subst nth_eq_iff_index_eq[OF samplerate_list(1)]) (simp_all add: length_samplerate)
  then show "samplerate ! j \<noteq> samplerate ! i" using assms by simp
  have "take 13 samplerate ! j \<in> set (take 13 samplerate)"
    using assms by (intro nth_mem) (simp add: length_samplerate)
  then show "samplerate ! j \<noteq> 0" using samplerate_list(2) assms by auto
qed

lemma samplerate_range: "i < 13 \<Longrightarrow> 0 < samplerate ! i \<and> samplerate ! i < 2 ^ 31"
  using samplerate_list(3) unfolding list_all_length by (auto simp: length_samplerate)

lemma samplerate_loop_at:
  "k \<le> i \<Longrightarrow> i < 14 \<Longrightarrow> samplerate_loop (samplerate ! i) k = Some (int i)"
proof (induction "i - k" arbitrary: k)
  case 0
  then show ?case by (simp add: samplerate_loop.simps[of _ k] length_samplerate)
next
  case (Suc d)
  then have "samplerate_loop (samplerate ! i) (k + 1) = Some (int i)" by simp
  with Suc.prems Suc.hyps(2) samplerate_prefix[of i k] show ?case
    by (simp add: samplerate_loop.simps[of _ k] length_samplerate)
qed

lemma adts_arith:
  fixes p s c l :: nat
  assumes "1 \<le> p" "p \<le> 4" "s < 16" "c < 8" "l + 7 < 2 ^ 13"
  shows "((p - 1) * 64 + s * 4 + c div 4) div 64 + 1 = p"
    "((p - 1) * 64 + s * 4 + c div 4) div 4 mod 16 = s"
    "((p - 1) * 64 + s * 4 + c div 4) mod 2 * 4 + (c mod 4 * 64 + (l + 7) div 2048) div 64 = c"
    "((c mod 4 * 64 + (l + 7) div 2048) mod 4 * 256 + (l + 7) mod 2048 div 8) * 8 +
      ((l + 7) mod 8 * 32 + 31) div 32 = l + 7"
proof -
  obtain k where p: "p = Suc k" "k < 4" using assms(1,2) by (cases p) auto
  define d where "d = c div 4"
  have d: "d < 2" "d * 4 + c mod 4 = c" using assms(4) by (simp_all add: d_def less_mult_imp_div_less)
  have byte: "(p - 1) * 64 + s * 4 + c div 4 = (k * 16 + s) * 4 + d"
    "(p - 1) * 64 + s * 4 + c div 4 = k * 64 + (s * 4 + d)"
    "(p - 1) * 64 + s * 4 + c div 4 = (k * 32 + s * 2) * 2 + d"
    by (simp_all add: p(1) d_def)
  show "((p - 1) * 64 + s * 4 + c div 4) div 64 + 1 = p"
    unfolding byte(2) by (subst div_of_low) (use d assms(3) p in auto)
  have "((p - 1) * 64 + s * 4 + c div 4) div 4 = k * 16 + s"
    unfolding byte(1) by (rule div_of_low) (use d in auto)
  then show "((p - 1) * 64 + s * 4 + c div 4) div 4 mod 16 = s" using assms(3) by simp
  define x where "x = (l + 7) div 2048"
  have x: "x < 4" using assms(5) by (simp add: x_def less_mult_imp_div_less)
  have "((p - 1) * 64 + s * 4 + c div 4) mod 2 = d"
    unfolding byte(3) using d(1) by (simp only: mod_mult_self3 mod_less)
  moreover have "(c mod 4 * 64 + x) div 64 = c mod 4"
    by (rule div_of_low) (use x in auto)
  ultimately show "((p - 1) * 64 + s * 4 + c div 4) mod 2 * 4 + (c mod 4 * 64 + (l + 7) div 2048) div 64 = c"
    using d(2) by (simp only: x_def)
  define k where "k = l + 7"
  have "x * 256 + k mod 2048 div 8 = k div 8"
    using div_mult2_eq[of k 8 256] mod_mult2_eq[of k 8 256] div_mult_mod_eq[of "k div 8" 256]
    by (simp add: x_def k_def)
  moreover have "(c mod 4 * 64 + x) mod 4 = x"
  proof -
    have "c mod 4 * 64 + x = (c mod 4 * 16) * 4 + x" by simp
    then show ?thesis using x by (simp only: mod_mult_self3 mod_less)
  qed
  moreover have "(k mod 8 * 32 + 31) div 32 = k mod 8" by (rule div_of_low) simp
  ultimately show "((c mod 4 * 64 + (l + 7) div 2048) mod 4 * 256 + (l + 7) mod 2048 div 8) * 8 +
      ((l + 7) mod 8 * 32 + 31) div 32 = l + 7"
    unfolding k_def[symmetric] by (simp add: x_def k_def[symmetric])
qed

lemma nth_seven:
  "[a, b, c, d, e, f, g] ! 0 = a" "[a, b, c, d, e, f, g] ! 1 = b" "[a, b, c, d, e, f, g] ! 2 = c"
  "[a, b, c, d, e, f, g] ! 3 = d" "[a, b, c, d, e, f, g] ! 4 = e" "[a, b, c, d, e, f, g] ! 5 = f"
  by simp_all

section \<open>Properties\<close>

text \<open>
  C28: adts_of_asc. The ADTS header \<open>generate_adts_header\<close> makes from an
  AudioSpecificConfig of \<open>generate_asc\<close> decodes to the same profile, sample rate index and
  channel configuration, and to a frame length of the payload and the seven bytes of the header.
\<close>

theorem adts_of_asc:
  assumes "1 \<le> unat p" "unat p \<le> 4" "unat s < 16" "unat c < 8" "unat len + 7 < 2 ^ 13"
  shows "\<exists>h. generate_adts_header (generate_asc p s c) len = Some h \<and> length h = AAC_ADTS_HEADER_SIZE \<and>
    adts_sync h = 0xFFF \<and> adts_profile h + 1 = unat p \<and> adts_rate_idx h = unat s \<and>
    adts_channel h = unat c \<and> adts_length h = unat len + 7"
proof -
  let ?l = "len + 7"
  let ?h = "[0xFF, 0xF9, ucast (push_bit 6 (ucast p - 1) + push_bit 2 (ucast s) + drop_bit 2 (ucast c) :: u32),
    ucast (push_bit 6 (ucast c AND 3) + drop_bit 11 ?l), ucast (drop_bit 3 (?l AND 0x7FF)),
    ucast (push_bit 5 (?l AND 7) + 0x1F), 0xFC] :: u8 list"
  have "parse_asc (generate_asc p s c) = Some (p, s, c)"
    using parse_generate_asc[of p s c] assms by simp
  then have run: "generate_adts_header (generate_asc p s c) len = Some ?h"
    unfolding generate_adts_header_def Let_def by (simp only: bind.simps prod.case)
  have l: "unat ?l = unat len + 7"
    using assms(5) by (simp add: unat_add_32)
  have nth: "?h ! 0 = 0xFF" "?h ! 1 = 0xF9"
    "?h ! 2 = ucast (push_bit 6 (ucast p - 1) + push_bit 2 (ucast s) + drop_bit 2 (ucast c) :: u32)"
    "?h ! 3 = ucast (push_bit 6 (ucast c AND 3) + drop_bit 11 ?l)"
    "?h ! 4 = ucast (drop_bit 3 (?l AND 0x7FF))" "?h ! 5 = ucast (push_bit 5 (?l AND 7) + 0x1F)"
    by (rule nth_seven)+
  have b2: "unat (?h ! 2) = (unat p - 1) * 64 + unat s * 4 + unat c div 4"
    unfolding nth(3) using adts_byte2[of "ucast p" "ucast s" "ucast c"] assms(1-4) unfolding unat_ucast_32 by blast
  have "unat (ucast c AND 3 :: u32) < 4" unfolding unat_and_3 by simp
  then have b3: "unat (?h ! 3) = unat c mod 4 * 64 + (unat len + 7) div 2048"
    unfolding nth(4) using adts_byte3[of "ucast c AND 3" ?l] assms(5) unfolding unat_and_3 unat_ucast_32 l by simp
  have b4: "unat (?h ! 4) = (unat len + 7) mod 2048 div 8"
    unfolding nth(5) adts_byte4 l ..
  have "unat (?l AND 7) < 8" unfolding unat_index by simp
  then have b5: "unat (?h ! 5) = (unat len + 7) mod 8 * 32 + 31"
    unfolding nth(6) using adts_byte5[of "?l AND 7"] unfolding unat_index l by blast
  have b01: "unat (?h ! 0) = 255" "unat (?h ! 1) = 249" unfolding nth(1,2) by simp_all
  have h: "length ?h = 7" by simp
  note f = adts_fields[OF h, unfolded b01 b2 b3 b4 b5]
  have "adts_sync ?h = 0xFFF" unfolding f(1) by simp
  moreover have "adts_profile ?h + 1 = unat p" "adts_rate_idx ?h = unat s" "adts_channel ?h = unat c"
    unfolding f(2,3,4) using adts_arith assms by blast+
  moreover have "adts_length ?h = unat len + 7"
    unfolding f(5) using adts_arith assms by blast
  ultimately show ?thesis
    using run h unfolding AAC_ADTS_HEADER_SIZE_def by blast
qed

theorem adts_of_asc_witness:
  "\<exists>h. generate_adts_header (generate_asc 2 4 2) 100 = Some h \<and> length h = AAC_ADTS_HEADER_SIZE \<and>
    adts_sync h = 0xFFF \<and> adts_profile h + 1 = 2 \<and> adts_rate_idx h = 4 \<and> adts_channel h = 2 \<and>
    adts_length h = 107"
  using adts_of_asc[of 2 4 2 100] by simp

text \<open>
  Aac test rejects adts: \<open>is_aac_audio\<close> compares the first three bytes with \<open>FF FF
  FF\<close>, so it answers 0 for every header \<open>generate_adts_header\<close> makes.
\<close>

theorem aac_test_rejects_adts:
  assumes "generate_adts_header asc len = Some h"
  shows "is_aac_audio (Some (h @ payload)) (int (length (h @ payload))) = Some 0"
proof -
  obtain p s c where "parse_asc asc = Some (p, s, c)"
    using assms by (cases "parse_asc asc") (auto simp: generate_adts_header_def)
  then obtain t where h: "h = 0xFF # 0xF9 # t" "length t = 5"
    using assms by (auto simp: generate_adts_header_def Let_def)
  then obtain b u where t: "t = b # u" by (cases t) auto
  have "bit (0xFFFFFF :: u32) 9" by simp
  moreover have "\<not> bit (push_bit 16 (ucast b) + push_bit 8 (ucast (0xF9 :: u8)) + ucast (0xFF :: u8) :: u32) 9"
  proof -
    have "push_bit 8 (ucast (0xF9 :: u8)) + ucast (0xFF :: u8) = (0xF9FF :: u32)" by (simp add: push_bit_eq_mult)
    moreover have "push_bit 16 (ucast b) + 0xF9FF = (push_bit 16 (ucast b) OR 0xF9FF :: u32)"
    proof (rule disjunctive_add)
      fix n
      have "\<not> bit (0xF9FF :: u32) n" if "16 \<le> n" by (rule not_bit_unat_less[of _ 16]) (use that in simp_all)
      then show "\<not> bit (push_bit 16 (ucast b) :: u32) n \<or> \<not> bit (0xF9FF :: u32) n"
        by (cases "16 \<le> n") (simp_all add: bit_simps)
    qed
    ultimately show ?thesis by (simp add: add.assoc bit_simps)
  qed
  ultimately have "push_bit 16 (ucast b) + push_bit 8 (ucast (0xF9 :: u8)) + ucast (0xFF :: u8) \<noteq> (0xFFFFFF :: u32)"
    by metis
  then show ?thesis
    using h(2) unfolding h(1) t by (simp add: is_aac_audio_def VALUI24_def rd8_def)
qed

theorem aac_test_rejects_adts_witness:
  "\<exists>h. generate_adts_header [0x12, 0x10] 100 = Some h \<and> is_aac_audio (Some (h @ [])) (int (length (h @ []))) = Some 0"
proof -
  obtain h where "generate_adts_header [0x12, 0x10] 100 = Some h"
    by (simp add: generate_adts_header_def parse_asc_def rd8_def)
  with aac_test_rejects_adts[OF this, of "[]"] show ?thesis by blast
qed

text \<open>
  Dcr parses: \<open>parse_from\<close> reads a decoder configuration record back: the six head bytes,
  the parameter sets and their lengths, from a buffer of exactly the declared size or longer.
\<close>

theorem dcr_parses:
  assumes "length head = 6" "length s < 2 ^ 16" "length q < 2 ^ 16"
  shows "\<exists>r'. parse_from r (enc_dcr head s q n @ rest) (of_nat (length (enc_dcr head s q n))) = Some (True, r') \<and>
    [avc_version r', avc_profile r', avc_profile_compatibility r', avc_level r', len_byte r', sps_byte r'] = head \<and>
    avc_sps r' = Some s \<and> avc_pps r' = Some q \<and> avc_num_of_pps r' = n"
proof -
  obtain h0 h1 h2 h3 h4 h5 where "head = [h0, h1, h2, h3, h4, h5]"
    using assms(1) by (auto simp: length_Suc_conv eval_nat_numeral)
  with parse_from_enc[OF assms] show ?thesis by simp
qed

theorem dcr_parses_witness:
  "\<exists>r'. parse_from new_avc_dcr (enc_dcr [1, 66, 0, 30, 0xFF, 0xE1] [0x67, 0x42] [0x68] 1 @ []) 14 = Some (True, r') \<and>
    avc_sps r' = Some [0x67, 0x42] \<and> avc_pps r' = Some [0x68]"
proof -
  have "length (enc_dcr [1, 66, 0, 30, 0xFF, 0xE1] [0x67, 0x42] [0x68] 1) = 14" by (simp add: enc_dcr_def)
  then show ?thesis
    using dcr_parses[of "[1, 66, 0, 30, 0xFF, 0xE1]" "[0x67, 0x42]" "[0x68]" new_avc_dcr 1 "[]"] by auto
qed

lemma parse_from_total:
  assumes "unat sz \<le> length data"
  shows "parse_from r data sz \<noteq> None"
proof (cases "sz < 11")
  case False
  then have "11 \<le> length data" using assms by (simp add: word_le_nat_alt not_less)
  then have b: "rd8 data k \<noteq> None" if "k < 11" for k using that by (simp add: rd8_def)
  have l16: "ld16 data k \<noteq> None" if "k + 2 \<le> length data" for k
    using that by (simp add: ld16_def rd8_def)
  obtain x where x: "ld16 data 6 = Some x" using l16[of 6] \<open>11 \<le> length data\<close> by auto
  let ?sl = "ENTOHS x"
  obtain b0 b1 b2 b3 b4 b5 where bs: "rd8 data 0 = Some b0" "rd8 data 1 = Some b1" "rd8 data 2 = Some b2"
    "rd8 data 3 = Some b3" "rd8 data 4 = Some b4" "rd8 data 5 = Some b5"
    using b[of 0] b[of 1] b[of 2] b[of 3] b[of 4] b[of 5] by auto
  have u16: "unat (w :: u16) < 65536" for w using unsigned_less[of w, where 'a = nat] by simp
  have u: "unat (11 + ucast w :: u32) = 11 + unat w" for w :: u16
    using u16[of w] by (simp add: unat_add_32 unsigned_ucast_eq take_bit_nat_eq_self)
  have u2: "unat (11 + ucast w + ucast v :: u32) = 11 + unat w + unat v" for w v :: u16
    using u16[of w] u16[of v] u[of w] by (simp add: unat_add_32 unsigned_ucast_eq take_bit_nat_eq_self)
  show ?thesis
  proof (cases "sz < 11 + ucast ?sl")
    case True
    with False bs x show ?thesis by (simp add: parse_from_def Let_def)
  next
    case F2: False
    then have n: "11 + unat ?sl \<le> length data" using assms u[of ?sl] by (simp add: word_le_nat_alt not_less)
    then obtain s m y where s: "rdn data 8 (unat ?sl) = Some s" "rd8 data (8 + unat ?sl) = Some m"
      "ld16 data (9 + unat ?sl) = Some y"
      using l16[of "9 + unat ?sl"] by (auto simp: rdn_def rd8_def)
    show ?thesis
    proof (cases "sz < 11 + ucast ?sl + ucast (ENTOHS y)")
      case True
      with False F2 bs x s show ?thesis by (simp add: parse_from_def Let_def)
    next
      case F3: False
      then have "11 + unat ?sl + unat (ENTOHS y) \<le> length data"
        using assms u2[of ?sl "ENTOHS y"] by (simp add: word_le_nat_alt not_less)
      then obtain q where "rdn data (11 + unat ?sl) (unat (ENTOHS y)) = Some q" by (auto simp: rdn_def)
      with False F2 F3 bs x s show ?thesis by (simp add: parse_from_def Let_def)
    qed
  qed
qed (simp add: parse_from_def)

text \<open>
  C29: dcr_no_overread. \<open>parse_from\<close> never reads past the size it is given, whatever the
  bytes.
\<close>

theorem dcr_no_overread:
  assumes "unat sz \<le> length data"
  shows "parse_from r data sz \<noteq> None"
  by (rule parse_from_total[OF assms])

theorem dcr_no_overread_witness: "parse_from new_avc_dcr [1, 2, 3, 4, 5, 6, 0, 9, 1, 1, 1] 11 \<noteq> None"
  using dcr_no_overread[of 11 "[1, 2, 3, 4, 5, 6, 0, 9, 1, 1, 1]" new_avc_dcr] by simp

text \<open>
  C30: frame_holds_data. \<open>make_frame\<close> copies the data it is given, growing its buffer when
  needed, and keeps the buffer at least as long as its capacity says; but after a failed
  \<open>realloc\<close> the capacity is already raised, and the next frame that fits it is copied out
  of bounds.
\<close>

theorem frame_holds_data:
  assumes "frame_ok f" "unat len \<le> length dat" "unat len + 256 < 2 ^ 32"
  shows "\<exists>f'. make_frame True f ts dat len False ct = Some (True, f') \<and> frame_ok f' \<and>
    frame_data f' = take (unat len) dat \<and> m_dts f' = ts \<and> m_composition_time f' = ct"
  using make_frame_ok[OF assms, of ts ct] by metis

theorem frame_holds_data_witness:
  "\<exists>f'. make_frame True new_Frame 40 [1, 2, 3] 3 False 0 = Some (True, f') \<and> frame_ok f' \<and>
    frame_data f' = [1, 2, 3] \<and> m_dts f' = 40 \<and> m_composition_time f' = 0"
  using frame_holds_data[OF frame_ok_new(1), of 3 "[1, 2, 3]" 40 0] by simp

text \<open>
  Frame after failed realloc: When \<open>realloc\<close> fails, \<open>make_frame\<close> returns -1
  but has already stored the new capacity: the next non-empty frame within that capacity is copied into
  a buffer that is not there.
\<close>

theorem frame_after_failed_realloc:
  assumes "0 < len" "unat len + 256 < 2 ^ 32" "0 < len'" "len' \<le> len + 256"
  shows "\<exists>f'. make_frame False new_Frame ts dat len False ct = Some (False, f') \<and>
    make_frame True f' ts' dat' len' False ct' = None"
proof -
  let ?f = "new_Frame\<lparr>m_capacity := len + 256\<rparr>"
  have "\<not> len \<le> m_capacity new_Frame" using assms(1) by (simp add: new_Frame_def)
  from make_frame_steps(3)[OF this] have "make_frame False new_Frame ts dat len False ct = Some (False, ?f)" .
  moreover have "frame_copy ?f dat' len' = None"
    using assms(3) by (auto simp: frame_copy_def new_Frame_def bind_eq_None_conv)
  then have "make_frame True ?f ts' dat' len' False ct' = None"
    using assms(4) by (simp add: make_frame_def)
  ultimately show ?thesis by blast
qed

theorem frame_after_failed_realloc_witness:
  "\<exists>f'. make_frame False new_Frame 0 [1] 1 False 0 = Some (False, f') \<and>
    make_frame True f' 0 [1, 2] 2 False 0 = None"
  using frame_after_failed_realloc[of 1 2] by simp

text \<open>
  H264 key overread: \<open>is_h264_video\<close> answers -1 for data shorter than six bytes, which
  \<open>is_h264_key\<close> takes for true: it then reads the fifth byte of a buffer that has none.
\<close>

theorem h264_key_overread:
  assumes "length m < 5"
  shows "is_h264_video (Some m) (int (length m)) = Some (- 1) \<and> is_h264_key (Some m) (int (length m)) = None"
  using assms by (simp add: is_h264_key_def is_h264_video_def rd8_def)

theorem h264_key_overread_witness:
  "is_h264_video (Some [0, 0, 0, 1]) (int (length [0, 0, 0, 1 :: u8])) = Some (- 1) \<and>
    is_h264_key (Some [0, 0, 0, 1]) (int (length [0, 0, 0, 1 :: u8])) = None"
  using h264_key_overread[of "[0, 0, 0, 1]"] by simp

text \<open>
  Samplerate tables: For every rate of the table \<open>str_to_samplerate_idx\<close> inverts
  \<open>samplerate_idx_to_str\<close>; but any text that \<open>atoi\<close> reads as 0 is accepted as
  index 13 instead of being refused.
\<close>

theorem samplerate_tables:
  "(i < 13 \<longrightarrow> (\<exists>s. samplerate_idx_to_str i = Some s \<and> str_to_samplerate_idx s = Some (int i))) \<and>
   (atoi t = 0 \<longrightarrow> str_to_samplerate_idx t = Some 13)"
proof (intro conjI impI)
  assume i: "i < 13"
  have "atoi (dec (nat (samplerate ! i))) = samplerate ! i"
    using samplerate_range[OF i] atoi_dec[of "nat (samplerate ! i)"] by (simp add: nat_less_iff)
  moreover have "samplerate_loop (samplerate ! i) 0 = Some (int i)"
    using samplerate_loop_at[of 0 i] i by simp
  ultimately show "\<exists>s. samplerate_idx_to_str i = Some s \<and> str_to_samplerate_idx s = Some (int i)"
    using i by (simp add: samplerate_idx_to_str_def str_to_samplerate_idx_def length_samplerate)
next
  assume "atoi t = 0"
  moreover have "samplerate ! 13 = 0" by (simp add: samplerate_def)
  ultimately show "str_to_samplerate_idx t = Some 13"
    using samplerate_loop_at[of 0 13] by (simp add: str_to_samplerate_idx_def)
qed

theorem samplerate_tables_witness:
  "(\<exists>s. samplerate_idx_to_str 4 = Some s \<and> str_to_samplerate_idx s = Some 4) \<and>
    str_to_samplerate_idx ''none'' = Some 13"
proof -
  have "atoi ''none'' = 0" by (simp add: atoi_def strtol10_def isspace_def isdigit_def ord_def digits_val_def)
  with samplerate_tables[of 4 "''none''"] show ?thesis by simp
qed

end
