(* ===== verification/Omx.thy ===== *)
theory Omx
  imports Media Buffer BitBuffer Log
begin

text \<open>
  What the two OpenMAX components share: states, commands and errors with their names
  (\<open>omx_util.cc\<close>), buffer headers, RTMP packets and their channels (\<open>rtmp_util.cc\<close>), and the
  boundary to librtmp and to the base component, whose code is elsewhere: the record \<open>librtmp\<close>
  holds one function per call the components make, on an abstract session \<open>'r\<close>.
\<close>

section \<open>States, commands, errors\<close>

datatype OMX_STATETYPE = StateInvalid | StateLoaded | StateIdle | StateExecuting | StatePause
  | StateWaitForResources | StateKhronosExtensions | StateVendorStartUnused | StateMax

datatype OMX_COMMANDTYPE = CommandStateSet | CommandFlush | CommandPortDisable | CommandPortEnable
  | CommandMarkBuffer | CommandKhronosExtensions | CommandVendorStartUnused | CommandMax

datatype OMX_ERRORTYPE = ErrorNone | ErrorInsufficientResources | ErrorBadParameter | ErrorBadPortIndex
  | ErrorBase nat

fun str_omx_state :: "OMX_STATETYPE \<Rightarrow> string" where
  "str_omx_state StateInvalid = ''OMX_StateInvalid''"
| "str_omx_state StateLoaded = ''OMX_StateLoaded''"
| "str_omx_state StateIdle = ''OMX_StateIdle''"
| "str_omx_state StateExecuting = ''OMX_StateExecuting''"
| "str_omx_state StatePause = ''OMX_StatePause''"
| "str_omx_state StateWaitForResources = ''OMX_StateWaitForResources''"
| "str_omx_state StateKhronosExtensions = ''OMX_StateKhronosExtensions''"
| "str_omx_state StateVendorStartUnused = ''OMX_StateVendorStartUnused''"
| "str_omx_state StateMax = ''OMX_StateMax''"

fun str_omx_command :: "OMX_COMMANDTYPE \<Rightarrow> string" where
  "str_omx_command CommandStateSet = ''OMX_CommandStateSet''"
| "str_omx_command CommandFlush = ''OMX_CommandFlush''"
| "str_omx_command CommandPortDisable = ''OMX_CommandPortDisable''"
| "str_omx_command CommandPortEnable = ''OMX_CommandPortEnable''"
| "str_omx_command CommandMarkBuffer = ''OMX_CommandMarkBuffer''"
| "str_omx_command CommandKhronosExtensions = ''OMX_CommandKhronosExtensions''"
| "str_omx_command CommandVendorStartUnused = ''OMX_CommandVendorStartUnused''"
| "str_omx_command CommandMax = ''OMX_CommandMax''"

section \<open>Buffers and packets\<close>

text \<open>The flags are distinct bits of \<open>nFlags\<close>: a header has a set of them.\<close>

datatype bufflag = EOS | STARTTIME | CODECCONFIG | KEY_FRAME

record OMX_BUFFERHEADERTYPE =
  pBuffer :: mem
  nAllocLen :: u32
  nFilledLen :: u32
  nOffset :: u32
  nFlags :: "bufflag set"
  nTimeStamp :: int
  nPortIndex :: nat

abbreviation (input) VIDEO_PORT_INDEX :: nat where "VIDEO_PORT_INDEX \<equiv> 0"
abbreviation (input) AUDIO_PORT_INDEX :: nat where "AUDIO_PORT_INDEX \<equiv> 1"

abbreviation (input) RTMP_PACKET_TYPE_AUDIO :: u8 where "RTMP_PACKET_TYPE_AUDIO \<equiv> 8"
abbreviation (input) RTMP_PACKET_TYPE_VIDEO :: u8 where "RTMP_PACKET_TYPE_VIDEO \<equiv> 9"
abbreviation (input) RTMP_PACKET_TYPE_INFO :: u8 where "RTMP_PACKET_TYPE_INFO \<equiv> 18"

datatype RTMPChannel = RTMP_NETWORK_CHANNEL | RTMP_SYSTEM_CHANNEL | RTMP_AUDIO_CHANNEL | RTMP_VIDEO_CHANNEL
  | RTMP_SOURCE_CHANNEL

fun channel_no :: "RTMPChannel \<Rightarrow> u8" where
  "channel_no RTMP_NETWORK_CHANNEL = 2"
| "channel_no RTMP_SYSTEM_CHANNEL = 3"
| "channel_no RTMP_AUDIO_CHANNEL = 4"
| "channel_no RTMP_VIDEO_CHANNEL = 6"
| "channel_no RTMP_SOURCE_CHANNEL = 8"

definition pkttyp2channel :: "u8 \<Rightarrow> u8" where
  "pkttyp2channel typ =
     (if typ = RTMP_PACKET_TYPE_VIDEO then channel_no RTMP_VIDEO_CHANNEL
      else if typ = RTMP_PACKET_TYPE_AUDIO \<or> typ = RTMP_PACKET_TYPE_INFO then channel_no RTMP_AUDIO_CHANNEL
      else channel_no RTMP_SYSTEM_CHANNEL)"

text \<open>The levels of librtmp's log, and the ones of this program they become; \<open>DEBUG2\<close> is dropped.\<close>

datatype rtmp_level = LOGCRIT | LOGERROR | LOGWARNING | LOGINFO | LOGDEBUG | LOGDEBUG2

fun rtmp_log :: "rtmp_level \<Rightarrow> log_level option" where
  "rtmp_log LOGDEBUG2 = None"
| "rtmp_log LOGCRIT = Some ERR"
| "rtmp_log LOGERROR = Some ERR"
| "rtmp_log LOGWARNING = Some WARN"
| "rtmp_log LOGINFO = Some INFO"
| "rtmp_log LOGDEBUG = Some DEBUG"

text \<open>A packet's body is null where none was allocated.\<close>

record RTMPPacket =
  m_headerType :: u8
  m_packetType :: u8
  m_hasAbsTimestamp :: bool
  m_nChannel :: u8
  m_nTimeStamp :: u32
  m_nInfoField2 :: u32
  m_nBodySize :: u32
  m_body :: mem

definition empty_packet :: RTMPPacket where
  "empty_packet = \<lparr>m_headerType = 0, m_packetType = 0, m_hasAbsTimestamp = False, m_nChannel = 0, m_nTimeStamp = 0,
     m_nInfoField2 = 0, m_nBodySize = 0, m_body = []\<rparr>"

text \<open>Port formats, and what \<open>GetParameter\<close> is asked for and gives; a URL is read into a buffer of a size.\<close>

record port_format =
  pf_port :: nat
  pf_format :: u32

datatype get_param = VideoInit | VideoFormat nat | AudioInit | AudioFormat nat | GetUrl nat | OtherGet nat

datatype got = Nothing | Ports nat nat | Format port_format | Url string

section \<open>The boundary\<close>

text \<open>
  \<open>RTMP_SetupURL\<close> works on the caller's string; \<open>RTMP_ReadPacket\<close> completes the packet it is given.
  \<open>parsed_url\<close> is what \<open>RTMP_ParseURL\<close> stores.
\<close>

record parsed_url =
  pu_protocol :: string
  pu_host :: string
  pu_port :: nat
  pu_playpath :: string
  pu_app :: string

record 'r librtmp =
  RTMP_Alloc :: "'r option"
  RTMP_Init :: "'r \<Rightarrow> 'r"
  Link_timeout :: "'r \<Rightarrow> nat \<Rightarrow> 'r"
  RTMP_SetupURL :: "'r \<Rightarrow> string \<Rightarrow> bool \<times> 'r \<times> string"
  RTMP_ParseURL :: "string \<Rightarrow> parsed_url option"
  RTMP_SetupStream :: "'r \<Rightarrow> parsed_url \<Rightarrow> string \<times> nat \<Rightarrow> 'r"
  RTMP_SetBufferMS :: "'r \<Rightarrow> nat \<Rightarrow> 'r"
  RTMP_EnableWrite :: "'r \<Rightarrow> 'r"
  RTMP_Connect :: "'r \<Rightarrow> bool \<times> 'r"
  RTMP_ConnectStream :: "'r \<Rightarrow> bool \<times> 'r"
  RTMP_IsConnected :: "'r \<Rightarrow> bool"
  m_bPlaying :: "'r \<Rightarrow> bool"
  m_stream_id :: "'r \<Rightarrow> u32"
  RTMP_SendPacket :: "'r \<Rightarrow> RTMPPacket \<Rightarrow> bool \<times> 'r"
  RTMP_ReadPacket :: "'r \<Rightarrow> RTMPPacket \<Rightarrow> bool \<times> 'r \<times> RTMPPacket"
  RTMPPacket_IsReady :: "RTMPPacket \<Rightarrow> bool"
  RTMP_Close :: "'r \<Rightarrow> 'r"

text \<open>\<open>int64_t / int\<close> rounds towards zero.\<close>

definition cdiv :: "int \<Rightarrow> int \<Rightarrow> int" where
  "cdiv a b = (if a < 0 then - ((- a) div b) else a div b)"

text \<open>A session that records what it is sent and hands it out again.\<close>

definition loop_lib :: "RTMPPacket list librtmp" where
  "loop_lib = \<lparr>RTMP_Alloc = Some [], RTMP_Init = (\<lambda>r. r), Link_timeout = (\<lambda>r n. r),
     RTMP_SetupURL = (\<lambda>r u. (True, r, u)), RTMP_ParseURL = (\<lambda>u. None), RTMP_SetupStream = (\<lambda>r u t. r),
     RTMP_SetBufferMS = (\<lambda>r n. r), RTMP_EnableWrite = (\<lambda>r. r), RTMP_Connect = (\<lambda>r. (True, r)),
     RTMP_ConnectStream = (\<lambda>r. (True, r)), RTMP_IsConnected = (\<lambda>r. True), m_bPlaying = (\<lambda>r. True),
     m_stream_id = (\<lambda>r. 1), RTMP_SendPacket = (\<lambda>r p. (True, r @ [p])),
     RTMP_ReadPacket = (\<lambda>r p. case r of [] \<Rightarrow> (False, r, p) | q # r \<Rightarrow> (True, r, q)),
     RTMPPacket_IsReady = (\<lambda>p. True), RTMP_Close = (\<lambda>r. r)\<rparr>"

end
