(* ===== verification/Loader.thy ===== *)
theory Loader
  imports Omx
begin

text \<open>
  The entry points the component loader calls (\<open>library_entry_point.cc\<close> of both components). The
  loader's record is \<open>stLoaderComponentType\<close> of its own header, of which the members below are used;
  \<open>OMX_MAX_STRINGNAME_SIZE\<close> and whether the \<open>i\<close>-th \<open>calloc\<close> of the call succeeds are arguments. A
  pointer is the bytes it points to, \<open>None\<close> for \<open>NULL\<close>; the outer \<open>None\<close> is undefined behaviour.
\<close>

section \<open>The loader's record\<close>

datatype constructor_function = omx_rtmpsrc_component_Constructor | omx_rtmpout_component_Constructor

record stLoaderComponentType =
  componentVersion :: "u8 \<times> u8 \<times> u8 \<times> u8"
  comp_name :: "u8 list option"
  name_specific_length :: u32
  comp_constructor :: "constructor_function option"
  name_specific :: "u8 list option list option"
  role_specific :: "u8 list option list option"

abbreviation (input) RTMPSRC_COMP_NAME :: string where "RTMPSRC_COMP_NAME \<equiv> ''OMX.st.rtmpsrc''"
abbreviation (input) RTMPSRC_COMP_ROLE :: string where "RTMPSRC_COMP_ROLE \<equiv> ''rtmpsrc''"
abbreviation (input) RTMPOUT_COMP_NAME :: string where "RTMPOUT_COMP_NAME \<equiv> ''OMX.st.rtmpout''"
abbreviation (input) RTMPOUT_COMP_ROLE :: string where "RTMPOUT_COMP_ROLE \<equiv> ''rtmpout''"

definition calloc :: "(nat \<Rightarrow> bool) \<Rightarrow> nat \<Rightarrow> 'a list \<Rightarrow> 'a list option" where
  "calloc ok i zeros = (if ok i then Some zeros else None)"

definition strcpy :: "u8 list option \<Rightarrow> string \<Rightarrow> u8 list option" where
  "strcpy dst s =
     (case dst of
        None \<Rightarrow> None
      | Some buf \<Rightarrow> if length s < length buf then Some (ascii s @ 0 # drop (Suc (length s)) buf) else None)"

text \<open>An element of an array of pointers is assigned; the array may be \<open>NULL\<close>.\<close>

definition store :: "'a list option \<Rightarrow> nat \<Rightarrow> 'a \<Rightarrow> 'a list option" where
  "store arr i x = (case arr of None \<Rightarrow> None | Some xs \<Rightarrow> if i < length xs then Some (xs[i := x]) else None)"

section \<open>omx_component_library_Setup\<close>

text \<open>
  The loops that allocate the names and roles. They test the array, which they have just written
  into, and not the element: the return that follows is the one of the code, and never taken.
\<close>

fun fill :: "(nat \<Rightarrow> bool) \<Rightarrow> nat \<Rightarrow> nat \<Rightarrow> nat \<Rightarrow> nat \<Rightarrow> u8 list option list option \<Rightarrow>
    (OMX_ERRORTYPE + u8 list option list option) option" where
  "fill ok len c i 0 arr = Some (Inr arr)"
| "fill ok len c i (Suc n) arr = do {
     xs \<leftarrow> store arr i (calloc ok c (replicate len 0));
     let arr = Some xs;
     if arr = None then Some (Inl ErrorInsufficientResources) else fill ok len (Suc c) (Suc i) n arr }"

text \<open>\<open>stComponents[0]->name_specific[0]\<close> and its copy.\<close>

definition copy_first :: "u8 list option list option \<Rightarrow> string \<Rightarrow> u8 list option list option" where
  "copy_first arr s = do {
     xs \<leftarrow> arr;
     x \<leftarrow> (if xs = [] then None else strcpy (hd xs) s);
     Some (Some x # tl xs) }"

definition library_setup :: "string \<Rightarrow> string \<Rightarrow> constructor_function \<Rightarrow> (nat \<Rightarrow> bool) \<Rightarrow> nat \<Rightarrow>
    stLoaderComponentType option \<Rightarrow> (OMX_ERRORTYPE + nat \<times> stLoaderComponentType option) option" where
  "library_setup nam rol ctor ok len st =
     (case st of
        None \<Rightarrow> Some (Inr (1, None))
      | Some c \<Rightarrow> do {
          nbuf \<leftarrow> strcpy (calloc ok 0 (replicate len 0)) nam;
          let c = c\<lparr>componentVersion := (1, 1, 1, 1), comp_name := Some nbuf, name_specific_length := 1,
            comp_constructor := Some ctor\<rparr>;
          let n = unat (name_specific_length c);
          r \<leftarrow> fill ok len 3 0 n (calloc ok 1 (replicate n None));
          case r of Inl e \<Rightarrow> Some (Inl e) | Inr names \<Rightarrow> do {
            r \<leftarrow> fill ok len (3 + n) 0 n (calloc ok 2 (replicate n None));
            case r of Inl e \<Rightarrow> Some (Inl e) | Inr roles \<Rightarrow> do {
              names \<leftarrow> copy_first names nam;
              roles \<leftarrow> copy_first roles rol;
              Some (Inr (1, Some (c\<lparr>name_specific := Some names, role_specific := Some roles\<rparr>))) } } })"

definition rtmpsrc_library_setup :: "(nat \<Rightarrow> bool) \<Rightarrow> nat \<Rightarrow> stLoaderComponentType option \<Rightarrow>
    (OMX_ERRORTYPE + nat \<times> stLoaderComponentType option) option" where
  "rtmpsrc_library_setup = library_setup RTMPSRC_COMP_NAME RTMPSRC_COMP_ROLE omx_rtmpsrc_component_Constructor"

definition rtmpout_library_setup :: "(nat \<Rightarrow> bool) \<Rightarrow> nat \<Rightarrow> stLoaderComponentType option \<Rightarrow>
    (OMX_ERRORTYPE + nat \<times> stLoaderComponentType option) option" where
  "rtmpout_library_setup = library_setup RTMPOUT_COMP_NAME RTMPOUT_COMP_ROLE omx_rtmpout_component_Constructor"

section \<open>Properties\<close>

definition named :: "nat \<Rightarrow> string \<Rightarrow> u8 list" where
  "named len s = ascii s @ replicate (len - length s) 0"

lemma strcpy_calloc:
  "strcpy (calloc ok i (replicate len 0)) s = (if ok i \<and> length s < len then Some (named len s) else None)"
  by (auto simp: strcpy_def calloc_def named_def Suc_diff_Suc simp flip: replicate_Suc)

lemma one_slot:
  "store (calloc ok i [a]) 0 x = (if ok i then Some [x] else None)"
  by (simp add: store_def calloc_def)

text \<open>
  C38: library_setup_registers. Both entry points either register their component, with its version,
  constructor and the two names and the role in zero-filled buffers of their own, and return the number
  1; or one of their five allocations has failed, and the process copies to \<open>NULL\<close>: the
  error they have for that case is never returned.
\<close>

theorem library_setup_registers:
  assumes "length nam < len" "length rol < len"
  shows "library_setup nam rol ctor ok len (Some c) =
    (if \<forall>i<5. ok i then
       Some (Inr (1, Some (c\<lparr>componentVersion := (1, 1, 1, 1), comp_name := Some (named len nam),
         name_specific_length := 1, comp_constructor := Some ctor,
         name_specific := Some [Some (named len nam)], role_specific := Some [Some (named len rol)]\<rparr>)))
     else None)"
proof -
  have five: "(\<forall>i<5. ok i) \<longleftrightarrow> ok 0 \<and> ok 1 \<and> ok 2 \<and> ok 3 \<and> ok (4 :: nat)"
    by (auto simp: less_Suc_eq numeral_eq_Suc)
  show ?thesis
    unfolding library_setup_def five
    using assms by (simp add: strcpy_calloc copy_first_def one_slot)
qed

definition blank_component :: stLoaderComponentType where
  "blank_component = \<lparr>componentVersion = (0, 0, 0, 0), comp_name = None, name_specific_length = 0,
     comp_constructor = None, name_specific = None, role_specific = None\<rparr>"

theorem library_setup_registers_witness:
  "\<exists>c. rtmpsrc_library_setup (\<lambda>_. True) 128 (Some blank_component) = Some (Inr (1, Some c)) \<and>
     comp_name c = Some (named 128 RTMPSRC_COMP_NAME) \<and> comp_constructor c = Some omx_rtmpsrc_component_Constructor \<and>
     rtmpout_library_setup (\<lambda>i. i \<noteq> 4) 128 (Some blank_component) = None"
  using library_setup_registers[of RTMPSRC_COMP_NAME 128 RTMPSRC_COMP_ROLE omx_rtmpsrc_component_Constructor "\<lambda>_. True" blank_component]
    library_setup_registers[of RTMPOUT_COMP_NAME 128 RTMPOUT_COMP_ROLE omx_rtmpout_component_Constructor "\<lambda>i. i \<noteq> 4" blank_component]
  by (simp add: rtmpsrc_library_setup_def rtmpout_library_setup_def)

end
