(* ===== verification/MediaPrint.thy ===== *)
theory MediaPrint
  imports Media Trace
begin

text \<open>
  What remains of \<open>xmedia.cc\<close>: the two functions that print a video and an audio configuration, and
  \<open>FPSCalc\<close>. A printed text is its bytes; \<open>None\<close> is a read through a null pointer or past a buffer,
  or a null pointer given to \<open>%s\<close>. The time is an argument, and so is the quotient in floating point.
\<close>

section \<open>Printing\<close>

definition unsigned_text :: "'a::len word \<Rightarrow> u8 list" where
  "unsigned_text w = ascii (dec (unat w))"

definition line :: "string \<Rightarrow> u8 list \<Rightarrow> u8 list" where
  "line s v = ascii s @ v @ [10]"

text \<open>The loops over the parameter sets, \<open>n\<close> bytes from \<open>idx\<close>.\<close>

fun print_bytes :: "mem option \<Rightarrow> nat \<Rightarrow> nat \<Rightarrow> u8 list option" where
  "print_bytes m idx 0 = Some []"
| "print_bytes m idx (Suc n) = do {
     bs \<leftarrow> m;
     b \<leftarrow> rd8 bs idx;
     t \<leftarrow> print_bytes m (Suc idx) n;
     Some (zero_pad 2 (hexs (unat b)) @ [32] @ t) }"

definition print_avc_dcr :: "AVCDecorderConfigurationRecord \<Rightarrow> u8 list option" where
  "print_avc_dcr r = do {
     sps \<leftarrow> print_bytes (avc_sps r) 0 (unat (avc_sps_length r));
     pps \<leftarrow> print_bytes (avc_pps r) 0 (unat (avc_pps_length r));
     Some (line ''---AVCDecorderConfigurationRecord---'' [] @
       line ''version: '' (unsigned_text (avc_version r)) @
       line ''profile: '' (unsigned_text (avc_profile r)) @
       line ''profile_compatibility: '' (unsigned_text (avc_profile_compatibility r)) @
       line ''level: '' (unsigned_text (avc_level r)) @
       line ''length_size_minus_one: '' (unsigned_text (length_size_minus_one r)) @
       line ''num_of_sps: '' (unsigned_text (num_of_sps r)) @
       line ''sps_length: '' (unsigned_text (avc_sps_length r)) @ sps @ [10] @
       line ''num_of_pps: '' (unsigned_text (avc_num_of_pps r)) @
       line ''pps_length: '' (unsigned_text (avc_pps_length r)) @ pps @ [10] @
       line ''------------------------------------'' []) }"

definition print_asc :: "mem \<Rightarrow> u8 list option" where
  "print_asc asc = do {
     (prof, sample_rate_idx, channel) \<leftarrow> parse_asc asc;
     a \<leftarrow> rd8 asc 0; b \<leftarrow> rd8 asc 1;
     p \<leftarrow> audioprof_to_str (int (unat prof));
     r \<leftarrow> samplerate_idx_to_str (unat sample_rate_idx);
     Some (line ''---AudioSpecificConfig---'' [] @
       zero_pad 2 (hexs (unat a)) @ [32] @ zero_pad 2 (hexs (unat b)) @ [10] @
       line ''profile: '' (unsigned_text prof @ ascii '' ('' @ ascii p @ ascii '')'') @
       line ''sample_rate_idx: '' (unsigned_text sample_rate_idx @ ascii '' ('' @ ascii r @ ascii ''HZ)'') @
       line ''channel: '' (unsigned_text channel) @
       line ''-------------------------'' []) }"

section \<open>Frames per second\<close>

record 'f FPSCalc =
  m_frame_num :: u32
  m_fps :: 'f
  fps_tm_last :: u64

text \<open>\<open>quot n ms\<close> is \<open>n*1000.0/ms\<close> as a \<open>float\<close>; \<open>ms\<close> may be 0 if the interval is.\<close>

definition fps_check :: "(u32 \<Rightarrow> u64 \<Rightarrow> 'f) \<Rightarrow> 'f FPSCalc \<Rightarrow> u64 \<Rightarrow> u32 \<Rightarrow> u32 \<Rightarrow> 'f FPSCalc" where
  "fps_check quot c now frame_count interval =
     (let c = c\<lparr>m_frame_num := m_frame_num c + frame_count\<rparr> in
      if fps_tm_last c = 0 then c\<lparr>fps_tm_last := now\<rparr>
      else if now - fps_tm_last c \<ge> ucast interval then
        c\<lparr>m_fps := quot (m_frame_num c) (now - fps_tm_last c), fps_tm_last := now, m_frame_num := 0\<rparr>
      else c)"

definition get_fps :: "(u32 \<Rightarrow> u64 \<Rightarrow> 'f) \<Rightarrow> 'f FPSCalc \<Rightarrow> u64 \<Rightarrow> 'f \<times> 'f FPSCalc" where
  "get_fps quot c now = (let c = fps_check quot c now 0 1000 in (m_fps c, c))"

text \<open>Frames counted one after the other, each with its time.\<close>

fun fps_run :: "(u32 \<Rightarrow> u64 \<Rightarrow> 'f) \<Rightarrow> u32 \<Rightarrow> 'f FPSCalc \<Rightarrow> (u64 \<times> u32) list \<Rightarrow> 'f FPSCalc" where
  "fps_run quot interval c [] = c"
| "fps_run quot interval c ((now, n) # xs) = fps_run quot interval (fps_check quot c now n interval) xs"

lemma elapsed: assumes "t0 \<le> now" shows "unat (now - t0) = unat now - unat (t0 :: u64)"
  using assms by (simp add: unat_sub)

lemma fps_quiet:
  "(\<forall>(now, n) \<in> set xs. now - fps_tm_last c < ucast interval) \<Longrightarrow> fps_tm_last c \<noteq> 0 \<Longrightarrow>
     fps_run quot interval c xs = c\<lparr>m_frame_num := m_frame_num c + sum_list (map snd xs)\<rparr>"
proof (induction xs arbitrary: c)
  case (Cons x xs)
  obtain now n where x: "x = (now, n)" by (cases x)
  have "fps_check quot c now n interval = c\<lparr>m_frame_num := m_frame_num c + n\<rparr>"
    using Cons.prems x by (auto simp: fps_check_def Let_def)
  then show ?case using Cons x by (simp add: add.assoc)
qed simp

section \<open>Properties\<close>

lemma print_bytes_some:
  "print_bytes m idx n \<noteq> None \<longleftrightarrow> n = 0 \<or> (\<exists>bs. m = Some bs \<and> idx + n \<le> length bs)"
proof (induction m idx n rule: print_bytes.induct)
  case (2 m idx n)
  then show ?case by (cases m) (auto simp: rd8_def bind_eq_None_conv split: bind_splits)
qed simp

text \<open>
  Print avc dcr parsed: Printing a video configuration after parsing it. A record that was parsed, and
  one whose data was shorter than any configuration, are printed; one that was cut later has a length
  without its bytes, and printing it reads through a null pointer.
\<close>

theorem print_avc_dcr_parsed:
  assumes "parse_from new_avc_dcr data sz = Some (ok, r)"
  shows "print_avc_dcr r \<noteq> None \<longleftrightarrow> ok \<or> sz < 11"
proof -
  have pr: "print_avc_dcr r \<noteq> None \<longleftrightarrow> print_bytes (avc_sps r) 0 (unat (avc_sps_length r)) \<noteq> None \<and>
      print_bytes (avc_pps r) 0 (unat (avc_pps_length r)) \<noteq> None" for r
    by (simp add: print_avc_dcr_def bind_eq_None_conv)
  show ?thesis
    using assms unfolding pr print_bytes_some parse_from_def
    by (auto simp: new_avc_dcr_def rdn_def Let_def unat_eq_0 split: if_splits bind_splits)
qed

definition cut_config :: mem where
  "cut_config = [1, 66, 0, 30, 0xFF, 0xE1, 0, 9, 1, 2, 3, 4]"

lemma cut_length: "ENTOHS (le16 0 9) = 9"
  by code_simp

theorem print_avc_dcr_parsed_witness:
  "\<exists>r. parse_from new_avc_dcr cut_config 12 = Some (False, r) \<and> print_avc_dcr r = None"
proof -
  obtain r where "parse_from new_avc_dcr cut_config 12 = Some (False, r)"
    by (simp add: parse_from_def cut_config_def rd8_def ld16_def cut_length)
  then show ?thesis using print_avc_dcr_parsed[of cut_config 12 False r] by auto
qed

text \<open>
  Print asc known: An audio configuration is printed, in a build that traces, exactly if its object type
  is one of the nine of the table; for any other the name given to \<open>%s\<close> is null.
\<close>

theorem print_asc_known:
  assumes "length asc = 2"
  shows "print_asc asc \<noteq> None \<longleftrightarrow> int (unat (drop_bit 3 (asc ! 0 AND 0xf8))) \<in> snd ` set audio_profs"
proof -
  obtain a b where ab: "asc = [a, b]" using assms by (auto simp: length_Suc_conv numeral_2_eq_2)
  have prof: "audioprof_to_str p \<noteq> None \<longleftrightarrow> p \<in> snd ` set audio_profs" for p
    by (force simp: audioprof_to_str_def find_None_iff image_iff)
  have "unat (a AND 7) \<le> unat (7 :: u8)" using word_and_le1[of a 7] by (simp only: word_le_nat_alt)
  moreover have "unat (drop_bit 7 (b AND 0x80)) \<le> 1"
    using unsigned_less[of "b AND 0x80", where 'a = nat] div_le_mono[of "unat (b AND 0x80)" 255 128]
    by (simp add: drop_bit_eq_div unat_div)
  ultimately have "unat (push_bit 1 (a AND 0x07) + drop_bit 7 (b AND 0x80)) < 16"
    by (simp add: push_bit_eq_mult unat_word_ariths)
  then have "samplerate_idx_to_str (unat (push_bit 1 (a AND 0x07) + drop_bit 7 (b AND 0x80))) \<noteq> None"
    by (simp add: samplerate_idx_to_str_def length_samplerate)
  then show ?thesis
    using prof[of "int (unat (drop_bit 3 (a AND 0xf8)))"]
    by (auto simp: print_asc_def parse_asc_def ab rd8_def)
qed

theorem print_asc_known_witness: "print_asc [0x12, 0x10] \<noteq> None \<and> print_asc [0x32, 0x10] = None"
  using print_asc_known[of "[0x12, 0x10]"] print_asc_known[of "[0x32, 0x10]"] by (simp add: audio_profs_def)

text \<open>
  Fps reports: The counter reports, at the first frame an interval or more after its last report, all
  frames since then over the time since then, and starts again from there; a clock set back in between
  makes it report at once.
\<close>

theorem fps_reports:
  assumes "fps_tm_last c \<noteq> 0" "\<forall>(t, k) \<in> set xs. t - fps_tm_last c < ucast interval"
    "now < fps_tm_last c \<and> fps_tm_last c < 2 ^ 63 \<or> fps_tm_last c \<le> now \<and> unat interval \<le> unat now - unat (fps_tm_last c)"
  shows "fps_run quot interval c (xs @ [(now, n)]) =
    c\<lparr>m_fps := quot (m_frame_num c + sum_list (map snd xs) + n) (now - fps_tm_last c), fps_tm_last := now, m_frame_num := 0\<rparr>"
proof -
  have app: "fps_run quot interval c (xs @ ys) = fps_run quot interval (fps_run quot interval c xs) ys" for c :: "'a FPSCalc" and xs ys
    by (induction xs arbitrary: c) auto
  have iv: "unat (ucast interval :: u64) = unat interval"
    using unat_less_32[of interval] by (simp add: unsigned_ucast_eq take_bit_nat_eq_self)
  have late: "ucast interval \<le> now - fps_tm_last c"
    using assms(3)
  proof
    assume l: "now < fps_tm_last c \<and> fps_tm_last c < 2 ^ 63"
    then have "unat now < unat (fps_tm_last c)" "unat (fps_tm_last c) < 2 ^ 63"
      by (simp_all add: word_less_nat_alt)
    then have "2 ^ 63 \<le> unat (now - fps_tm_last c)" by (simp add: unat_sub_if')
    then show ?thesis using iv unat_less_32[of interval] by (simp add: word_le_nat_alt)
  next
    assume "fps_tm_last c \<le> now \<and> unat interval \<le> unat now - unat (fps_tm_last c)"
    then show ?thesis using iv by (simp add: word_le_nat_alt elapsed)
  qed
  show ?thesis
    unfolding app fps_quiet[OF assms(2,1)] using late assms(1) by (simp add: fps_check_def)
qed

theorem fps_reports_witness:
  "fps_run (\<lambda>n ms. (unat n, unat ms)) 1000 \<lparr>m_frame_num = 0, m_fps = (0, 0), fps_tm_last = 5000\<rparr> [(5400, 10), (5999, 15), (6010, 1)] =
     \<lparr>m_frame_num = 0, m_fps = (26, 1010), fps_tm_last = 6010\<rparr>"
  using fps_reports[of "\<lparr>m_frame_num = 0, m_fps = (0, 0), fps_tm_last = 5000\<rparr>" "[(5400, 10), (5999, 15)]" 1000 6010
      "\<lambda>n ms. (unat n, unat ms)" 1] by simp

end
