(* ===== verification/Rtmpsrc.thy ===== *)
theory Rtmpsrc
  imports Omx Amf
begin

text \<open>
  The RTMP source (\<open>components/access/omx_rtmpsrc_component.cc\<close>): its buffer callback reads the
  packets of a session, takes the FLV tags apart with \<open>rtc::BitBuffer\<close>, and fills the buffer it is
  given or, when the packet is for the other port, keeps it in \<open>tmp_output_buffer\<close> for that port.
  \<open>None\<close> is undefined behaviour: a copy past a buffer, an uninitialised value, a null session.
\<close>

section \<open>State\<close>

abbreviation (input) DEFAULT_URL_LENGTH :: nat where "DEFAULT_URL_LENGTH \<equiv> 2048"
abbreviation (input) RTMP_SOCK_TIMEOUT :: nat where "RTMP_SOCK_TIMEOUT \<equiv> 30"
abbreviation (input) RTMP_BUFFER_TIME :: nat where "RTMP_BUFFER_TIME \<equiv> 1000"

text \<open>The clock port is the queue of the scales in the buffers it holds.\<close>

record 'r Rtmpsrc =
  rs_state :: OMX_STATETYPE
  input_url :: string
  input_url_size :: nat
  rs_rtmp :: "'r option"
  rs_ready :: bool
  rs_sem :: nat
  tmp_output_buffer :: OMX_BUFFERHEADERTYPE
  first_video :: bool
  first_audio :: bool
  rs_scale :: int
  clock_queue :: "int list"

section \<open>Tags\<close>

text \<open>The header of a video tag: frame type, codec, packet type (if it is there) and where the data starts.\<close>

definition video_header :: "mem \<Rightarrow> nat \<Rightarrow> (u32 \<times> u32 \<times> u8 option \<times> nat) option" where
  "video_header body n = do {
     let bb = new_BitBuffer body n;
     (frame_type, bb) \<leftarrow> ReadBits bb 4;
     (codec_id, bb) \<leftarrow> ReadBits bb 4;
     (avc_pkt_type, bb) \<leftarrow> ReadUInt8 bb;
     let bb = snd (ConsumeBits bb 24);
     frame_type \<leftarrow> frame_type; codec_id \<leftarrow> codec_id;
     Some (frame_type, codec_id, avc_pkt_type, fst (GetCurrentOffset bb)) }"

definition audio_header :: "mem \<Rightarrow> nat \<Rightarrow> (u32 \<times> u32 \<times> u32 \<times> u32 \<times> u8 option \<times> nat) option" where
  "audio_header body n = do {
     let bb = new_BitBuffer body n;
     (sound_format, bb) \<leftarrow> ReadBits bb 4;
     (sound_rate, bb) \<leftarrow> ReadBits bb 2;
     (sound_size, bb) \<leftarrow> ReadBits bb 1;
     (sound_type, bb) \<leftarrow> ReadBits bb 1;
     (aac_packet_type, bb) \<leftarrow> ReadUInt8 bb;
     sound_format \<leftarrow> sound_format; sound_rate \<leftarrow> sound_rate; sound_size \<leftarrow> sound_size; sound_type \<leftarrow> sound_type;
     Some (sound_format, sound_rate, sound_size, sound_type, aac_packet_type, fst (GetCurrentOffset bb)) }"

text \<open>\<open>memcpy(dst->pBuffer, data, data_size); dst->nFilledLen = data_size;\<close>\<close>

definition fill :: "OMX_BUFFERHEADERTYPE \<Rightarrow> mem \<Rightarrow> nat \<Rightarrow> u32 \<Rightarrow> OMX_BUFFERHEADERTYPE option" where
  "fill dst body off data_size = do {
     d \<leftarrow> rdn body off (unat data_size);
     buf \<leftarrow> wrn (pBuffer dst) 0 d;
     Some (dst\<lparr>pBuffer := buf, nFilledLen := data_size\<rparr>) }"

definition add_flag :: "bufflag \<Rightarrow> OMX_BUFFERHEADERTYPE \<Rightarrow> OMX_BUFFERHEADERTYPE" where
  "add_flag f b = b\<lparr>nFlags := insert f (nFlags b)\<rparr>"

text \<open>\<open>packet.m_nTimeStamp * 1000\<close> is computed in \<open>uint32_t\<close>.\<close>

definition stamp :: "RTMPPacket \<Rightarrow> OMX_BUFFERHEADERTYPE \<Rightarrow> OMX_BUFFERHEADERTYPE" where
  "stamp packet b = b\<lparr>nTimeStamp := uint (m_nTimeStamp packet * 1000)\<rparr>"

text \<open>The buffer a frame of a port goes to, and the state with that buffer stored.\<close>

definition dst_of :: "nat \<Rightarrow> 'r Rtmpsrc \<Rightarrow> OMX_BUFFERHEADERTYPE \<Rightarrow> OMX_BUFFERHEADERTYPE" where
  "dst_of port c out = (if nPortIndex out = port then out else (tmp_output_buffer c)\<lparr>nPortIndex := port\<rparr>)"

definition put_dst :: "nat \<Rightarrow> 'r Rtmpsrc \<Rightarrow> OMX_BUFFERHEADERTYPE \<Rightarrow> OMX_BUFFERHEADERTYPE \<Rightarrow> 'r Rtmpsrc \<times> OMX_BUFFERHEADERTYPE" where
  "put_dst port c out dst = (if nPortIndex out = port then (c, dst) else (c\<lparr>tmp_output_buffer := dst\<rparr>, out))"

text \<open>A packet ends the stream (\<open>BAIL_RETURN\<close>), goes to a buffer, or leaves no trace.\<close>

datatype 'r handled = Bail "'r Rtmpsrc" OMX_BUFFERHEADERTYPE | Stored "'r Rtmpsrc" OMX_BUFFERHEADERTYPE | Ignored

definition store :: "nat \<Rightarrow> 'r Rtmpsrc \<Rightarrow> OMX_BUFFERHEADERTYPE \<Rightarrow> OMX_BUFFERHEADERTYPE \<Rightarrow> 'r handled" where
  "store port c out dst = (case put_dst port c out dst of (c, out) \<Rightarrow> Stored c out)"

definition bail :: "nat \<Rightarrow> 'r Rtmpsrc \<Rightarrow> OMX_BUFFERHEADERTYPE \<Rightarrow> OMX_BUFFERHEADERTYPE \<Rightarrow> 'r handled" where
  "bail port c out dst = (case put_dst port c out dst of (c, out) \<Rightarrow> Bail c out)"

definition src_video :: "'r Rtmpsrc \<Rightarrow> OMX_BUFFERHEADERTYPE \<Rightarrow> RTMPPacket \<Rightarrow> 'r handled option" where
  "src_video c out packet = do {
     (frame_type, codec_id, avc_pkt_type, off) \<leftarrow> video_header (m_body packet) (unat (m_nBodySize packet));
     if codec_id \<noteq> 7 then Some (Bail c out)
     else do {
       let data_size = m_nBodySize packet - of_nat off;
       let dst = dst_of VIDEO_PORT_INDEX c out;
       t \<leftarrow> avc_pkt_type;
       if t = 0 then do {
         dst \<leftarrow> fill dst (m_body packet) off data_size;
         Some (store VIDEO_PORT_INDEX c out (add_flag CODECCONFIG dst)) }
       else if t = 1 then
         (if nAllocLen dst \<ge> data_size then do {
            let dst = (if frame_type = 1 then add_flag KEY_FRAME dst else dst);
            dst \<leftarrow> fill dst (m_body packet) off data_size;
            let dst = stamp packet dst;
            Some (if first_video c then store VIDEO_PORT_INDEX c out dst
              else store VIDEO_PORT_INDEX (c\<lparr>first_video := True\<rparr>) out (add_flag STARTTIME dst)) }
          else Some (store VIDEO_PORT_INDEX c out dst))
       else if t = 2 then Some (store VIDEO_PORT_INDEX c out dst)
       else Some (bail VIDEO_PORT_INDEX c out dst) } }"

text \<open>The configuration that stands in for an AAC header without one.\<close>

definition default_asc :: "u8 list option" where
  "default_asc = map_option (\<lambda>i. generate_asc (word_of_int (str_to_audioprof ''LC'')) (word_of_int i) 2)
     (str_to_samplerate_idx ''44100'')"

definition src_audio :: "'r Rtmpsrc \<Rightarrow> OMX_BUFFERHEADERTYPE \<Rightarrow> RTMPPacket \<Rightarrow> 'r handled option" where
  "src_audio c out packet = do {
     (sound_format, sound_rate, sound_size, sound_type, aac_packet_type, off) \<leftarrow>
       audio_header (m_body packet) (unat (m_nBodySize packet));
     if sound_format \<noteq> 10 \<or> sound_rate \<noteq> 3 \<or> sound_size \<noteq> 1 \<or> sound_type \<noteq> 1 then Some (Bail c out)
     else do {
       let data_size = m_nBodySize packet - of_nat off;
       let dst = dst_of AUDIO_PORT_INDEX c out;
       t \<leftarrow> aac_packet_type;
       if t = 0 then do {
         dst \<leftarrow>
           (if data_size \<ge> 2 then fill dst (m_body packet) off data_size
            else do {
              asc \<leftarrow> default_asc;
              buf \<leftarrow> wrn (pBuffer dst) 0 asc;
              Some (dst\<lparr>pBuffer := buf, nFilledLen := 2\<rparr>) });
         Some (store AUDIO_PORT_INDEX c out (add_flag CODECCONFIG dst)) }
       else if t = 1 then do {
         dst \<leftarrow> fill dst (m_body packet) off data_size;
         let dst = stamp packet dst;
         Some (if first_audio c then store AUDIO_PORT_INDEX c out dst
           else store AUDIO_PORT_INDEX (c\<lparr>first_audio := True\<rparr>) out (add_flag STARTTIME dst)) }
       else Some (bail AUDIO_PORT_INDEX c out dst) } }"

text \<open>
  A script packet is parsed to its end for the log alone: \<open>Some False\<close> is a value that does not
  parse. Every round consumes a byte at least, so its length is enough fuel.
\<close>

fun script_loop :: "nat \<Rightarrow> mem \<Rightarrow> u32 \<Rightarrow> nat \<Rightarrow> bool option" where
  "script_loop 0 body n p = None"
| "script_loop (Suc k) body n p =
     (if p < unat n then
        (case parse_amf body p (n - of_nat p) of
           Ret v q \<Rightarrow> script_loop k body n q
         | Err q \<Rightarrow> Some False
         | _ \<Rightarrow> None)
      else Some True)"

definition src_packet :: "'r Rtmpsrc \<Rightarrow> OMX_BUFFERHEADERTYPE \<Rightarrow> RTMPPacket \<Rightarrow> 'r handled option" where
  "src_packet c out packet =
     (if m_packetType packet = RTMP_PACKET_TYPE_VIDEO then src_video c out packet
      else if m_packetType packet = RTMP_PACKET_TYPE_AUDIO then src_audio c out packet
      else if m_packetType packet = RTMP_PACKET_TYPE_INFO then
        map_option (\<lambda>ok. if ok then Ignored else Bail c out)
          (script_loop (Suc (unat (m_nBodySize packet))) (m_body packet) (m_nBodySize packet) 0)
      else Some Ignored)"

section \<open>The callback\<close>

text \<open>The loop at \<open>again\<close>, one round per unit of fuel; \<open>RTMPPacket_Free\<close> drops the body.\<close>

fun src_read :: "'r librtmp \<Rightarrow> nat \<Rightarrow> 'r Rtmpsrc \<Rightarrow> OMX_BUFFERHEADERTYPE \<Rightarrow> RTMPPacket \<Rightarrow>
    ('r Rtmpsrc \<times> OMX_BUFFERHEADERTYPE) run" where
  "src_read lib 0 c out packet = Unfinished"
| "src_read lib (Suc n) c out packet =
     (case rs_rtmp c of
        None \<Rightarrow> Undefined
      | Some r \<Rightarrow>
          if \<not> m_bPlaying lib r \<or> \<not> RTMP_IsConnected lib r then Done (c, add_flag EOS out)
          else
            (case RTMP_ReadPacket lib r packet of (ok, r, packet) \<Rightarrow>
               (let c = c\<lparr>rs_rtmp := Some r\<rparr> in
                if \<not> ok then Done (c, add_flag EOS out)
                else if \<not> RTMPPacket_IsReady lib packet \<or> m_nBodySize packet = 0 then src_read lib n c out packet
                else
                  (case src_packet c out packet of
                     None \<Rightarrow> Undefined
                   | Some (Bail c out) \<Rightarrow> Done (c, add_flag EOS out)
                   | Some (Stored c out) \<Rightarrow> Done (c, out)
                   | Some Ignored \<Rightarrow> src_read lib n c out (packet\<lparr>m_body := []\<rparr>)))))"

definition from_tmp :: "'r Rtmpsrc \<Rightarrow> OMX_BUFFERHEADERTYPE \<Rightarrow> ('r Rtmpsrc \<times> OMX_BUFFERHEADERTYPE) option" where
  "from_tmp c out =
     (let tmp = tmp_output_buffer c in
      if (nPortIndex tmp = VIDEO_PORT_INDEX \<and> nPortIndex out = VIDEO_PORT_INDEX) \<or>
         (nPortIndex tmp = AUDIO_PORT_INDEX \<and> nPortIndex out = AUDIO_PORT_INDEX)
      then
        (if nAllocLen out \<ge> nFilledLen tmp then do {
           out \<leftarrow> fill out (pBuffer tmp) 0 (nFilledLen tmp);
           Some (c\<lparr>tmp_output_buffer := tmp\<lparr>nFilledLen := 0, nFlags := {}\<rparr>\<rparr>,
             out\<lparr>nTimeStamp := nTimeStamp tmp, nFlags := nFlags tmp\<rparr>) }
         else Some (c, out))
      else Some (c, out))"

definition take_clock :: "'r Rtmpsrc \<Rightarrow> 'r Rtmpsrc" where
  "take_clock c = (case clock_queue c of [] \<Rightarrow> c | s # q \<Rightarrow> c\<lparr>rs_scale := s, clock_queue := q\<rparr>)"

definition src_BufferMgmtCallback ::
  "'r librtmp \<Rightarrow> nat \<Rightarrow> 'r Rtmpsrc \<Rightarrow> OMX_BUFFERHEADERTYPE \<Rightarrow> ('r Rtmpsrc \<times> OMX_BUFFERHEADERTYPE) run" where
  "src_BufferMgmtCallback lib fuel c out =
     (let out = out\<lparr>nFilledLen := 0, nOffset := 0, nFlags := {}\<rparr>;
          go = (\<lambda>c. let c = take_clock c in
            if nFilledLen (tmp_output_buffer c) = 0 then src_read lib fuel c out empty_packet
            else run_option (from_tmp c out))
      in if rs_ready c then go c
         else if rs_state c = StateExecuting \<and> (\<exists>r\<in>set_option (rs_rtmp c). RTMP_IsConnected lib r)
         then (if rs_sem c = 0 then Waits else go (c\<lparr>rs_sem := rs_sem c - 1\<rparr>))
         else Done (c, out))"

section \<open>The session\<close>

text \<open>
  The \<open>tcUrl\<close>: \<open>snprintf\<close> keeps 510 characters of it and returns the length it would have had,
  which becomes the length of the \<open>AVal\<close>.
\<close>

definition tc_url :: "parsed_url \<Rightarrow> string \<times> nat" where
  "tc_url u =
     (let full = pu_protocol u @ ''://'' @ pu_host u @ '':'' @ dec (pu_port u) @ ''/'' @ pu_app u
      in (take 510 full, length full))"

definition src_Init :: "'r librtmp \<Rightarrow> 'r Rtmpsrc \<Rightarrow> OMX_ERRORTYPE \<times> 'r Rtmpsrc" where
  "src_Init lib c =
     (case RTMP_Alloc lib of
        None \<Rightarrow> (ErrorInsufficientResources, c\<lparr>rs_rtmp := None\<rparr>)
      | Some r \<Rightarrow>
          (let r = Link_timeout lib (RTMP_Init lib r) RTMP_SOCK_TIMEOUT;
               (ok, r) =
                 (case RTMP_ParseURL lib (input_url c) of
                    None \<Rightarrow> (False, r)
                  | Some u \<Rightarrow>
                      RTMP_Connect lib (RTMP_SetBufferMS lib (RTMP_SetupStream lib r u (tc_url u)) RTMP_BUFFER_TIME));
               (ok, r) = (if ok then RTMP_ConnectStream lib r else (ok, r));
               c = (if ok then c\<lparr>rs_ready := True\<rparr> else c);
               r = (if rs_ready c then r else RTMP_Close lib r)
           in (if ok then ErrorNone else ErrorBadParameter, c\<lparr>rs_rtmp := Some r, rs_sem := rs_sem c + 1\<rparr>)))"

definition src_Deinit :: "'r Rtmpsrc \<Rightarrow> OMX_ERRORTYPE \<times> 'r Rtmpsrc" where
  "src_Deinit c = (ErrorNone, c\<lparr>rs_rtmp := None, rs_ready := False, rs_sem := 0\<rparr>)"

definition src_MessageHandler ::
  "'r librtmp \<Rightarrow> OMX_ERRORTYPE \<times> OMX_STATETYPE \<Rightarrow> 'r Rtmpsrc \<Rightarrow> OMX_COMMANDTYPE \<times> OMX_STATETYPE \<Rightarrow>
   OMX_ERRORTYPE \<times> 'r Rtmpsrc \<times> OMX_ERRORTYPE option" where
  "src_MessageHandler lib base c message =
     (let old_state = rs_state c;
          (omx_err, new_state) = base;
          c = c\<lparr>rs_state := new_state\<rparr>;
          (typ, param) = message
      in if omx_err \<noteq> ErrorNone then (omx_err, c, None)
         else if typ = CommandStateSet \<and> param = StateExecuting \<and> old_state = StateIdle
         then (case src_Init lib c of (err, c) \<Rightarrow> (err, c, if err \<noteq> ErrorNone then Some err else None))
         else if typ = CommandStateSet \<and> param = StateIdle \<and> old_state = StateExecuting
         then (case src_Deinit c of (err, c) \<Rightarrow> (err, c, None))
         else (omx_err, c, None))"

section \<open>Construction and parameters\<close>

abbreviation (input) MAX_RTMPSRC_COMPONENTS :: nat where "MAX_RTMPSRC_COMPONENTS \<equiv> 1"

text \<open>\<open>DEFAULT_OUT_BUFFER_SIZE\<close> is a constant of the base component.\<close>

definition new_tmp_buffer :: "nat \<Rightarrow> OMX_BUFFERHEADERTYPE" where
  "new_tmp_buffer n = \<lparr>pBuffer = replicate n 0, nAllocLen = of_nat n, nFilledLen = 0, nOffset = 0, nFlags = {},
     nTimeStamp = 0, nPortIndex = 0\<rparr>"

definition src_Constructor ::
  "(nat \<Rightarrow> bool) \<Rightarrow> nat \<Rightarrow> OMX_ERRORTYPE \<Rightarrow> nat \<Rightarrow> (OMX_ERRORTYPE \<times> 'r Rtmpsrc option) \<times> nat" where
  "src_Constructor alloc DEFAULT_OUT_BUFFER_SIZE base rtmpsrc_instance =
     (if \<not> alloc 0 then ((ErrorInsufficientResources, None), rtmpsrc_instance)
      else if base \<noteq> ErrorNone then ((ErrorInsufficientResources, None), rtmpsrc_instance)
      else if \<not> alloc 1 \<or> \<not> alloc 2 \<or> \<not> alloc 3 \<or> \<not> alloc 4 then ((ErrorInsufficientResources, None), rtmpsrc_instance)
      else if rtmpsrc_instance + 1 > MAX_RTMPSRC_COMPONENTS then ((ErrorInsufficientResources, None), rtmpsrc_instance + 1)
      else if \<not> alloc 5 \<or> \<not> alloc 6 \<or> \<not> alloc 7 then ((ErrorInsufficientResources, None), rtmpsrc_instance + 1)
      else
        ((base, Some \<lparr>rs_state = StateLoaded, input_url = [], input_url_size = DEFAULT_URL_LENGTH, rs_rtmp = None,
            rs_ready = False, rs_sem = 0, tmp_output_buffer = new_tmp_buffer DEFAULT_OUT_BUFFER_SIZE,
            first_video = False, first_audio = False, rs_scale = 0, clock_queue = []\<rparr>), rtmpsrc_instance + 1))"

text \<open>Besides giving the memory back, the destructor only counts the instance down.\<close>

definition src_Destructor :: "OMX_ERRORTYPE \<Rightarrow> nat \<Rightarrow> OMX_ERRORTYPE \<times> nat" where
  "src_Destructor base rtmpsrc_instance = (base, rtmpsrc_instance - 1)"

definition src_SetParameter ::
  "(nat \<Rightarrow> OMX_ERRORTYPE) \<Rightarrow> 'r Rtmpsrc \<Rightarrow> (string + nat) option \<Rightarrow> OMX_ERRORTYPE \<times> 'r Rtmpsrc" where
  "src_SetParameter base c comp_parm =
     (case comp_parm of
        None \<Rightarrow> (ErrorBadParameter, c)
      | Some (Inl url) \<Rightarrow>
          (let sz = (if length url + 1 > DEFAULT_URL_LENGTH then length url + 1 else input_url_size c)
           in (ErrorNone, c\<lparr>input_url := url, input_url_size := sz\<rparr>))
      | Some (Inr n) \<Rightarrow> (base n, c))"

definition src_GetParameter ::
  "(get_param \<Rightarrow> OMX_ERRORTYPE) \<Rightarrow> (nat \<Rightarrow> OMX_ERRORTYPE) \<Rightarrow> 'r Rtmpsrc \<times> port_format \<times> port_format \<Rightarrow>
   get_param option \<Rightarrow> (OMX_ERRORTYPE \<times> got) option" where
  "src_GetParameter checkHeader base s comp_parm =
     (let (c, video, audio) = s in
      case comp_parm of
        None \<Rightarrow> Some (ErrorBadParameter, Nothing)
      | Some (OtherGet n) \<Rightarrow> Some (base n, Nothing)
      | Some (GetUrl sz) \<Rightarrow> (if length (input_url c) + 1 \<le> sz then Some (ErrorNone, Url (input_url c)) else None)
      | Some g \<Rightarrow>
          Some (if checkHeader g \<noteq> ErrorNone then (checkHeader g, Nothing)
            else case g of
              VideoInit \<Rightarrow> (ErrorNone, Ports VIDEO_PORT_INDEX 1)
            | AudioInit \<Rightarrow> (ErrorNone, Ports AUDIO_PORT_INDEX 1)
            | VideoFormat p \<Rightarrow> (if p < 1 then (ErrorNone, Format video) else (ErrorBadParameter, Nothing))
            | AudioFormat p \<Rightarrow> (if p \<le> 1 then (ErrorNone, Format audio) else (ErrorBadParameter, Nothing))
            | _ \<Rightarrow> (ErrorNone, Nothing)))"

definition src_GetExtensionIndex :: "string \<Rightarrow> OMX_ERRORTYPE" where
  "src_GetExtensionIndex parm_name =
     (if parm_name = ''OMX.ST.index.param.inputurl'' then ErrorNone else ErrorBadParameter)"

section \<open>Script packets\<close>

lemma parse_amf_progress: "parse_amf m p len = Ret v q \<Longrightarrow> len \<noteq> 0 \<Longrightarrow> p < q"
  unfolding parse_amf_def amf_loops Let_def
  by (auto simp: omap_Ret_iff obind_Ret_iff of_rd_Ret Suc_le_eq split: if_splits option.splits
      dest!: get_amf_mono get_amf_string_mono get_be_mono(2) dest: amf_mono)

text \<open>The fuel of a script packet is enough: it fails only where the parser reads out of bounds.\<close>

lemma script_loop_enough:
  "unat n - p < k \<Longrightarrow> script_loop k body n p = None \<Longrightarrow> \<exists>q. parse_amf body q (n - of_nat q) = UB"
proof (induction k body n p rule: script_loop.induct)
  case (2 k body n p)
  then have p: "p < unat n" by (auto split: if_splits)
  then have "n - of_nat p \<noteq> 0"
    using p mod_less_eq_dividend[of p "2 ^ 32"] by (auto simp: unsigned_of_nat take_bit_eq_mod)
  moreover have "parse_amf body p (n - of_nat p) \<noteq> OutOfFuel"
    unfolding parse_amf_def by (rule amf_enough(1)) simp
  ultimately show ?case using 2 p by (fastforce split: outcome.splits if_splits dest: parse_amf_progress)
qed simp

section \<open>What a tag holds\<close>

lemma snd_ReadBits: "ReadBits b n = Some (Some v, b') \<Longrightarrow> b' = snd (ConsumeBits b n)"
  by (auto simp: ReadBits_def split: bind_splits option.splits)

lemma video_header_eq:
  assumes "unat b0 mod 16 = 7"
  shows "\<exists>k. video_header (b0 # t # x # y # z # d) (5 + length d) = Some (k, 7, Some t, 5) \<and> unat k = unat b0 div 16"
proof -
  let ?m = "b0 # t # x # y # z # d"
  let ?b = "new_BitBuffer ?m (5 + length d)"
  have b: "bb_ok ?b" "bb_pos ?b = 0" "RemainingBitCount ?b = 8 * (5 + length d)" "bb_bytes ?b = ?m"
    using new_bb_ok[of "5 + length d" ?m] by (simp_all add: new_BitBuffer_def)
  obtain k b1 where k: "ReadBits ?b 4 = Some (Some k, b1)" "unat k = bval ?m 0 4" "bb_ok b1" "bb_pos b1 = 4"
    "bb_bytes b1 = ?m" "RemainingBitCount b1 = 8 * (5 + length d) - 4" "byte_count b1 = byte_count ?b"
    using read_bits_bval[OF b(1), of 4] b by auto
  obtain c b2 where c: "ReadBits b1 4 = Some (Some c, b2)" "unat c = bval ?m 4 4" "bb_ok b2" "bb_pos b2 = 8"
    "bb_bytes b2 = ?m" "RemainingBitCount b2 = 8 * (5 + length d) - 8" "byte_count b2 = byte_count ?b"
    using read_bits_bval[OF k(3), of 4] k by auto
  obtain v b3 where v: "ReadBits b2 8 = Some (Some v, b3)" "unat v = bval ?m 8 8" "bb_ok b3" "bb_pos b3 = 16"
    "bb_bytes b3 = ?m" "RemainingBitCount b3 = 8 * (5 + length d) - 16" "byte_count b3 = byte_count ?b"
    using read_bits_bval[OF c(3), of 8] c by auto
  have e: "bb_ok (snd (ConsumeBits b3 24))" "bb_pos (snd (ConsumeBits b3 24)) = 40"
    using consume_bits[OF v(3), of 24] v by auto
  have off: "byte_offset (snd (ConsumeBits b3 24)) = 5"
    using e unfolding bb_ok_def bb_pos_def by linarith
  have lt: "unat w < 256" for w :: u8 using unsigned_less[of w, where 'a = nat] by simp
  have "unat k = unat b0 div 16" "unat c = unat b0 mod 16" "unat v = unat t"
    using k(2) c(2) v(2) bval_in_byte[of 0 4 ?m 0] bval_in_byte[of 4 4 ?m 0] bval_in_byte[of 0 8 ?m 1] lt[of t] lt[of b0]
    by (simp_all add: less_mult_imp_div_less del: bval.simps)
  moreover from this(2,3) have "c = 7" "ucast v = t"
    using assms by (auto simp: word_unat_eq_iff unsigned_ucast_eq take_bit_nat_eq_self lt)
  ultimately show ?thesis
    using k(1) c(1) v(1) off by (simp add: video_header_def ReadUInt8_def Let_def GetCurrentOffset_def)
qed

lemma audio_header_eq: "audio_header (0xAF # t # d) (2 + length d) = Some (10, 3, 1, 1, Some t, 2)"
proof -
  let ?m = "0xAF # t # d"
  let ?b = "new_BitBuffer ?m (2 + length d)"
  have b: "bb_ok ?b" "bb_pos ?b = 0" "RemainingBitCount ?b = 8 * (2 + length d)" "bb_bytes ?b = ?m"
    using new_bb_ok[of "2 + length d" ?m] by (simp_all add: new_BitBuffer_def)
  obtain k b1 where k: "ReadBits ?b 4 = Some (Some k, b1)" "unat k = bval ?m 0 4" "bb_ok b1" "bb_pos b1 = 4"
    "bb_bytes b1 = ?m" "RemainingBitCount b1 = 8 * (2 + length d) - 4"
    using read_bits_bval[OF b(1), of 4] b by auto
  obtain c b2 where c: "ReadBits b1 2 = Some (Some c, b2)" "unat c = bval ?m 4 2" "bb_ok b2" "bb_pos b2 = 6"
    "bb_bytes b2 = ?m" "RemainingBitCount b2 = 8 * (2 + length d) - 6"
    using read_bits_bval[OF k(3), of 2] k by auto
  obtain e b3 where e: "ReadBits b2 1 = Some (Some e, b3)" "unat e = bval ?m 6 1" "bb_ok b3" "bb_pos b3 = 7"
    "bb_bytes b3 = ?m" "RemainingBitCount b3 = 8 * (2 + length d) - 7"
    using read_bits_bval[OF c(3), of 1] c by auto
  obtain g b4 where g: "ReadBits b3 1 = Some (Some g, b4)" "unat g = bval ?m 7 1" "bb_ok b4" "bb_pos b4 = 8"
    "bb_bytes b4 = ?m" "RemainingBitCount b4 = 8 * (2 + length d) - 8"
    using read_bits_bval[OF e(3), of 1] e by auto
  obtain v b5 where v: "ReadBits b4 8 = Some (Some v, b5)" "unat v = bval ?m 8 8" "bb_ok b5" "bb_pos b5 = 16"
    using read_bits_bval[OF g(3), of 8] g by auto
  have off: "byte_offset b5 = 2" using v(3,4) unfolding bb_ok_def bb_pos_def by linarith
  have "unat k = 10" "unat c = 3" "unat e = 1" "unat g = 1" "unat v = unat t"
    using k(2) c(2) e(2) g(2) v(2) bval_in_byte[of 0 4 ?m 0] bval_in_byte[of 4 2 ?m 0] bval_in_byte[of 6 1 ?m 0]
      bval_in_byte[of 7 1 ?m 0] bval_in_byte[of 0 8 ?m 1] unsigned_less[of t, where 'a = nat]
    by (simp_all del: bval.simps)
  then have "k = 10" "c = 3" "e = 1" "g = 1" "ucast v = t"
    using unsigned_less[of t, where 'a = nat] by (auto simp: word_unat_eq_iff unsigned_ucast_eq take_bit_nat_eq_self)
  then show ?thesis
    using k(1) c(1) e(1) g(1) v(1) off by (simp add: audio_header_def ReadUInt8_def Let_def GetCurrentOffset_def)
qed

definition filled_with :: "OMX_BUFFERHEADERTYPE \<Rightarrow> u8 list \<Rightarrow> OMX_BUFFERHEADERTYPE" where
  "filled_with dst d = dst\<lparr>pBuffer := splice (pBuffer dst) 0 d, nFilledLen := of_nat (length d)\<rparr>"

lemma fill_eq:
  assumes "length h = off" "length d \<le> length (pBuffer dst)" "length d < 2 ^ 32"
  shows "fill dst (h @ d) off (of_nat (length d)) = Some (filled_with dst d)"
  using assms by (auto simp: fill_def rdn_def wrn_def filled_with_def unsigned_of_nat take_bit_nat_eq_self)

text \<open>A header with the flags and time of a frame.\<close>

definition frame_in :: "OMX_BUFFERHEADERTYPE \<Rightarrow> u8 list \<Rightarrow> bufflag set \<Rightarrow> u32 \<Rightarrow> OMX_BUFFERHEADERTYPE" where
  "frame_in dst d fl ts = (filled_with dst d)\<lparr>nFlags := nFlags dst \<union> fl, nTimeStamp := uint (ts * 1000)\<rparr>"

definition config_in :: "OMX_BUFFERHEADERTYPE \<Rightarrow> u8 list \<Rightarrow> OMX_BUFFERHEADERTYPE" where
  "config_in dst d = (filled_with dst d)\<lparr>nFlags := nFlags dst \<union> {CODECCONFIG}\<rparr>"

lemma first_video_same: "first_video c \<Longrightarrow> c\<lparr>first_video := True\<rparr> = c"
  and first_audio_same: "first_audio c \<Longrightarrow> c\<lparr>first_audio := True\<rparr> = c"
  by (cases c; simp)+

lemma frame_in_eqs:
  "stamp p (filled_with dst d) = frame_in dst d {} (m_nTimeStamp p)"
  "frame_in (add_flag f dst) d fl ts = frame_in dst d (insert f fl) ts"
  "add_flag CODECCONFIG (filled_with dst d) = config_in dst d"
  "add_flag f (frame_in dst d fl ts) = frame_in dst d (insert f fl) ts"
  by (rule OMX_BUFFERHEADERTYPE.equality; auto simp: stamp_def filled_with_def frame_in_def add_flag_def config_in_def)+

lemma dst_of_cong: "dst_of port (c\<lparr>first_video := b\<rparr>) out = dst_of port c out"
  "dst_of port (c\<lparr>first_audio := b\<rparr>) out = dst_of port c out"
  by (simp_all add: dst_of_def)

lemma tag_size: "n + h < 2 ^ 32 \<Longrightarrow> (of_nat (h + n) :: u32) - of_nat h = of_nat n"
  by simp

lemma src_video_tag:
  assumes "m_body p = b0 # t # x # y # z # d" "m_nBodySize p = of_nat (length (m_body p))" "length (m_body p) < 2 ^ 32"
    and "unat b0 mod 16 = 7" "length d \<le> length (pBuffer (dst_of VIDEO_PORT_INDEX c out))"
    and "nAllocLen (dst_of VIDEO_PORT_INDEX c out) = of_nat (length (pBuffer (dst_of VIDEO_PORT_INDEX c out)))"
    and "length (pBuffer (dst_of VIDEO_PORT_INDEX c out)) < 2 ^ 32"
  defines "dst \<equiv> dst_of VIDEO_PORT_INDEX c out"
  shows "t = 1 \<Longrightarrow> src_video c out p = Some (store VIDEO_PORT_INDEX (c\<lparr>first_video := True\<rparr>) out
      (frame_in dst d ((if unat b0 div 16 = 1 then {KEY_FRAME} else {}) \<union> (if first_video c then {} else {STARTTIME}))
        (m_nTimeStamp p)))"
    and "t = 0 \<Longrightarrow> src_video c out p = Some (store VIDEO_PORT_INDEX c out (config_in dst d))"
proof -
  obtain k where k: "video_header (b0 # t # x # y # z # d) (5 + length d) = Some (k, 7, Some t, 5)" "unat k = unat b0 div 16"
    using video_header_eq[OF assms(4)] by blast
  have "unat (m_nBodySize p) = length (m_body p)"
    unfolding assms(2) by (rule unat_of_len[OF assms(3)])
  then have n: "unat (m_nBodySize p) = 5 + length d" using assms(1) by simp
  have sz: "m_nBodySize p - 5 = of_nat (length d)" using assms(1,2) by simp
  have f: "fill dd (m_body p) 5 (of_nat (length d)) = Some (filled_with dd d)" if "pBuffer dd = pBuffer dst" for dd
    using fill_eq[of "[b0, t, x, y, z]" 5 d dd] assms(1,3,5) that by (simp add: dst_def)
  have room: "nAllocLen dst \<ge> of_nat (length d)"
    using assms(5,6,7) by (simp add: dst_def word_le_nat_alt unsigned_of_nat take_bit_nat_eq_self)
  have k1: "k = 1 \<longleftrightarrow> unat b0 div 16 = 1" using k(2) by (auto simp: word_unat_eq_iff)
  have run: "src_video c out p = (if t = 0 then Some (store VIDEO_PORT_INDEX c out (config_in dst d))
    else if t = 1 then (let ds = stamp p (filled_with (if k = 1 then add_flag KEY_FRAME dst else dst) d) in
      Some (if first_video c then store VIDEO_PORT_INDEX c out ds
        else store VIDEO_PORT_INDEX (c\<lparr>first_video := True\<rparr>) out (add_flag STARTTIME ds)))
    else src_video c out p)"
  proof -
    have al: "nAllocLen (add_flag KEY_FRAME dst) = nAllocLen dst" "pBuffer (add_flag KEY_FRAME dst) = pBuffer dst"
      by (simp_all add: add_flag_def)
    note ff = f[OF refl, unfolded assms(1)] f[OF al(2), unfolded assms(1)]
    have sz5: "m_nBodySize p - of_nat 5 = of_nat (length d)" using sz by simp
    show ?thesis
      unfolding src_video_def assms(1) n k(1) bind.bind_lunit prod.case Let_def dst_def[symmetric] sz5
      using ff by (cases "t = 0"; cases "t = 1") (simp_all add: room al frame_in_eqs(3))
  qed
  show "t = 0 \<Longrightarrow> src_video c out p = Some (store VIDEO_PORT_INDEX c out (config_in dst d))"
    using run by simp
  show "t = 1 \<Longrightarrow> src_video c out p = Some (store VIDEO_PORT_INDEX (c\<lparr>first_video := True\<rparr>) out
      (frame_in dst d ((if unat b0 div 16 = 1 then {KEY_FRAME} else {}) \<union> (if first_video c then {} else {STARTTIME}))
        (m_nTimeStamp p)))"
    using run k1 by (cases "first_video c") (simp_all add: first_video_same frame_in_eqs Let_def insert_commute)
qed

lemma src_audio_tag:
  assumes "m_body p = 0xAF # t # d" "m_nBodySize p = of_nat (length (m_body p))" "length (m_body p) < 2 ^ 32"
    and "length d \<le> length (pBuffer (dst_of AUDIO_PORT_INDEX c out))"
  defines "dst \<equiv> dst_of AUDIO_PORT_INDEX c out"
  shows "t = 1 \<Longrightarrow> src_audio c out p = Some (store AUDIO_PORT_INDEX (c\<lparr>first_audio := True\<rparr>) out
      (frame_in dst d (if first_audio c then {} else {STARTTIME}) (m_nTimeStamp p)))"
    and "t = 0 \<Longrightarrow> 2 \<le> length d \<Longrightarrow> src_audio c out p = Some (store AUDIO_PORT_INDEX c out (config_in dst d))"
proof -
  have "unat (m_nBodySize p) = length (m_body p)"
    unfolding assms(2) by (rule unat_of_len[OF assms(3)])
  then have n: "unat (m_nBodySize p) = 2 + length d" using assms(1) by simp
  have sz: "m_nBodySize p - 2 = of_nat (length d)" using assms(1,2) by simp
  have f: "fill dst (m_body p) 2 (of_nat (length d)) = Some (filled_with dst d)"
    using fill_eq[of "[0xAF, t]" 2 d dst] assms(1,3,4) by (simp add: dst_def)
  show "t = 1 \<Longrightarrow> src_audio c out p = Some (store AUDIO_PORT_INDEX (c\<lparr>first_audio := True\<rparr>) out
      (frame_in dst d (if first_audio c then {} else {STARTTIME}) (m_nTimeStamp p)))"
    using audio_header_eq[of t d] n sz f assms(1)
    by (cases "first_audio c") (simp_all add: first_audio_same src_audio_def dst_def[symmetric] frame_in_eqs Let_def del: One_nat_def)
  have "unat (of_nat (length d) :: u32) = length d"
    using assms(1,3) by (intro unat_of_len) simp
  then have "2 \<le> length d \<Longrightarrow> (2 :: u32) \<le> of_nat (length d)" by (simp add: word_le_nat_alt)
  then show "t = 0 \<Longrightarrow> 2 \<le> length d \<Longrightarrow> src_audio c out p = Some (store AUDIO_PORT_INDEX c out (config_in dst d))"
    using audio_header_eq[of t d] n sz f assms(1)
    by (simp add: src_audio_def dst_def[symmetric] frame_in_eqs del: One_nat_def)
qed

section \<open>Demultiplexing\<close>

text \<open>The port and the payload of a media packet that is well formed.\<close>

fun tag_payload :: "u8 \<Rightarrow> u8 list \<Rightarrow> (nat \<times> u8 list) option" where
  "tag_payload typ (a # t # r) =
     (if typ = RTMP_PACKET_TYPE_VIDEO then
        (case r of x # y # z # d \<Rightarrow>
           (if unat a mod 16 = 7 \<and> (t = 0 \<or> t = 1) \<and> d \<noteq> [] then Some (VIDEO_PORT_INDEX, d) else None)
         | _ \<Rightarrow> None)
      else if typ = RTMP_PACKET_TYPE_AUDIO then
        (if a = 0xAF \<and> (t = 0 \<and> 2 \<le> length r \<or> t = 1 \<and> r \<noteq> []) then Some (AUDIO_PORT_INDEX, r) else None)
      else None)"
| "tag_payload typ r = None"

definition payload :: "RTMPPacket \<Rightarrow> (nat \<times> u8 list) option" where
  "payload p = (if m_nBodySize p = of_nat (length (m_body p)) \<and> length (m_body p) < 2 ^ 32
     then tag_payload (m_packetType p) (m_body p) else None)"

definition buffer_of :: "nat \<Rightarrow> OMX_BUFFERHEADERTYPE \<Rightarrow> bool" where
  "buffer_of n b \<longleftrightarrow> nAllocLen b = of_nat (length (pBuffer b)) \<and> length (pBuffer b) < 2 ^ 32 \<and> n \<le> length (pBuffer b)"

definition content_of :: "OMX_BUFFERHEADERTYPE \<Rightarrow> u8 list" where
  "content_of b = take (unat (nFilledLen b)) (pBuffer b)"

text \<open>A header that holds a payload for a port, in a buffer of the same size.\<close>

definition carries :: "OMX_BUFFERHEADERTYPE \<Rightarrow> nat \<Rightarrow> u8 list \<Rightarrow> bool" where
  "carries b port d \<longleftrightarrow> nPortIndex b = port \<and> content_of b = d \<and> unat (nFilledLen b) = length d \<and> nFilledLen b \<noteq> 0"

lemma filled_carries:
  assumes "buffer_of n dst" "length d \<le> n" "d \<noteq> []" "pBuffer b = splice (pBuffer dst) 0 d"
    "nFilledLen b = of_nat (length d)" "nAllocLen b = nAllocLen dst" "nPortIndex b = nPortIndex dst"
  shows "carries b (nPortIndex dst) d \<and> buffer_of n b"
proof -
  have l: "length d \<le> length (pBuffer dst)" "length d < 2 ^ 32" using assms(1,2) by (auto simp: buffer_of_def)
  have "unat (of_nat (length d) :: u32) = length d"
    by (rule unat_of_len[OF l(2)])
  then have "nFilledLen b \<noteq> 0" "unat (nFilledLen b) = length d" using assms(3,5) by auto
  then show ?thesis
    using assms l by (simp add: carries_def content_of_def buffer_of_def splice_def)
qed

text \<open>One well-formed packet ends up in the buffer of its port or in the temporary one.\<close>

definition same_but_flags :: "'r Rtmpsrc \<Rightarrow> 'r Rtmpsrc \<Rightarrow> bool" where
  "same_but_flags c c' \<longleftrightarrow> c' = c\<lparr>first_video := first_video c', first_audio := first_audio c'\<rparr>"

lemma same_flags: "same_but_flags c c" "same_but_flags c (c\<lparr>first_video := b\<rparr>)" "same_but_flags c (c\<lparr>first_audio := b\<rparr>)"
  by (simp_all add: same_but_flags_def)

lemma dst_of_buffer:
  "buffer_of n out \<Longrightarrow> buffer_of n (tmp_output_buffer c) \<Longrightarrow> buffer_of n (dst_of port c out) \<and> nPortIndex (dst_of port c out) = port"
  by (auto simp: dst_of_def buffer_of_def)

lemma src_packet_stores:
  assumes "payload p = Some (port, d)" "buffer_of n out" "buffer_of n (tmp_output_buffer c)" "length d \<le> n"
  shows "\<exists>dst c1. src_packet c out p = Some (store port c1 out dst) \<and> same_but_flags c c1 \<and>
    carries dst port d \<and> buffer_of n dst"
proof -
  let ?D = "dst_of port c out"
  have D: "buffer_of n ?D" "nPortIndex ?D = port" using dst_of_buffer[OF assms(2,3)] by auto
  then have room: "length d \<le> length (pBuffer ?D)" "nAllocLen ?D = of_nat (length (pBuffer ?D))" "length (pBuffer ?D) < 2 ^ 32"
    using assms(4) by (auto simp: buffer_of_def)
  have q: "m_nBodySize p = of_nat (length (m_body p))" "length (m_body p) < 2 ^ 32"
    "tag_payload (m_packetType p) (m_body p) = Some (port, d)"
    using assms(1) by (auto simp: payload_def split: if_splits)
  have ne: "d \<noteq> []" using q(3) by (cases "(m_packetType p, m_body p)" rule: tag_payload.cases)
      (auto split: if_splits list.splits)
  have fl: "carries (frame_in ?D d f ts) port d \<and> buffer_of n (frame_in ?D d f ts)"
    "carries (config_in ?D d) port d \<and> buffer_of n (config_in ?D d)" for f ts
    using filled_carries[OF D(1) assms(4) ne, of "frame_in ?D d f ts"] filled_carries[OF D(1) assms(4) ne, of "config_in ?D d"]
    by (simp_all add: frame_in_def config_in_def filled_with_def D(2))
  obtain a t r where body: "m_body p = a # t # r"
    using q(3) by (cases "(m_packetType p, m_body p)" rule: tag_payload.cases) auto
  consider (v) x y z where "m_packetType p = RTMP_PACKET_TYPE_VIDEO" "r = x # y # z # d" "unat a mod 16 = 7" "t = 0 \<or> t = 1" "port = VIDEO_PORT_INDEX"
    | (a) "m_packetType p = RTMP_PACKET_TYPE_AUDIO" "r = d" "a = 0xAF" "t = 0 \<and> 2 \<le> length d \<or> t = 1" "port = AUDIO_PORT_INDEX"
    using q(3) body by (auto split: if_splits list.splits)
  then show ?thesis
  proof cases
    case v
    then show ?thesis
      using src_video_tag[of p a t x y z d c out] body q(1,2) room fl same_flags
      by (fastforce simp: src_packet_def)
  next
    case a
    then show ?thesis
      using src_audio_tag[of p t d c out] body q(1,2) room fl same_flags
      by (fastforce simp: src_packet_def)
  qed
qed

text \<open>The demultiplexer the callback implements: what is held, what is still to come.\<close>

type_synonym demux = "(nat \<times> u8 list) option \<times> (nat \<times> u8 list) list"

fun demux :: "nat \<Rightarrow> demux \<Rightarrow> demux \<times> u8 list option" where
  "demux port (Some x, xs) = (if fst x = port then ((None, xs), Some (snd x)) else ((Some x, xs), None))"
| "demux port (None, x # xs) = (if fst x = port then ((None, xs), Some (snd x)) else ((Some x, xs), None))"
| "demux port (None, []) = ((None, []), None)"

fun demux_run :: "nat list \<Rightarrow> demux \<Rightarrow> demux \<times> u8 list option list" where
  "demux_run [] s = (s, [])"
| "demux_run (port # ports) s =
     (let (s, got) = demux port s; (s, gots) = demux_run ports s in (s, got # gots))"

text \<open>A session that hands out these packets, one per call.\<close>

fun delivers :: "'r librtmp \<Rightarrow> 'r \<Rightarrow> RTMPPacket list \<Rightarrow> bool" where
  "delivers lib r [] = True"
| "delivers lib r (p # ps) \<longleftrightarrow> m_bPlaying lib r \<and> RTMP_IsConnected lib r \<and>
     (\<exists>r'. (\<forall>q. RTMP_ReadPacket lib r q = (True, r', p)) \<and> RTMPPacket_IsReady lib p \<and> delivers lib r' ps)"

text \<open>The session after \<open>m\<close> reads.\<close>

primrec read_on :: "'r librtmp \<Rightarrow> nat \<Rightarrow> 'r \<Rightarrow> 'r" where
  "read_on lib 0 r = r"
| "read_on lib (Suc m) r = fst (snd (RTMP_ReadPacket lib (read_on lib m r) empty_packet))"

text \<open>\<open>N\<close> packets were there for \<open>r0\<close>, and as many have been read as are no longer to come.\<close>

definition demux_state :: "nat \<Rightarrow> nat \<Rightarrow> 'r \<Rightarrow> 'r librtmp \<Rightarrow> 'r Rtmpsrc \<Rightarrow> demux \<Rightarrow> bool" where
  "demux_state n N r0 lib c s \<longleftrightarrow> rs_ready c \<and> buffer_of n (tmp_output_buffer c) \<and>
     (case fst s of None \<Rightarrow> nFilledLen (tmp_output_buffer c) = 0
      | Some (port, d) \<Rightarrow> carries (tmp_output_buffer c) port d \<and> port \<in> {VIDEO_PORT_INDEX, AUDIO_PORT_INDEX} \<and> length d \<le> n) \<and>
     length (snd s) \<le> N \<and>
     (\<exists>r ps. rs_rtmp c = Some r \<and> r = read_on lib (N - length (snd s)) r0 \<and> delivers lib r ps \<and>
       map payload ps = map Some (snd s)) \<and>
     (\<forall>x\<in>set (snd s). length (snd x) \<le> n)"

lemma payload_port: "payload p = Some (port, d) \<Longrightarrow> port \<in> {VIDEO_PORT_INDEX, AUDIO_PORT_INDEX} \<and> d \<noteq> [] \<and> m_nBodySize p \<noteq> 0"
proof -
  assume a: "payload p = Some (port, d)"
  then have q: "m_nBodySize p = of_nat (length (m_body p))" "length (m_body p) < 2 ^ 32"
    "tag_payload (m_packetType p) (m_body p) = Some (port, d)"
    by (auto simp: payload_def split: if_splits)
  from q(3) have "m_body p \<noteq> []" "port \<in> {VIDEO_PORT_INDEX, AUDIO_PORT_INDEX} \<and> d \<noteq> []"
    by (cases "(m_packetType p, m_body p)" rule: tag_payload.cases; auto split: if_splits list.splits)+
  then show ?thesis using q(1,2) unat_of_len[of "length (m_body p)"] by (auto simp: unat_eq_zero[symmetric])
qed

lemma ready_callback:
  "rs_ready c \<Longrightarrow> src_BufferMgmtCallback lib fuel c out =
    (let c = take_clock c; out = out\<lparr>nFilledLen := 0, nOffset := 0, nFlags := {}\<rparr>
     in if nFilledLen (tmp_output_buffer c) = 0 then src_read lib fuel c out empty_packet else run_option (from_tmp c out))"
  by (simp add: src_BufferMgmtCallback_def Let_def)

lemma take_clock_keeps: "demux_state n N r0 lib c s \<Longrightarrow> demux_state n N r0 lib (take_clock c) s"
  by (cases "clock_queue c"; cases "fst s") (simp_all add: demux_state_def take_clock_def split_beta)

lemma delivers_next:
  assumes "delivers lib r ps" "map payload ps = Some (port, d) # map Some xs"
  shows "\<exists>p r' ps'. m_bPlaying lib r \<and> RTMP_IsConnected lib r \<and> (\<forall>q. RTMP_ReadPacket lib r q = (True, r', p)) \<and>
    RTMPPacket_IsReady lib p \<and> delivers lib r' ps' \<and> payload p = Some (port, d) \<and> map payload ps' = map Some xs"
  using assms by (cases ps) auto

lemma stored_in:
  assumes "demux_state n N r0 lib c (None, (port, d) # xs)" "same_but_flags (c\<lparr>rs_rtmp := Some r\<rparr>) c1"
    and "delivers lib r ps" "map payload ps = map Some xs" "r = read_on lib (N - length xs) r0" "carries dst port d" "buffer_of n dst"
    and "port \<in> {VIDEO_PORT_INDEX, AUDIO_PORT_INDEX}"
  shows "demux_state n N r0 lib c1 (None, xs)"
    and "demux_state n N r0 lib (c1\<lparr>tmp_output_buffer := dst\<rparr>) (Some (port, d), xs)"
proof -
  obtain v a where c1: "c1 = c\<lparr>rs_rtmp := Some r, first_video := v, first_audio := a\<rparr>"
    using assms(2) unfolding same_but_flags_def by blast
  then show "demux_state n N r0 lib c1 (None, xs)"
    and "demux_state n N r0 lib (c1\<lparr>tmp_output_buffer := dst\<rparr>) (Some (port, d), xs)"
    using assms by (auto simp: demux_state_def)
qed

lemma read_refines:
  assumes "demux_state n N r0 lib c (None, (port, d) # xs)" "buffer_of n out" "nFilledLen out = 0"
  shows "\<exists>c' out'. src_read lib (Suc k) c out q = Done (c', out') \<and>
    demux_state n N r0 lib c' (fst (demux (nPortIndex out) (None, (port, d) # xs))) \<and>
    (case snd (demux (nPortIndex out) (None, (port, d) # xs)) of None \<Rightarrow> nFilledLen out' = 0
     | Some d \<Rightarrow> carries out' (nPortIndex out) d)"
proof -
  obtain r ps where r: "rs_rtmp c = Some r" "delivers lib r ps" "map payload ps = Some (port, d) # map Some xs"
    "r = read_on lib (N - Suc (length xs)) r0" "Suc (length xs) \<le> N"
    using assms(1) unfolding demux_state_def by (auto simp del: delivers.simps)
  then obtain p r' ps' where p: "m_bPlaying lib r" "RTMP_IsConnected lib r" "\<forall>q. RTMP_ReadPacket lib r q = (True, r', p)"
    "RTMPPacket_IsReady lib p" "delivers lib r' ps'" "payload p = Some (port, d)" "map payload ps' = map Some xs"
    using delivers_next by metis
  have "N - length xs = Suc (N - Suc (length xs))" using r(5) by simp
  then have r': "r' = read_on lib (N - length xs) r0" using p(3) r(4) by simp
  let ?c = "c\<lparr>rs_rtmp := Some r'\<rparr>"
  have d: "length d \<le> n" "buffer_of n (tmp_output_buffer ?c)" using assms(1) by (auto simp: demux_state_def)
  obtain dst c1 where st: "src_packet ?c out p = Some (store port c1 out dst)" "same_but_flags ?c c1"
    "carries dst port d" "buffer_of n dst"
    using src_packet_stores[OF p(6) assms(2) d(2,1)] by blast
  have pp: "port \<in> {VIDEO_PORT_INDEX, AUDIO_PORT_INDEX}" "m_nBodySize p \<noteq> 0" using payload_port[OF p(6)] by auto
  have "src_read lib (Suc k) c out q = Done (put_dst port c1 out dst)"
    using r(1) p(1-4) pp(2) st(1) by (simp add: store_def put_dst_def)
  then show ?thesis
    using stored_in[OF assms(1) st(2) p(5,7) r' st(3,4) pp(1)] st(3) assms(3) by (simp add: put_dst_def)
qed

lemma from_tmp_refines:
  assumes "demux_state n N r0 lib c (Some (port, d), xs)" "buffer_of n out" "nFilledLen out = 0"
  shows "\<exists>c' out'. from_tmp c out = Some (c', out') \<and>
    demux_state n N r0 lib c' (fst (demux (nPortIndex out) (Some (port, d), xs))) \<and>
    (case snd (demux (nPortIndex out) (Some (port, d), xs)) of None \<Rightarrow> nFilledLen out' = 0
     | Some d \<Rightarrow> carries out' (nPortIndex out) d)"
proof (cases "nPortIndex out = port")
  case True
  let ?t = "tmp_output_buffer c"
  have t: "carries ?t port d" "port \<in> {VIDEO_PORT_INDEX, AUDIO_PORT_INDEX}" "length d \<le> n" "buffer_of n ?t"
    using assms(1) by (simp_all add: demux_state_def)
  have le: "unat (nFilledLen ?t) = length d" "take (length d) (pBuffer ?t) = d" "nFilledLen ?t \<noteq> 0"
    using t(1) by (auto simp: carries_def content_of_def)
  have room: "nFilledLen ?t \<le> nAllocLen out"
    using assms(2) t(3) le(1) by (auto simp: buffer_of_def word_le_nat_alt unat_of_len)
  have "length d \<le> length (pBuffer ?t)" using le(2) by (metis length_take min.cobounded1)
  then have f: "fill out (pBuffer ?t) 0 (nFilledLen ?t) = Some (out\<lparr>pBuffer := splice (pBuffer out) 0 d, nFilledLen := nFilledLen ?t\<rparr>)"
    using assms(2) t(3) le by (simp add: fill_def rdn_def wrn_def buffer_of_def)
  let ?out = "out\<lparr>pBuffer := splice (pBuffer out) 0 d, nFilledLen := nFilledLen ?t, nTimeStamp := nTimeStamp ?t, nFlags := nFlags ?t\<rparr>"
  let ?c = "c\<lparr>tmp_output_buffer := ?t\<lparr>nFilledLen := 0, nFlags := {}\<rparr>\<rparr>"
  have p: "nPortIndex ?t = port" using t(1) by (simp add: carries_def)
  then have run: "from_tmp c out = Some (?c, ?out)" using t(2) True f room by (auto simp: from_tmp_def Let_def)
  have "demux_state n N r0 lib ?c (None, xs)" using assms(1) by (auto simp: demux_state_def buffer_of_def)
  moreover have "carries ?out port d"
    using assms(2) t(3) le True by (simp add: carries_def content_of_def buffer_of_def splice_def)
  ultimately show ?thesis using run True by simp
next
  case False
  have "nPortIndex (tmp_output_buffer c) = port" using assms(1) by (simp add: demux_state_def carries_def)
  then have "from_tmp c out = Some (c, out)" using False by (auto simp: from_tmp_def Let_def)
  then show ?thesis using False assms by simp
qed

lemma callback_refines:
  assumes "demux_state n N r0 lib c s" "buffer_of n out" "s \<noteq> (None, [])"
  shows "\<exists>c' out'. src_BufferMgmtCallback lib (Suc k) c out = Done (c', out') \<and>
    demux_state n N r0 lib c' (fst (demux (nPortIndex out) s)) \<and>
    (case snd (demux (nPortIndex out) s) of None \<Rightarrow> nFilledLen out' = 0 | Some d \<Rightarrow> carries out' (nPortIndex out) d)"
proof -
  let ?c = "take_clock c"
  let ?o = "out\<lparr>nFilledLen := 0, nOffset := 0, nFlags := {}\<rparr>"
  have c: "demux_state n N r0 lib ?c s" by (rule take_clock_keeps[OF assms(1)])
  have o: "buffer_of n ?o" "nFilledLen ?o = 0" "nPortIndex ?o = nPortIndex out" using assms(2) by (simp_all add: buffer_of_def)
  have run: "src_BufferMgmtCallback lib (Suc k) c out =
    (if nFilledLen (tmp_output_buffer ?c) = 0 then src_read lib (Suc k) ?c ?o empty_packet else run_option (from_tmp ?c ?o))"
    using assms(1) unfolding demux_state_def by (simp only: ready_callback Let_def)
  show ?thesis
  proof (cases "fst s")
    case None
    then obtain port d xs where s: "s = (None, (port, d) # xs)" using assms(3) by (cases s; cases "snd s") auto
    have "nFilledLen (tmp_output_buffer ?c) = 0" using c None by (simp add: demux_state_def)
    then show ?thesis using run read_refines[OF c[unfolded s] o(1,2), of k empty_packet] o(3) s by metis
  next
    case (Some x)
    then obtain port d xs where s: "s = (Some (port, d), xs)" by (cases s; cases x) auto
    have "nFilledLen (tmp_output_buffer ?c) \<noteq> 0" using c s by (simp add: demux_state_def carries_def)
    then have "src_BufferMgmtCallback lib (Suc k) c out = run_option (from_tmp ?c ?o)" using run by presburger
    then show ?thesis using from_tmp_refines[OF c[unfolded s] o(1,2)] o(3) s by (fastforce simp: run_option_def)
  qed
qed

text \<open>A series of buffers given to the source, one after the other.\<close>

fun src_run :: "'r librtmp \<Rightarrow> nat \<Rightarrow> 'r Rtmpsrc \<Rightarrow> OMX_BUFFERHEADERTYPE list \<Rightarrow> ('r Rtmpsrc \<times> OMX_BUFFERHEADERTYPE list) run" where
  "src_run lib fuel c [] = Done (c, [])"
| "src_run lib fuel c (b # bs) =
     (case src_BufferMgmtCallback lib fuel c b of
        Done (c, b) \<Rightarrow> (case src_run lib fuel c bs of Done (c, bs) \<Rightarrow> Done (c, b # bs) | r \<Rightarrow> r)
      | Waits \<Rightarrow> Waits | Undefined \<Rightarrow> Undefined | Unfinished \<Rightarrow> Unfinished)"

text \<open>What the buffers of a port hold, and what the packets bring for it.\<close>

definition got_of :: "nat \<Rightarrow> OMX_BUFFERHEADERTYPE list \<Rightarrow> u8 list list" where
  "got_of port bs = map content_of (filter (\<lambda>b. nPortIndex b = port \<and> nFilledLen b \<noteq> 0) bs)"

definition of_port :: "nat \<Rightarrow> (nat \<times> u8 list) list \<Rightarrow> u8 list list" where
  "of_port port xs = map snd (filter (\<lambda>x. fst x = port) xs)"

definition pending :: "demux \<Rightarrow> (nat \<times> u8 list) list" where
  "pending s = (case fst s of None \<Rightarrow> [] | Some x \<Rightarrow> [x]) @ snd s"

lemma got_of_Cons: "got_of port (b # bs) = got_of port [b] @ got_of port bs"
  by (simp add: got_of_def)

lemma demux_pending:
  "of_port port (pending s) =
    (case snd (demux q s) of None \<Rightarrow> [] | Some d \<Rightarrow> if q = port then [d] else []) @ of_port port (pending (fst (demux q s)))"
  "\<exists>m \<le> 1. snd (fst (demux q s)) = drop m (snd s)"
  by (cases "(q, s)" rule: demux.cases; force simp: of_port_def pending_def)+

text \<open>What a buffer came back with.\<close>

definition filled_in :: "OMX_BUFFERHEADERTYPE \<Rightarrow> u8 list option" where
  "filled_in b = (if nFilledLen b = 0 then None else Some (content_of b))"

lemma src_run_refines:
  "demux_state n N r0 lib c s \<Longrightarrow> \<forall>b\<in>set bs. buffer_of n b \<Longrightarrow> length bs \<le> length (snd s) \<Longrightarrow>
    \<exists>c' bs' s' m. src_run lib (Suc k) c bs = Done (c', bs') \<and> demux_state n N r0 lib c' s' \<and> m \<le> length bs \<and>
      snd s' = drop m (snd s) \<and> demux_run (map nPortIndex bs) s = (s', map filled_in bs') \<and>
      (\<forall>port. of_port port (pending s) = got_of port bs' @ of_port port (pending s'))"
proof (induction bs arbitrary: c s)
  case Nil
  then show ?case by (intro exI[of _ c] exI[of _ "[]"] exI[of _ s] exI[of _ 0]) (simp add: got_of_def)
next
  case (Cons b bs)
  let ?s = "fst (demux (nPortIndex b) s)"
  have "s \<noteq> (None, [])" using Cons.prems(3) by auto
  with Cons.prems obtain c1 b1 where 1: "src_BufferMgmtCallback lib (Suc k) c b = Done (c1, b1)" "demux_state n N r0 lib c1 ?s"
    "case snd (demux (nPortIndex b) s) of None \<Rightarrow> nFilledLen b1 = 0 | Some d \<Rightarrow> carries b1 (nPortIndex b) d"
    using callback_refines[of n N r0 lib c s b k] by auto
  obtain m1 where m1: "m1 \<le> 1" "snd ?s = drop m1 (snd s)" using demux_pending(2) by blast
  then have "length bs \<le> length (snd ?s)" using Cons.prems(3) by simp
  with Cons.IH[OF 1(2)] Cons.prems(2) obtain c' bs' s' m where 2: "src_run lib (Suc k) c1 bs = Done (c', bs')"
    "demux_state n N r0 lib c' s'" "m \<le> length bs" "snd s' = drop m (snd ?s)"
    "demux_run (map nPortIndex bs) ?s = (s', map filled_in bs')"
    "\<forall>port. of_port port (pending ?s) = got_of port bs' @ of_port port (pending s')" by auto
  have "got_of port [b1] = (case snd (demux (nPortIndex b) s) of None \<Rightarrow> [] | Some d \<Rightarrow> if nPortIndex b = port then [d] else [])" for port
    using 1(3) by (auto simp: got_of_def carries_def split: option.splits)
  then have "of_port port (pending s) = got_of port (b1 # bs') @ of_port port (pending s')" for port
    using 2(6) demux_pending(1)[of port s "nPortIndex b"] by (subst got_of_Cons) simp
  moreover have "snd s' = drop (m + m1) (snd s)" "m + m1 \<le> length (b # bs)" using m1 2(3,4) by simp_all
  moreover have "filled_in b1 = snd (demux (nPortIndex b) s)"
    using 1(3) by (auto simp: filled_in_def carries_def split: option.splits)
  then have "demux_run (map nPortIndex (b # bs)) s = (s', map filled_in (b1 # bs'))"
    using 2(5) by (simp add: split_beta)
  ultimately show ?case
    using 1(1) 2(1,2) by (intro exI[of _ c'] exI[of _ "b1 # bs'"] exI[of _ s'] exI[of _ "m + m1"]) simp
qed

text \<open>
  C1: src_no_frame_lost. Over any series of buffers given for the two ports, in any order, the source
  returns each time. It has then read \<open>m\<close> packets from its session, and every one of them
  is there: for each port, what its buffers hold, and the one frame that may be left in the temporary
  buffer, are the payloads of that port in these \<open>m\<close> packets, in their order. Which buffer
  holds what is what a demultiplexer with one place for a held frame gives, and the one buffer in which
  the source leaves a frame is the held one (packets well formed, and buffers large enough).
\<close>

theorem src_no_frame_lost:
  assumes "rs_ready c" "rs_rtmp c = Some r" "delivers lib r ps"
    and "buffer_of n (tmp_output_buffer c)" "nFilledLen (tmp_output_buffer c) = 0"
    and "list_all2 (\<lambda>p x. payload p = Some x \<and> length (snd x) \<le> n) ps xs"
    and "list_all (buffer_of n) bs" "length bs \<le> length ps"
  shows "\<exists>c' bs' held m. src_run lib (Suc k) c bs = Done (c', bs') \<and> m \<le> length bs \<and>
    rs_rtmp c' = Some (read_on lib m r) \<and>
    demux_run (map nPortIndex bs) (None, xs) = ((held, drop m xs), map filled_in bs') \<and>
    filled_in (tmp_output_buffer c') = map_option snd held \<and>
    (\<forall>port. got_of port (bs' @ [tmp_output_buffer c']) = of_port port (take m xs))"
proof -
  have xs: "map payload ps = map Some xs" "\<forall>x\<in>set xs. length (snd x) \<le> n" "length xs = length ps"
    using assms(6) by (induction rule: list_all2_induct) auto
  have "demux_state n (length xs) r lib c (None, xs)"
    using assms(1-5) xs unfolding demux_state_def by auto
  with src_run_refines[of n "length xs" r lib c "(None, xs)" bs k] obtain c' bs' s' m where 1: "src_run lib (Suc k) c bs = Done (c', bs')"
    "demux_state n (length xs) r lib c' s'" "m \<le> length bs" "snd s' = drop m xs"
    "demux_run (map nPortIndex bs) (None, xs) = (s', map filled_in bs')"
    "\<forall>port. of_port port xs = got_of port bs' @ of_port port (pending s')"
    using assms(7,8) xs(3) by (auto simp: list_all_iff pending_def)
  have "got_of port [tmp_output_buffer c'] = of_port port (case fst s' of None \<Rightarrow> [] | Some x \<Rightarrow> [x])" for port
    using 1(2) by (auto simp: demux_state_def got_of_def of_port_def carries_def split: option.splits)
  moreover have "of_port port xs = of_port port (take m xs) @ of_port port (drop m xs)" for port
    unfolding of_port_def by (metis append_take_drop_id filter_append map_append)
  ultimately have "got_of port (bs' @ [tmp_output_buffer c']) = of_port port (take m xs)" for port
    using 1(4,6) by (auto simp: got_of_def of_port_def pending_def)
  moreover have "length xs - length (snd s') = m" using 1(3,4) assms(8) xs(3) by simp
  then have "rs_rtmp c' = Some (read_on lib m r)" using 1(2) by (auto simp: demux_state_def)
  moreover have "filled_in (tmp_output_buffer c') = map_option snd (fst s')"
    using 1(2) by (auto simp: demux_state_def filled_in_def carries_def split: option.splits)
  ultimately show ?thesis using 1 by (metis prod.collapse)
qed

section \<open>Payloads that do not fit\<close>

lemma fill_over:
  "length h = off \<Longrightarrow> length d < 2 ^ 32 \<Longrightarrow> length (pBuffer dst) < length d \<Longrightarrow> fill dst (h @ d) off (of_nat (length d)) = None"
  by (auto simp: fill_def rdn_def wrn_def unat_of_len)

lemma video_over:
  assumes "m_body p = b0 # t # x # y # z # d" "m_nBodySize p = of_nat (length (m_body p))" "length (m_body p) < 2 ^ 32"
    and "unat b0 mod 16 = 7" "t = 0 \<or> t = 1" "nPortIndex out = VIDEO_PORT_INDEX"
    and "nAllocLen out = of_nat (length (pBuffer out))" "length (pBuffer out) < length d"
  shows "src_video c out p = (if t = 1 then Some (Stored c out) else None)"
proof -
  obtain k where k: "video_header (b0 # t # x # y # z # d) (5 + length d) = Some (k, 7, Some t, 5)"
    using video_header_eq[OF assms(4)] by blast
  have "unat (m_nBodySize p) = length (m_body p)" unfolding assms(2) by (rule unat_of_len[OF assms(3)])
  then have n: "unat (m_nBodySize p) = 5 + length d" using assms(1) by simp
  have sz: "m_nBodySize p - of_nat 5 = of_nat (length d)" using assms(1,2) by simp
  have o: "fill out (b0 # t # x # y # z # d) 5 (of_nat (length d)) = None"
    using fill_over[of "[b0, t, x, y, z]" 5 d out] assms(1,3,8) by simp
  have "\<not> of_nat (length d) \<le> nAllocLen out"
    using assms(1,3,7,8) by (simp add: word_le_nat_alt unat_of_len)
  then show ?thesis
    unfolding src_video_def assms(1) n k bind.bind_lunit prod.case Let_def sz
    using o assms(5,6) by (auto simp: dst_of_def store_def put_dst_def)
qed

lemma audio_over:
  assumes "m_body p = 0xAF # t # d" "m_nBodySize p = of_nat (length (m_body p))" "length (m_body p) < 2 ^ 32"
    and "t = 0 \<and> 2 \<le> length d \<or> t = 1" "nPortIndex out = AUDIO_PORT_INDEX" "length (pBuffer out) < length d"
  shows "src_audio c out p = None"
proof -
  have "unat (m_nBodySize p) = length (m_body p)" unfolding assms(2) by (rule unat_of_len[OF assms(3)])
  then have n: "unat (m_nBodySize p) = 2 + length d" using assms(1) by simp
  have sz: "m_nBodySize p - of_nat 2 = of_nat (length d)" using assms(1,2) by simp
  have o: "fill out (0xAF # t # d) 2 (of_nat (length d)) = None"
    using fill_over[of "[0xAF, t]" 2 d out] assms(1,3,6) by simp
  have two: "2 \<le> length d \<Longrightarrow> (2 :: u32) \<le> of_nat (length d)"
    using assms(1,3) by (simp add: word_le_nat_alt unat_of_len)
  show ?thesis
    unfolding src_audio_def assms(1) n audio_header_eq bind.bind_lunit prod.case Let_def sz
    using o assms(4,5) two by (auto simp: dst_of_def)
qed

text \<open>
  Src oversize: Only a video frame is compared with the size of the buffer: one that does not fit is
  dropped and the buffer comes back empty, with nothing else to show it. A configuration or an AAC frame
  longer than the buffer is written past its end.
\<close>

theorem src_oversize:
  assumes "payload p = Some (nPortIndex out, d)" "length (pBuffer out) < length d"
    and "nAllocLen out = of_nat (length (pBuffer out))"
  shows "src_packet c out p =
    (if m_packetType p = RTMP_PACKET_TYPE_VIDEO \<and> m_body p ! 1 = 1 then Some (Stored c out) else None)"
proof -
  have q: "m_nBodySize p = of_nat (length (m_body p))" "length (m_body p) < 2 ^ 32"
    "tag_payload (m_packetType p) (m_body p) = Some (nPortIndex out, d)"
    using assms(1) by (auto simp: payload_def split: if_splits)
  obtain a t r where body: "m_body p = a # t # r"
    using q(3) by (cases "(m_packetType p, m_body p)" rule: tag_payload.cases) auto
  consider (v) x y z where "m_packetType p = RTMP_PACKET_TYPE_VIDEO" "r = x # y # z # d" "unat a mod 16 = 7" "t = 0 \<or> t = 1" "nPortIndex out = VIDEO_PORT_INDEX"
    | (a) "m_packetType p = RTMP_PACKET_TYPE_AUDIO" "r = d" "a = 0xAF" "t = 0 \<and> 2 \<le> length d \<or> t = 1" "nPortIndex out = AUDIO_PORT_INDEX"
    using q(3) body by (auto split: if_splits list.splits)
  then show ?thesis
  proof cases
    case v
    then show ?thesis using video_over[of p a t x y z d out c] body q(1,2) assms(2,3) by (simp add: src_packet_def)
  next
    case a
    then show ?thesis using audio_over[of p t d out c] body q(1,2) assms(2) by (simp add: src_packet_def)
  qed
qed

section \<open>Witnesses\<close>

definition video_tag :: RTMPPacket where
  "video_tag = empty_packet\<lparr>m_packetType := RTMP_PACKET_TYPE_VIDEO, m_nBodySize := 7, m_body := [0x17, 1, 0, 0, 0, 5, 6]\<rparr>"

definition audio_tag :: RTMPPacket where
  "audio_tag = empty_packet\<lparr>m_packetType := RTMP_PACKET_TYPE_AUDIO, m_nBodySize := 5, m_body := [0xAF, 1, 7, 8, 9]\<rparr>"

definition sample_src :: "RTMPPacket list Rtmpsrc" where
  "sample_src = \<lparr>rs_state = StateExecuting, input_url = [], input_url_size = 2048, rs_rtmp = Some [video_tag, audio_tag],
     rs_ready = True, rs_sem = 0, tmp_output_buffer = new_tmp_buffer 4, first_video = False, first_audio = False,
     rs_scale = 0, clock_queue = []\<rparr>"

definition sample_buffer :: "nat \<Rightarrow> OMX_BUFFERHEADERTYPE" where
  "sample_buffer port = (new_tmp_buffer 4)\<lparr>nPortIndex := port\<rparr>"

lemma tag_payloads: "payload video_tag = Some (VIDEO_PORT_INDEX, [5, 6])" "payload audio_tag = Some (AUDIO_PORT_INDEX, [7, 8, 9])"
  by (simp_all add: payload_def video_tag_def audio_tag_def empty_packet_def del: One_nat_def)

theorem src_no_frame_lost_witness:
  "\<exists>c' bs'. src_run loop_lib 1 sample_src [sample_buffer AUDIO_PORT_INDEX, sample_buffer AUDIO_PORT_INDEX] = Done (c', bs') \<and>
    rs_rtmp c' = Some [audio_tag] \<and> map filled_in bs' = [None, None] \<and>
    filled_in (tmp_output_buffer c') = Some [5, 6]"
proof -
  have 1: "rs_ready sample_src" "rs_rtmp sample_src = Some [video_tag, audio_tag]"
    "delivers loop_lib [video_tag, audio_tag] [video_tag, audio_tag]"
    "buffer_of 4 (tmp_output_buffer sample_src)" "nFilledLen (tmp_output_buffer sample_src) = 0"
    "list_all (buffer_of 4) [sample_buffer AUDIO_PORT_INDEX, sample_buffer AUDIO_PORT_INDEX]"
    by (simp_all add: sample_src_def loop_lib_def buffer_of_def new_tmp_buffer_def sample_buffer_def)
  have 2: "nPortIndex (sample_buffer AUDIO_PORT_INDEX) = AUDIO_PORT_INDEX" by (simp add: sample_buffer_def)
  obtain c' bs' held m where 3: "src_run loop_lib 1 sample_src [sample_buffer AUDIO_PORT_INDEX, sample_buffer AUDIO_PORT_INDEX] = Done (c', bs')"
    "rs_rtmp c' = Some (read_on loop_lib m [video_tag, audio_tag])"
    "demux_run [AUDIO_PORT_INDEX, AUDIO_PORT_INDEX] (None, [(VIDEO_PORT_INDEX, [5, 6]), (AUDIO_PORT_INDEX, [7, 8, 9])]) =
      ((held, drop m [(VIDEO_PORT_INDEX, [5, 6]), (AUDIO_PORT_INDEX, [7, 8, 9])]), map filled_in bs')"
    "filled_in (tmp_output_buffer c') = map_option snd held" "m \<le> 2"
    using src_no_frame_lost[of sample_src "[video_tag, audio_tag]" loop_lib "[video_tag, audio_tag]" 4
        "[(VIDEO_PORT_INDEX, [5, 6]), (AUDIO_PORT_INDEX, [7, 8, 9])]"
        "[sample_buffer AUDIO_PORT_INDEX, sample_buffer AUDIO_PORT_INDEX]" 0] 1 tag_payloads 2
    by (auto simp: numeral_2_eq_2)
  have "m = 1" using 3(3,5) by (cases m; cases "m - 1") auto
  then show ?thesis using 3 by (auto simp: loop_lib_def)
qed

theorem src_oversize_witness:
  "src_packet sample_src (sample_buffer AUDIO_PORT_INDEX\<lparr>pBuffer := [0], nAllocLen := 1\<rparr>) audio_tag = None"
  using src_oversize[of audio_tag "sample_buffer AUDIO_PORT_INDEX\<lparr>pBuffer := [0], nAllocLen := 1\<rparr>" "[7, 8, 9]" sample_src] tag_payloads(2)
  by (simp add: sample_buffer_def audio_tag_def empty_packet_def)

end
