(* ===== verification/AmfPrint.thy ===== *)
theory AmfPrint
  imports Rtmpsrc Trace
begin

text \<open>
  \<open>print_amf_list\<close> (\<open>xamf.cc\<close>), which the source calls on every script packet it has parsed. The texts
  of floating point numbers and the seconds of a date (none when no \<open>time_t\<close> holds them, where the
  conversion is undefined) are arguments, like \<open>localtime\<close>, which is \<open>NULL\<close> for a year that does not
  fit an \<open>int\<close>: the code does not look.
\<close>

section \<open>Printing\<close>

text \<open>\<open>%s\<close> of a buffer: up to its NUL.\<close>

definition c_text :: "u8 list \<Rightarrow> u8 list option" where
  "c_text s = (if 0 \<in> set s then Some (cstr s) else None)"

definition left_24 :: "u8 list \<Rightarrow> u8 list" where
  "left_24 s = s @ replicate (24 - length s) 32"

text \<open>\<open>sprintf_("%s\t", indent)\<close>, which has room for 8194 characters.\<close>

definition deeper :: "u8 list \<Rightarrow> u8 list" where
  "deeper indent = take 8194 (indent @ [9])"

definition int_text :: "int \<Rightarrow> u8 list" where
  "int_text n = ascii (if n < 0 then CHR ''-'' # dec (nat (- n)) else dec (nat n))"

definition two_digits :: "int \<Rightarrow> u8 list" where
  "two_digits x = (if x < 0 then int_text x else zero_pad 2 (int_text x))"

definition four_digits :: "int \<Rightarrow> u8 list" where
  "four_digits x = (if x < 0 then 45 # zero_pad 3 (int_text (- x)) else zero_pad 4 (int_text x))"

text \<open>\<open>ptm->tm_year+1900\<close> is an \<open>int\<close>, and the other members of a \<open>tm\<close> are small.\<close>

definition date_text :: "tm \<Rightarrow> u8 list option" where
  "date_text t =
     (if sint (tm_year t) + 1900 < 2 ^ 31 then
        Some (two_digits (sint (tm_mon t) + 1) @ [47] @ two_digits (sint (tm_mday t)) @ [47] @
          four_digits (sint (tm_year t) + 1900) @ [45] @
          two_digits (sint (tm_hour t)) @ [58] @ two_digits (sint (tm_min t)) @ [58] @ two_digits (sint (tm_sec t)))
      else None)"

record printer =
  pr_number :: "u64 \<Rightarrow> u8 list"
  pr_seconds :: "u64 \<Rightarrow> int option"
  pr_localtime :: "int \<Rightarrow> tm option"

function (sequential) print_amf :: "printer \<Rightarrow> u8 list \<Rightarrow> amf \<Rightarrow> u8 list option"
  and print_list :: "printer \<Rightarrow> u8 list \<Rightarrow> amf list \<Rightarrow> u8 list option"
  and print_items :: "printer \<Rightarrow> u8 list \<Rightarrow> amf_item list \<Rightarrow> u8 list option"
  and print_elems :: "printer \<Rightarrow> u8 list \<Rightarrow> amf list list \<Rightarrow> u8 list option"
where
  "print_amf pr indent (AmfNumber v) = Some (indent @ pr_number pr v @ [10])"
| "print_amf pr indent (AmfBool b) = Some (indent @ ascii (if b \<noteq> 0 then ''true'' else ''false'') @ [10])"
| "print_amf pr indent (AmfString s) = do { t \<leftarrow> c_text (snd s); Some (indent @ left_24 t @ [10]) }"
| "print_amf pr indent (AmfObject its) = do {
     t \<leftarrow> print_items pr indent its;
     Some (indent @ ascii ''TYPE_OBJECT {'' @ [10] @ t @ indent @ [125, 10]) }"
| "print_amf pr indent (AmfAssoc sz its) = do {
     t \<leftarrow> print_items pr indent its;
     Some (indent @ ascii ''ASSOCIATE_ARRAY {'' @ [10] @ t @ indent @ [125, 10]) }"
| "print_amf pr indent (AmfArray sz arr) = do {
     t \<leftarrow> print_elems pr indent arr;
     Some (indent @ ascii ''ARRAY {'' @ [10] @ t @ indent @ [125, 10]) }"
| "print_amf pr indent (AmfDate msecs tz) = do {
     secs \<leftarrow> pr_seconds pr msecs;
     t \<leftarrow> pr_localtime pr secs;
     d \<leftarrow> date_text t;
     Some (indent @ d @ [32] @ int_text (sint tz) @ [10]) }"
| "print_amf pr indent _ = Some []"
| "print_list pr indent [] = Some []"
| "print_list pr indent (x # xs) = do { s \<leftarrow> print_amf pr indent x; t \<leftarrow> print_list pr indent xs; Some (s @ t) }"
| "print_items pr indent [] = Some []"
| "print_items pr indent ((key, vs) # its) = do {
     k \<leftarrow> c_text (snd key);
     s \<leftarrow> print_list pr (deeper indent) vs;
     t \<leftarrow> print_items pr indent its;
     Some (indent @ left_24 k @ ascii '' : '' @ s @ t) }"
| "print_elems pr indent [] = Some []"
| "print_elems pr indent (vs # arr) = do { s \<leftarrow> print_list pr indent vs; t \<leftarrow> print_elems pr indent arr; Some (s @ t) }"
  by pat_completeness auto
termination
  by (relation "measure (\<lambda>x. case x of
       Inl (Inl (_, _, v)) \<Rightarrow> size v
     | Inl (Inr (_, _, vs)) \<Rightarrow> size_list size vs
     | Inr (Inl (_, _, its)) \<Rightarrow> size_list (size_prod (\<lambda>_. 0) (size_list size)) its
     | Inr (Inr (_, _, arr)) \<Rightarrow> size_list (size_list size) arr)") auto

text \<open>\<open>print_amf_list(indent, head)\<close>.\<close>

definition print_amf_list :: "printer \<Rightarrow> u8 list \<Rightarrow> amf list \<Rightarrow> u8 list option" where
  "print_amf_list pr indent vs = print_list pr indent vs"

text \<open>A script packet of the source: its values, printed once all of it is parsed.\<close>

fun script_values :: "nat \<Rightarrow> mem \<Rightarrow> u32 \<Rightarrow> nat \<Rightarrow> amf list \<Rightarrow> amf list option option" where
  "script_values 0 body n p vs = None"
| "script_values (Suc k) body n p vs =
     (if p < unat n then
        (case parse_amf body p (n - of_nat p) of
           Ret v q \<Rightarrow> script_values k body n q (vs @ v)
         | Err q \<Rightarrow> Some None
         | _ \<Rightarrow> None)
      else Some (Some vs))"

definition script_prints :: "printer \<Rightarrow> mem \<Rightarrow> u32 \<Rightarrow> u8 list option option" where
  "script_prints pr body n = do {
     r \<leftarrow> script_values (Suc (unat n)) body n 0 [];
     case r of None \<Rightarrow> Some None | Some vs \<Rightarrow> map_option Some (print_amf_list pr [] vs) }"

section \<open>What can be printed\<close>

function (sequential) dates_ok :: "printer \<Rightarrow> amf \<Rightarrow> bool"
  and dates_list :: "printer \<Rightarrow> amf list \<Rightarrow> bool"
  and dates_items :: "printer \<Rightarrow> amf_item list \<Rightarrow> bool"
  and dates_elems :: "printer \<Rightarrow> amf list list \<Rightarrow> bool"
where
  "dates_ok pr (AmfDate msecs tz) \<longleftrightarrow>
     (case pr_seconds pr msecs of None \<Rightarrow> False
      | Some secs \<Rightarrow> (case pr_localtime pr secs of None \<Rightarrow> False | Some t \<Rightarrow> sint (tm_year t) + 1900 < 2 ^ 31))"
| "dates_ok pr (AmfObject its) \<longleftrightarrow> dates_items pr its"
| "dates_ok pr (AmfAssoc sz its) \<longleftrightarrow> dates_items pr its"
| "dates_ok pr (AmfArray sz arr) \<longleftrightarrow> dates_elems pr arr"
| "dates_ok pr _ \<longleftrightarrow> True"
| "dates_list pr [] \<longleftrightarrow> True"
| "dates_list pr (x # xs) \<longleftrightarrow> dates_ok pr x \<and> dates_list pr xs"
| "dates_items pr [] \<longleftrightarrow> True"
| "dates_items pr ((key, vs) # its) \<longleftrightarrow> dates_list pr vs \<and> dates_items pr its"
| "dates_elems pr [] \<longleftrightarrow> True"
| "dates_elems pr (vs # arr) \<longleftrightarrow> dates_list pr vs \<and> dates_elems pr arr"
  by pat_completeness auto
termination
  by (relation "measure (\<lambda>x. case x of
       Inl (Inl (_, v)) \<Rightarrow> size v
     | Inl (Inr (_, vs)) \<Rightarrow> size_list size vs
     | Inr (Inl (_, its)) \<Rightarrow> size_list (size_prod (\<lambda>_. 0) (size_list size)) its
     | Inr (Inr (_, arr)) \<Rightarrow> size_list (size_list size) arr)") auto

lemma c_text_nul: "0 \<in> set s \<Longrightarrow> c_text s = Some (cstr s)"
  by (simp add: c_text_def)

lemma prints:
  "nul_amf v \<Longrightarrow> print_amf pr indent v \<noteq> None \<longleftrightarrow> dates_ok pr v"
  "nul_list vs \<Longrightarrow> print_list pr indent vs \<noteq> None \<longleftrightarrow> dates_list pr vs"
  "nul_items its \<Longrightarrow> print_items pr indent its \<noteq> None \<longleftrightarrow> dates_items pr its"
  "nul_elems arr \<Longrightarrow> print_elems pr indent arr \<noteq> None \<longleftrightarrow> dates_elems pr arr"
  by (induction pr indent v and pr indent vs and pr indent its and pr indent arr
      rule: print_amf_print_list_print_items_print_elems.induct)
    (auto simp: c_text_nul bind_eq_None_conv date_text_def split: bind_splits option.splits)

lemma nul_list_append: "nul_list (vs @ ws) \<longleftrightarrow> nul_list vs \<and> nul_list ws"
  by (induction vs) auto

lemma script_values_nul:
  "script_values k body n p vs = Some (Some ws) \<Longrightarrow> nul_list vs \<Longrightarrow> nul_list ws"
proof (induction k body n p vs rule: script_values.induct)
  case (2 k body n p vs)
  show ?case
  proof (cases "p < unat n")
    case True
    with 2 obtain v q where v: "parse_amf body p (n - of_nat p) = Ret v q" by (auto split: outcome.splits)
    then have "nul_list v" using amf_results(1) unfolding parse_amf_def by blast
    then show ?thesis using 2 True v by (simp add: nul_list_append)
  qed (use 2 in simp)
qed simp

lemma script_values_loop:
  "script_loop k body n p = map_option (\<lambda>r. r \<noteq> None) (script_values k body n p vs)"
  by (induction k body n p vs rule: script_values.induct) (auto split: outcome.splits)

section \<open>Properties\<close>

text \<open>
  C37: script_prints_dates. The log line of a script packet. A packet of the source whose values all
  parse, which the code accepts, is printed without undefined behaviour exactly if every date in it,
  however deep, has seconds, a \<open>localtime\<close> and a year that fit: the sender decides whether
  the process survives.
\<close>

theorem script_prints_dates:
  assumes "script_values (Suc (unat n)) body n 0 [] = Some (Some vs)"
  shows "script_loop (Suc (unat n)) body n 0 = Some True \<and>
    (script_prints pr body n = None \<longleftrightarrow> \<not> dates_list pr vs)"
  using assms prints(2)[OF script_values_nul[OF assms], of pr "[]"]
  by (auto simp: script_values_loop[where vs="[]"] script_prints_def print_amf_list_def)

text \<open>A strict array with one date in it, of a year that no \<open>tm\<close> holds.\<close>

definition far_date :: "u8 list" where
  "far_date = [0x0A, 0, 0, 0, 1, 0x0B, 0x44, 0, 0, 0, 0, 0, 0, 0, 0, 0]"

definition sample_printer :: printer where
  "sample_printer = \<lparr>pr_number = (\<lambda>_. []), pr_seconds = (\<lambda>_. Some (2 ^ 60)), pr_localtime = (\<lambda>_. None)\<rparr>"

lemma far_date_values:
  "script_values (Suc (unat (16 :: u32))) far_date 16 0 [] = Some (Some [AmfArray 1 [[AmfDate 0x4400000000000000 0]]])"
  by code_simp

theorem script_prints_dates_witness:
  "script_loop (Suc (unat (16 :: u32))) far_date 16 0 = Some True \<and> script_prints sample_printer far_date 16 = None"
  using script_prints_dates[OF far_date_values, of sample_printer] by (simp add: sample_printer_def)

end
