(* ===== verification/Rtmpout.thy ===== *)
theory Rtmpout
  imports Omx
begin

text \<open>
  The RTMP sink (\<open>components/access_output/omx_rtmpout_component.cc\<close>): it packs the frames of its
  video and audio port into FLV bodies and sends them over an RTMP session that lives while the
  component executes. \<open>None\<close> is a null dereference or a write past a buffer. The base component's
  own work on a message is an argument: the error it returns and the state it leaves.
\<close>

section \<open>State\<close>

abbreviation (input) DEFAULT_OUT_URL_LENGTH :: nat where "DEFAULT_OUT_URL_LENGTH \<equiv> 2048"
abbreviation (input) VIDEO_BODY_HEADER_LENGTH :: u32 where "VIDEO_BODY_HEADER_LENGTH \<equiv> 16"
abbreviation (input) VIDEO_PAYLOAD_OFFSET :: u32 where "VIDEO_PAYLOAD_OFFSET \<equiv> 5"
abbreviation (input) RTMP_SOCK_TIMEOUT :: nat where "RTMP_SOCK_TIMEOUT \<equiv> 30"
abbreviation (input) AVC_DCR_BODY_SIZE :: nat where "AVC_DCR_BODY_SIZE \<equiv> 2048"

text \<open>The URL buffer has a size, and no content before the first URL is set.\<close>

record 'r Rtmpout =
  ro_state :: OMX_STATETYPE
  output_url :: "string option"
  output_url_size :: nat
  ro_rtmp :: "'r option"
  ro_ready :: bool
  avc_dcr :: AVCDecorderConfigurationRecord
  ro_asc :: "u8 list"
  mholder :: MemHolder
  ro_sem :: nat

text \<open>
  The constructor: \<open>alloc k\<close> says whether its \<open>k\<close>-th allocation succeeds, \<open>base\<close> what the base
  constructor returns. The number of instances is a global counter.
\<close>

abbreviation (input) MAX_RTMPOUT_COMPONENTS :: nat where "MAX_RTMPOUT_COMPONENTS \<equiv> 1"

definition out_Constructor ::
  "(nat \<Rightarrow> bool) \<Rightarrow> OMX_ERRORTYPE \<Rightarrow> nat \<Rightarrow> (OMX_ERRORTYPE \<times> 'r Rtmpout option) \<times> nat" where
  "out_Constructor alloc base rtmpout_instance =
     (if \<not> alloc 0 then ((ErrorInsufficientResources, None), rtmpout_instance)
      else if base \<noteq> ErrorNone then ((ErrorInsufficientResources, None), rtmpout_instance)
      else if \<not> alloc 1 \<or> \<not> alloc 2 \<or> \<not> alloc 3 then ((ErrorInsufficientResources, None), rtmpout_instance)
      else if rtmpout_instance + 1 > MAX_RTMPOUT_COMPONENTS then ((ErrorInsufficientResources, None), rtmpout_instance + 1)
      else if \<not> alloc 4 \<or> \<not> alloc 5 then ((ErrorInsufficientResources, None), rtmpout_instance + 1)
      else
        ((base, Some \<lparr>ro_state = StateLoaded, output_url = None, output_url_size = DEFAULT_OUT_URL_LENGTH,
            ro_rtmp = None, ro_ready = False, avc_dcr = new_avc_dcr, ro_asc = [0, 0], mholder = new_MemHolder,
            ro_sem = 0\<rparr>), rtmpout_instance + 1))"

text \<open>Besides giving the memory back, the destructor only counts the instance down.\<close>

definition out_Destructor :: "OMX_ERRORTYPE \<Rightarrow> nat \<Rightarrow> OMX_ERRORTYPE \<times> nat" where
  "out_Destructor base rtmpout_instance = (base, rtmpout_instance - 1)"

section \<open>FLV bodies\<close>

definition make_avc_dcr_body :: "mem \<Rightarrow> mem \<Rightarrow> u32 \<Rightarrow> mem \<Rightarrow> u32 \<Rightarrow> (mem \<times> nat) option" where
  "make_avc_dcr_body buf sps sps_length pps pps_length = do {
     buf \<leftarrow> wrn buf 0 [0x17, 0x00];
     (buf, idx) \<leftarrow> put_be24 buf 2 0;
     s1 \<leftarrow> rd8 sps 1; s2 \<leftarrow> rd8 sps 2; s3 \<leftarrow> rd8 sps 3;
     buf \<leftarrow> wrn buf idx [0x01, s1, s2, s3, 0xFF, 0xE1,
       ucast (drop_bit 8 sps_length AND 0xFF), ucast (sps_length AND 0xFF)];
     let idx = idx + 8;
     s \<leftarrow> rdn sps 0 (unat sps_length);
     buf \<leftarrow> wrn buf idx s;
     let idx = idx + unat sps_length;
     buf \<leftarrow> wrn buf idx [0x01, ucast (drop_bit 8 pps_length AND 0xFF), ucast (pps_length AND 0xFF)];
     let idx = idx + 3;
     p \<leftarrow> rdn pps 0 (unat pps_length);
     buf \<leftarrow> wrn buf idx p;
     Some (buf, idx + unat pps_length) }"

definition make_video_body :: "mem \<Rightarrow> u32 \<Rightarrow> bool \<Rightarrow> u32 \<Rightarrow> (mem \<times> u32) option" where
  "make_video_body buf dat_len key_frame composition_time = do {
     buf \<leftarrow> wrn buf 0 [if key_frame then 0x17 else 0x27, 0x01];
     (buf, idx) \<leftarrow> put_be24 buf 2 composition_time;
     Some (buf, dat_len) }"

definition make_asc_body :: "mem \<Rightarrow> mem \<Rightarrow> (mem \<times> u32) option" where
  "make_asc_body asc buf = do {
     buf \<leftarrow> wrn buf 0 [0xAF, 0x00];
     a \<leftarrow> rdn asc 0 2;
     buf \<leftarrow> wrn buf 2 a;
     Some (buf, 1 + 1 + 2) }"

definition make_audio_body :: "mem \<Rightarrow> u32 \<Rightarrow> mem \<Rightarrow> (mem \<times> u32) option" where
  "make_audio_body dat dat_len buf = do {
     buf \<leftarrow> wrn buf 0 [0xAF, 0x01];
     d \<leftarrow> rdn dat 0 (unat dat_len);
     buf \<leftarrow> wrn buf 2 d;
     Some (buf, dat_len + 2) }"

section \<open>Sending\<close>

abbreviation (input) RTMP_PACKET_SIZE_LARGE :: u8 where "RTMP_PACKET_SIZE_LARGE \<equiv> 0"

definition send_rtmp_pkt ::
  "'r librtmp \<Rightarrow> 'r Rtmpout \<Rightarrow> u8 \<Rightarrow> u32 \<Rightarrow> mem \<Rightarrow> u32 \<Rightarrow> (bool \<times> 'r Rtmpout) option" where
  "send_rtmp_pkt lib c pkttype ts buf pktsize = do {
     body \<leftarrow> rdn buf 0 (unat pktsize);
     r \<leftarrow> ro_rtmp c;
     let rtmp_pkt = \<lparr>m_headerType = RTMP_PACKET_SIZE_LARGE, m_packetType = pkttype, m_hasAbsTimestamp = False,
       m_nChannel = pkttyp2channel pkttype, m_nTimeStamp = ts, m_nInfoField2 = m_stream_id lib r,
       m_nBodySize = pktsize, m_body = body\<rparr>;
     let (retval, r) = RTMP_SendPacket lib r rtmp_pkt;
     Some (retval, c\<lparr>ro_rtmp := Some r\<rparr>) }"

definition ms_of :: "OMX_BUFFERHEADERTYPE \<Rightarrow> u32" where
  "ms_of b = word_of_int (cdiv (nTimeStamp b) 1000)"

definition handle_video ::
  "'r librtmp \<Rightarrow> (nat \<Rightarrow> mem option) \<Rightarrow> 'r Rtmpout \<Rightarrow> OMX_BUFFERHEADERTYPE \<Rightarrow> (int \<times> 'r Rtmpout) option" where
  "handle_video lib malloc c b =
     (if CODECCONFIG \<in> nFlags b then do {
        (ok, dcr) \<leftarrow> parse_from (avc_dcr c) (pBuffer b) (nFilledLen b);
        let c = c\<lparr>avc_dcr := dcr\<rparr>;
        if \<not> ok then Some (- 1, c)
        else do {
          sps \<leftarrow> avc_sps dcr; pps \<leftarrow> avc_pps dcr;
          (body, n) \<leftarrow> make_avc_dcr_body (replicate AVC_DCR_BODY_SIZE 0) sps (ucast (avc_sps_length dcr))
            pps (ucast (avc_pps_length dcr));
          (sent, c) \<leftarrow> send_rtmp_pkt lib c RTMP_PACKET_TYPE_VIDEO 0 body (of_nat n);
          Some (if sent then 0 else - 1, c) } }
      else do {
        let (p, h) = mh_alloc malloc (mholder c) (nFilledLen b + VIDEO_BODY_HEADER_LENGTH);
        buf \<leftarrow> p;
        d \<leftarrow> rdn (pBuffer b) 0 (unat (nFilledLen b));
        buf \<leftarrow> wrn buf (unat VIDEO_PAYLOAD_OFFSET) d;
        (buf, n) \<leftarrow> make_video_body buf (VIDEO_PAYLOAD_OFFSET + nFilledLen b) (KEY_FRAME \<in> nFlags b) 0;
        let c = c\<lparr>mholder := h\<lparr>mh_buf := Some buf\<rparr>\<rparr>;
        (sent, c) \<leftarrow> send_rtmp_pkt lib c RTMP_PACKET_TYPE_VIDEO (ms_of b) buf n;
        Some (if sent then 0 else - 1, c) })"

definition handle_audio ::
  "'r librtmp \<Rightarrow> (nat \<Rightarrow> mem option) \<Rightarrow> 'r Rtmpout \<Rightarrow> OMX_BUFFERHEADERTYPE \<Rightarrow> (int \<times> 'r Rtmpout) option" where
  "handle_audio lib malloc c b =
     (if CODECCONFIG \<in> nFlags b then do {
        a \<leftarrow> rdn (pBuffer b) 0 2;
        let c = c\<lparr>ro_asc := a\<rparr>;
        (body, n) \<leftarrow> make_asc_body (ro_asc c) (replicate 4 0);
        (sent, c) \<leftarrow> send_rtmp_pkt lib c RTMP_PACKET_TYPE_AUDIO 0 body 4;
        Some (if sent then 0 else - 1, c) }
      else do {
        let (p, h) = mh_alloc malloc (mholder c) (nFilledLen b + 2);
        buf \<leftarrow> p;
        (buf, n) \<leftarrow> make_audio_body (pBuffer b) (nFilledLen b) buf;
        let c = c\<lparr>mholder := h\<lparr>mh_buf := Some buf\<rparr>\<rparr>;
        (sent, c) \<leftarrow> send_rtmp_pkt lib c RTMP_PACKET_TYPE_AUDIO (ms_of b) buf n;
        Some (if sent then 0 else - 1, c) })"

definition out_handle ::
  "'r librtmp \<Rightarrow> (nat \<Rightarrow> mem option) \<Rightarrow> 'r Rtmpout \<Rightarrow> OMX_BUFFERHEADERTYPE \<Rightarrow> (int \<times> 'r Rtmpout) option" where
  "out_handle lib malloc c b =
     (if nPortIndex b = VIDEO_PORT_INDEX then handle_video lib malloc c b
      else if nPortIndex b = AUDIO_PORT_INDEX then handle_audio lib malloc c b
      else Some (0, c))"

definition out_BufferMgmtCallback ::
  "'r librtmp \<Rightarrow> (nat \<Rightarrow> mem option) \<Rightarrow> 'r Rtmpout \<Rightarrow> OMX_BUFFERHEADERTYPE \<Rightarrow>
   ('r Rtmpout \<times> OMX_BUFFERHEADERTYPE) run" where
  "out_BufferMgmtCallback lib malloc c b =
     (let finish = (\<lambda>c. run_option (map_option
            (\<lambda>(ret, c). (c, b\<lparr>nFilledLen := 0, nOffset := 0, nFlags := {}\<rparr>)) (out_handle lib malloc c b)))
      in if ro_ready c then finish c
         else if ro_state c = StateExecuting \<and> (\<exists>r\<in>set_option (ro_rtmp c). RTMP_IsConnected lib r)
         then (if ro_sem c = 0 then Waits else finish (c\<lparr>ro_sem := ro_sem c - 1\<rparr>))
         else Done (c, b))"

section \<open>The session\<close>

definition out_Init :: "'r librtmp \<Rightarrow> 'r Rtmpout \<Rightarrow> (OMX_ERRORTYPE \<times> 'r Rtmpout) option" where
  "out_Init lib c =
     (case RTMP_Alloc lib of
        None \<Rightarrow> Some (ErrorInsufficientResources, c\<lparr>ro_rtmp := None\<rparr>)
      | Some r \<Rightarrow> do {
          let r = Link_timeout lib (RTMP_Init lib r) RTMP_SOCK_TIMEOUT;
          url \<leftarrow> output_url c;
          let (ok, r, url) = RTMP_SetupURL lib r url;
          let (ok, r) = (if ok then RTMP_Connect lib (RTMP_EnableWrite lib r) else (ok, r));
          let (ok, r) = (if ok then RTMP_ConnectStream lib r else (ok, r));
          let c = (if ok then c\<lparr>ro_ready := True\<rparr> else c);
          let r = (if ro_ready c then r else RTMP_Close lib r);
          Some (if ok then ErrorNone else ErrorBadParameter,
            c\<lparr>ro_rtmp := Some r, output_url := Some url, ro_sem := ro_sem c + 1\<rparr>) })"

definition out_Deinit :: "'r Rtmpout \<Rightarrow> OMX_ERRORTYPE \<times> 'r Rtmpout" where
  "out_Deinit c = (ErrorNone, c\<lparr>ro_rtmp := None, ro_ready := False, ro_sem := 0\<rparr>)"

text \<open>The third result is the error the event handler is told, if it is called.\<close>

definition out_MessageHandler ::
  "'r librtmp \<Rightarrow> OMX_ERRORTYPE \<times> OMX_STATETYPE \<Rightarrow> 'r Rtmpout \<Rightarrow> OMX_COMMANDTYPE \<times> OMX_STATETYPE \<Rightarrow>
   (OMX_ERRORTYPE \<times> 'r Rtmpout \<times> OMX_ERRORTYPE option) option" where
  "out_MessageHandler lib base c message =
     (let old_state = ro_state c;
          (omx_err, new_state) = base;
          c = c\<lparr>ro_state := new_state\<rparr>;
          (typ, param) = message
      in if omx_err \<noteq> ErrorNone then Some (omx_err, c, None)
         else if typ = CommandStateSet \<and> param = StateExecuting \<and> old_state = StateIdle then do {
           (err, c) \<leftarrow> out_Init lib c;
           Some (err, c, if err \<noteq> ErrorNone then Some err else None) }
         else if typ = CommandStateSet \<and> param = StateIdle \<and> old_state = StateExecuting
         then (let (err, c) = out_Deinit c in Some (err, c, None))
         else Some (omx_err, c, None))"

section \<open>Parameters\<close>

text \<open>
  An index with the structure it stands for. The URL a \<open>GetParameter\<close> fills has the given size. The
  checks and the base component's answers are arguments.
\<close>

datatype out_param = VideoPortFormat port_format | AudioPortFormat port_format | OutputUrl string | OtherParam nat

definition out_SetParameter ::
  "(nat \<Rightarrow> OMX_ERRORTYPE) \<Rightarrow> (nat \<Rightarrow> OMX_ERRORTYPE) \<Rightarrow> 'r Rtmpout \<times> port_format \<times> port_format \<Rightarrow> out_param option \<Rightarrow>
   OMX_ERRORTYPE \<times> 'r Rtmpout \<times> port_format \<times> port_format" where
  "out_SetParameter SanityCheck base s comp_param =
     (let (c, video, audio) = s in
      case comp_param of
        None \<Rightarrow> (ErrorBadParameter, s)
      | Some (VideoPortFormat f) \<Rightarrow>
          (if SanityCheck (pf_port f) \<noteq> ErrorNone then (SanityCheck (pf_port f), s)
           else if pf_port f < 1 then (ErrorNone, c, f, audio) else (ErrorBadPortIndex, s))
      | Some (AudioPortFormat f) \<Rightarrow>
          (if SanityCheck (pf_port f) \<noteq> ErrorNone then (SanityCheck (pf_port f), s)
           else if pf_port f < 1 then (ErrorNone, c, video, f) else (ErrorBadPortIndex, s))
      | Some (OutputUrl url) \<Rightarrow>
          (let sz = (if length url + 1 > DEFAULT_OUT_URL_LENGTH then length url + 1 else output_url_size c)
           in (ErrorNone, c\<lparr>output_url := Some url, output_url_size := sz\<rparr>, video, audio))
      | Some (OtherParam n) \<Rightarrow> (base n, s))"

definition out_GetParameter ::
  "(get_param \<Rightarrow> OMX_ERRORTYPE) \<Rightarrow> (nat \<Rightarrow> OMX_ERRORTYPE) \<Rightarrow> 'r Rtmpout \<times> port_format \<times> port_format \<Rightarrow>
   get_param option \<Rightarrow> (OMX_ERRORTYPE \<times> got) option" where
  "out_GetParameter checkHeader base s comp_param =
     (let (c, video, audio) = s in
      case comp_param of
        None \<Rightarrow> Some (ErrorBadParameter, Nothing)
      | Some (OtherGet n) \<Rightarrow> Some (base n, Nothing)
      | Some (GetUrl sz) \<Rightarrow> do {
          url \<leftarrow> output_url c;
          if length url + 1 \<le> sz then Some (ErrorNone, Url url) else None }
      | Some g \<Rightarrow>
          Some (if checkHeader g \<noteq> ErrorNone then (checkHeader g, Nothing)
            else case g of
              VideoInit \<Rightarrow> (ErrorNone, Ports VIDEO_PORT_INDEX 1)
            | AudioInit \<Rightarrow> (ErrorNone, Ports AUDIO_PORT_INDEX 1)
            | VideoFormat p \<Rightarrow> (if p < 1 then (ErrorNone, Format video) else (ErrorBadParameter, Nothing))
            | AudioFormat p \<Rightarrow> (if p \<le> 1 then (ErrorNone, Format audio) else (ErrorBadParameter, Nothing))
            | _ \<Rightarrow> (ErrorNone, Nothing)))"

definition out_GetExtensionIndex :: "string \<Rightarrow> OMX_ERRORTYPE" where
  "out_GetExtensionIndex param_name =
     (if param_name = ''OMX.ST.index.param.outputurl'' then ErrorNone else ErrorBadParameter)"

section \<open>What is sent\<close>

definition flv_packet :: "'r librtmp \<Rightarrow> 'r \<Rightarrow> u8 \<Rightarrow> u32 \<Rightarrow> u8 list \<Rightarrow> RTMPPacket" where
  "flv_packet lib r typ ts body = \<lparr>m_headerType = RTMP_PACKET_SIZE_LARGE, m_packetType = typ, m_hasAbsTimestamp = False,
     m_nChannel = pkttyp2channel typ, m_nTimeStamp = ts, m_nInfoField2 = m_stream_id lib r,
     m_nBodySize = of_nat (length body), m_body = body\<rparr>"

text \<open>The call sent exactly this packet, and answers as the session did.\<close>

definition sends :: "'r librtmp \<Rightarrow> 'r \<Rightarrow> RTMPPacket \<Rightarrow> (int \<times> 'r Rtmpout) option \<Rightarrow> bool" where
  "sends lib r pkt res \<longleftrightarrow> (\<exists>c'. res = Some (if fst (RTMP_SendPacket lib r pkt) then 0 else - 1, c') \<and>
     ro_rtmp c' = Some (snd (RTMP_SendPacket lib r pkt)))"

lemma send_body:
  assumes "ro_rtmp c = Some r" "length body < 2 ^ 32" "take (length body) buf = body"
  shows "send_rtmp_pkt lib c typ ts buf (of_nat (length body)) =
    Some (fst (RTMP_SendPacket lib r (flv_packet lib r typ ts body)),
      c\<lparr>ro_rtmp := Some (snd (RTMP_SendPacket lib r (flv_packet lib r typ ts body)))\<rparr>)"
proof -
  have "length body \<le> length buf" using assms(3) by (metis length_take min.cobounded1)
  then have "rdn buf 0 (length body) = Some body" using assms(3) by (simp add: rdn_def)
  then show ?thesis
    using assms(1) unat_of_len[OF assms(2)]
    by (simp add: send_rtmp_pkt_def flv_packet_def Let_def split: prod.split)
qed

text \<open>Memory that \<open>malloc\<close> gives has the size asked for, and there is some.\<close>

definition mallocs :: "(nat \<Rightarrow> mem option) \<Rightarrow> bool" where
  "mallocs malloc \<longleftrightarrow> (\<forall>n. \<exists>m. malloc n = Some m \<and> length m = n)"

lemma mh_alloc_room:
  assumes "mh_ok h" "mallocs malloc" "0 < unat sz" "unat sz < 2 ^ 32 - 1024"
  shows "\<exists>m h'. mh_alloc malloc h sz = (Some m, h') \<and> unat sz \<le> length m"
proof (cases "sz > mh_capacity h")
  case True
  obtain m where "malloc (unat (sz + 1024)) = Some m" "length m = unat (sz + 1024)"
    using assms(2) by (auto simp: mallocs_def)
  then show ?thesis using True assms unat_plus_1024[OF assms(4)] by (auto simp: mh_alloc_def Let_def)
next
  case False
  then have "unat sz \<le> unat (mh_capacity h)" by (simp add: word_less_nat_alt)
  with False assms show ?thesis by (cases "mh_buf h") (auto simp: mh_alloc_def mh_ok_def)
qed

lemma be24_0: "be24 0 = [0, 0, 0]"
  by (simp add: be24_def)

lemma wrn_splice: "p + length bs \<le> length m \<Longrightarrow> wrn m p bs = Some (splice m p bs)"
  by (simp add: wrn_def)

lemma put_be24_at:
  "p + length bs + 3 \<le> length m \<Longrightarrow> put_be24 (splice m p bs) (p + length bs) v = Some (splice m p (bs @ be24 v), p + length bs + 3)"
  by (simp add: put_be24_eq splice_append)

lemma wrn_at:
  "p + length bs + length cs \<le> length m \<Longrightarrow> wrn (splice m p bs) (p + length bs) cs = Some (splice m p (bs @ cs))"
  by (simp add: wrn_def splice_append)

lemma take_splice_0: "length bs \<le> length m \<Longrightarrow> take (length bs) (splice m 0 bs) = bs"
  by (simp add: splice_def)

lemma make_video_body_eq:
  "5 \<le> length buf \<Longrightarrow> make_video_body buf n key t = Some (splice buf 0 ([if key then 0x17 else 0x27, 0x01] @ be24 t), n)"
proof -
  assume len: "5 \<le> length buf"
  have "put_be24 (splice buf 0 [a, 0x01]) 2 t = Some (splice buf 0 ([a, 0x01] @ be24 t), 5)" for a
    using put_be24_at[of 0 "[a, 0x01]" buf t] len by (simp add: numeral_2_eq_2)
  then show ?thesis using len by (simp add: make_video_body_def wrn_splice)
qed

lemma video_sent:
  assumes "CODECCONFIG \<notin> nFlags b" "ro_rtmp c = Some r" "mh_ok (mholder c)" "mallocs malloc"
    and "unat (nFilledLen b) \<le> length (pBuffer b)" "unat (nFilledLen b) < 2 ^ 32 - 1040"
  shows "sends lib r (flv_packet lib r RTMP_PACKET_TYPE_VIDEO (ms_of b)
      ([if KEY_FRAME \<in> nFlags b then 0x17 else 0x27, 0x01, 0, 0, 0] @ take (unat (nFilledLen b)) (pBuffer b)))
    (handle_video lib malloc c b)"
proof -
  define n where "n = unat (nFilledLen b)"
  define d where "d = take n (pBuffer b)"
  define hdr where "hdr = [if KEY_FRAME \<in> nFlags b then 0x17 else 0x27, 0x01] @ be24 0"
  have len: "length d = n" "length hdr = 5" using assms(5) by (simp_all add: d_def n_def hdr_def)
  have sz: "unat (nFilledLen b + VIDEO_BODY_HEADER_LENGTH) = n + 16" "unat (VIDEO_PAYLOAD_OFFSET + nFilledLen b) = n + 5"
    using assms(6) by (simp_all add: unat_word_ariths n_def)
  obtain m h where m: "mh_alloc malloc (mholder c) (nFilledLen b + VIDEO_BODY_HEADER_LENGTH) = (Some m, h)" "n + 16 \<le> length m"
    using mh_alloc_room[OF assms(3,4), of "nFilledLen b + VIDEO_BODY_HEADER_LENGTH"] sz assms(6) by (auto simp: n_def)
  have rd: "rdn (pBuffer b) 0 (unat (nFilledLen b)) = Some d" using assms(5) by (simp add: rdn_def d_def n_def)
  have w: "wrn m (unat VIDEO_PAYLOAD_OFFSET) d = Some (splice m 5 d)" using m(2) len by (simp add: wrn_def)
  let ?buf = "splice (splice m 5 d) 0 hdr"
  have len5: "VIDEO_PAYLOAD_OFFSET + nFilledLen b = of_nat (length (hdr @ d))"
    using sz(2) len assms(6) unat_of_len[of "n + 5"] by (simp add: word_unat_eq_iff n_def add.commute)
  have mk: "make_video_body (splice m 5 d) (VIDEO_PAYLOAD_OFFSET + nFilledLen b) (KEY_FRAME \<in> nFlags b) 0 =
      Some (?buf, of_nat (length (hdr @ d)))"
    unfolding len5 hdr_def by (rule make_video_body_eq) (use m(2) len in simp)
  have "take (length (hdr @ d)) ?buf = hdr @ d" using m(2) len by (simp add: splice_def)
  from send_body[of "c\<lparr>mholder := h\<lparr>mh_buf := Some ?buf\<rparr>\<rparr>" r "hdr @ d" ?buf lib RTMP_PACKET_TYPE_VIDEO "ms_of b", OF _ _ this]
  have "send_rtmp_pkt lib (c\<lparr>mholder := h\<lparr>mh_buf := Some ?buf\<rparr>\<rparr>) RTMP_PACKET_TYPE_VIDEO (ms_of b) ?buf (of_nat (length (hdr @ d))) =
    Some (fst (RTMP_SendPacket lib r (flv_packet lib r RTMP_PACKET_TYPE_VIDEO (ms_of b) (hdr @ d))),
      c\<lparr>mholder := h\<lparr>mh_buf := Some ?buf\<rparr>, ro_rtmp := Some (snd (RTMP_SendPacket lib r (flv_packet lib r RTMP_PACKET_TYPE_VIDEO (ms_of b) (hdr @ d))))\<rparr>)"
    using assms(2,6) len by (simp add: n_def)
  moreover have "hdr = [if KEY_FRAME \<in> nFlags b then 0x17 else 0x27, 0x01, 0, 0, 0]" by (simp add: hdr_def be24_0)
  ultimately show ?thesis
    unfolding sends_def handle_video_def m(1) using assms(1) rd w mk
    by (simp add: Let_def d_def[symmetric] n_def[symmetric])
qed

lemma audio_sent:
  assumes "CODECCONFIG \<notin> nFlags b" "ro_rtmp c = Some r" "mh_ok (mholder c)" "mallocs malloc"
    and "unat (nFilledLen b) \<le> length (pBuffer b)" "unat (nFilledLen b) < 2 ^ 32 - 1040"
  shows "sends lib r (flv_packet lib r RTMP_PACKET_TYPE_AUDIO (ms_of b) ([0xAF, 0x01] @ take (unat (nFilledLen b)) (pBuffer b)))
    (handle_audio lib malloc c b)"
proof -
  define n where "n = unat (nFilledLen b)"
  define d where "d = take n (pBuffer b)"
  define hdr where "hdr = [0xAF, 0x01 :: u8]"
  have len: "length d = n" "length hdr = 2" using assms(5) by (simp_all add: d_def n_def hdr_def)
  have sz: "unat (nFilledLen b + 2) = n + 2" using assms(6) by (simp add: unat_word_ariths n_def)
  obtain m h where m: "mh_alloc malloc (mholder c) (nFilledLen b + 2) = (Some m, h)" "n + 2 \<le> length m"
    using mh_alloc_room[OF assms(3,4), of "nFilledLen b + 2"] sz assms(6) by (auto simp: n_def)
  let ?buf = "splice m 0 (hdr @ d)"
  have "wrn (splice m 0 hdr) 2 d = Some ?buf"
    using wrn_at[of 0 hdr d m] m(2) len by (simp add: numeral_2_eq_2)
  moreover have "wrn m 0 hdr = Some (splice m 0 hdr)" using m(2) len by (simp add: wrn_def)
  moreover have "rdn (pBuffer b) 0 (unat (nFilledLen b)) = Some d" using assms(5) by (simp add: rdn_def d_def n_def)
  moreover have "nFilledLen b + 2 = of_nat (length (hdr @ d))"
    using sz len assms(6) unat_of_len[of "n + 2"] by (simp add: word_unat_eq_iff n_def)
  ultimately have mk: "make_audio_body (pBuffer b) (nFilledLen b) m = Some (?buf, of_nat (length (hdr @ d)))"
    by (simp add: make_audio_body_def hdr_def[symmetric])
  have "take (length (hdr @ d)) ?buf = hdr @ d" using m(2) len by (intro take_splice_0) simp
  from send_body[of "c\<lparr>mholder := h\<lparr>mh_buf := Some ?buf\<rparr>\<rparr>" r "hdr @ d" ?buf lib RTMP_PACKET_TYPE_AUDIO "ms_of b", OF _ _ this]
  show ?thesis
    using assms(1,2,6) len mk m(1)
    by (simp add: sends_def handle_audio_def Let_def d_def[symmetric] n_def[symmetric] hdr_def)
qed

lemma asc_sent:
  assumes "CODECCONFIG \<in> nFlags b" "ro_rtmp c = Some r" "2 \<le> length (pBuffer b)"
  shows "sends lib r (flv_packet lib r RTMP_PACKET_TYPE_AUDIO 0 ([0xAF, 0x00] @ take 2 (pBuffer b)))
    (handle_audio lib malloc c b)"
proof -
  define a where "a = take 2 (pBuffer b)"
  have a: "length a = 2" "rdn (pBuffer b) 0 2 = Some a" using assms(3) by (simp_all add: a_def rdn_def)
  have mk: "make_asc_body a (replicate 4 0) = Some ([0xAF, 0x00] @ a, 4)"
    using a(1) by (simp add: make_asc_body_def wrn_def rdn_def splice_def eval_nat_numeral)
  have "take (length ([0xAF, 0x00] @ a)) ([0xAF, 0x00] @ a) = [0xAF, 0x00] @ a" by simp
  from send_body[of "c\<lparr>ro_asc := a\<rparr>" r "[0xAF, 0x00] @ a" _ lib RTMP_PACKET_TYPE_AUDIO 0, OF _ _ this]
  show ?thesis
    using assms(1,2) a mk by (simp add: sends_def handle_audio_def a_def[symmetric])
qed

text \<open>The sequence header: five bytes of the FLV tag, then a decoder configuration record.\<close>

definition dcr_body :: "u8 list \<Rightarrow> u8 list \<Rightarrow> u8 list" where
  "dcr_body s q = [0x17, 0, 0, 0, 0] @ enc_dcr [1, s ! 1, s ! 2, s ! 3, 0xFF, 0xE1] s q 1"

lemma be16_of_u32:
  "[ucast (drop_bit 8 (ucast (x :: u16) :: u32) AND 0xFF), ucast ((ucast x :: u32) AND 0xFF)] = be16 x"
proof -
  have "ucast (drop_bit 8 (ucast x :: u32) AND 0xFF) = (ucast (drop_bit 8 x) :: u8)"
    "ucast ((ucast x :: u32) AND 0xFF) = (ucast x :: u8)"
    unfolding mask_8_const by (rule bit_word_eqI; auto simp: bit_simps dest: bit_imp_le_length)+
  then show ?thesis by (simp add: be16_def)
qed

lemma make_avc_dcr_body_eq:
  assumes "4 \<le> length s" "length s = unat sl" "length q = unat ql" "13 \<le> length buf"
  shows "make_avc_dcr_body buf s (ucast (sl :: u16)) q (ucast (ql :: u16)) =
    (if 16 + length s + length q \<le> length buf
     then Some (splice buf 0 (dcr_body s q), 16 + length s + length q) else None)"
proof -
  have u: "unat (ucast (x :: u16) :: u32) = unat x" for x
    using unsigned_less[of x, where 'a = nat] by (simp add: unsigned_ucast_eq take_bit_nat_eq_self)
  have of: "be16 sl = be16 (of_nat (length s))" "be16 ql = be16 (of_nat (length q))"
    using assms(2,3) by simp_all
  have b24: "put_be24 (splice buf 0 [0x17, 0]) 2 0 = Some (splice buf 0 [0x17, 0, 0, 0, 0], 5)"
    using put_be24_at[of 0 "[0x17, 0]" buf 0] assms(4) by (simp add: numeral_2_eq_2 be24_0)
  define a where "a = [0x17, 0, 0, 0, 0 :: u8]"
  define h where "h = [1, s ! 1, s ! 2, s ! 3, 0xFF, 0xE1] @ be16 sl"
  have hb: "[1, s ! 1, s ! 2, s ! 3, 0xFF, 0xE1, ucast (drop_bit 8 (ucast sl :: u32) AND 0xFF), ucast ((ucast sl :: u32) AND 0xFF)] = h"
    using be16_of_u32[of sl] by (simp add: h_def)
  define t where "t = 1 # be16 ql"
  have tb: "[1, ucast (drop_bit 8 (ucast ql :: u32) AND 0xFF), ucast ((ucast ql :: u32) AND 0xFF)] = t"
    using be16_of_u32[of ql] by (simp add: t_def)
  have len: "length a = 5" "length h = 8" "length t = 3" by (simp_all add: a_def h_def t_def)
  have body: "dcr_body s q = a @ h @ s @ t @ q"
    by (simp add: dcr_body_def enc_dcr_def a_def h_def t_def of)
  have w0: "wrn buf 0 [0x17, 0x00] = Some (splice buf 0 [0x17, 0])" using assms(4) by (simp add: wrn_def)
  have rd: "rdn s 0 (unat sl) = Some s" "rdn q 0 (unat ql) = Some q" using assms(2,3) by (simp_all add: rdn_def)
  have rs: "rd8 s 1 = Some (s ! 1)" "rd8 s 2 = Some (s ! 2)" "rd8 s 3 = Some (s ! 3)"
    using assms(1) by (simp_all add: rd8_def)
  have "make_avc_dcr_body buf s (ucast sl) q (ucast ql) =
    do { b \<leftarrow> wrn (splice buf 0 a) 5 h; b \<leftarrow> wrn b 13 s; b \<leftarrow> wrn b (13 + length s) t;
         b \<leftarrow> wrn b (16 + length s) q; Some (b, 16 + length s + length q) }"
    unfolding make_avc_dcr_body_def w0 bind.bind_lunit b24 prod.case rs hb tb u Let_def rd
    by (simp add: a_def assms(2,3) add.commute add.left_commute)
  also have "\<dots> = (if 16 + length s + length q \<le> length buf
     then Some (splice buf 0 (dcr_body s q), 16 + length s + length q) else None)"
    using assms(4) len wrn_at[of 0 a h buf] wrn_at[of 0 "a @ h" s buf] wrn_at[of 0 "a @ h @ s" t buf] wrn_at[of 0 "a @ h @ s @ t" q buf]
    by (auto simp: body wrn_def)
  finally show ?thesis .
qed

lemma parse_from_ok:
  assumes "parse_from r data sz = Some (True, dcr)"
  shows "\<exists>s q. avc_sps dcr = Some s \<and> length s = unat (avc_sps_length dcr) \<and>
    avc_pps dcr = Some q \<and> length q = unat (avc_pps_length dcr)"
  using assms unfolding parse_from_def Let_def
  by (auto simp: bind_eq_Some dest!: rdn_length split: if_splits)

lemma dcr_sent:
  assumes "CODECCONFIG \<in> nFlags b" "ro_rtmp c = Some r"
    and "parse_from (avc_dcr c) (pBuffer b) (nFilledLen b) = Some (True, dcr)"
    and "avc_sps dcr = Some s" "avc_pps dcr = Some q" "4 \<le> length s"
  shows "if 16 + length s + length q \<le> AVC_DCR_BODY_SIZE
    then sends lib r (flv_packet lib r RTMP_PACKET_TYPE_VIDEO 0 (dcr_body s q)) (handle_video lib malloc c b)
    else handle_video lib malloc c b = None"
proof -
  have len: "length s = unat (avc_sps_length dcr)" "length q = unat (avc_pps_length dcr)"
    using parse_from_ok[OF assms(3)] assms(4,5) by auto
  note mk = make_avc_dcr_body_eq[OF assms(6) len, of "replicate AVC_DCR_BODY_SIZE 0"]
  have run: "handle_video lib malloc c b = do {
      (body, n) \<leftarrow> make_avc_dcr_body (replicate AVC_DCR_BODY_SIZE 0) s (ucast (avc_sps_length dcr)) q (ucast (avc_pps_length dcr));
      (sent, c) \<leftarrow> send_rtmp_pkt lib (c\<lparr>avc_dcr := dcr\<rparr>) RTMP_PACKET_TYPE_VIDEO 0 body (of_nat n);
      Some (if sent then 0 else - 1, c) }"
    unfolding handle_video_def using assms by (simp add: Let_def)
  show ?thesis
  proof (cases "16 + length s + length q \<le> AVC_DCR_BODY_SIZE")
    case True
    have l: "length (dcr_body s q) = 16 + length s + length q" by (simp add: dcr_body_def enc_dcr_def)
    have "take (length (dcr_body s q)) (splice (replicate AVC_DCR_BODY_SIZE 0) 0 (dcr_body s q)) = dcr_body s q"
      using True l by (intro take_splice_0) simp
    from send_body[of "c\<lparr>avc_dcr := dcr\<rparr>" r "dcr_body s q" _ lib RTMP_PACKET_TYPE_VIDEO 0, OF _ _ this]
    show ?thesis using True l assms(2) mk by (simp add: run sends_def)
  next
    case False
    then show ?thesis using mk by (simp add: run)
  qed
qed

text \<open>
  C6: out_sends_flv. A filled buffer on a port of a connected sink becomes exactly one RTMP packet: a
  video frame an FLV AVC NALU tag marked as key or inter frame, an audio frame an AAC raw tag, both at
  the buffer's time in milliseconds; an AudioSpecificConfig an AAC header; and a decoder configuration
  an AVC header with the same parameter sets, unless these exceed the 2048 bytes on the stack, which are
  then overrun.
\<close>

theorem out_sends_flv:
  assumes "ro_rtmp c = Some r" "mh_ok (mholder c)" "mallocs malloc"
    and "unat (nFilledLen b) \<le> length (pBuffer b)" "unat (nFilledLen b) < 2 ^ 32 - 1040"
  defines "dat \<equiv> take (unat (nFilledLen b)) (pBuffer b)"
  shows "(CODECCONFIG \<notin> nFlags b \<longrightarrow>
      sends lib r (flv_packet lib r RTMP_PACKET_TYPE_VIDEO (ms_of b)
        ([if KEY_FRAME \<in> nFlags b then 0x17 else 0x27, 0x01, 0, 0, 0] @ dat)) (handle_video lib malloc c b) \<and>
      sends lib r (flv_packet lib r RTMP_PACKET_TYPE_AUDIO (ms_of b) ([0xAF, 0x01] @ dat)) (handle_audio lib malloc c b)) \<and>
    (CODECCONFIG \<in> nFlags b \<and> 2 \<le> length (pBuffer b) \<longrightarrow>
      sends lib r (flv_packet lib r RTMP_PACKET_TYPE_AUDIO 0 ([0xAF, 0x00] @ take 2 (pBuffer b))) (handle_audio lib malloc c b)) \<and>
    (\<forall>dcr s q. CODECCONFIG \<in> nFlags b \<and> parse_from (avc_dcr c) (pBuffer b) (nFilledLen b) = Some (True, dcr) \<and>
        avc_sps dcr = Some s \<and> avc_pps dcr = Some q \<and> 4 \<le> length s \<longrightarrow>
      (if 16 + length s + length q \<le> AVC_DCR_BODY_SIZE
       then sends lib r (flv_packet lib r RTMP_PACKET_TYPE_VIDEO 0 (dcr_body s q)) (handle_video lib malloc c b)
       else handle_video lib malloc c b = None))"
  unfolding dat_def
  by (intro conjI impI allI; (elim conjE)?; rule video_sent[OF _ assms(1-5)] audio_sent[OF _ assms(1-5)]
    asc_sent[OF _ assms(1)] dcr_sent[OF _ assms(1)]; assumption)

section \<open>Reachable states\<close>

text \<open>\<open>RTMP_SetupURL\<close> works in the string it is given and does not lengthen it.\<close>

definition url_in_place :: "'r librtmp \<Rightarrow> bool" where
  "url_in_place lib \<longleftrightarrow> (\<forall>r u. length (snd (snd (RTMP_SetupURL lib r u))) \<le> length u)"

text \<open>
  Whether the session can be allocated is decided anew at every message. The flag says that the
  component has gone idle with its session up in another way than by the command that stops it (by
  way of a pause, say, or because the base component said so).
\<close>

definition stops :: "OMX_ERRORTYPE \<times> OMX_STATETYPE \<Rightarrow> OMX_STATETYPE \<Rightarrow> OMX_COMMANDTYPE \<times> OMX_STATETYPE \<Rightarrow> bool" where
  "stops base old_state msg \<longleftrightarrow> fst base = ErrorNone \<and> msg = (CommandStateSet, StateIdle) \<and> old_state = StateExecuting"

inductive out_reachable :: "'r librtmp \<Rightarrow> (nat \<Rightarrow> mem option) \<Rightarrow> bool \<Rightarrow> 'r Rtmpout \<Rightarrow> bool" for lib malloc where
  out_new: "out_Constructor alloc ErrorNone n = ((ErrorNone, Some c), k) \<Longrightarrow> out_reachable lib malloc False c"
| out_message: "out_reachable lib malloc idled c \<Longrightarrow>
    out_MessageHandler (lib\<lparr>RTMP_Alloc := session\<rparr>) base c msg = Some (e, c', ev) \<Longrightarrow>
    out_reachable lib malloc (idled \<or> ro_state c' = StateIdle \<and> ro_ready c' \<and> \<not> stops base (ro_state c) msg) c'"
| out_buffer: "out_reachable lib malloc idled c \<Longrightarrow> out_BufferMgmtCallback lib malloc c b = Done (c', b') \<Longrightarrow>
    out_reachable lib malloc idled c'"
| out_param: "out_reachable lib malloc idled c \<Longrightarrow> out_SetParameter chk bs (c, v, a) prm = (e, c', v', a') \<Longrightarrow>
    out_reachable lib malloc idled c'"

definition out_inv :: "bool \<Rightarrow> 'r Rtmpout \<Rightarrow> bool" where
  "out_inv idled c \<longleftrightarrow> (\<not> idled \<longrightarrow> (ro_ready c \<longrightarrow> ro_rtmp c \<noteq> None) \<and> (ro_state c = StateIdle \<longrightarrow> \<not> ro_ready c)) \<and>
     mh_ok (mholder c) \<and>
     DEFAULT_OUT_URL_LENGTH \<le> output_url_size c \<and> (\<forall>u. output_url c = Some u \<longrightarrow> length u < output_url_size c)"

lemma wrn_len: "wrn m p bs = Some m' \<Longrightarrow> length m' = length m"
  by (auto simp: wrn_def split: if_splits)

lemma make_video_body_len: "make_video_body m n k t = Some (m', n') \<Longrightarrow> length m' = length m"
  by (auto simp: make_video_body_def bind_eq_Some be24.put_Some dest!: wrn_len)

lemma make_audio_body_len: "make_audio_body d n m = Some (m', n') \<Longrightarrow> length m' = length m"
  by (auto simp: make_audio_body_def bind_eq_Some dest!: wrn_len)

lemma mallocs_len: "mallocs malloc \<Longrightarrow> malloc n = Some m \<Longrightarrow> length m = n"
  by (auto simp: mallocs_def) (metis option.inject)

lemma mh_alloc_keeps:
  "mh_ok h \<Longrightarrow> mallocs malloc \<Longrightarrow> mh_alloc malloc h sz = (Some m, h') \<Longrightarrow> length m' = length m \<Longrightarrow>
   mh_ok (h'\<lparr>mh_buf := Some m'\<rparr>)"
  using mallocs_len[of malloc]
  by (auto simp: mh_alloc_def mh_ok_def Let_def split: if_splits option.splits)

lemma send_keeps:
  "send_rtmp_pkt lib c t ts buf n = Some (ok, c') \<Longrightarrow> ro_rtmp c' \<noteq> None \<and> ro_ready c' = ro_ready c \<and>
    ro_state c' = ro_state c \<and>
    mholder c' = mholder c \<and> output_url c' = output_url c \<and> output_url_size c' = output_url_size c"
  by (auto simp: send_rtmp_pkt_def bind_eq_Some Let_def case_prod_beta)

definition keeps_rest :: "'r Rtmpout \<Rightarrow> 'r Rtmpout \<Rightarrow> bool" where
  "keeps_rest c c' \<longleftrightarrow> (ro_rtmp c \<noteq> None \<longrightarrow> ro_rtmp c' \<noteq> None) \<and> ro_ready c' = ro_ready c \<and>
     ro_state c' = ro_state c \<and> output_url c' = output_url c \<and> output_url_size c' = output_url_size c"

lemma handle_keeps:
  assumes "mallocs malloc" "mh_ok (mholder c)"
  shows "handle_video lib malloc c b = Some (ret, c') \<Longrightarrow> keeps_rest c c' \<and> mh_ok (mholder c')"
    and "handle_audio lib malloc c b = Some (ret, c') \<Longrightarrow> keeps_rest c c' \<and> mh_ok (mholder c')"
proof -
  assume "handle_video lib malloc c b = Some (ret, c')"
  then show "keeps_rest c c' \<and> mh_ok (mholder c')"
    using assms mh_alloc_keeps[OF assms(2,1)] unfolding handle_video_def keeps_rest_def
    by (auto simp: bind_eq_Some Let_def dest!: send_keeps wrn_len make_video_body_len split: if_splits prod.splits)
next
  assume "handle_audio lib malloc c b = Some (ret, c')"
  then show "keeps_rest c c' \<and> mh_ok (mholder c')"
    using assms mh_alloc_keeps[OF assms(2,1)] unfolding handle_audio_def keeps_rest_def
    by (auto simp: bind_eq_Some Let_def dest!: send_keeps wrn_len make_audio_body_len split: if_splits prod.splits)
qed

lemma callback_inv:
  assumes "mallocs malloc" "out_inv idled c" "out_BufferMgmtCallback lib malloc c b = Done (c', b')"
  shows "out_inv idled c'"
proof -
  have handled: "out_inv idled c'" if "out_handle lib malloc d b = Some (ret, c')" "out_inv idled d" for d ret
    using that handle_keeps[OF assms(1), of d lib b ret c']
    by (auto simp: out_handle_def out_inv_def keeps_rest_def split: if_splits)
  have "out_inv idled (c\<lparr>ro_sem := k\<rparr>)" for k using assms(2) by (simp add: out_inv_def)
  then show ?thesis
    using assms(2,3) handled[of c] handled[of "c\<lparr>ro_sem := ro_sem c - 1\<rparr>"]
    by (auto simp: out_BufferMgmtCallback_def run_option_def Let_def split: if_splits option.splits prod.splits)
qed

text \<open>What a start does: with no session to allocate it changes nothing else.\<close>

lemma Init_outcome:
  assumes "url_in_place lib" "out_Init lib c = Some (err, c')"
  shows "ro_state c' = ro_state c \<and> mholder c' = mholder c \<and> output_url_size c' = output_url_size c \<and>
    (RTMP_Alloc lib = None \<and> ro_rtmp c' = None \<and> ro_ready c' = ro_ready c \<and> output_url c' = output_url c \<or>
     ro_rtmp c' \<noteq> None \<and> (\<exists>u u'. output_url c = Some u \<and> output_url c' = Some u' \<and> length u' \<le> length u))"
proof (cases "RTMP_Alloc lib")
  case None
  then show ?thesis using assms(2) by (auto simp: out_Init_def)
next
  case (Some r)
  with assms(2) obtain url where url: "output_url c = Some url"
    by (cases "output_url c") (auto simp: out_Init_def)
  obtain ok q url' where q: "RTMP_SetupURL lib (Link_timeout lib (RTMP_Init lib r) RTMP_SOCK_TIMEOUT) url = (ok, q, url')"
    by (rule prod_cases3)
  then have "length url' \<le> length url"
    using assms(1) unfolding url_in_place_def by (metis snd_conv)
  then show ?thesis using assms(2) Some url q by (auto simp: out_Init_def Let_def case_prod_beta split: if_splits)
qed

lemma message_inv:
  assumes "url_in_place lib" "out_inv idled c" "out_MessageHandler lib base c msg = Some (e, c', ev)"
  shows "out_inv (idled \<or> ro_state c' = StateIdle \<and> ro_ready c' \<and> \<not> stops base (ro_state c) msg) c'"
proof -
  obtain err new_state kind param where bm: "base = (err, new_state)" "msg = (kind, param)" by (cases base; cases msg)
  let ?c = "c\<lparr>ro_state := new_state\<rparr>"
  consider (start) err' where "err = ErrorNone" "kind = CommandStateSet" "param = StateExecuting" "ro_state c = StateIdle"
      "out_Init lib ?c = Some (err', c')"
    | (stop) "stops base (ro_state c) msg" "c' = ?c\<lparr>ro_rtmp := None, ro_ready := False, ro_sem := 0\<rparr>"
    | (other) "c' = ?c" "\<not> stops base (ro_state c) msg"
    using assms(3) unfolding out_MessageHandler_def bm out_Deinit_def
    by (auto simp: Let_def bind_eq_Some stops_def split: if_splits)
  then show ?thesis
  proof cases
    case start
    have "\<not> idled \<longrightarrow> \<not> ro_ready c" using assms(2) start(4) by (simp add: out_inv_def)
    moreover have "\<not> stops base (ro_state c) msg" using start(4) by (simp add: stops_def)
    ultimately show ?thesis
      using Init_outcome[OF assms(1) start(5)] assms(2) by (fastforce simp: out_inv_def)
  next
    case stop
    then show ?thesis using assms(2) by (auto simp: out_inv_def)
  next
    case other
    then show ?thesis using assms(2) by (auto simp: out_inv_def)
  qed
qed

lemma param_inv: "out_inv idled c \<Longrightarrow> out_SetParameter chk bs (c, v, a) prm = (e, c', v', a') \<Longrightarrow> out_inv idled c'"
  by (auto simp: out_SetParameter_def out_inv_def Let_def split: option.splits out_param.splits if_splits)

lemma reachable_inv:
  assumes "mallocs malloc" "url_in_place lib"
  shows "out_reachable lib malloc idled c \<Longrightarrow> out_inv idled c"
proof (induction rule: out_reachable.induct)
  case (out_new alloc n c k)
  then show ?case by (auto simp: out_Constructor_def out_inv_def mh_ok_def new_MemHolder_def split: if_splits)
next
  case (out_message idled c session base msg e c' ev)
  have "url_in_place (lib\<lparr>RTMP_Alloc := session\<rparr>)" using assms(2) by (simp add: url_in_place_def)
  then show ?case by (rule message_inv[OF _ out_message.IH out_message.hyps(2)])
next
  case (out_buffer idled c b c' b')
  show ?case by (rule callback_inv[OF assms(1) out_buffer.IH out_buffer.hyps(2)])
next
  case (out_param idled c chk bs v a prm e c' v' a')
  show ?case by (rule param_inv[OF out_param.IH out_param.hyps(2)])
qed

text \<open>
  A configuration the handlers have the room for: two bytes of an AudioSpecificConfig; of a decoder
  configuration, if it parses, a first parameter set of four bytes and both within the 2048 bytes.
\<close>

definition config_fits :: "'r Rtmpout \<Rightarrow> OMX_BUFFERHEADERTYPE \<Rightarrow> bool" where
  "config_fits c b \<longleftrightarrow>
     (nPortIndex b = AUDIO_PORT_INDEX \<longrightarrow> 2 \<le> length (pBuffer b)) \<and>
     (nPortIndex b = VIDEO_PORT_INDEX \<longrightarrow>
       (case parse_from (avc_dcr c) (pBuffer b) (nFilledLen b) of
          Some (True, dcr) \<Rightarrow> 4 \<le> unat (avc_sps_length dcr) \<and>
            16 + unat (avc_sps_length dcr) + unat (avc_pps_length dcr) \<le> AVC_DCR_BODY_SIZE
        | _ \<Rightarrow> True))"

text \<open>The callback hands the buffer on: the sink is ready, or connecting and let through.\<close>

definition lets_through :: "'r librtmp \<Rightarrow> 'r Rtmpout \<Rightarrow> bool" where
  "lets_through lib c \<longleftrightarrow> ro_ready c \<or>
     ro_state c = StateExecuting \<and> (\<exists>r\<in>set_option (ro_rtmp c). RTMP_IsConnected lib r) \<and> ro_sem c \<noteq> 0"

lemma short_sps: "length s < 4 \<Longrightarrow> make_avc_dcr_body buf s n q k = None"
proof -
  assume "length s < 4"
  then have "rd8 s 3 = None" by (simp add: rd8_def)
  then show ?thesis by (auto simp: make_avc_dcr_body_def bind_eq_None_conv)
qed

lemma config_video:
  assumes "CODECCONFIG \<in> nFlags b" "ro_rtmp c = Some r" "unat (nFilledLen b) \<le> length (pBuffer b)" "nPortIndex b = VIDEO_PORT_INDEX"
  shows "handle_video lib malloc c b = None \<longleftrightarrow> \<not> config_fits c b"
proof -
  obtain ok dcr where p: "parse_from (avc_dcr c) (pBuffer b) (nFilledLen b) = Some (ok, dcr)"
    using parse_from_total[OF assms(3), of "avc_dcr c"] by auto
  show ?thesis
  proof (cases ok)
    case False
    then show ?thesis using p assms(1,4) by (simp add: handle_video_def config_fits_def)
  next
    case True
    note p = p[unfolded eqTrueI[OF True]]
    obtain s q where sq: "avc_sps dcr = Some s" "length s = unat (avc_sps_length dcr)"
      "avc_pps dcr = Some q" "length q = unat (avc_pps_length dcr)"
      using parse_from_ok[OF p] by blast
    have fits: "config_fits c b \<longleftrightarrow> 4 \<le> length s \<and> 16 + length s + length q \<le> AVC_DCR_BODY_SIZE"
      using p True assms(4) sq by (simp add: config_fits_def)
    show ?thesis
    proof (cases "4 \<le> length s")
      case False
      then show ?thesis using p True assms(1) sq fits short_sps by (simp add: handle_video_def)
    next
      case len: True
      from dcr_sent[OF assms(1,2) p _ _ len, of q lib malloc] sq(1,3)
      show ?thesis using fits len by (auto simp: sends_def split: if_splits)
    qed
  qed
qed

lemma config_audio:
  assumes "CODECCONFIG \<in> nFlags b" "ro_rtmp c = Some r" "nPortIndex b = AUDIO_PORT_INDEX"
  shows "handle_audio lib malloc c b = None \<longleftrightarrow> \<not> config_fits c b"
proof (cases "2 \<le> length (pBuffer b)")
  case True
  then show ?thesis using asc_sent[OF assms(1,2) True, of lib malloc] assms(3) by (auto simp: sends_def config_fits_def)
next
  case False
  then show ?thesis using assms(1,3) by (simp add: handle_audio_def config_fits_def rdn_def)
qed

lemma out_handle_undefined:
  assumes "ro_rtmp c = Some r" "mh_ok (mholder c)" "mallocs malloc"
    and "unat (nFilledLen b) \<le> length (pBuffer b)" "unat (nFilledLen b) < 2 ^ 32 - 1040"
  shows "out_handle lib malloc c b = None \<longleftrightarrow> CODECCONFIG \<in> nFlags b \<and> \<not> config_fits c b"
proof (cases "CODECCONFIG \<in> nFlags b")
  case True
  have "config_fits c b" if "nPortIndex b \<noteq> VIDEO_PORT_INDEX" "nPortIndex b \<noteq> AUDIO_PORT_INDEX"
    using that by (simp add: config_fits_def)
  then show ?thesis
    using config_video[OF True assms(1,4)] config_audio[OF True assms(1)] True by (auto simp: out_handle_def)
next
  case False
  then show ?thesis
    using video_sent[OF False assms(1-5), of lib] audio_sent[OF False assms(1-5), of lib] by (auto simp: out_handle_def sends_def)
qed

text \<open>
  C3: out_session_safe. In every state the sink can reach through its messages, buffers and parameters,
  with sessions that can be allocated at some times and not at others, the URL fits its buffer; and
  unless the component has gone idle with its session up without being stopped, it has a session
  whenever it claims to be ready, and a buffer of any kind that it lets through leads to no undefined
  behaviour but for one: a configuration that does not fit what its handler assumes (the buffer holds
  what it says, and the heap of the memory holder does not run out).
\<close>

theorem out_session_safe:
  assumes "mallocs malloc" "url_in_place lib" "out_reachable lib malloc idled c"
    and "unat (nFilledLen b) \<le> length (pBuffer b)" "unat (nFilledLen b) < 2 ^ 32 - 1040"
  shows "(\<forall>u. output_url c = Some u \<longrightarrow> length u < output_url_size c) \<and>
    (\<not> idled \<longrightarrow> (ro_ready c \<longrightarrow> ro_rtmp c \<noteq> None) \<and>
      (out_BufferMgmtCallback lib malloc c b = Undefined \<longleftrightarrow>
         lets_through lib c \<and> CODECCONFIG \<in> nFlags b \<and> \<not> config_fits c b))"
proof -
  have inv: "out_inv idled c" by (rule reachable_inv[OF assms(1-3)])
  have und: "run_option (map_option f (out_handle lib malloc d b)) = Undefined \<longleftrightarrow> CODECCONFIG \<in> nFlags b \<and> \<not> config_fits d b"
    if "ro_rtmp d \<noteq> None" "mh_ok (mholder d)" for d f
    using that out_handle_undefined[OF _ that(2) assms(1,4,5), of _ lib] by (auto simp: run_option_def split: option.splits)
  have "config_fits (c\<lparr>ro_sem := k\<rparr>) b = config_fits c b" for k by (simp add: config_fits_def)
  then show ?thesis
    using inv und[of c] und[of "c\<lparr>ro_sem := ro_sem c - 1\<rparr>"]
    by (auto simp: out_inv_def out_BufferMgmtCallback_def lets_through_def Let_def split: if_splits)
qed

lemma no_session:
  assumes "ro_rtmp c = None" "CODECCONFIG \<notin> nFlags b"
  shows "handle_video lib malloc c b = None" "handle_audio lib malloc c b = None"
proof -
  have "send_rtmp_pkt lib (c\<lparr>mholder := h\<rparr>) t ts buf n = None" for h t ts buf n
    using assms(1) by (cases "rdn buf 0 (unat n)") (simp_all add: send_rtmp_pkt_def)
  then show "handle_video lib malloc c b = None" "handle_audio lib malloc c b = None"
    using assms(2) by (simp_all add: handle_video_def handle_audio_def Let_def case_prod_beta bind_eq_None_conv)
qed

lemma Init_forgets: "out_Init lib (c\<lparr>ro_rtmp := x\<rparr>) = out_Init lib c"
  by (cases "RTMP_Alloc lib"; cases "output_url c") (simp_all add: out_Init_def Let_def case_prod_beta)

text \<open>
  Out pause leaks: Going from pause to idle does not end the session: it stays connected and marked
  ready. The next start overwrites it unseen (the outcome does not depend on the old session), and if
  the allocation fails there, the component is left ready without a session and the next frame
  dereferences the null pointer.
\<close>

theorem out_pause_leaks:
  assumes "ro_state c = StatePause" "ro_rtmp c = Some r" "ro_ready c"
  shows "\<exists>c1. out_MessageHandler lib (ErrorNone, StateIdle) c (CommandStateSet, StateIdle) = Some (ErrorNone, c1, None) \<and>
    ro_rtmp c1 = Some r \<and> ro_ready c1 \<and>
    (\<forall>x. out_MessageHandler lib (ErrorNone, StateExecuting) (c1\<lparr>ro_rtmp := x\<rparr>) (CommandStateSet, StateExecuting) =
       out_MessageHandler lib (ErrorNone, StateExecuting) c1 (CommandStateSet, StateExecuting)) \<and>
    (RTMP_Alloc lib = None \<longrightarrow> (\<exists>c2.
       out_MessageHandler lib (ErrorNone, StateExecuting) c1 (CommandStateSet, StateExecuting) =
         Some (ErrorInsufficientResources, c2, Some ErrorInsufficientResources) \<and>
       (\<forall>b. nPortIndex b \<in> {VIDEO_PORT_INDEX, AUDIO_PORT_INDEX} \<and> CODECCONFIG \<notin> nFlags b \<longrightarrow>
         out_BufferMgmtCallback lib malloc c2 b = Undefined)))"
proof -
  define c1 where "c1 = c\<lparr>ro_state := StateIdle\<rparr>"
  let ?go = "\<lambda>c. out_MessageHandler lib (ErrorNone, StateExecuting) c (CommandStateSet, StateExecuting)"
  have go: "?go d = (case out_Init lib (d\<lparr>ro_state := StateExecuting\<rparr>) of None \<Rightarrow> None
      | Some (err, d) \<Rightarrow> Some (err, d, if err \<noteq> ErrorNone then Some err else None))" if "ro_state d = StateIdle" for d
    using that by (simp add: out_MessageHandler_def split: option.splits prod.splits)
  have comm: "c1\<lparr>ro_rtmp := x, ro_state := t\<rparr> = c1\<lparr>ro_state := t, ro_rtmp := x\<rparr>" for x t by simp
  have "out_Init lib (c1\<lparr>ro_rtmp := x, ro_state := StateExecuting\<rparr>) = out_Init lib (c1\<lparr>ro_state := StateExecuting\<rparr>)" for x
    unfolding comm by (rule Init_forgets)
  then have "?go (c1\<lparr>ro_rtmp := x\<rparr>) = ?go c1" for x
    using go[of c1] go[of "c1\<lparr>ro_rtmp := x\<rparr>"] by (simp add: c1_def)
  moreover have "\<exists>c2. ?go c1 = Some (ErrorInsufficientResources, c2, Some ErrorInsufficientResources) \<and>
      (\<forall>b. nPortIndex b \<in> {VIDEO_PORT_INDEX, AUDIO_PORT_INDEX} \<and> CODECCONFIG \<notin> nFlags b \<longrightarrow>
         out_BufferMgmtCallback lib malloc c2 b = Undefined)" if "RTMP_Alloc lib = None"
    using that go[of c1] assms(3) no_session[of "c\<lparr>ro_state := StateExecuting, ro_rtmp := None\<rparr>"]
    by (auto simp: c1_def out_Init_def out_BufferMgmtCallback_def out_handle_def run_option_def)
  moreover have "out_MessageHandler lib (ErrorNone, StateIdle) c (CommandStateSet, StateIdle) = Some (ErrorNone, c1, None)"
    using assms(1) by (simp add: out_MessageHandler_def c1_def)
  ultimately show ?thesis using assms(2,3) by (intro exI[of _ c1]) (simp add: c1_def)
qed

text \<open>
  Out parameters: The URL that was set is the URL that is read back, whatever its length, into a buffer
  that has the room (nothing tells the size of one that has not); a video format set on its port is read
  back; but the format of the audio port cannot be set: on port 1 it is refused, and what is accepted is
  the format of port 0, which becomes that of the audio port.
\<close>

theorem out_parameters:
  assumes "chk 0 = ErrorNone" "\<And>g. hdr g = ErrorNone"
  shows "(case out_SetParameter chk base s (Some (OutputUrl u)) of (e, s') \<Rightarrow> e = ErrorNone \<and>
      (\<forall>n. out_GetParameter hdr base s' (Some (GetUrl n)) =
        (if length u + 1 \<le> n then Some (ErrorNone, Url u) else None))) \<and>
    (pf_port f = VIDEO_PORT_INDEX \<longrightarrow>
      (case out_SetParameter chk base s (Some (VideoPortFormat f)) of (e, s') \<Rightarrow> e = ErrorNone \<and>
        out_GetParameter hdr base s' (Some (VideoFormat VIDEO_PORT_INDEX)) = Some (ErrorNone, Format f))) \<and>
    (pf_port f = AUDIO_PORT_INDEX \<longrightarrow>
      (case out_SetParameter chk base s (Some (AudioPortFormat f)) of (e, s') \<Rightarrow> e \<noteq> ErrorNone \<and> s' = s)) \<and>
    (pf_port f = VIDEO_PORT_INDEX \<longrightarrow>
      (case out_SetParameter chk base s (Some (AudioPortFormat f)) of (e, s') \<Rightarrow> e = ErrorNone \<and>
        out_GetParameter hdr base s' (Some (AudioFormat AUDIO_PORT_INDEX)) = Some (ErrorNone, Format f)))"
  using assms by (auto simp: out_SetParameter_def out_GetParameter_def Let_def split: prod.splits)

section \<open>Witnesses\<close>

definition zeros :: "nat \<Rightarrow> mem option" where
  "zeros n = Some (replicate n 0)"

lemma zeros_malloc: "mallocs zeros"
  by (simp add: mallocs_def zeros_def)

definition sample_out :: "RTMPPacket list Rtmpout" where
  "sample_out = \<lparr>ro_state = StateLoaded, output_url = None, output_url_size = 2048, ro_rtmp = None, ro_ready = False,
     avc_dcr = new_avc_dcr, ro_asc = [0, 0], mholder = new_MemHolder, ro_sem = 0\<rparr>"

definition sample_frame :: OMX_BUFFERHEADERTYPE where
  "sample_frame = \<lparr>pBuffer = [7, 8, 9, 0], nAllocLen = 4, nFilledLen = 3, nOffset = 0, nFlags = {KEY_FRAME},
     nTimeStamp = 40000, nPortIndex = VIDEO_PORT_INDEX\<rparr>"

theorem out_sends_flv_witness:
  "sends loop_lib [] (flv_packet loop_lib [] RTMP_PACKET_TYPE_VIDEO 40 [0x17, 1, 0, 0, 0, 7, 8, 9])
    (handle_video loop_lib zeros (sample_out\<lparr>ro_rtmp := Some []\<rparr>) sample_frame)"
proof -
  have "mh_ok (mholder sample_out)" by (simp add: sample_out_def mh_ok_def new_MemHolder_def)
  moreover have "take (unat (nFilledLen sample_frame)) (pBuffer sample_frame) = [7, 8, 9]"
    by (simp add: sample_frame_def)
  moreover have "ms_of sample_frame = 40" by (simp add: ms_of_def sample_frame_def cdiv_def)
  ultimately show ?thesis
    using out_sends_flv[of "sample_out\<lparr>ro_rtmp := Some []\<rparr>" "[]" zeros sample_frame loop_lib] zeros_malloc
    by (simp add: sample_frame_def)
qed

text \<open>A sink that was given a URL and started, and a configuration of no bytes.\<close>

lemma sample_started:
  "out_reachable loop_lib zeros False (sample_out\<lparr>ro_state := StateExecuting, output_url := Some [], ro_rtmp := Some [], ro_ready := True, ro_sem := 1\<rparr>)"
proof -
  have 0: "out_reachable loop_lib zeros False sample_out"
    by (rule out_new[of "\<lambda>k. True" 0 _ 1]) (simp add: out_Constructor_def sample_out_def)
  let ?f = "\<lparr>pf_port = 0, pf_format = 0\<rparr>"
  have 1: "out_reachable loop_lib zeros False (sample_out\<lparr>output_url := Some []\<rparr>)"
    by (rule out_param[OF 0, of "\<lambda>_. ErrorNone" "\<lambda>_. ErrorNone" ?f ?f "Some (OutputUrl [])" ErrorNone _ ?f ?f])
      (simp add: out_SetParameter_def sample_out_def)
  have 2: "out_reachable loop_lib zeros False (sample_out\<lparr>output_url := Some [], ro_state := StateIdle\<rparr>)"
    using out_message[OF 1, of None "(ErrorNone, StateIdle)" "(CommandStateSet, StateIdle)"]
    by (simp add: out_MessageHandler_def stops_def sample_out_def)
  show ?thesis
    using out_message[OF 2, of "Some []" "(ErrorNone, StateExecuting)" "(CommandStateSet, StateExecuting)"]
    by (simp add: out_MessageHandler_def out_Init_def stops_def sample_out_def loop_lib_def)
qed

theorem out_session_safe_witness:
  "\<exists>c. out_reachable loop_lib zeros False c \<and> ro_ready c \<and>
     out_BufferMgmtCallback loop_lib zeros c sample_frame \<noteq> Undefined \<and>
     out_BufferMgmtCallback loop_lib zeros c
       (sample_frame\<lparr>pBuffer := [], nFilledLen := 0, nFlags := {CODECCONFIG}, nPortIndex := AUDIO_PORT_INDEX\<rparr>) = Undefined"
proof -
  have "url_in_place loop_lib" by (simp add: url_in_place_def loop_lib_def)
  note safe = out_session_safe[OF zeros_malloc this sample_started]
  have "\<not> config_fits c (sample_frame\<lparr>pBuffer := [], nFilledLen := 0, nFlags := {CODECCONFIG}, nPortIndex := AUDIO_PORT_INDEX\<rparr>)" for c
    by (simp add: config_fits_def)
  then show ?thesis
    using sample_started safe[of sample_frame]
      safe[of "sample_frame\<lparr>pBuffer := [], nFilledLen := 0, nFlags := {CODECCONFIG}, nPortIndex := AUDIO_PORT_INDEX\<rparr>"]
    by (intro exI[of _ "sample_out\<lparr>ro_state := StateExecuting, output_url := Some [], ro_rtmp := Some [], ro_ready := True, ro_sem := 1\<rparr>"])
      (simp add: sample_frame_def lets_through_def)
qed

theorem out_pause_leaks_witness:
  "\<exists>c1. out_MessageHandler loop_lib (ErrorNone, StateIdle)
     (sample_out\<lparr>ro_state := StatePause, ro_rtmp := Some [], ro_ready := True\<rparr>) (CommandStateSet, StateIdle) =
       Some (ErrorNone, c1, None) \<and> ro_rtmp c1 = Some []"
  using out_pause_leaks[of "sample_out\<lparr>ro_state := StatePause, ro_rtmp := Some [], ro_ready := True\<rparr>" "[]" loop_lib zeros]
  by auto

theorem out_parameters_witness:
  "fst (out_SetParameter (\<lambda>p. ErrorNone) (\<lambda>n. ErrorNone) (sample_out, \<lparr>pf_port = 0, pf_format = 0\<rparr>, \<lparr>pf_port = 1, pf_format = 0\<rparr>)
     (Some (AudioPortFormat \<lparr>pf_port = 1, pf_format = 5\<rparr>))) \<noteq> ErrorNone"
  using out_parameters[of "\<lambda>p. ErrorNone" "\<lambda>g. ErrorNone" "\<lambda>n. ErrorNone" "[]"
      "(sample_out, \<lparr>pf_port = 0, pf_format = 0\<rparr>, \<lparr>pf_port = 1, pf_format = 0\<rparr>)" "\<lparr>pf_port = 1, pf_format = 5\<rparr>"]
  by (auto split: prod.splits)

end
