(* ===== verification/AmfHeap.thy ===== *)
theory AmfHeap
  imports Rtmpsrc "HOL-Library.Multiset"
begin

text \<open>
  The memory behind \<open>parse_amf\<close> (\<open>xamf.cc\<close>): every \<open>new\<close> and \<open>calloc\<close> of the readers, their error
  paths, and \<open>free_amf\<close> with the functions it calls. Blocks are numbers; the heap is the set of
  those that are allocated, and freeing any other is \<open>None\<close>. The readers here return the same as
  those of theory \<open>Amf\<close>, and what they return owns exactly the blocks they leave allocated.
\<close>

section \<open>Blocks\<close>

record heap =
  h_live :: "nat set"
  h_next :: nat

definition new_block :: "heap \<Rightarrow> nat \<times> heap" where
  "new_block h = (h_next h, h\<lparr>h_live := insert (h_next h) (h_live h), h_next := Suc (h_next h)\<rparr>)"

definition free_block :: "nat \<Rightarrow> heap \<Rightarrow> heap option" where
  "free_block b h = (if b \<in> h_live h then Some (h\<lparr>h_live := h_live h - {b}\<rparr>) else None)"

text \<open>
  \<open>struct AMF\<close> with the block it is in, the string, vector and list heads it points to with theirs
  (\<open>None\<close> for \<open>NULL\<close>), and the type bytes no reader exists for, \<open>AMF_TYPE_END\<close> among them.
\<close>

datatype hamf = HAmf nat hval
  and hval =
    HNumber u64
  | HBool u8
  | HString "(nat \<times> amf_string) option"
  | HObject "nat option" "hitem list"
  | HNull
  | HUndefined
  | HUnsupported
  | HAssoc u32 "nat option" "hitem list"
  | HArray u32 "nat option" "helem list"
  | HDate u64 u16
  | HOther u8
  and hitem = HItem nat hamf "hamf list"
  and helem = HElem nat "hamf list"

abbreviation (input) AMF_TYPE_END :: u8 where "AMF_TYPE_END \<equiv> 0x0E"

section \<open>Freeing\<close>

definition free_amf_string :: "(nat \<times> amf_string) option \<Rightarrow> heap \<Rightarrow> heap option" where
  "free_amf_string amfstr h = (case amfstr of None \<Rightarrow> Some h | Some (b, s) \<Rightarrow> free_block b h)"

fun free_amf :: "hamf \<Rightarrow> heap \<Rightarrow> heap option"
  and free_val :: "hval \<Rightarrow> heap \<Rightarrow> heap option"
  and free_amf_list :: "hamf list \<Rightarrow> heap \<Rightarrow> heap option"
  and delete_item :: "hitem \<Rightarrow> heap \<Rightarrow> heap option"
  and free_items :: "hitem list \<Rightarrow> heap \<Rightarrow> heap option"
  and free_elem :: "helem \<Rightarrow> heap \<Rightarrow> heap option"
  and free_elems :: "helem list \<Rightarrow> heap \<Rightarrow> heap option"
where
  "free_amf (HAmf a v) h = do { h \<leftarrow> free_val v h; free_block a h }"
| "free_val (HString s) h = free_amf_string s h"
| "free_val (HObject arr its) h =
     (case arr of None \<Rightarrow> Some h | Some v \<Rightarrow> do { h \<leftarrow> free_items its h; free_block v h })"
| "free_val (HAssoc sz arr its) h =
     (case arr of None \<Rightarrow> Some h | Some v \<Rightarrow> do { h \<leftarrow> free_items its h; free_block v h })"
| "free_val (HArray sz arr es) h =
     (case arr of None \<Rightarrow> Some h | Some v \<Rightarrow> do { h \<leftarrow> free_elems es h; free_block v h })"
| "free_val _ h = Some h"
| "free_amf_list [] h = Some h"
| "free_amf_list (x # xs) h = do { h \<leftarrow> free_amf x h; free_amf_list xs h }"
| "delete_item (HItem i x xs) h = do { h \<leftarrow> free_amf x h; h \<leftarrow> free_amf_list xs h; free_block i h }"
| "free_items [] h = Some h"
| "free_items (x # xs) h = do { h \<leftarrow> delete_item x h; free_items xs h }"
| "free_elem (HElem e xs) h = do { h \<leftarrow> free_amf_list xs h; free_block e h }"
| "free_elems [] h = Some h"
| "free_elems (x # xs) h = do { h \<leftarrow> free_elem x h; free_elems xs h }"

text \<open>The cases of containers, which the error paths call by themselves.\<close>

definition free_amf_typobj :: "nat option \<Rightarrow> hitem list \<Rightarrow> heap \<Rightarrow> heap option" where
  "free_amf_typobj arr its h = free_val (HObject arr its) h"

definition free_amf_associate_array :: "nat option \<Rightarrow> hitem list \<Rightarrow> heap \<Rightarrow> heap option" where
  "free_amf_associate_array arr its h = free_val (HAssoc 0 arr its) h"

definition free_amf_arr :: "nat option \<Rightarrow> helem list \<Rightarrow> heap \<Rightarrow> heap option" where
  "free_amf_arr arr es h = free_val (HArray 0 arr es) h"

section \<open>Parsing\<close>

text \<open>What a reader leaves on success and on failure, the heap included.\<close>

datatype 'a houtcome = HRet 'a nat heap | HErr 'a nat heap | HUB | HFuel

text \<open>A reader that allocates nothing.\<close>

definition plain :: "hval \<Rightarrow> ('a \<Rightarrow> hval) \<Rightarrow> 'a outcome \<Rightarrow> heap \<Rightarrow> hval houtcome" where
  "plain d f r h = (case r of Ret v q \<Rightarrow> HRet (f v) q h | Err q \<Rightarrow> HErr d q h | UB \<Rightarrow> HUB | OutOfFuel \<Rightarrow> HFuel)"

definition get_string_heap :: "mem \<Rightarrow> nat \<Rightarrow> u32 \<Rightarrow> heap \<Rightarrow> hval houtcome" where
  "get_string_heap m p len h =
     (case get_amf_string m p len of
        Ret s q \<Rightarrow> (let (b, h) = new_block h in HRet (HString (Some (b, s))) q h)
      | Err q \<Rightarrow> HErr (HString None) q h
      | UB \<Rightarrow> HUB
      | OutOfFuel \<Rightarrow> HFuel)"

text \<open>\<open>new ArrayItem\<close>: the item and its first value.\<close>

definition new_item :: "heap \<Rightarrow> nat \<times> nat \<times> heap" where
  "new_item h = (let (i, h) = new_block h; (f, h) = new_block h in (i, f, h))"

text \<open>The item is deleted before the loop is left.\<close>

definition drop_item :: "hitem \<Rightarrow> 'a houtcome \<Rightarrow> 'a houtcome" where
  "drop_item it r =
     (case r of HErr x q h \<Rightarrow> (case delete_item it h of None \<Rightarrow> HUB | Some h \<Rightarrow> HErr x q h)
      | HRet x q h \<Rightarrow> (case delete_item it h of None \<Rightarrow> HUB | Some h \<Rightarrow> HRet x q h)
      | _ \<Rightarrow> r)"

text \<open>The end of \<open>parse_amf\<close>: the value in its list, or \<open>bail\<close>.\<close>

definition linked :: "nat \<Rightarrow> hval houtcome \<Rightarrow> hamf list houtcome" where
  "linked a r =
     (case r of HRet v q h \<Rightarrow> HRet [HAmf a v] q h
      | HErr v q h \<Rightarrow> (case free_amf (HAmf a v) h of None \<Rightarrow> HUB | Some h \<Rightarrow> HErr [] q h)
      | HUB \<Rightarrow> HUB
      | HFuel \<Rightarrow> HFuel)"

text \<open>
  The end of \<open>get_amf_typobj\<close>: an error frees the items and the vector and sets its pointer to
  \<open>NULL\<close>. \<open>get_amf_associate_array\<close> first asks for the end mark, \<open>get_amf_array\<close> has its own elements.
\<close>

definition typobj_end :: "nat \<Rightarrow> hitem list houtcome \<Rightarrow> hval houtcome" where
  "typobj_end v r =
     (case r of HRet its q h \<Rightarrow> HRet (HObject (Some v) its) q h
      | HErr its q h \<Rightarrow> (case free_amf_typobj (Some v) its h of None \<Rightarrow> HUB | Some h \<Rightarrow> HErr (HObject None []) q h)
      | HUB \<Rightarrow> HUB
      | HFuel \<Rightarrow> HFuel)"

definition assoc_end :: "mem \<Rightarrow> u32 \<Rightarrow> nat \<Rightarrow> u32 \<Rightarrow> nat \<Rightarrow> hitem list houtcome \<Rightarrow> hval houtcome" where
  "assoc_end m l savep sz v r =
     (let failed = (\<lambda>its q h. case free_amf_associate_array (Some v) its h of None \<Rightarrow> HUB | Some h \<Rightarrow> HErr (HAssoc sz None []) q h)
      in case r of
        HRet its q h \<Rightarrow>
          (case get_amf_obj_end m q (rem l q savep) of
             Ret _ s \<Rightarrow> HRet (HAssoc sz (Some v) its) s h
           | Err s \<Rightarrow> failed its s h
           | UB \<Rightarrow> HUB
           | OutOfFuel \<Rightarrow> HFuel)
      | HErr its q h \<Rightarrow> failed its q h
      | HUB \<Rightarrow> HUB
      | HFuel \<Rightarrow> HFuel)"

definition array_end :: "u32 \<Rightarrow> nat \<Rightarrow> helem list houtcome \<Rightarrow> hval houtcome" where
  "array_end sz v r =
     (case r of HRet es q h \<Rightarrow> HRet (HArray sz (Some v) es) q h
      | HErr es q h \<Rightarrow> (case free_amf_arr (Some v) es h of None \<Rightarrow> HUB | Some h \<Rightarrow> HErr (HArray sz None []) q h)
      | HUB \<Rightarrow> HUB
      | HFuel \<Rightarrow> HFuel)"

function (sequential) parse_heap :: "nat \<Rightarrow> mem \<Rightarrow> nat \<Rightarrow> u32 \<Rightarrow> heap \<Rightarrow> hamf list houtcome"
  and typobj_heap :: "nat \<Rightarrow> mem \<Rightarrow> nat \<Rightarrow> nat \<Rightarrow> u32 \<Rightarrow> hitem list \<Rightarrow> heap \<Rightarrow> hitem list houtcome"
  and assoc_heap :: "nat \<Rightarrow> nat \<Rightarrow> mem \<Rightarrow> nat \<Rightarrow> nat \<Rightarrow> u32 \<Rightarrow> hitem list \<Rightarrow> heap \<Rightarrow> hitem list houtcome"
  and array_heap :: "nat \<Rightarrow> nat \<Rightarrow> mem \<Rightarrow> nat \<Rightarrow> nat \<Rightarrow> u32 \<Rightarrow> helem list \<Rightarrow> heap \<Rightarrow> helem list houtcome"
where
  "parse_heap 0 m p len h = HFuel"
| "parse_heap (Suc fuel) m p len h =
     (if len = 0 then HRet [] p h
      else case rd8 m p of None \<Rightarrow> HUB
      | Some typ \<Rightarrow>
         (let (a, h) = new_block h; q = p + 1; l = rem len q p in
          linked a
           (if typ = 0x00 then plain (HNumber 0) HNumber (get_amf_number m q l) h
            else if typ = 0x01 then plain (HBool 0) HBool (get_amf_bool m q l) h
            else if typ = 0x02 then get_string_heap m q l h
            else if typ = 0x03 then
              (let (v, h) = new_block h in typobj_end v (typobj_heap fuel m q q l [] h))
            else if typ = 0x08 then
              (case get_be32 m q of None \<Rightarrow> HUB
               | Some (sz, r) \<Rightarrow>
                   (let (v, h) = new_block h in assoc_end m l q sz v (assoc_heap fuel (unat sz) m q r l [] h)))
            else if typ = 0x0A then
              (let (v, h) = new_block h in
               case get_be32 m q of None \<Rightarrow> HUB
               | Some (sz, r) \<Rightarrow> array_end sz v (array_heap fuel (unat sz) m q r l [] h))
            else if typ = 0x05 then HRet HNull q h
            else if typ = 0x06 then HRet HUndefined q h
            else if typ = 0x0D then HRet HUnsupported q h
            else if typ = 0x0B then plain (HDate 0 0) (\<lambda>(ms, tz). HDate ms tz) (get_amf_date m q l) h
            else HErr (HOther typ) q h)))"
| "typobj_heap 0 m savep p len acc h = HFuel"
| "typobj_heap (Suc fuel) m savep p len acc h =
     (let (i, f, h) = new_item h in
      case get_string_heap m p (rem len p savep) h of
        HErr _ q h \<Rightarrow> drop_item (HItem i (HAmf f (HOther AMF_TYPE_END)) []) (HErr acc q h)
      | HRet key q h \<Rightarrow>
          (let item = HItem i (HAmf f key);
               value = (\<lambda>_::unit.
                 case parse_heap fuel m q (rem len q savep) h of
                   HErr vs r h \<Rightarrow> drop_item (item vs) (HErr acc r h)
                 | HRet vs r h \<Rightarrow> typobj_heap fuel m savep r len (acc @ [item vs]) h
                 | HUB \<Rightarrow> HUB
                 | HFuel \<Rightarrow> HFuel)
           in if (case key of HString (Some (_, s)) \<Rightarrow> fst s = 0 | _ \<Rightarrow> False)
              then (case rd8 m q of None \<Rightarrow> HUB
                    | Some b \<Rightarrow> if b = 0x09 then drop_item (item []) (HRet acc (q + 1) h) else value ())
              else value ())
      | HUB \<Rightarrow> HUB
      | HFuel \<Rightarrow> HFuel)"
| "assoc_heap fuel 0 m savep p len acc h = HRet acc p h"
| "assoc_heap fuel (Suc n) m savep p len acc h =
     (let (i, f, h) = new_item h in
      case get_string_heap m p (rem len p savep) h of
        HErr _ q h \<Rightarrow> drop_item (HItem i (HAmf f (HOther AMF_TYPE_END)) []) (HErr acc q h)
      | HRet key q h \<Rightarrow>
          (case parse_heap fuel m q (rem len q savep) h of
             HErr vs r h \<Rightarrow> drop_item (HItem i (HAmf f key) vs) (HErr acc r h)
           | HRet vs r h \<Rightarrow> assoc_heap fuel n m savep r len (acc @ [HItem i (HAmf f key) vs]) h
           | HUB \<Rightarrow> HUB
           | HFuel \<Rightarrow> HFuel)
      | HUB \<Rightarrow> HUB
      | HFuel \<Rightarrow> HFuel)"
| "array_heap fuel 0 m savep p len acc h = HRet acc p h"
| "array_heap fuel (Suc n) m savep p len acc h =
     (let (e, h) = new_block h in
      case parse_heap fuel m p (rem len p savep) h of
        HErr vs r h \<Rightarrow> (case free_block e h of None \<Rightarrow> HUB | Some h \<Rightarrow> HErr acc r h)
      | HRet vs r h \<Rightarrow> array_heap fuel n m savep r len (acc @ [HElem e vs]) h
      | HUB \<Rightarrow> HUB
      | HFuel \<Rightarrow> HFuel)"
  by pat_completeness auto
termination
  by (relation "measures
      [\<lambda>x. case x of Inl (Inl (f, _)) \<Rightarrow> f | Inl (Inr (f, _)) \<Rightarrow> f | Inr (Inl (f, _)) \<Rightarrow> f
             | Inr (Inr (f, _)) \<Rightarrow> f,
       \<lambda>x. case x of Inl (Inl _) \<Rightarrow> 0 | Inl (Inr _) \<Rightarrow> 1 | Inr (Inl (_, n, _)) \<Rightarrow> Suc n
             | Inr (Inr (_, n, _)) \<Rightarrow> Suc n]") auto

lemmas heap_loops = parse_heap.simps(2) typobj_heap.simps(2)

declare heap_loops [simp del]

definition parse_amf_heap :: "mem \<Rightarrow> nat \<Rightarrow> u32 \<Rightarrow> heap \<Rightarrow> hamf list houtcome" where
  "parse_amf_heap m p len h = parse_heap (Suc (length m)) m p len h"

section \<open>Ownership\<close>

text \<open>The blocks of a value, in the order they are freed, and the value without them.\<close>

fun blocks_amf :: "hamf \<Rightarrow> nat list"
  and blocks_val :: "hval \<Rightarrow> nat list"
  and blocks_item :: "hitem \<Rightarrow> nat list"
  and blocks_elem :: "helem \<Rightarrow> nat list"
where
  "blocks_amf (HAmf a v) = blocks_val v @ [a]"
| "blocks_val (HString (Some (b, s))) = [b]"
| "blocks_val (HObject (Some v) its) = concat (map blocks_item its) @ [v]"
| "blocks_val (HAssoc sz (Some v) its) = concat (map blocks_item its) @ [v]"
| "blocks_val (HArray sz (Some v) es) = concat (map blocks_elem es) @ [v]"
| "blocks_val _ = []"
| "blocks_item (HItem i x xs) = blocks_amf x @ concat (map blocks_amf xs) @ [i]"
| "blocks_elem (HElem e xs) = concat (map blocks_amf xs) @ [e]"

abbreviation blocks :: "hamf list \<Rightarrow> nat list" where
  "blocks vs \<equiv> concat (map blocks_amf vs)"

definition string_of :: "hamf \<Rightarrow> amf_string" where
  "string_of x = (case x of HAmf a (HString (Some (b, s))) \<Rightarrow> s | _ \<Rightarrow> (0, []))"

fun erase :: "hamf \<Rightarrow> amf"
  and erase_item :: "hitem \<Rightarrow> amf_item"
  and erase_elem :: "helem \<Rightarrow> amf list"
where
  "erase (HAmf a (HNumber v)) = AmfNumber v"
| "erase (HAmf a (HBool v)) = AmfBool v"
| "erase (HAmf a (HString s)) = AmfString (string_of (HAmf a (HString s)))"
| "erase (HAmf a (HObject arr its)) = AmfObject (map erase_item its)"
| "erase (HAmf a HNull) = AmfNull"
| "erase (HAmf a HUndefined) = AmfUndefined"
| "erase (HAmf a HUnsupported) = AmfUnsupported"
| "erase (HAmf a (HAssoc sz arr its)) = AmfAssoc sz (map erase_item its)"
| "erase (HAmf a (HArray sz arr es)) = AmfArray sz (map erase_elem es)"
| "erase (HAmf a (HDate ms tz)) = AmfDate ms tz"
| "erase (HAmf a (HOther t)) = AmfNull"
| "erase_item (HItem i x xs) = (string_of x, map erase xs)"
| "erase_elem (HElem e xs) = map erase xs"

primrec free_all :: "nat list \<Rightarrow> heap \<Rightarrow> heap option" where
  "free_all [] h = Some h"
| "free_all (b # bs) h = do { h \<leftarrow> free_block b h; free_all bs h }"

lemma free_all_append: "free_all (bs @ cs) h = Option.bind (free_all bs h) (free_all cs)"
  by (induction bs arbitrary: h) (auto split: bind_splits)

lemma free_all_single: "free_all [b] h = free_block b h"
  by (cases "free_block b h") auto

lemma free_is_free_all:
  "free_amf x h = free_all (blocks_amf x) h"
  "free_val v h = free_all (blocks_val v) h"
  "free_amf_list xs h = free_all (blocks xs) h"
  "delete_item it h = free_all (blocks_item it) h"
  "free_items its h = free_all (concat (map blocks_item its)) h"
  "free_elem e h = free_all (blocks_elem e) h"
  "free_elems es h = free_all (concat (map blocks_elem es)) h"
proof (induction x h and v h and xs h and it h and its h and e h and es h
    rule: free_amf_free_val_free_amf_list_delete_item_free_items_free_elem_free_elems.induct)
  case (2 s h)
  then show ?case by (auto simp: free_amf_string_def free_all_single split: option.splits)
qed (auto simp: free_all_append free_all_single Option.bind_assoc split: option.splits bind_splits)

text \<open>\<open>grows h bs h'\<close>: the heap \<open>h'\<close> is \<open>h\<close> with the new blocks \<open>bs\<close>.\<close>

definition heap_ok :: "heap \<Rightarrow> bool" where
  "heap_ok h \<longleftrightarrow> (\<forall>b \<in> h_live h. b < h_next h)"

definition grows :: "heap \<Rightarrow> nat list \<Rightarrow> heap \<Rightarrow> bool" where
  "grows h bs h' \<longleftrightarrow> heap_ok h \<and> h_next h \<le> h_next h' \<and> distinct bs \<and> (\<forall>b \<in> set bs. h_next h \<le> b \<and> b < h_next h') \<and>
     h_live h' = h_live h \<union> set bs"

lemma grows_ok: "grows h bs h' \<Longrightarrow> heap_ok h'"
  by (auto simp: grows_def heap_ok_def)

lemma grows_refl: "heap_ok h \<Longrightarrow> grows h [] h"
  by (simp add: grows_def)

lemma grows_perm:
  assumes "grows h bs h'" "mset bs = mset cs"
  shows "grows h cs h'"
  using assms(1) mset_eq_setD[OF assms(2)] mset_eq_imp_distinct_iff[OF assms(2)] by (simp add: grows_def)

lemma grows_trans:
  assumes "grows h bs h'" "grows h' cs h''"
  shows "grows h (bs @ cs) h''"
proof -
  have "b < h_next h'" "h_next h \<le> b" "b < h_next h''" if "b \<in> set bs" for b
    using assms that by (auto simp: grows_def intro: less_le_trans)
  moreover have "h_next h' \<le> c" "h_next h \<le> c" "c < h_next h''" if "c \<in> set cs" for c
    using assms that by (auto simp: grows_def intro: le_trans)
  moreover have "set bs \<inter> set cs = {}"
    using assms unfolding grows_def by (metis disjoint_iff leD)
  ultimately show ?thesis using assms by (simp add: grows_def Un_assoc ball_Un)
qed

lemma grows_new: "heap_ok h \<Longrightarrow> new_block h = (b, h') \<Longrightarrow> grows h [b] h'"
  by (auto simp: grows_def new_block_def heap_ok_def)

lemma free_all_ok:
  "distinct bs \<Longrightarrow> set bs \<subseteq> h_live h \<Longrightarrow> free_all bs h = Some (h\<lparr>h_live := h_live h - set bs\<rparr>)"
proof (induction bs arbitrary: h)
  case (Cons b bs)
  let ?h = "h\<lparr>h_live := h_live h - {b}\<rparr>"
  have "free_block b h = Some ?h" using Cons.prems by (simp add: free_block_def)
  moreover have "set bs \<subseteq> h_live ?h" "distinct bs" using Cons.prems by auto
  moreover have "?h\<lparr>h_live := h_live ?h - set bs\<rparr> = h\<lparr>h_live := h_live h - set (b # bs)\<rparr>" by (simp add: set_diff_eq)
  ultimately show ?case using Cons.IH[of ?h] by (simp only: free_all.simps Option.bind.bind_lunit simp_thms)
qed simp

text \<open>Of what was allocated some is freed again.\<close>

lemma grows_free:
  assumes "grows h (bs @ cs) h'"
  obtains h'' where "free_all cs h' = Some h''" "grows h bs h''"
proof
  show "free_all cs h' = Some (h'\<lparr>h_live := h_live h' - set cs\<rparr>)"
    using assms by (intro free_all_ok) (auto simp: grows_def)
  have "b \<notin> set cs" if "b \<in> h_live h" for b using assms that by (auto simp: grows_def heap_ok_def dest: leD)
  then have "h_live h' - set cs = h_live h \<union> set bs" using assms by (auto simp: grows_def)
  then show "grows h bs (h'\<lparr>h_live := h_live h' - set cs\<rparr>)"
    using assms by (simp add: grows_def)
qed

section \<open>The readers agree\<close>

text \<open>Same outcome, same pointer; and the heap has grown by the blocks of what is returned.\<close>

definition agrees :: "('a \<Rightarrow> 'b) \<Rightarrow> ('a \<Rightarrow> nat list) \<Rightarrow> heap \<Rightarrow> 'a houtcome \<Rightarrow> 'b outcome \<Rightarrow> bool" where
  "agrees e bl h x y =
     (case x of HRet v q h' \<Rightarrow> y = Ret (e v) q \<and> grows h (bl v) h'
      | HErr v q h' \<Rightarrow> y = Err q \<and> grows h (bl v) h'
      | HUB \<Rightarrow> y = UB
      | HFuel \<Rightarrow> y = OutOfFuel)"

lemma agrees_simps [simp]:
  "agrees e bl h (HRet v q h') y \<longleftrightarrow> y = Ret (e v) q \<and> grows h (bl v) h'"
  "agrees e bl h (HErr v q h') y \<longleftrightarrow> y = Err q \<and> grows h (bl v) h'"
  "agrees e bl h HUB y \<longleftrightarrow> y = UB"
  "agrees e bl h HFuel y \<longleftrightarrow> y = OutOfFuel"
  by (auto simp: agrees_def)

abbreviation agrees_val :: "nat \<Rightarrow> heap \<Rightarrow> hval houtcome \<Rightarrow> amf list outcome \<Rightarrow> bool" where
  "agrees_val a \<equiv> agrees (\<lambda>v. [erase (HAmf a v)]) blocks_val"

abbreviation items_blocks :: "hitem list \<Rightarrow> nat list" where
  "items_blocks its \<equiv> concat (map blocks_item its)"

abbreviation elems_blocks :: "helem list \<Rightarrow> nat list" where
  "elems_blocks es \<equiv> concat (map blocks_elem es)"

lemma linked_agrees:
  assumes "grows h [a] h1" "agrees_val a h1 r y"
  shows "agrees (map erase) blocks h (linked a r) y"
proof (cases r)
  case (HRet v q h2)
  then have "grows h ([a] @ blocks_val v) h2" using grows_trans[OF assms(1)] assms(2) by simp
  then have "grows h (blocks_val v @ [a]) h2" by (rule grows_perm) simp
  then show ?thesis using HRet assms(2) by (simp add: linked_def)
next
  case (HErr v q h2)
  then have "grows h ([a] @ blocks_val v) h2" using grows_trans[OF assms(1)] assms(2) by simp
  then have "grows h ([] @ blocks_amf (HAmf a v)) h2" by (rule grows_perm) simp
  then obtain h3 where "free_all (blocks_amf (HAmf a v)) h2 = Some h3" "grows h [] h3" by (rule grows_free)
  then show ?thesis using HErr assms(2) by (simp add: linked_def free_is_free_all(1))
qed (use assms(2) in \<open>simp_all add: linked_def\<close>)

lemma plain_agrees:
  assumes "heap_ok h" "blocks_val d = []" "\<And>v. blocks_val (f v) = []" "\<And>v. g v = [erase (HAmf a (f v))]"
  shows "agrees_val a h (plain d f r h) (omap g r)"
  using assms by (cases r) (simp_all add: plain_def grows_refl)

lemma string_agrees:
  assumes "heap_ok h"
  shows "agrees (\<lambda>v. string_of (HAmf a v)) blocks_val h (get_string_heap m p len h) (get_amf_string m p len)"
  using grows_new[OF assms] assms
  by (cases "get_amf_string m p len") (auto simp: get_string_heap_def string_of_def grows_refl split: prod.splits)

lemma string_heap_val: "get_string_heap m p len h = HRet v q h' \<Longrightarrow> \<exists>b s. v = HString (Some (b, s))"
  "get_string_heap m p len h = HErr v q h' \<Longrightarrow> v = HString None"
  by (auto simp: get_string_heap_def split: outcome.splits prod.splits)

text \<open>A vector and what its loop made.\<close>

lemma free_after:
  assumes "grows h [v] h1" "grows h1 bs h2"
  obtains h3 where "free_all (bs @ [v]) h2 = Some h3" "grows h [] h3"
proof -
  have "grows h ([v] @ bs) h2" by (rule grows_trans[OF assms])
  then have "grows h ([] @ bs @ [v]) h2" by (rule grows_perm) simp
  then show ?thesis using that by (rule grows_free)
qed

lemma keep_after:
  assumes "grows h [v] h1" "grows h1 bs h2"
  shows "grows h (bs @ [v]) h2"
  by (rule grows_perm[OF grows_trans[OF assms]]) simp

lemma typobj_end_agrees:
  assumes "grows h [v] h1" "agrees (map erase_item) items_blocks h1 r y"
  shows "agrees_val a h (typobj_end v r) (omap (\<lambda>its. [AmfObject its]) y)"
proof (cases r)
  case (HErr its q h2)
  then have y: "y = Err q" "grows h1 (items_blocks its) h2" using assms(2) by simp_all
  obtain h3 where "free_all (items_blocks its @ [v]) h2 = Some h3" "grows h [] h3" by (rule free_after[OF assms(1) y(2)])
  then show ?thesis using HErr y(1) by (simp add: typobj_end_def free_amf_typobj_def free_is_free_all(2) del: free_val.simps)
qed (use assms keep_after[OF assms(1)] in \<open>simp_all add: typobj_end_def\<close>)

lemma array_end_agrees:
  assumes "grows h [v] h1" "agrees (map erase_elem) elems_blocks h1 r y"
  shows "agrees_val a h (array_end sz v r) (omap (\<lambda>arr. [AmfArray sz arr]) y)"
proof (cases r)
  case (HErr es q h2)
  then have y: "y = Err q" "grows h1 (elems_blocks es) h2" using assms(2) by simp_all
  obtain h3 where "free_all (elems_blocks es @ [v]) h2 = Some h3" "grows h [] h3" by (rule free_after[OF assms(1) y(2)])
  then show ?thesis using HErr y(1) by (simp add: array_end_def free_amf_arr_def free_is_free_all(2) del: free_val.simps)
qed (use assms keep_after[OF assms(1)] in \<open>simp_all add: array_end_def\<close>)

lemma assoc_end_agrees:
  assumes "grows h [v] h1" "agrees (map erase_item) items_blocks h1 r y"
  shows "agrees_val a h (assoc_end m l savep sz v r)
    (obind y (\<lambda>arr s. omap (\<lambda>_. [AmfAssoc sz arr]) (get_amf_obj_end m s (rem l s savep))))"
proof -
  have fail: "\<exists>h3. free_amf_associate_array (Some v) its h2 = Some h3 \<and> grows h [] h3" if "grows h1 (items_blocks its) h2" for its h2
    using free_after[OF assms(1) that] unfolding free_amf_associate_array_def free_is_free_all(2) by (metis blocks_val.simps(3))
  show ?thesis
  proof (cases r)
    case (HRet its q h2)
    then have g: "y = Ret (map erase_item its) q" "grows h1 (items_blocks its) h2" using assms(2) by simp_all
    obtain h3 where "free_amf_associate_array (Some v) its h2 = Some h3" "grows h [] h3" using fail[OF g(2)] by blast
    then show ?thesis using HRet g keep_after[OF assms(1) g(2)]
      by (cases "get_amf_obj_end m q (rem l q savep)") (simp_all add: assoc_end_def)
  next
    case (HErr its q h2)
    then have g: "y = Err q" "grows h1 (items_blocks its) h2" using assms(2) by simp_all
    obtain h3 where "free_amf_associate_array (Some v) its h2 = Some h3" "grows h [] h3" using fail[OF g(2)] by blast
    then show ?thesis using HErr g by (simp add: assoc_end_def)
  qed (use assms(2) in \<open>simp_all add: assoc_end_def\<close>)
qed

text \<open>A step of a loop: the item, its key, its values.\<close>

lemma grows_item:
  assumes "grows h0 bs h" "new_item h = (i, f, h1)"
  shows "grows h0 (bs @ [f, i]) h1"
proof -
  obtain h' where h': "new_block h = (i, h')" "new_block h' = (f, h1)"
    using assms(2) by (auto simp: new_item_def Let_def split: prod.splits)
  have "grows h ([i] @ [f]) h1"
    by (rule grows_trans[OF grows_new[OF grows_ok[OF assms(1)] h'(1)] grows_new[OF grows_ok h'(2)]])
      (rule grows_new[OF grows_ok[OF assms(1)] h'(1)])
  then show ?thesis by (rule grows_perm[OF grows_trans[OF assms(1)]]) simp
qed

lemma drop_item_grows:
  assumes "grows h0 bs h" "mset bs = mset (cs @ blocks_item it)"
  obtains h' where "drop_item it (HErr x q h) = HErr x q h'" "drop_item it (HRet x q h) = HRet x q h'" "grows h0 cs h'"
proof -
  have "grows h0 (cs @ blocks_item it) h" by (rule grows_perm[OF assms])
  then obtain h' where "free_all (blocks_item it) h = Some h'" "grows h0 cs h'" by (rule grows_free)
  then show ?thesis using that by (simp add: drop_item_def free_is_free_all(4))
qed

definition parse_agrees :: "nat \<Rightarrow> bool" where
  "parse_agrees fuel \<longleftrightarrow> (\<forall>m p len h. heap_ok h \<longrightarrow>
     agrees (map erase) blocks h (parse_heap fuel m p len h) (parse_amf_f fuel m p len))"

definition typobj_agrees :: "nat \<Rightarrow> bool" where
  "typobj_agrees fuel \<longleftrightarrow> (\<forall>m savep p len acc h0 h. grows h0 (items_blocks acc) h \<longrightarrow>
     agrees (map erase_item) items_blocks h0 (typobj_heap fuel m savep p len acc h)
       (typobj_loop fuel m savep p len (map erase_item acc)))"

lemma parse_heap_err: "parse_heap fuel m p len h = HErr vs q h' \<Longrightarrow> vs = []"
  by (cases fuel) (auto simp: heap_loops linked_def Let_def split: if_splits option.splits prod.splits houtcome.splits)

lemma array_agrees:
  assumes "parse_agrees fuel" "grows h0 (elems_blocks acc) h"
  shows "agrees (map erase_elem) elems_blocks h0 (array_heap fuel n m savep p len acc h)
    (array_loop fuel n m savep p len (map erase_elem acc))"
  using assms(2)
proof (induction n arbitrary: p acc h)
  case (Suc n)
  obtain e h1 where e: "new_block h = (e, h1)" by fastforce
  note g1 = grows_trans[OF Suc.prems grows_new[OF grows_ok[OF Suc.prems] e]]
  have a: "agrees (map erase) blocks h1 (parse_heap fuel m p (rem len p savep) h1) (parse_amf_f fuel m p (rem len p savep))"
    using assms(1) grows_ok[OF g1] by (simp add: parse_agrees_def)
  show ?case
  proof (cases "parse_heap fuel m p (rem len p savep) h1")
    case (HRet vs r h2)
    then have "grows h0 ((elems_blocks acc @ [e]) @ blocks vs) h2" using a grows_trans[OF g1] by simp
    then have "grows h0 (elems_blocks (acc @ [HElem e vs])) h2" by (rule grows_perm) simp
    then show ?thesis using Suc.IH[of "acc @ [HElem e vs]" h2 r] a e HRet by simp
  next
    case (HErr vs r h2)
    then have g2: "grows h0 (elems_blocks acc @ [e]) h2" using a grows_trans[OF g1] parse_heap_err by fastforce
    obtain h3 where "free_all [e] h2 = Some h3" "grows h0 (elems_blocks acc) h3" by (rule grows_free[OF g2])
    then show ?thesis using a e HErr by (simp add: free_all_single del: free_all.simps)
  qed (use a e in simp_all)
qed simp

lemma key_cases:
  assumes "grows h0 bs h" "new_item h = (i, f, h1)"
  obtains (bad) "get_string_heap m p l h1 = HUB" "get_amf_string m p l = UB"
  | (fail) q h2 h3 where "get_string_heap m p l h1 = HErr (HString None) q h2" "get_amf_string m p l = Err q"
      "drop_item (HItem i (HAmf f (HOther AMF_TYPE_END)) []) (HErr x q h2) = HErr x q h3" "grows h0 bs h3"
  | (key) b s q h2 where "get_string_heap m p l h1 = HRet (HString (Some (b, s))) q h2" "get_amf_string m p l = Ret s q"
      "grows h0 (bs @ blocks_item (HItem i (HAmf f (HString (Some (b, s)))) [])) h2"
proof -
  note g1 = grows_item[OF assms]
  have a: "agrees (\<lambda>v. string_of (HAmf 0 v)) blocks_val h1 (get_string_heap m p l h1) (get_amf_string m p l)"
    by (rule string_agrees[OF grows_ok[OF g1]])
  show thesis
  proof (cases "get_string_heap m p l h1")
    case (HRet v q h2)
    then obtain b s where v: "v = HString (Some (b, s))" using string_heap_val(1) by blast
    then have "get_amf_string m p l = Ret s q" "grows h0 ((bs @ [f, i]) @ [b]) h2"
      using a HRet grows_trans[OF g1] by (simp_all add: string_of_def)
    moreover from this(2) have "grows h0 (bs @ blocks_item (HItem i (HAmf f v) [])) h2" by (rule grows_perm) (simp add: v)
    ultimately show thesis using key HRet v by blast
  next
    case (HErr v q h2)
    then have v: "v = HString None" by (rule string_heap_val(2))
    then have g2: "get_amf_string m p l = Err q" "grows h0 (bs @ [f, i]) h2"
      using a HErr grows_trans[OF g1, of "[]" h2] by simp_all
    obtain h3 where "drop_item (HItem i (HAmf f (HOther AMF_TYPE_END)) []) (HErr x q h2) = HErr x q h3" "grows h0 bs h3"
      by (rule drop_item_grows[OF g2(2), of bs "HItem i (HAmf f (HOther AMF_TYPE_END)) []"]) simp_all
    then show thesis using fail HErr v g2(1) by blast
  next
    case HUB
    then show thesis using bad a by simp
  next
    case HFuel
    then show thesis using a by simp
  qed
qed

lemma value_cases:
  assumes "parse_agrees fuel" "grows h0 (bs @ blocks_item (HItem i x [])) h"
  obtains (bad) "parse_heap fuel m p l h = HUB" "parse_amf_f fuel m p l = UB"
  | (fuel) "parse_heap fuel m p l h = HFuel" "parse_amf_f fuel m p l = OutOfFuel"
  | (fail) q h2 h3 where "parse_heap fuel m p l h = HErr [] q h2" "parse_amf_f fuel m p l = Err q"
      "drop_item (HItem i x []) (HErr y q h2) = HErr y q h3" "grows h0 bs h3"
  | (val) vs q h2 where "parse_heap fuel m p l h = HRet vs q h2" "parse_amf_f fuel m p l = Ret (map erase vs) q"
      "grows h0 (bs @ blocks_item (HItem i x vs)) h2"
proof -
  have a: "agrees (map erase) blocks h (parse_heap fuel m p l h) (parse_amf_f fuel m p l)"
    using assms(1) grows_ok[OF assms(2)] by (simp add: parse_agrees_def)
  show thesis
  proof (cases "parse_heap fuel m p l h")
    case (HRet vs q h2)
    then have "parse_amf_f fuel m p l = Ret (map erase vs) q" "grows h0 ((bs @ blocks_item (HItem i x [])) @ blocks vs) h2"
      using a grows_trans[OF assms(2)] by simp_all
    moreover from this(2) have "grows h0 (bs @ blocks_item (HItem i x vs)) h2" by (rule grows_perm) simp
    ultimately show thesis using val HRet by blast
  next
    case (HErr vs q h2)
    then have vs: "vs = []" by (rule parse_heap_err)
    then have g2: "parse_amf_f fuel m p l = Err q" "grows h0 (bs @ blocks_item (HItem i x [])) h2"
      using a HErr grows_trans[OF assms(2), of "[]" h2] by simp_all
    obtain h3 where "drop_item (HItem i x []) (HErr y q h2) = HErr y q h3" "grows h0 bs h3"
      by (rule drop_item_grows[OF g2(2), of bs "HItem i x []"]) simp_all
    then show thesis using fail HErr vs g2(1) by blast
  next
    case HUB
    then show thesis using bad a by simp
  next
    case HFuel
    then show thesis using fuel a by simp
  qed
qed

lemma assoc_agrees:
  assumes "parse_agrees fuel" "grows h0 (items_blocks acc) h"
  shows "agrees (map erase_item) items_blocks h0 (assoc_heap fuel n m savep p len acc h)
    (assoc_loop fuel n m savep p len (map erase_item acc))"
  using assms(2)
proof (induction n arbitrary: p acc h)
  case (Suc n)
  obtain i f h1 where it: "new_item h = (i, f, h1)" by (metis prod_cases3)
  show ?case
    using Suc.prems it
  proof (cases rule: key_cases[where m = m and p = p and l = "rem len p savep" and x = acc])
    case (key b s q h2)
    show ?thesis
      using assms(1) key(3)
    proof (cases rule: value_cases[where m = m and p = q and l = "rem len q savep" and y = acc])
      case (val vs r h3)
      let ?it = "HItem i (HAmf f (HString (Some (b, s)))) vs"
      have "grows h0 (items_blocks (acc @ [?it])) h3" using val(3) by simp
      from Suc.IH[OF this, of r] show ?thesis using it key val by (simp add: string_of_def)
    qed (use it key in \<open>simp_all add: string_of_def\<close>)
  qed (use it in simp_all)
qed simp

lemma typobj_agrees_Suc:
  assumes "parse_agrees fuel" "typobj_agrees fuel"
  shows "typobj_agrees (Suc fuel)"
  unfolding typobj_agrees_def
proof (intro allI impI)
  fix m savep p len acc h0 h
  assume g: "grows h0 (items_blocks acc) h"
  obtain i f h1 where it: "new_item h = (i, f, h1)" by (metis prod_cases3)
  show "agrees (map erase_item) items_blocks h0 (typobj_heap (Suc fuel) m savep p len acc h)
      (typobj_loop (Suc fuel) m savep p len (map erase_item acc))" (is "agrees _ _ _ ?x ?y")
    using g it
  proof (cases rule: key_cases[where m = m and p = p and l = "rem len p savep" and x = acc])
    case (key b s q h2)
    let ?key = "HAmf f (HString (Some (b, s)))"
    let ?vx = "case parse_heap fuel m q (rem len q savep) h2 of
        HErr vs r h \<Rightarrow> drop_item (HItem i ?key vs) (HErr acc r h)
      | HRet vs r h \<Rightarrow> typobj_heap fuel m savep r len (acc @ [HItem i ?key vs]) h
      | HUB \<Rightarrow> HUB | HFuel \<Rightarrow> HFuel"
    let ?vy = "obind (parse_amf_f fuel m q (rem len q savep)) (\<lambda>val r.
        typobj_loop fuel m savep r len (map erase_item acc @ [(s, val)]))"
    have v: "agrees (map erase_item) items_blocks h0 ?vx ?vy"
      using assms(1) key(3)
    proof (cases rule: value_cases[where m = m and p = q and l = "rem len q savep" and y = acc])
      case (val vs r h3)
      have "grows h0 (items_blocks (acc @ [HItem i ?key vs])) h3" using val(3) by simp
      then show ?thesis using assms(2) val unfolding typobj_agrees_def by (fastforce simp: string_of_def)
    qed simp_all
    obtain h3 where drop: "drop_item (HItem i ?key []) (HRet acc (q + 1) h2) = HRet acc (q + 1) h3" "grows h0 (items_blocks acc) h3"
      by (rule drop_item_grows[OF key(3) refl])
    have "?x = (if fst s = 0 then (case rd8 m q of None \<Rightarrow> HUB
          | Some b' \<Rightarrow> if b' = 0x09 then drop_item (HItem i ?key []) (HRet acc (q + 1) h2) else ?vx) else ?vx)"
      "?y = (if fst s = 0 then (case rd8 m q of None \<Rightarrow> UB
          | Some b' \<Rightarrow> if b' = 0x09 then Ret (map erase_item acc) (q + 1) else ?vy) else ?vy)"
      using it key by (simp_all add: heap_loops amf_loops Let_def)
    then show ?thesis using v drop by (simp split: option.split)
  qed (use it in \<open>simp_all add: heap_loops amf_loops\<close>)
qed

lemma if_agrees:
  "(c \<Longrightarrow> agrees e bl h x y) \<Longrightarrow> (\<not> c \<Longrightarrow> agrees e bl h x' y') \<Longrightarrow> agrees e bl h (if c then x else x') (if c then y else y')"
  by simp

lemma parse_agrees_Suc:
  assumes "parse_agrees fuel" "typobj_agrees fuel"
  shows "parse_agrees (Suc fuel)"
  unfolding parse_agrees_def
proof (intro allI impI)
  fix m p len h
  assume ok: "heap_ok h"
  obtain a h1 where a: "new_block h = (a, h1)" by fastforce
  note g = grows_new[OF ok a]
  note ok1 = grows_ok[OF g]
  obtain v h2 where v: "new_block h1 = (v, h2)" by fastforce
  note gv = grows_new[OF ok1 v]
  note ok2 = grows_ok[OF gv]
  let ?q = "p + 1" and ?l = "rem len (p + 1) p"
  have typobj: "agrees_val a h1 (typobj_end v (typobj_heap fuel m ?q ?q ?l [] h2)) (omap (\<lambda>v. [AmfObject v]) (typobj_loop fuel m ?q ?q ?l []))"
  proof (rule typobj_end_agrees[OF gv])
    have "grows h2 (items_blocks []) h2" using grows_refl[OF ok2] by simp
    then show "agrees (map erase_item) items_blocks h2 (typobj_heap fuel m ?q ?q ?l [] h2) (typobj_loop fuel m ?q ?q ?l [])"
      using assms(2) unfolding typobj_agrees_def by (metis list.map(1))
  qed
  have assoc: "agrees_val a h1 (assoc_end m ?l ?q sz v (assoc_heap fuel (unat sz) m ?q r ?l [] h2))
      (obind (assoc_loop fuel (unat sz) m ?q r ?l []) (\<lambda>arr s. omap (\<lambda>_. [AmfAssoc sz arr]) (get_amf_obj_end m s (rem ?l s ?q))))" for sz r
    by (rule assoc_end_agrees[OF gv]) (use assoc_agrees[OF assms(1), of h2 "[]" h2] grows_refl[OF ok2] in simp)
  have arr: "agrees_val a h1 (array_end sz v (array_heap fuel (unat sz) m ?q r ?l [] h2)) (omap (\<lambda>arr. [AmfArray sz arr]) (array_loop fuel (unat sz) m ?q r ?l []))" for sz r
    by (rule array_end_agrees[OF gv]) (use array_agrees[OF assms(1), of h2 "[]" h2] grows_refl[OF ok2] in simp)
  have str: "agrees_val a h1 (get_string_heap m ?q ?l h1) (omap (\<lambda>v. [AmfString v]) (get_amf_string m ?q ?l))"
    using string_agrees[OF ok1, of a m ?q ?l] string_heap_val[of m ?q ?l h1] by (cases "get_string_heap m ?q ?l h1") (auto simp: string_of_def)
  show "agrees (map erase) blocks h (parse_heap (Suc fuel) m p len h) (parse_amf_f (Suc fuel) m p len)"
  proof (cases "len = 0 \<or> rd8 m p = None")
    case True
    then show ?thesis using ok by (auto simp: heap_loops amf_loops grows_refl)
  next
    case False
    then obtain ty where ty: "rd8 m p = Some ty" "len \<noteq> 0" by blast
    show ?thesis
      unfolding heap_loops amf_loops ty(1) option.case a prod.case Let_def v if_not_P[OF ty(2)]
    proof (rule linked_agrees[OF g], intro if_agrees, goal_cases)
      case 5
      then show ?case using assoc by (cases "get_be32 m ?q") auto
    next
      case 6
      then show ?case using arr by (cases "get_be32 m ?q") auto
    next
      case 11
      then show ?case using grows_refl[OF ok1] by simp
    qed (use typobj str ok1 in \<open>auto intro!: plain_agrees grows_refl\<close>)
  qed
qed

lemma heap_agrees: "parse_agrees fuel \<and> typobj_agrees fuel"
proof (induction fuel)
  case 0
  then show ?case by (simp add: parse_agrees_def typobj_agrees_def)
next
  case (Suc fuel)
  then show ?case using parse_agrees_Suc typobj_agrees_Suc by blast
qed

lemma parse_amf_agrees:
  "heap_ok h \<Longrightarrow> agrees (map erase) blocks h (parse_amf_heap m p len h) (parse_amf m p len)"
  using heap_agrees by (simp add: parse_agrees_def parse_amf_heap_def parse_amf_def)

section \<open>Properties\<close>

text \<open>
  C21: amf_owns_its_memory. Every block \<open>parse_amf\<close> allocates is either freed on its error
  paths, each once, or owned by the value it links: it reads what the model without memory reads, a
  failure leaves no new block, and freeing the list after a success leaves exactly the blocks from
  before. No block is freed twice.
\<close>

theorem amf_owns_its_memory:
  assumes "heap_ok h"
  shows "case parse_amf_heap m p len h of
      HRet vs q h' \<Rightarrow> parse_amf m p len = Ret (map erase vs) q \<and>
        (\<exists>h''. free_amf_list vs h' = Some h'' \<and> h_live h'' = h_live h)
    | HErr vs q h' \<Rightarrow> parse_amf m p len = Err q \<and> vs = [] \<and> h_live h' = h_live h
    | HUB \<Rightarrow> parse_amf m p len = UB
    | HFuel \<Rightarrow> False"
proof (cases "parse_amf_heap m p len h")
  case (HRet vs q h')
  then have a: "parse_amf m p len = Ret (map erase vs) q" "grows h ([] @ blocks vs) h'" using parse_amf_agrees[OF assms, of m p len] by simp_all
  obtain h'' where "free_all (blocks vs) h' = Some h''" "grows h [] h''" by (rule grows_free[OF a(2)])
  then show ?thesis using HRet a(1) by (simp add: free_is_free_all(3) grows_def)
next
  case (HErr vs q h')
  then have "vs = []" by (simp add: parse_amf_heap_def parse_heap_err)
  then show ?thesis using HErr parse_amf_agrees[OF assms, of m p len] by (simp add: grows_def)
next
  case HFuel
  then have "parse_amf m p len = OutOfFuel" using parse_amf_agrees[OF assms, of m p len] by simp
  moreover have "parse_amf m p len \<noteq> OutOfFuel" unfolding parse_amf_def by (rule amf_enough(1)) simp
  ultimately show ?thesis by simp
qed (use parse_amf_agrees[OF assms, of m p len] in simp)

theorem amf_owns_its_memory_witness:
  "\<exists>vs h' h''. parse_amf_heap [2, 0, 1, 97] 0 4 \<lparr>h_live = {}, h_next = 0\<rparr> = HRet vs 4 h' \<and>
     parse_amf [2, 0, 1, 97] 0 4 = Ret (map erase vs) 4 \<and> free_amf_list vs h' = Some h'' \<and> h_live h'' = {}"
proof -
  let ?h = "\<lparr>h_live = {}, h_next = 0\<rparr> :: heap"
  have "heap_ok ?h" by (simp add: heap_ok_def)
  note p = amf_owns_its_memory[OF this, of "[2, 0, 1, 97]" 0 4]
  have "parse_amf [2, 0, 1, 97] 0 4 = Ret [AmfString (1, [97, 0])] 4" by code_simp
  then show ?thesis using p by (cases "parse_amf_heap [2, 0, 1, 97] 0 4 ?h") fastforce+
qed

text \<open>
  The script packets of the RTMP source: the values of one packet are parsed into one list, which is
  printed and freed at the end. On an error the callback returns at once.
\<close>

fun script_heap :: "nat \<Rightarrow> mem \<Rightarrow> u32 \<Rightarrow> nat \<Rightarrow> hamf list \<Rightarrow> heap \<Rightarrow> (bool \<times> heap) option" where
  "script_heap 0 body n p script h = None"
| "script_heap (Suc k) body n p script h =
     (if p < unat n then
        (case parse_amf_heap body p (n - of_nat p) h of
           HRet vs q h \<Rightarrow> script_heap k body n q (script @ vs) h
         | HErr vs q h \<Rightarrow> Some (False, h)
         | _ \<Rightarrow> None)
      else map_option (\<lambda>h. (True, h)) (free_amf_list script h))"

lemma script_heap_agrees:
  "grows h0 (blocks script) h \<Longrightarrow>
    (case script_heap k body n p script h of
       None \<Rightarrow> script_loop k body n p = None
     | Some (ok, h') \<Rightarrow> script_loop k body n p = Some ok \<and>
         (if ok then h_live h' = h_live h0 else \<exists>vs. grows h0 (blocks (script @ vs)) h'))"
proof (induction k arbitrary: p script h)
  case (Suc k)
  have a: "agrees (map erase) blocks h (parse_amf_heap body p (n - of_nat p) h) (parse_amf body p (n - of_nat p))"
    by (rule parse_amf_agrees[OF grows_ok[OF Suc.prems]])
  show ?case
  proof (cases "p < unat n")
    case False
    have "grows h0 ([] @ blocks script) h" using Suc.prems by simp
    then obtain h' where "free_all (blocks script) h = Some h'" "grows h0 [] h'" by (rule grows_free)
    then show ?thesis using False by (simp add: free_is_free_all(3) grows_def)
  next
    case True
    show ?thesis
    proof (cases "parse_amf_heap body p (n - of_nat p) h")
      case (HRet vs q h')
      have "grows h0 (blocks (script @ vs)) h'" using grows_trans[OF Suc.prems] a HRet by simp
      from Suc.IH[OF this, of q] show ?thesis using True HRet a by (auto split: option.splits if_splits) (metis append.assoc concat_append map_append)+
    next
      case (HErr vs q h')
      then have "grows h0 (blocks (script @ [])) h'" using grows_trans[OF Suc.prems, of "[]" h'] a parse_heap_err by (fastforce simp: parse_amf_heap_def)
      then show ?thesis using True HErr a by (auto intro: exI[of _ "[]"])
    qed (use True a in simp_all)
  qed
qed simp

text \<open>
  Script memory: A script packet that parses leaves the heap as it was. When a value of it does not
  parse, the values before it are never freed: a boolean and a byte no reader exists for leave a block
  behind, in each such packet.
\<close>

theorem script_memory:
  assumes "heap_ok h"
  shows "(case script_heap k body n 0 [] h of
      None \<Rightarrow> script_loop k body n 0 = None
    | Some (ok, h') \<Rightarrow> script_loop k body n 0 = Some ok \<and> (if ok then h_live h' = h_live h else h_live h \<subseteq> h_live h')) \<and>
    (\<exists>h'. script_heap (Suc (Suc k)) [1, 7, 0xFF] 3 0 [] h = Some (False, h') \<and> h_live h' = h_live h \<union> {h_next h} \<and> h_next h \<notin> h_live h)"
proof
  have "grows h (blocks []) h" using grows_refl[OF assms] by simp
  from script_heap_agrees[OF this, of k body n 0]
  show "case script_heap k body n 0 [] h of
      None \<Rightarrow> script_loop k body n 0 = None
    | Some (ok, h') \<Rightarrow> script_loop k body n 0 = Some ok \<and> (if ok then h_live h' = h_live h else h_live h \<subseteq> h_live h')"
    by (auto split: option.splits if_splits simp: grows_def)
next
  obtain a h1 where a: "new_block h = (a, h1)" by fastforce
  obtain b h2 where b: "new_block h1 = (b, h2)" by fastforce
  have "parse_amf_heap [1, 7, 0xFF] 0 3 h = HRet [HAmf a (HBool 7)] 2 h1"
    using a by (simp add: parse_amf_heap_def heap_loops rd8_def linked_def plain_def get_amf_bool_def rem_def)
  moreover have "parse_amf_heap [1, 7, 0xFF] 2 1 h1 = HErr [] 3 (h2\<lparr>h_live := h_live h2 - {b}\<rparr>)"
    using b by (auto simp: parse_amf_heap_def heap_loops rd8_def linked_def free_block_def new_block_def rem_def)
  ultimately show "\<exists>h'. script_heap (Suc (Suc k)) [1, 7, 0xFF] 3 0 [] h = Some (False, h') \<and> h_live h' = h_live h \<union> {h_next h} \<and> h_next h \<notin> h_live h"
    using a b assms by (auto simp: new_block_def heap_ok_def)
qed

theorem script_memory_witness:
  "\<exists>h'. script_heap 3 [1, 7, 0xFF] 3 0 [] \<lparr>h_live = {}, h_next = 0\<rparr> = Some (False, h') \<and> h_live h' = {0}"
  using script_memory[of "\<lparr>h_live = {}, h_next = 0\<rparr>" 1] by (simp add: heap_ok_def flip: numeral_3_eq_3 One_nat_def)

end
