(* ===== verification/Spec2Isabelle.thy ===== *)
theory Spec2Isabelle
  imports Amf ListHead Base64 BufferText Uri Queue XFile Monitor Net Log Crash Curl Sys Mutex BitWriter
    Loader MediaPrint AmfPrint Rtmpout AmfHeap
begin

text \<open>
  A model of orps, a media server built of OpenMAX components: its utility library
  (\<open>src/src/xutil\<close>) and its two RTMP components (\<open>src/components\<close>), the sink that packs frames into
  FLV tags and sends them, and the source that reads such packets and hands the frames out. The
  sink uses the media helpers, the memory holder and the big-endian writers; the source uses the
  AMF reader, the media helpers and the WebRTC bit buffer. Section "From the sink to the source"
  below puts the two together.

  Conventions. A machine integer is a word of its width and wraps; memory is the list of its bytes,
  and an access outside it is \<open>None\<close>, as is a null dereference, an uninitialised value or a failing
  \<open>assert\<close>. So a result \<open>Some\<close> always also says that the code stayed within its memory. The
  program's own failures (\<open>-1\<close>, \<open>false\<close>, an OpenMAX error) are ordinary values. \<open>malloc\<close>, system
  calls, librtmp and the OpenMAX base components are arguments: functions, or the list of what
  they answer; the hypotheses on them are named where they are used (\<open>mallocs\<close>, \<open>delivers\<close>,
  \<open>url_in_place\<close>). Log output is left out.

  Theories, their sources and what they show:
    Prelude: words, byte memory (\<open>rdn\<close>, \<open>wrn\<close>, \<open>splice\<close>) and the lemmas all others share.
    ByteOrder (\<open>xmacro.h\<close>, \<open>put_be*\<close> of \<open>xutil.cc\<close>): swaps and wire integers; the locale
      \<open>wire_codec\<close> is the contract of a writer and its reader, interpreted for each width.
    Amf (\<open>xamf.cc\<close>): \<open>parse_amf\<close> and \<open>strm_amf_list\<close>. The readers take fuel; \<open>amf_enough\<close> shows
      that the length of the input suffices, so the parser returns on every input. Round trip,
      exact output, and the two places where it leaves its contract. AmfHeap: the same readers on a
      heap of blocks; they return the same and leave exactly the blocks of what they return. AmfPrint:
      \<open>print_amf_list\<close>, and which script packets the source can print.
    ListHead (\<open>list.h\<close>): the intrusive list on an explicit store; every operation implements its
      list counterpart (\<open>lst\<close>, locale \<open>linked_list\<close>), the loops visit the entries in order.
    Bits, GetBits (\<open>get_bits.h\<close>), BitBuffer and BitWriter (\<open>rtc::BitBuffer\<close>, \<open>rtc::BitBufferWriter\<close>):
      two bit readers against one reference, the bit string of the buffer (\<open>bval\<close>); locale
      \<open>bit_source\<close>, interpreted for both; and the writer, which sets the bits its reader reads.
    Sps (\<open>h264_decode_sps\<close> of \<open>xmedia.cc\<close>): the parameter set decoder; it inverts the encoding of
      baseline sets and what it accepts is within its limits.
    Media (\<open>xmedia.cc\<close>): AudioSpecificConfig, ADTS headers, decoder configuration records, frames.
      MediaPrint: the print functions and \<open>FPSCalc\<close>.
    CString, Base64, PosixIO, Buffer, Text (\<open>xutil.cc\<close>): C strings, base 64, the loops around
      system calls, \<open>IOBuffer\<close> (refines a byte queue) and \<open>MemHolder\<close>, splitting and times.
      BufferText: what fills an \<open>IOBuffer\<close> from a file or a format, and its hex dump against the rows
      it should print.
    Sys (\<open>xutil.cc\<close>, \<open>xutil.h\<close>, \<open>xmacro.h\<close>): tags and their kinds, \<open>Signaler\<close>, \<open>AutoFileLock\<close>, and
      the life of a \<open>Thread\<close> object as actions of its creator and its thread, with the failures of
      \<open>pthread_create\<close> and \<open>pthread_join\<close> that the macros ignore.
    Uri (\<open>xuri.cc\<close>): the parser on its one buffer, percent coding, options.
    Queue (\<open>xqueue.h\<close>): the blocking queue as steps of any number of threads; first in, first out
      for one consumer, and what goes wrong for two.
    XFile (\<open>xfile.cc\<close>): files over a model of stdio on regular files.
    Config (\<open>xconfig.cc\<close>): the configuration file, its checks and its callbacks; a listener that
      replays its notices, and reads what is registered, stays in step with it. Monitor: the thread
      that watches the file, which loads it once for every round that reports a change.
    Net (\<open>xnet.cc\<close>): addresses, the buffered socket and its loops against a stream of bytes (locale
      \<open>byte_source\<close>), kernel buffer sizes, address lists.
    Log (\<open>xlog.cc\<close>): the destinations on a heap of linked cells, which implements a list of them, and
      the lines, up to the closing. Crash: the signal handler of the same file, its report and its lookup of frames.
    Mutex (\<open>xutil.h\<close>): mutexes among interleaved threads; whatever the order of their actions, calls
      under an \<open>AutoLock\<close> act as if they ran one after the other, which is how the other theories
      describe them. \<open>Signaler::get_instance\<close> makes one object.
    Curl (\<open>xcurl.cc\<close>): requests and the bookkeeping of their transfers around libcurl's handles;
      the connections and handles alive are those of a list of transfers (\<open>tracks\<close>), whatever
      libcurl answers, unless a POST without fields makes it follow the address 1. Trace: the dump of traced data, against the rows a reader expects.
    Omx (\<open>omx_util.cc\<close>, \<open>rtmp_util.cc\<close>): OpenMAX and RTMP types, the boundary to librtmp.
    Loader (\<open>library_entry_point.cc\<close>): what the component loader is told of both components.
    Rtmpout (\<open>omx_rtmpout_component.cc\<close>): each handler of the sink; what it sends, and the
      invariant of its reachable states (session present while ready, unless it went idle without
      a stop), with a session that can be allocated or not.
    Rtmpsrc (\<open>omx_rtmpsrc_component.cc\<close>): each handler of the source; its callback implements a
      demultiplexer with one frame of memory (\<open>demux\<close>), which fixes what it reads and where each frame
      goes; so it loses and reorders nothing.

  Fuel. \<open>parse_amf\<close> runs with the length of its input, the script loop with the size of the packet:
  both are enough (\<open>amf_enough\<close>, \<open>script_loop_enough\<close>). The reading loop of the source may go on
  for as long as the peer sends packets without frames, so its fuel is free: \<open>Unfinished\<close> is not
  a result, and the properties show \<open>Done\<close> for every positive fuel.

  Not modelled: libcurl and librtmp themselves; the functions of \<open>xutil.cc\<close> that are one system or
  library call (\<open>sprintf_\<close>, \<open>system_\<close>, \<open>dirname_\<close>, \<open>is_file\<close>, the clock and the like), whose results are
  arguments where they are used; the empty main program and the test programs; the loop that waits
  for a debugger, which is not built; and the WebRTC tree under \<open>src/contrib\<close>, third-party code of
  which only the bit buffer is used.
\<close>

section \<open>From the sink to the source\<close>

text \<open>A packet the sink sends is one the source accepts.\<close>

lemma sent_payload:
  assumes "length d + 5 < 2 ^ 32" "d \<noteq> []"
  shows "payload (flv_packet lib r RTMP_PACKET_TYPE_VIDEO ts ([if key then 0x17 else 0x27, 0x01, 0, 0, 0] @ d)) =
      Some (VIDEO_PORT_INDEX, d)"
    and "payload (flv_packet lib r RTMP_PACKET_TYPE_VIDEO ts ([0x17, 0, 0, 0, 0] @ d)) = Some (VIDEO_PORT_INDEX, d)"
    and "payload (flv_packet lib r RTMP_PACKET_TYPE_AUDIO ts ([0xAF, 0x01] @ d)) = Some (AUDIO_PORT_INDEX, d)"
  using assms by (simp_all add: payload_def flv_packet_def)

text \<open>Microseconds that are cut to milliseconds and scaled up again, in 32 bits.\<close>

lemma ms_stamp:
  assumes "0 \<le> nTimeStamp b" "nTimeStamp b < 2 ^ 32"
  shows "uint (ms_of b * 1000) = nTimeStamp b div 1000 * 1000"
proof -
  have "nTimeStamp b div 1000 * 1000 \<le> nTimeStamp b" by simp
  then have "nTimeStamp b div 1000 * 1000 < 2 ^ 32" using assms(2) by linarith
  then show ?thesis
    using assms(1) by (simp add: ms_of_def cdiv_def uint_word_ariths unsigned_of_int take_bit_int_eq_self mod_mult_left_eq
      take_bit_eq_mod)
qed

text \<open>
  C2: rtmp_frame_roundtrip. A video frame given to the sink, sent by it and read by the source into a
  buffer with room for it, comes out byte for byte, with its key frame flag and with its time down to
  the millisecond (for the times below 2 ^ 32 microseconds, about 71 minutes).
\<close>

theorem rtmp_frame_roundtrip:
  assumes "CODECCONFIG \<notin> nFlags b" "ro_rtmp co = Some r" "mh_ok (mholder co)" "mallocs malloc"
    and "unat (nFilledLen b) \<le> length (pBuffer b)" "unat (nFilledLen b) < 2 ^ 32 - 1040" "nFilledLen b \<noteq> 0"
    and "buffer_of (unat (nFilledLen b)) out" "nPortIndex out = VIDEO_PORT_INDEX" "nFlags out = {}"
    and "0 \<le> nTimeStamp b" "nTimeStamp b < 2 ^ 32"
  shows "\<exists>packet cs' out'. sends lib r packet (handle_video lib malloc co b) \<and>
    src_packet cs out packet = Some (Stored cs' out') \<and>
    content_of out' = take (unat (nFilledLen b)) (pBuffer b) \<and>
    (KEY_FRAME \<in> nFlags out' \<longleftrightarrow> KEY_FRAME \<in> nFlags b) \<and>
    nTimeStamp out' = nTimeStamp b div 1000 * 1000"
proof -
  define d where "d = take (unat (nFilledLen b)) (pBuffer b)"
  define key where "key \<longleftrightarrow> KEY_FRAME \<in> nFlags b"
  let ?p = "flv_packet lib r RTMP_PACKET_TYPE_VIDEO (ms_of b) ((if key then 0x17 else 0x27) # 0x01 # 0 # 0 # 0 # d)"
  let ?out = "frame_in out d ((if key then {KEY_FRAME} else {}) \<union> (if first_video cs then {} else {STARTTIME})) (ms_of b)"
  have len: "length d = unat (nFilledLen b)" "d \<noteq> []" using assms(5,7) by (auto simp: d_def unat_eq_zero)
  have room: "length d \<le> length (pBuffer out)" "length (pBuffer out) < 2 ^ 32"
    "nAllocLen out = of_nat (length (pBuffer out))"
    using assms(8) len by (simp_all add: buffer_of_def)
  have "sends lib r ?p (handle_video lib malloc co b)"
    using video_sent[OF assms(1-6), of lib] by (simp add: d_def key_def)
  moreover have "src_video cs out ?p = Some (Stored (cs\<lparr>first_video := True\<rparr>) ?out)"
    using src_video_tag(1)[of ?p "if key then 0x17 else 0x27" 1 0 0 0 d cs out] room len assms(6,9)
    by (simp add: flv_packet_def dst_of_def store_def put_dst_def)
  moreover have "carries ?out VIDEO_PORT_INDEX d"
    using filled_carries[OF assms(8) _ len(2), of ?out] len assms(9) by (simp add: frame_in_def filled_with_def)
  ultimately show ?thesis
    using assms(10) ms_stamp[OF assms(11,12)]
    by (intro exI[of _ ?p] exI[of _ "cs\<lparr>first_video := True\<rparr>"] exI[of _ ?out])
      (simp add: src_packet_def flv_packet_def carries_def d_def key_def frame_in_def)
qed

text \<open>
  C5: rtmp_config_roundtrip. The sequence header the sink makes of a decoder configuration record (for
  parameter sets of 2032 bytes together at most) is a configuration for the source, and what the source
  leaves in its buffer parses to the same two parameter sets.
\<close>

theorem rtmp_config_roundtrip:
  assumes "CODECCONFIG \<in> nFlags b" "ro_rtmp co = Some r"
    and "parse_from (avc_dcr co) (pBuffer b) (nFilledLen b) = Some (True, dcr)"
    and "avc_sps dcr = Some s" "avc_pps dcr = Some q" "4 \<le> length s" "16 + length s + length q \<le> AVC_DCR_BODY_SIZE"
    and "buffer_of (11 + length s + length q) out" "nPortIndex out = VIDEO_PORT_INDEX"
  shows "\<exists>packet out' dcr'. sends lib r packet (handle_video lib malloc co b) \<and>
    src_packet cs out packet = Some (Stored cs out') \<and> CODECCONFIG \<in> nFlags out' \<and>
    parse_from new_avc_dcr (pBuffer out') (nFilledLen out') = Some (True, dcr') \<and>
    avc_sps dcr' = Some s \<and> avc_pps dcr' = Some q"
proof -
  let ?h = "[1, s ! 1, s ! 2, s ! 3, 0xFF, 0xE1]"
  define d where "d = enc_dcr ?h s q 1"
  let ?p = "flv_packet lib r RTMP_PACKET_TYPE_VIDEO 0 (0x17 # 0 # 0 # 0 # 0 # d)"
  have len: "length d = 11 + length s + length q" "length s < 2 ^ 16" "length q < 2 ^ 16"
    using assms(7) by (simp_all add: d_def enc_dcr_def)
  have room: "length d \<le> length (pBuffer out)" "length (pBuffer out) < 2 ^ 32"
    "nAllocLen out = of_nat (length (pBuffer out))"
    using assms(8) len by (simp_all add: buffer_of_def)
  have "sends lib r ?p (handle_video lib malloc co b)"
    using dcr_sent[OF assms(1-6)] assms(7) by (simp add: dcr_body_def d_def)
  moreover have "src_packet cs out ?p = Some (Stored cs (config_in out d))"
    using src_video_tag(2)[of ?p "0x17" 0 0 0 0 d cs out] room len assms(7,9)
    by (simp add: src_packet_def flv_packet_def dst_of_def store_def put_dst_def)
  moreover have "pBuffer (config_in out d) = enc_dcr ?h s q 1 @ drop (length d) (pBuffer out)"
    "nFilledLen (config_in out d) = of_nat (length (enc_dcr ?h s q 1))" "CODECCONFIG \<in> nFlags (config_in out d)"
    by (simp_all add: config_in_def filled_with_def splice_def d_def)
  ultimately show ?thesis
    using parse_from_enc[of ?h s q new_avc_dcr 1 "drop (length d) (pBuffer out)"] len(2,3)
    by (intro exI[of _ ?p] exI[of _ "config_in out d"]) simp
qed

section \<open>Witnesses\<close>

lemma sample_ready: "mh_ok (mholder (sample_out\<lparr>ro_rtmp := Some []\<rparr>))" "buffer_of 4 (sample_buffer VIDEO_PORT_INDEX)"
  by (simp_all add: sample_out_def mh_ok_def new_MemHolder_def sample_buffer_def new_tmp_buffer_def buffer_of_def)

theorem rtmp_frame_roundtrip_witness:
  "\<exists>packet cs' out'. sends loop_lib [] packet (handle_video loop_lib zeros (sample_out\<lparr>ro_rtmp := Some []\<rparr>) sample_frame) \<and>
    src_packet sample_src (sample_buffer VIDEO_PORT_INDEX) packet = Some (Stored cs' out') \<and>
    content_of out' = [7, 8, 9] \<and> nTimeStamp out' = 40000"
proof -
  have "buffer_of 3 (sample_buffer VIDEO_PORT_INDEX)" using sample_ready(2) by (simp add: buffer_of_def)
  moreover have "nPortIndex (sample_buffer VIDEO_PORT_INDEX) = 0" "nFlags (sample_buffer VIDEO_PORT_INDEX) = {}"
    by (simp_all add: sample_buffer_def new_tmp_buffer_def)
  ultimately show ?thesis
    using rtmp_frame_roundtrip[of sample_frame "sample_out\<lparr>ro_rtmp := Some []\<rparr>" "[]" zeros "sample_buffer VIDEO_PORT_INDEX" loop_lib sample_src]
      sample_ready zeros_malloc
    by (auto simp: sample_frame_def)
qed

definition config_frame :: OMX_BUFFERHEADERTYPE where
  "config_frame = sample_frame\<lparr>pBuffer := enc_dcr [1, 66, 0, 30, 0xFF, 0xE1] [0x67, 66, 0, 30] [0x68] 1, nFilledLen := 16, nFlags := {CODECCONFIG}\<rparr>"

theorem rtmp_config_roundtrip_witness:
  "\<exists>packet out'. sends loop_lib [] packet (handle_video loop_lib zeros (sample_out\<lparr>ro_rtmp := Some []\<rparr>) config_frame) \<and>
    src_packet sample_src ((new_tmp_buffer 16)\<lparr>nPortIndex := VIDEO_PORT_INDEX\<rparr>) packet = Some (Stored sample_src out')"
proof -
  let ?c = "sample_out\<lparr>ro_rtmp := Some []\<rparr>"
  have "length (enc_dcr [1, 66, 0, 30, 0xFF, 0xE1] [0x67, 66, 0, 30] [0x68] 1) = 16" by (simp add: enc_dcr_def)
  then obtain dcr where "parse_from (avc_dcr ?c) (pBuffer config_frame) (nFilledLen config_frame) = Some (True, dcr)"
    "avc_sps dcr = Some [0x67, 66, 0, 30]" "avc_pps dcr = Some [0x68]"
    using parse_from_enc[of "[1, 66, 0, 30, 0xFF, 0xE1]" "[0x67, 66, 0, 30]" "[0x68]" "avc_dcr ?c" 1 "[]"]
    by (simp add: config_frame_def)
  then show ?thesis
    using rtmp_config_roundtrip[of config_frame ?c "[]" dcr "[0x67, 66, 0, 30]" "[0x68]"
        "(new_tmp_buffer 16)\<lparr>nPortIndex := VIDEO_PORT_INDEX\<rparr>" loop_lib zeros sample_src]
    by (auto simp: config_frame_def buffer_of_def new_tmp_buffer_def)
qed

end
